(* ===== verification/Prelude.thy ===== *)
theory Prelude
  imports Main "HOL-Library.Word"
begin

text \<open>
  Shared vocabulary of the development: the C integer types of
  \<^verbatim>\<open>kernel/types.h\<close>, sleep channels, the result type of kernel routines
  (a value, a \<^verbatim>\<open>panic\<close>, or a process put to sleep), the table scan that
  almost every kernel allocator is built from, and the generic facts on lists
  and machine words that the component theories use.
\<close>

unbundle bit_operations_syntax

section \<open>C integer types\<close>

text \<open>
  \<^verbatim>\<open>int\<close> and \<^verbatim>\<open>uint\<close> are both 32 bits wide; a signed reading of a
  word is always written with \<^const>\<open>sint\<close>.
\<close>

type_synonym uchar = "8 word"
type_synonym ushort = "16 word"
type_synonym cint = "32 word"
type_synonym uint = "32 word"
type_synonym uint64 = "64 word"

section \<open>Sleep channels\<close>

text \<open>
  A channel is the address of some kernel object (\<^verbatim>\<open>void *chan\<close>).
  Addresses of distinct objects differ, so each object gets its own constructor;
  \<open>ChanNone\<close> is the null pointer.
\<close>

datatype chan =
    ChanNone
  | ChanProc nat
  | ChanSem nat
  | ChanTicks
  | ChanPipeRead uint64
  | ChanPipeWrite uint64
  | ChanLog
  | ChanBufLock nat
  | ChanInodeLock nat
  | ChanBufData nat
  | ChanDiskFree
  | ChanCons
  | ChanUart

section \<open>Results of kernel routines\<close>

text \<open>
  A routine returns normally, calls \<^verbatim>\<open>panic\<close> (which never returns), or
  gives up the processor in \<^verbatim>\<open>sleep\<close> on a channel.
\<close>

datatype 'a kres = Ret 'a | Panic string | Block chan

fun kbind :: "'a kres \<Rightarrow> ('a \<Rightarrow> 'b kres) \<Rightarrow> 'b kres" where
  "kbind (Ret a) f = f a"
| "kbind (Panic m) f = Panic m"
| "kbind (Block c) f = Block c"

lemma kbind_eq_Ret_iff:
  "kbind m f = Ret b \<longleftrightarrow> (\<exists>a. m = Ret a \<and> f a = Ret b)"
  by (cases m) auto

lemma kbind_RetE [elim]:
  assumes "kbind m f = Ret b"
  obtains a where "m = Ret a" and "f a = Ret b"
  using assms by (auto simp: kbind_eq_Ret_iff)

lemma kbind_assoc: "kbind (kbind m f) g = kbind m (\<lambda>a. kbind (f a) g)"
  by (cases m) auto

lemma kbind_Ret_right [simp]: "kbind m Ret = m"
  by (cases m) auto

fun returns :: "'a kres \<Rightarrow> bool" where
  "returns (Ret a) = True"
| "returns (Panic m) = False"
| "returns (Block c) = False"

lemma returns_iff: "returns m \<longleftrightarrow> (\<exists>a. m = Ret a)"
  by (cases m) auto

section \<open>Scanning a fixed table\<close>

text \<open>
  \<^verbatim>\<open>for(i = 0; i < N; i++) if(P(table[i])) return i;\<close> -- the loop of
  every slot allocator and every lookup by key in the kernel.
\<close>

fun scan_from :: "nat \<Rightarrow> ('a \<Rightarrow> bool) \<Rightarrow> 'a list \<Rightarrow> nat option" where
  "scan_from i P [] = None"
| "scan_from i P (x # xs) = (if P x then Some i else scan_from (Suc i) P xs)"

definition scan :: "('a \<Rightarrow> bool) \<Rightarrow> 'a list \<Rightarrow> nat option" where
  "scan P xs = scan_from 0 P xs"

lemma scan_from_Some_iff:
  "scan_from k P xs = Some i \<longleftrightarrow>
     k \<le> i \<and> i - k < length xs \<and> P (xs ! (i - k)) \<and> (\<forall>j < i - k. \<not> P (xs ! j))"
proof (induction xs arbitrary: k)
  case Nil
  then show ?case by simp
next
  case (Cons x xs)
  show ?case
  proof (cases "P x")
    case True
    have "\<not> (\<forall>j < i - k. \<not> P ((x # xs) ! j))" if "k < i"
      using that True by (metis nth_Cons_0 zero_less_diff)
    with True show ?thesis by (cases "i = k") auto
  next
    case False
    then have "scan_from k P (x # xs) = Some i \<longleftrightarrow> scan_from (Suc k) P xs = Some i"
      by simp
    also have "\<dots> \<longleftrightarrow> Suc k \<le> i \<and> i - Suc k < length xs \<and> P (xs ! (i - Suc k))
        \<and> (\<forall>j < i - Suc k. \<not> P (xs ! j))"
      by (rule Cons.IH)
    also have "\<dots> \<longleftrightarrow> k \<le> i \<and> i - k < length (x # xs) \<and> P ((x # xs) ! (i - k))
        \<and> (\<forall>j < i - k. \<not> P ((x # xs) ! j))"
    proof (cases "k < i")
      case True
      then obtain d where d: "i - k = Suc d" and d': "i - Suc k = d"
        by (metis Suc_diff_Suc)
      with True False show ?thesis by (auto simp: less_Suc_eq_0_disj)
    next
      case False
      with \<open>\<not> P x\<close> show ?thesis by auto
    qed
    finally show ?thesis .
  qed
qed

lemma scan_from_None_iff: "scan_from k P xs = None \<longleftrightarrow> (\<forall>x \<in> set xs. \<not> P x)"
  by (induction xs arbitrary: k) auto

lemma scan_Some_iff:
  "scan P xs = Some i \<longleftrightarrow> i < length xs \<and> P (xs ! i) \<and> (\<forall>j < i. \<not> P (xs ! j))"
  by (simp add: scan_def scan_from_Some_iff)

lemma scan_None_iff: "scan P xs = None \<longleftrightarrow> (\<forall>i < length xs. \<not> P (xs ! i))"
  by (simp add: scan_def scan_from_None_iff all_set_conv_all_nth)

lemma scan_SomeD:
  assumes "scan P xs = Some i"
  shows "i < length xs" "P (xs ! i)"
  using assms by (simp_all add: scan_Some_iff)

lemma scan_exists:
  assumes "i < length xs" and "P (xs ! i)"
  shows "\<exists>k \<le> i. scan P xs = Some k"
proof -
  obtain k where k: "scan P xs = Some k"
    using assms by (cases "scan P xs") (auto simp: scan_None_iff)
  with assms have "k \<le> i"
    by (metis not_le scan_Some_iff)
  with k show ?thesis by blast
qed

lemma scan_unique:
  assumes "i < length xs" and "P (xs ! i)"
    and "\<And>j. j < length xs \<Longrightarrow> P (xs ! j) \<Longrightarrow> j = i"
  shows "scan P xs = Some i"
proof -
  have "\<not> P (xs ! j)" if "j < i" for j
    using assms(1) assms(3) [of j] that by auto
  with assms(1,2) show ?thesis by (simp add: scan_Some_iff)
qed

section \<open>Lists updated in place\<close>

lemma nth_list_update_if:
  "i < length xs \<Longrightarrow> (xs[j := v]) ! i = (if i = j then v else xs ! i)"
  by (simp add: nth_list_update)

lemma filter_length_update_le:
  assumes "i < length xs"
  shows "length (filter P (xs[i := v])) + (if P (xs ! i) then 1 else 0)
       = length (filter P xs) + (if P v then 1 else 0)"
  using assms
proof (induction xs arbitrary: i)
  case Nil
  then show ?case by simp
next
  case (Cons x xs)
  then show ?case by (cases i) auto
qed

lemma ex_le_Suc_iff: "(\<exists>k \<le> Suc n. Q k) \<longleftrightarrow> Q 0 \<or> (\<exists>k \<le> n. Q (Suc k))"
  by (metis Suc_le_mono le0 not0_implies_Suc)

section \<open>Signed 32-bit arithmetic\<close>

text \<open>Increment and decrement of a C \<^verbatim>\<open>int\<close> away from the ends of its range.\<close>

lemma signed_take_bit_31_id:
  assumes "- (2 ^ 31) \<le> k" and "k < 2 ^ 31"
  shows "signed_take_bit 31 (k::int) = k"
  using assms by (simp add: signed_take_bit_int_eq_self)

lemma sint_cint_range: "- (2 ^ 31) \<le> sint (x::cint)" "sint x < 2 ^ 31"
  using sint_ge [of x] sint_lt [of x] by simp_all

lemma sint_inc: "sint (x::cint) < 2 ^ 31 - 1 \<Longrightarrow> sint (x + 1) = sint x + 1"
  using sint_cint_range [of x]
  by (simp add: sint_word_add signed_take_bit_31_id)

lemma sint_inc_less: "sint (x::cint) < sint (n::cint) \<Longrightarrow> sint (x + 1) = sint x + 1"
  using sint_inc [of x] sint_cint_range [of n] by simp

lemma sint_dec: "- (2 ^ 31) < sint (x::cint) \<Longrightarrow> sint (x - 1) = sint x - 1"
  using sint_cint_range [of x]
  by (simp add: sint_word_diff signed_take_bit_31_id)

lemma sint_of_int: "- (2 ^ 31) \<le> k \<Longrightarrow> k < 2 ^ 31 \<Longrightarrow> sint (word_of_int k :: cint) = k"
  by (simp add: sint_sbintrunc' signed_take_bit_31_id)

lemma unat_sint_nonneg: "0 \<le> sint (x::cint) \<Longrightarrow> int (unat x) = sint x"
proof -
  assume "0 \<le> sint x"
  then have "take_bit 32 (sint x) = sint x"
    using sint_cint_range [of x] by (simp add: take_bit_int_eq_self)
  moreover have "uint x = take_bit 32 (sint x)" by (simp add: uint_sint)
  ultimately show ?thesis by simp
qed

lemma sint_of_nat_small: "n < 2 ^ 31 \<Longrightarrow> sint (of_nat n :: cint) = int n"
  using sint_of_int [of "int n"] by simp

lemma scast_of_nat_small: "n < 2 ^ 31 \<Longrightarrow> (scast (of_nat n :: cint) :: uint64) = of_nat n"
  using sint_of_nat_small [of n] by (simp add: scast_eq)

lemma of_nat_sless: "a < 2 ^ 31 \<Longrightarrow> b < 2 ^ 31 \<Longrightarrow> (of_nat a :: cint) <s of_nat b \<longleftrightarrow> a < b"
  by (simp add: word_sless_alt sint_of_nat_small)

lemma of_nat_not_minus_1: "n < 2 ^ 31 \<Longrightarrow> (of_nat n :: cint) \<noteq> -1"
  using sint_of_nat_small [of n] by (auto dest: arg_cong [where f = sint])

lemma sint_eq_0_iff: "sint (x::cint) = 0 \<longleftrightarrow> x = 0"
  using signed_word_eqI [of x 0] by auto

section \<open>Unsigned words\<close>

lemma unat_add_lt:
  "unat (a::'a::len word) + unat b < 2 ^ LENGTH('a) \<Longrightarrow> unat (a + b) = unat a + unat b"
  by (simp add: unat_word_ariths)

lemma unat_sub_le: "b \<le> (a::'a::len word) \<Longrightarrow> unat (a - b) = unat a - unat b"
  by (simp add: unat_sub)

lemma of_nat_lt_pow: "n < 2 ^ LENGTH('a) \<Longrightarrow> unat (of_nat n :: 'a::len word) = n"
  by (simp add: take_bit_nat_eq_self unat_of_nat)

end
