(* ===== verification/Memory.thy ===== *)
theory Memory
  imports Prelude
begin

text \<open>
  Physical memory as the kernel sees it through its direct map: one byte per
  64-bit address, with little-endian loads and stores of the sizes the C code
  uses, and the address arithmetic that keeps accesses to different objects
  apart.
\<close>

unbundle bit_operations_syntax

type_synonym mem = "uint64 \<Rightarrow> uchar"

section \<open>Little-endian loads and stores\<close>

fun ldbytes :: "mem \<Rightarrow> uint64 \<Rightarrow> nat \<Rightarrow> 'a::len word" where
  "ldbytes m a 0 = 0"
| "ldbytes m a (Suc n) = ucast (m a) OR push_bit 8 (ldbytes m (a + 1) n)"

fun stbytes :: "mem \<Rightarrow> uint64 \<Rightarrow> nat \<Rightarrow> 'a::len word \<Rightarrow> mem" where
  "stbytes m a 0 v = m"
| "stbytes m a (Suc n) v = (stbytes m (a + 1) n (drop_bit 8 v))(a := ucast v)"

abbreviation ld64 :: "mem \<Rightarrow> uint64 \<Rightarrow> uint64" where
  "ld64 m a \<equiv> ldbytes m a 8"

abbreviation st64 :: "mem \<Rightarrow> uint64 \<Rightarrow> uint64 \<Rightarrow> mem" where
  "st64 m a v \<equiv> stbytes m a 8 v"

abbreviation ld32 :: "mem \<Rightarrow> uint64 \<Rightarrow> uint" where
  "ld32 m a \<equiv> ldbytes m a 4"

abbreviation st32 :: "mem \<Rightarrow> uint64 \<Rightarrow> uint \<Rightarrow> mem" where
  "st32 m a v \<equiv> stbytes m a 4 v"

lemma bit_ldbytes:
  "bit (ldbytes m a n :: 'a::len word) k \<longleftrightarrow>
     k < LENGTH('a) \<and> k < 8 * n \<and> bit (m (a + of_nat (k div 8))) (k mod 8)"
proof (induction n arbitrary: a k)
  case 0
  then show ?case by simp
next
  case (Suc n)
  show ?case
  proof (cases "k < 8")
    case True
    then show ?thesis
      by (auto simp: bit_simps Suc.IH)
  next
    case False
    then have div: "k div 8 = Suc ((k - 8) div 8)" and mod: "(k - 8) mod 8 = k mod 8"
      by (auto simp: le_div_geq le_mod_geq)
    have addr: "a + 1 + of_nat ((k - 8) div 8) = a + of_nat (k div 8)"
      by (simp only: div of_nat_Suc add.assoc)
    have "\<not> bit (ucast (m a) :: 'a word) k"
      using False bit_imp_le_length [of "m a" k] by (auto simp: bit_simps)
    then have "bit (ldbytes m a (Suc n) :: 'a word) k \<longleftrightarrow>
        k < LENGTH('a) \<and> bit (ldbytes m (a + 1) n :: 'a word) (k - 8)"
      using False by (auto simp: bit_or_iff bit_push_bit_iff)
    also have "\<dots> \<longleftrightarrow> k < LENGTH('a)
        \<and> k - 8 < 8 * n \<and> bit (m (a + of_nat (k div 8))) (k mod 8)"
      by (simp only: Suc.IH mod addr) auto
    finally have "bit (ldbytes m a (Suc n) :: 'a word) k \<longleftrightarrow> k < LENGTH('a)
        \<and> k - 8 < 8 * n \<and> bit (m (a + of_nat (k div 8))) (k mod 8)" .
    then show ?thesis using False by auto
  qed
qed

lemma stbytes_apply:
  "n \<le> 2 ^ 64 \<Longrightarrow>
   stbytes m a n (v::'a::len word) x =
     (if unat (x - a) < n then ucast (drop_bit (8 * unat (x - a)) v) else m x)"
proof (induction n arbitrary: a v)
  case 0
  then show ?case by simp
next
  case (Suc n)
  show ?case
  proof (cases "x = a")
    case True
    then show ?thesis by simp
  next
    case False
    then have nz: "x - a \<noteq> 0" by simp
    have "unat (x - (a + 1)) = unat (x - a) - 1"
      using unat_minus_one [OF nz] by (simp add: algebra_simps)
    moreover have "0 < unat (x - a)"
      using nz by (simp add: unat_gt_0)
    ultimately obtain d where d: "unat (x - a) = Suc d" "unat (x - (a + 1)) = d"
      by (metis Suc_pred diff_Suc_1)
    have "drop_bit (8 * d) (drop_bit 8 v) = drop_bit (8 * Suc d) v"
      by (simp add: add.commute)
    with False d Suc show ?thesis by simp
  qed
qed

lemma ldbytes_cong:
  assumes "\<And>i. i < n \<Longrightarrow> m (a + of_nat i) = m' (a + of_nat i)"
  shows "(ldbytes m a n :: 'a::len word) = ldbytes m' a n"
proof (rule bit_word_eqI)
  fix k
  assume "k < LENGTH('a)"
  have "k div 8 < n" if "k < 8 * n" using that by auto
  with assms show "bit (ldbytes m a n :: 'a word) k = bit (ldbytes m' a n :: 'a word) k"
    by (auto simp: bit_ldbytes)
qed

lemma ldbytes_stbytes_same:
  assumes "LENGTH('a) \<le> 8 * n" and "n \<le> 64"
  shows "ldbytes (stbytes m a n (v::'a::len word)) a n = v"
proof (rule bit_word_eqI)
  fix k
  assume k: "k < LENGTH('a)"
  with assms have d: "k div 8 < n" by auto
  have u: "unat (of_nat (k div 8) :: uint64) = k div 8"
    using d assms(2) by (simp add: of_nat_lt_pow)
  have "stbytes m a n v (a + of_nat (k div 8)) = ucast (drop_bit (8 * (k div 8)) v)"
    using d assms(2) u by (simp add: stbytes_apply)
  moreover have "8 * (k div 8) + k mod 8 = k" by simp
  ultimately show "bit (ldbytes (stbytes m a n v) a n :: 'a word) k = bit v k"
    using k d by (auto simp: bit_ldbytes bit_simps simp del: mult_div_mod_eq)
qed

text \<open>A store leaves a load alone when their byte ranges do not meet.\<close>

definition apart :: "uint64 \<Rightarrow> nat \<Rightarrow> uint64 \<Rightarrow> nat \<Rightarrow> bool" where
  "apart a n b k \<longleftrightarrow> (\<forall>i < k. n \<le> unat (b + of_nat i - a))"

lemma ldbytes_stbytes_apart:
  assumes "apart a n b k" and "n \<le> 64"
  shows "ldbytes (stbytes m a n v) b k = ldbytes m b k"
  using assms by (intro ldbytes_cong) (auto simp: apart_def stbytes_apply)

text \<open>
  Two distinct multiples of \<open>k\<close>, for a \<open>k\<close> that divides the size of the
  address space, are at least \<open>k\<close> apart in both directions around it.
\<close>

lemma aligned_distance:
  fixes a b :: uint64
  assumes "k dvd unat a" and "k dvd unat b" and "a \<noteq> b" and "k dvd 2 ^ 64" and i: "i < k"
  shows "k \<le> unat (b + of_nat i - a)"
proof -
  define d where "d = b - a"
  have "d \<noteq> 0" using assms(3) by (simp add: d_def)
  have "k dvd unat d"
  proof (cases "a \<le> b")
    case True
    then have "unat d = unat b - unat a" by (simp add: d_def unat_sub)
    then show ?thesis using assms(1,2) by (simp add: dvd_diff_nat)
  next
    case False
    then have "unat d = 2 ^ 64 + unat b - unat a"
      by (simp add: d_def unat_sub_if_size word_size not_le word_less_nat_alt)
    moreover have "k dvd (2 ^ 64 + unat b)" using assms(2,4) by (rule dvd_add [rotated])
    ultimately show ?thesis using assms(1) by (metis dvd_diff_nat)
  qed
  have pos: "0 < unat d" using \<open>d \<noteq> 0\<close> by (simp add: unat_gt_0)
  have lt: "unat d < 2 ^ 64" using unsigned_less [of d] by simp
  have le: "k \<le> unat d" using \<open>k dvd unat d\<close> pos by (rule dvd_imp_le)
  have "k dvd (2 ^ 64 - unat d)" using assms(4) \<open>k dvd unat d\<close> by (rule dvd_diff_nat)
  then have "k \<le> 2 ^ 64 - unat d" using lt by (intro dvd_imp_le) auto
  then have i2: "i < 2 ^ 64 - unat d" using i by linarith
  then have "unat (of_nat i :: uint64) = i" by (simp add: of_nat_lt_pow)
  with i2 have "unat (d + of_nat i) = unat d + i"
    by (subst unat_add_lt) auto
  then show ?thesis using le by (simp add: d_def algebra_simps)
qed

lemma aligned8_apart:
  assumes "unat a mod 8 = 0" and "unat b mod 8 = 0" and "a \<noteq> b"
  shows "apart a 8 b 8"
  unfolding apart_def using assms
  by (auto intro!: aligned_distance)

lemma ld64_st64_same [simp]: "ld64 (st64 m a v) a = v"
  by (rule ldbytes_stbytes_same) auto

lemma ld32_st32_same [simp]: "ld32 (st32 m a v) a = v"
  by (rule ldbytes_stbytes_same) auto

lemma ld64_st64_aligned:
  assumes "unat a mod 8 = 0" and "unat b mod 8 = 0"
  shows "ld64 (st64 m a v) b = (if a = b then v else ld64 m b)"
  using ldbytes_stbytes_apart [OF aligned8_apart [OF assms]] by auto

section \<open>Byte strings in memory\<close>

fun put_bytes :: "mem \<Rightarrow> uint64 \<Rightarrow> uchar list \<Rightarrow> mem" where
  "put_bytes m a [] = m"
| "put_bytes m a (b # bs) = put_bytes (m(a := b)) (a + 1) bs"

fun get_bytes :: "mem \<Rightarrow> uint64 \<Rightarrow> nat \<Rightarrow> uchar list" where
  "get_bytes m a 0 = []"
| "get_bytes m a (Suc n) = m a # get_bytes m (a + 1) n"

lemma length_get_bytes [simp]: "length (get_bytes m a n) = n"
  by (induction n arbitrary: a) auto

lemma get_bytes_nth: "i < n \<Longrightarrow> get_bytes m a n ! i = m (a + of_nat i)"
  by (induction n arbitrary: a i) (auto simp: nth_Cons' less_Suc_eq_0_disj algebra_simps)

lemma put_bytes_apply:
  "length bs \<le> 2 ^ 64 \<Longrightarrow>
   put_bytes m a bs x = (if unat (x - a) < length bs then bs ! unat (x - a) else m x)"
proof (induction bs arbitrary: m a)
  case Nil
  then show ?case by simp
next
  case (Cons b bs)
  show ?case
  proof (cases "x = a")
    case True
    have "unat (a - (a + 1)) = 2 ^ 64 - 1"
      by (simp add: unsigned_minus_1_eq_mask mask_eq_exp_minus_1)
    then show ?thesis using Cons True by (simp del: power_Suc)
  next
    case False
    then have nz: "x - a \<noteq> 0" by simp
    have "unat (x - (a + 1)) = unat (x - a) - 1"
      using nz unat_minus_one [of "x - a"] by (simp add: diff_diff_eq)
    moreover have "0 < unat (x - a)" using nz by (simp add: unat_gt_0)
    ultimately show ?thesis using Cons False by (auto simp: nth_Cons')
  qed
qed

lemma get_put_bytes:
  assumes "length bs < 2 ^ 64"
  shows "get_bytes (put_bytes m a bs) a (length bs) = bs"
proof (rule nth_equalityI)
  fix i
  assume "i < length (get_bytes (put_bytes m a bs) a (length bs))"
  then have i: "i < length bs" by simp
  then have "unat (of_nat i :: uint64) = i" using assms by (intro of_nat_lt_pow) simp
  then show "get_bytes (put_bytes m a bs) a (length bs) ! i = bs ! i"
    using i assms by (simp add: get_bytes_nth put_bytes_apply)
qed simp

end
