(* ===== verification/Riscv.thy ===== *)
theory Riscv
  imports Memory
begin

text \<open>
  The page-table macros of \<^verbatim>\<open>kernel/riscv.h\<close>, the physical and virtual
  memory layout of \<^verbatim>\<open>kernel/memlayout.h\<close> and the table sizes of
  \<^verbatim>\<open>kernel/param.h\<close>, with the bit-level facts that address translation
  rests on.
\<close>

unbundle bit_operations_syntax

section \<open>param.h\<close>

definition NPROC :: nat where "NPROC = 64"
definition NCPU :: nat where "NCPU = 8"
definition NOFILE :: nat where "NOFILE = 16"
definition NFILE :: nat where "NFILE = 100"
definition NINODE :: nat where "NINODE = 50"
definition NDEV :: nat where "NDEV = 10"
definition ROOTDEV :: uint where "ROOTDEV = 1"
definition MAXARG :: nat where "MAXARG = 32"
definition MAXOPBLOCKS :: nat where "MAXOPBLOCKS = 10"
definition LOGBLOCKS :: nat where "LOGBLOCKS = MAXOPBLOCKS * 3"
definition NBUF :: nat where "NBUF = MAXOPBLOCKS * 3"
definition FSSIZE :: nat where "FSSIZE = 2000"
definition MAXPATH :: nat where "MAXPATH = 128"
definition USERSTACK :: uint64 where "USERSTACK = 1"
definition NSEM :: nat where "NSEM = 16"
definition NSHMEM :: nat where "NSHMEM = 16"

lemmas param_defs = NPROC_def NCPU_def NOFILE_def NFILE_def NINODE_def NDEV_def
  ROOTDEV_def MAXARG_def MAXOPBLOCKS_def LOGBLOCKS_def NBUF_def FSSIZE_def
  MAXPATH_def USERSTACK_def NSEM_def NSHMEM_def

section \<open>riscv.h: pages and page-table entries\<close>

definition PGSIZE :: uint64 where "PGSIZE = 4096"
definition PGSHIFT :: nat where "PGSHIFT = 12"

definition PGROUNDUP :: "uint64 \<Rightarrow> uint64" where
  "PGROUNDUP sz = (sz + PGSIZE - 1) AND NOT (PGSIZE - 1)"

definition PGROUNDDOWN :: "uint64 \<Rightarrow> uint64" where
  "PGROUNDDOWN a = a AND NOT (PGSIZE - 1)"

definition PTE_V :: uint64 where "PTE_V = 1"
definition PTE_R :: uint64 where "PTE_R = 2"
definition PTE_W :: uint64 where "PTE_W = 4"
definition PTE_X :: uint64 where "PTE_X = 8"
definition PTE_U :: uint64 where "PTE_U = 16"

definition PA2PTE :: "uint64 \<Rightarrow> uint64" where
  "PA2PTE pa = push_bit 10 (drop_bit 12 pa)"

definition PTE2PA :: "uint64 \<Rightarrow> uint64" where
  "PTE2PA pte = push_bit 12 (drop_bit 10 pte)"

definition PTE_FLAGS :: "uint64 \<Rightarrow> uint64" where
  "PTE_FLAGS pte = pte AND 0x3FF"

definition PXMASK :: uint64 where "PXMASK = 0x1FF"

definition PXSHIFT :: "nat \<Rightarrow> nat" where
  "PXSHIFT level = PGSHIFT + 9 * level"

definition PX :: "nat \<Rightarrow> uint64 \<Rightarrow> uint64" where
  "PX level va = drop_bit (PXSHIFT level) va AND PXMASK"

definition MAXVA :: uint64 where
  "MAXVA = push_bit (9 + 9 + 9 + 12 - 1) 1"

section \<open>memlayout.h\<close>

definition UART0 :: uint64 where "UART0 = 0x10000000"
definition VIRTIO0 :: uint64 where "VIRTIO0 = 0x10001000"
definition PLIC :: uint64 where "PLIC = 0x0c000000"
definition KERNBASE :: uint64 where "KERNBASE = 0x80000000"
definition PHYSTOP :: uint64 where "PHYSTOP = KERNBASE + 128 * 1024 * 1024"
definition TRAMPOLINE :: uint64 where "TRAMPOLINE = MAXVA - PGSIZE"
definition KSTACK :: "nat \<Rightarrow> uint64" where
  "KSTACK p = TRAMPOLINE - (of_nat p + 1) * 2 * PGSIZE"
definition TRAPFRAME :: uint64 where "TRAPFRAME = TRAMPOLINE - PGSIZE"

lemma layout_values:
  "PHYSTOP = 0x88000000" "MAXVA = 0x4000000000" "TRAMPOLINE = 0x3FFFFFF000"
  "TRAPFRAME = 0x3FFFFFE000"
  by (simp_all add: PHYSTOP_def KERNBASE_def MAXVA_def TRAMPOLINE_def PGSIZE_def TRAPFRAME_def)

lemmas pte_flag_defs = PTE_V_def PTE_R_def PTE_W_def PTE_X_def PTE_U_def

section \<open>Page alignment\<close>

definition page_aligned :: "uint64 \<Rightarrow> bool" where
  "page_aligned a \<longleftrightarrow> a mod PGSIZE = 0"

lemma page_aligned_unat: "page_aligned a \<longleftrightarrow> unat a mod 4096 = 0"
  by (simp add: page_aligned_def PGSIZE_def unat_mod_distrib flip: unat_0_iff)

lemma PGSIZE_pow: "PGSIZE = 2 ^ 12"
  by (simp add: PGSIZE_def)

lemma page_aligned_mask: "page_aligned a \<longleftrightarrow> a AND mask 12 = 0"
proof -
  have "a mod 2 ^ 12 = a AND mask 12"
    by (rule word_mod_2p_is_mask) simp
  then show ?thesis by (simp add: page_aligned_def PGSIZE_pow del: mask_numeral)
qed

lemma page_aligned_bits: "page_aligned a \<longleftrightarrow> (\<forall>k < 12. \<not> bit a k)"
proof -
  have m: "bit (mask 12 :: uint64) k \<longleftrightarrow> k < 12" for k
    by (auto simp: bit_mask_iff)
  have "a AND mask 12 = 0 \<longleftrightarrow> (\<forall>k. \<not> (bit a k \<and> bit (mask 12 :: uint64) k))"
    using bit_imp_le_length [of a] by (auto simp: bit_eq_iff bit_and_iff simp del: bit_mask_iff)
  then show ?thesis by (auto simp: page_aligned_mask m)
qed

lemma page_alignedE:
  assumes "page_aligned a"
  obtains q where "unat a = 4096 * q" and "q < 2 ^ 52"
proof -
  from assms obtain q where q: "unat a = 4096 * q"
    by (auto simp: page_aligned_unat)
  moreover have "unat a < 2 ^ 64" using unsigned_less [of a] by simp
  ultimately have "q < 2 ^ 52" by simp
  with q show thesis by (rule that)
qed

lemma page_aligned_mod8: "page_aligned a \<Longrightarrow> unat a mod 8 = 0"
  by (auto elim!: page_alignedE)

lemma PGMASK: "NOT (PGSIZE - 1) = NOT (mask 12)"
  by (simp add: PGSIZE_def mask_eq_exp_minus_1)

lemma PGROUNDDOWN_aligned [simp]: "page_aligned (PGROUNDDOWN a)"
  by (auto simp: page_aligned_bits PGROUNDDOWN_def PGMASK bit_simps)

lemma PGROUNDUP_aligned [simp]: "page_aligned (PGROUNDUP a)"
  by (auto simp: page_aligned_bits PGROUNDUP_def PGMASK bit_simps)

lemma unat_and_not_mask: "unat ((a::uint64) AND NOT (mask 12)) = unat a - unat a mod 4096"
proof -
  have "(a AND NOT (mask 12)) + (a AND mask 12) = (a AND NOT (mask 12)) OR (a AND mask 12)"
    by (rule disjunctive_add_eq_or) (simp add: bit_eq_iff bit_simps)
  also have "\<dots> = a" by (rule bit_word_eqI) (auto simp: bit_simps)
  finally have s: "(a AND NOT (mask 12)) + (a AND mask 12) = a" .
  have "a mod 2 ^ 12 = a AND mask 12"
    by (rule word_mod_2p_is_mask) simp
  then have m: "a AND mask 12 = a mod 4096" by simp
  have d: "a AND NOT (mask 12) = a - a mod 4096"
    using s m by (metis add_diff_cancel_right')
  have "a mod 4096 \<le> a"
    by (simp add: word_le_nat_alt unat_mod_distrib)
  then show ?thesis
    by (simp add: d unat_sub unat_mod_distrib)
qed

lemma unat_PGROUNDDOWN: "unat (PGROUNDDOWN a) = unat a - unat a mod 4096"
  by (simp add: PGROUNDDOWN_def PGMASK unat_and_not_mask)

lemma PGROUNDDOWN_le: "PGROUNDDOWN a \<le> a"
  by (simp add: word_le_nat_alt unat_PGROUNDDOWN)

lemma PGROUNDUP_sum: "sz + PGSIZE - 1 = sz + 4095"
  by (simp add: PGSIZE_def add.commute)

lemma unat_PGROUNDUP:
  assumes "unat sz + 4095 < 2 ^ 64"
  shows "unat (PGROUNDUP sz) = (unat sz + 4095) div 4096 * 4096"
proof -
  have "unat (sz + PGSIZE - 1) = unat sz + 4095"
    using assms unat_add_lt [of sz 4095] by (simp add: PGROUNDUP_sum)
  then show ?thesis
    by (simp add: PGROUNDUP_def PGMASK unat_and_not_mask minus_mod_eq_div_mult)
qed

text \<open>Within one page of the top of the address space the sum wraps and the result is 0.\<close>

lemma PGROUNDUP_wraps:
  assumes "2 ^ 64 \<le> unat sz + 4095"
  shows "PGROUNDUP sz = 0"
proof -
  have "unat (sz + 4095) = unat sz + 4095 - 2 ^ 64"
    using assms by (subst unat_plus_if') auto
  then have "unat (sz + PGSIZE - 1) = unat sz + 4095 - 2 ^ 64"
    by (simp only: PGROUNDUP_sum)
  moreover have "unat sz < 2 ^ 64"
    using unsigned_less [of sz] by simp
  ultimately have "unat (sz + PGSIZE - 1) < 4096" by linarith
  then have "unat (PGROUNDUP sz) = 0"
    by (simp add: PGROUNDUP_def PGMASK unat_and_not_mask)
  then show ?thesis by (simp add: unat_0_iff)
qed

lemma PGROUNDUP_ge: "unat sz + 4095 < 2 ^ 64 \<Longrightarrow> sz \<le> PGROUNDUP sz"
  by (simp add: word_le_nat_alt unat_PGROUNDUP)

lemma PGROUNDUP_of_aligned: "page_aligned a \<Longrightarrow> PGROUNDUP a = a"
proof -
  assume "page_aligned a"
  then obtain q where q: "unat a = 4096 * q" "q < 2 ^ 52" by (rule page_alignedE)
  then have lt: "unat a + 4095 < 2 ^ 64" by simp
  have "unat (PGROUNDUP a) = unat a"
    using unat_PGROUNDUP [OF lt] by (simp add: q)
  then show ?thesis by (simp add: word_unat_eq_iff)
qed

section \<open>Page-table entries\<close>

lemma bit_PA2PTE: "bit (PA2PTE pa) k \<longleftrightarrow> 10 \<le> k \<and> k < 64 \<and> bit pa (12 + (k - 10))"
  by (auto simp: PA2PTE_def bit_push_bit_iff bit_drop_bit_eq)

lemma bit_PTE2PA: "bit (PTE2PA pte) k \<longleftrightarrow> 12 \<le> k \<and> k < 64 \<and> bit pte (10 + (k - 12))"
  by (auto simp: PTE2PA_def bit_push_bit_iff bit_drop_bit_eq)

lemma small_bits: "(f::uint64) < 2 ^ n \<Longrightarrow> n \<le> k \<Longrightarrow> \<not> bit f k"
proof -
  assume f: "f < 2 ^ n" and "n \<le> k"
  show ?thesis
  proof (cases "k < 64")
    case True
    then have "n < 64" using \<open>n \<le> k\<close> by simp
    then have "take_bit n f = f"
      using f by (simp add: less_mask_eq take_bit_eq_mask)
    then show ?thesis using \<open>n \<le> k\<close> by (metis bit_take_bit_iff not_le)
  next
    case False
    then show ?thesis using bit_imp_le_length [of f k] by auto
  qed
qed

text \<open>
  A physical address fits a PTE when it is page-aligned and below 2 to the 56;
  every RAM address of the machine does.
\<close>

lemma PTE2PA_PA2PTE:
  assumes "page_aligned pa" and "pa < 2 ^ 56" and "f < 2 ^ 10"
  shows "PTE2PA (PA2PTE pa OR f) = pa"
proof (rule bit_word_eqI)
  fix k
  assume "k < LENGTH(64)"
  have "\<not> bit f (10 + (k - 12))" if "12 \<le> k" using small_bits [OF assms(3)] that by simp
  moreover have "\<not> bit pa k" if "k < 12" using assms(1) that by (simp add: page_aligned_bits)
  ultimately show "bit (PTE2PA (PA2PTE pa OR f)) k = bit pa k"
    using \<open>k < LENGTH(64)\<close>
    by (cases "12 \<le> k") (auto simp: bit_PTE2PA bit_PA2PTE bit_or_iff)
qed

lemma PTE_FLAGS_PA2PTE:
  assumes "f < 2 ^ 10"
  shows "PTE_FLAGS (PA2PTE pa OR f) = f"
proof (rule bit_word_eqI)
  fix k
  assume k: "k < LENGTH(64)"
  have m: "PTE_FLAGS p = p AND mask 10" for p
    by (simp add: PTE_FLAGS_def mask_eq_exp_minus_1)
  have "bit (PTE_FLAGS (PA2PTE pa OR f)) k \<longleftrightarrow> bit (PA2PTE pa OR f) k \<and> k < 10"
    using k by (simp only: m bit_and_iff bit_mask_iff possible_bit_word) simp
  also have "\<dots> \<longleftrightarrow> bit f k"
    using small_bits [OF assms, of k] by (cases "10 \<le> k") (auto simp: bit_PA2PTE bit_or_iff)
  finally show "bit (PTE_FLAGS (PA2PTE pa OR f)) k = bit f k" .
qed

lemma PTE2PA_aligned [simp]: "page_aligned (PTE2PA pte)"
  by (auto simp: page_aligned_bits bit_PTE2PA)

section \<open>Page-table indices\<close>

lemma bit_PX: "bit (PX level va) k \<longleftrightarrow> k < 9 \<and> k < 64 \<and> bit va (12 + 9 * level + k)"
proof -
  have "PXMASK = mask 9" by (simp add: PXMASK_def mask_eq_exp_minus_1)
  then have "PX level va = drop_bit (12 + 9 * level) va AND mask 9"
    by (simp only: PX_def PXSHIFT_def PGSHIFT_def)
  then have "bit (PX level va) k \<longleftrightarrow>
      bit va (12 + 9 * level + k) \<and> possible_bit TYPE(64 word) k \<and> k < 9"
    by (simp only: bit_and_iff bit_mask_iff bit_drop_bit_eq o_apply)
  then show ?thesis by auto
qed

lemma PX_less: "unat (PX level va) < 512"
proof -
  have "PX level va = drop_bit (PXSHIFT level) va AND mask 9"
    by (simp add: PX_def PXMASK_def mask_eq_exp_minus_1)
  then have "PX level va < 2 ^ 9"
    by (simp only:) (rule and_mask_less_size, simp add: word_size)
  then show ?thesis by (simp add: word_less_nat_alt)
qed

text \<open>The three indices of a page-aligned address below \<^term>\<open>MAXVA\<close> determine it.\<close>

lemma PX_inject:
  assumes "page_aligned va" "page_aligned va'" "va < MAXVA" "va' < MAXVA"
    and px: "\<And>l. l \<in> {0, 1, 2} \<Longrightarrow> PX l va = PX l va'"
  shows "va = va'"
proof (rule bit_word_eqI)
  fix k
  assume k: "k < LENGTH(64)"
  have M: "MAXVA = 2 ^ 38" by (simp add: MAXVA_def)
  consider "k < 12" | "12 \<le> k" "k < 39" | "39 \<le> k" by linarith
  then show "bit va k = bit va' k"
  proof cases
    case 1
    then show ?thesis using assms(1,2) by (simp add: page_aligned_bits)
  next
    case 2
    define l where "l = (k - 12) div 9"
    define j where "j = (k - 12) mod 9"
    have kk: "k = 12 + 9 * l + j" and "j < 9" and "l \<in> {0, 1, 2}"
      using 2 by (auto simp: l_def j_def)
    have "bit (PX l va) j = bit (PX l va') j" using px [OF \<open>l \<in> {0, 1, 2}\<close>] by simp
    then show ?thesis using \<open>j < 9\<close> by (simp add: bit_PX kk)
  next
    case 3
    then show ?thesis
      using small_bits [of va 38 k] small_bits [of va' 38 k] assms(3,4) by (simp add: M)
  qed
qed

end
