(* ===== verification/CString.thy ===== *)
theory CString
  imports Memory
begin

text \<open>
  The byte and string routines of \<^verbatim>\<open>kernel/string.c\<close>, loop for loop, and
  the closed form of what each leaves in memory.  A pointer walk
  \<^verbatim>\<open>while(n-- > 0) *d++ = ...\<close> is a recursion on the remaining count.
\<close>

section \<open>Byte blocks\<close>

fun memset_loop :: "mem \<Rightarrow> uint64 \<Rightarrow> uchar \<Rightarrow> nat \<Rightarrow> mem" where
  "memset_loop m d c 0 = m"
| "memset_loop m d c (Suc n) = memset_loop (m(d := c)) (d + 1) c n"

definition memset :: "mem \<Rightarrow> uint64 \<Rightarrow> cint \<Rightarrow> uint \<Rightarrow> mem" where
  "memset m dst c n = memset_loop m dst (ucast c) (unat n)"

fun memcmp_loop :: "mem \<Rightarrow> uint64 \<Rightarrow> uint64 \<Rightarrow> nat \<Rightarrow> int" where
  "memcmp_loop m s1 s2 0 = 0"
| "memcmp_loop m s1 s2 (Suc n) =
     (if m s1 \<noteq> m s2 then uint (m s1) - uint (m s2)
      else memcmp_loop m (s1 + 1) (s2 + 1) n)"

definition memcmp :: "mem \<Rightarrow> uint64 \<Rightarrow> uint64 \<Rightarrow> uint \<Rightarrow> int" where
  "memcmp m v1 v2 n = memcmp_loop m v1 v2 (unat n)"

fun copy_forward :: "mem \<Rightarrow> uint64 \<Rightarrow> uint64 \<Rightarrow> nat \<Rightarrow> mem" where
  "copy_forward m d s 0 = m"
| "copy_forward m d s (Suc n) = copy_forward (m(d := m s)) (d + 1) (s + 1) n"

fun copy_backward :: "mem \<Rightarrow> uint64 \<Rightarrow> uint64 \<Rightarrow> nat \<Rightarrow> mem" where
  "copy_backward m d s 0 = m"
| "copy_backward m d s (Suc n) = copy_backward (m(d - 1 := m (s - 1))) (d - 1) (s - 1) n"

definition memmove :: "mem \<Rightarrow> uint64 \<Rightarrow> uint64 \<Rightarrow> uint \<Rightarrow> mem" where
  "memmove m dst src n =
     (if n = 0 then m
      else if src < dst \<and> src + ucast n > dst
      then copy_backward m (dst + ucast n) (src + ucast n) (unat n)
      else copy_forward m dst src (unat n))"

definition memcpy :: "mem \<Rightarrow> uint64 \<Rightarrow> uint64 \<Rightarrow> uint \<Rightarrow> mem" where
  "memcpy m dst src n = memmove m dst src n"

section \<open>Strings\<close>

fun strncmp_loop :: "mem \<Rightarrow> uint64 \<Rightarrow> uint64 \<Rightarrow> nat \<Rightarrow> int" where
  "strncmp_loop m p q 0 = 0"
| "strncmp_loop m p q (Suc n) =
     (if m p \<noteq> 0 \<and> m p = m q then strncmp_loop m (p + 1) (q + 1) n
      else uint (m p) - uint (m q))"

definition strncmp :: "mem \<Rightarrow> uint64 \<Rightarrow> uint64 \<Rightarrow> uint \<Rightarrow> int" where
  "strncmp m p q n = strncmp_loop m p q (unat n)"

fun strncpy_loop :: "mem \<Rightarrow> uint64 \<Rightarrow> uint64 \<Rightarrow> nat \<Rightarrow> mem" where
  "strncpy_loop m s t 0 = m"
| "strncpy_loop m s t (Suc n) =
     (let c = m t; m' = m(s := c)
      in if c \<noteq> 0 then strncpy_loop m' (s + 1) (t + 1) n
         else memset_loop m' (s + 1) 0 n)"

definition strncpy :: "mem \<Rightarrow> uint64 \<Rightarrow> uint64 \<Rightarrow> cint \<Rightarrow> mem" where
  "strncpy m s t n = strncpy_loop m s t (nat (sint n))"

text \<open>
  \<^verbatim>\<open>while(--n > 0 && (*s++ = *t++) != 0); *s = 0;\<close> -- the counter below is
  the number of bytes that may still be copied, that is \<^verbatim>\<open>n - 1\<close>.
\<close>

fun safestrcpy_loop :: "mem \<Rightarrow> uint64 \<Rightarrow> uint64 \<Rightarrow> nat \<Rightarrow> mem" where
  "safestrcpy_loop m s t 0 = m(s := 0)"
| "safestrcpy_loop m s t (Suc n) =
     (let c = m t; m' = m(s := c)
      in if c \<noteq> 0 then safestrcpy_loop m' (s + 1) (t + 1) n
         else m'(s + 1 := 0))"

definition safestrcpy :: "mem \<Rightarrow> uint64 \<Rightarrow> uint64 \<Rightarrow> cint \<Rightarrow> mem" where
  "safestrcpy m s t n =
     (if sint n \<le> 0 then m else safestrcpy_loop m s t (nat (sint n) - 1))"

text \<open>\<^verbatim>\<open>strlen\<close> walks until it meets a NUL; without one it does not return.\<close>

partial_function (option) strlen_loop :: "mem \<Rightarrow> uint64 \<Rightarrow> nat \<Rightarrow> nat option" where
  "strlen_loop m s n = (if m (s + of_nat n) = 0 then Some n else strlen_loop m s (Suc n))"

definition strlen :: "mem \<Rightarrow> uint64 \<Rightarrow> nat option" where
  "strlen m s = strlen_loop m s 0"

section \<open>Offsets from a base address\<close>

text \<open>\<open>off a x\<close> is the distance from \<open>a\<close> up to \<open>x\<close>, modulo the address space.\<close>

definition off :: "uint64 \<Rightarrow> uint64 \<Rightarrow> nat" where
  "off a x = unat (x - a)"

lemma off_self [simp]: "off a a = 0"
  by (simp add: off_def)

lemma off_eq_0 [simp]: "off a x = 0 \<longleftrightarrow> x = a"
  by (simp add: off_def unat_0_iff)

lemma off_Suc: "x \<noteq> a \<Longrightarrow> off a x = Suc (off (a + 1) x)"
proof -
  assume "x \<noteq> a"
  then have nz: "x - a \<noteq> 0" by simp
  have "unat (x - (a + 1)) = unat (x - a) - 1"
    using unat_minus_one [OF nz] by (simp add: algebra_simps)
  moreover have "0 < unat (x - a)" using nz by (simp add: unat_gt_0)
  ultimately show ?thesis by (simp add: off_def)
qed

lemma off_add: "n < 2 ^ 64 \<Longrightarrow> off a (a + of_nat n) = n"
  by (simp add: off_def of_nat_lt_pow)

lemma off_inverse: "a + of_nat (off a x) = x"
  by (simp add: off_def)

lemma off_next_base [simp]: "off (a + 1) a = 2 ^ 64 - 1"
proof -
  have "a - (a + 1) = -1" by simp
  then have "off (a + 1) a = unat (-1 :: uint64)" by (simp only: off_def)
  then show ?thesis by (simp add: unsigned_minus_1_eq_mask mask_eq_exp_minus_1)
qed

section \<open>What the routines leave in memory\<close>

lemma memset_loop_apply:
  "n \<le> 2 ^ 64 \<Longrightarrow> memset_loop m d c n x = (if off d x < n then c else m x)"
proof (induction n arbitrary: m d)
  case 0
  then show ?case by simp
next
  case (Suc n)
  show ?case
  proof (cases "x = d")
    case True
    with Suc show ?thesis by simp
  next
    case False
    with Suc show ?thesis by (simp add: off_Suc)
  qed
qed

lemma memset_apply: "memset m d c n x = (if off d x < unat n then ucast c else m x)"
proof -
  have "unat n < 2 ^ 32" using unsigned_less [of n] by simp
  then show ?thesis by (simp add: memset_def memset_loop_apply)
qed

lemma copy_forward_apply:
  assumes "unat s + n \<le> 2 ^ 64" and "unat d + n \<le> 2 ^ 64"
    and "s < d \<Longrightarrow> unat s + n \<le> unat d"
  shows "copy_forward m d s n x = (if off d x < n then m (s + (x - d)) else m x)"
  using assms
proof (induction n arbitrary: m d s)
  case 0
  then show ?case by simp
next
  case (Suc n)
  show ?case
  proof (cases n)
    case 0
    then show ?thesis by (cases "x = d") (auto simp: off_Suc)
  next
    case (Suc k)
    have s1: "unat (s + 1) = unat s + 1" and d1: "unat (d + 1) = unat d + 1"
      using Suc.prems(1,2) Suc by (simp_all add: unat_add_lt)
    have IH: "copy_forward (m(d := m s)) (d + 1) (s + 1) n x =
        (if off (d + 1) x < n then (m(d := m s)) (s + 1 + (x - (d + 1)))
         else (m(d := m s)) x)"
      using Suc.prems s1 d1
      by (intro Suc.IH) (auto simp: word_less_nat_alt)
    show ?thesis
    proof (cases "x = d")
      case True
      then show ?thesis using IH Suc.prems(2) by simp
    next
      case False
      have ne: "s + (x - d) \<noteq> d" if "off (d + 1) x < n"
      proof
        assume eq: "s + (x - d) = d"
        have o: "off d x = Suc (off (d + 1) x)" using False by (rule off_Suc)
        have "unat (x - d) = off d x" by (simp add: off_def)
        then have "unat (s + (x - d)) = unat s + off d x"
          using o that Suc.prems(1) by (subst unat_add_lt) auto
        then have ud: "unat d = unat s + off d x" using eq by simp
        then have "s < d" using o by (simp add: word_less_nat_alt)
        with Suc.prems(3) ud o that show False by simp
      qed
      have "s + 1 + (x - (d + 1)) = s + (x - d)" by simp
      then show ?thesis using IH False ne by (simp add: off_Suc)
    qed
  qed
qed

lemma copy_backward_apply:
  assumes "unat s + n \<le> 2 ^ 64" and "unat d + n \<le> 2 ^ 64" and "s < d"
  shows "copy_backward m (d + of_nat n) (s + of_nat n) n x =
           (if off d x < n then m (s + (x - d)) else m x)"
  using assms
proof (induction n arbitrary: m)
  case 0
  then show ?case by simp
next
  case (Suc n)
  let ?m = "m(d + of_nat n := m (s + of_nat n))"
  have step: "copy_backward m (d + of_nat (Suc n)) (s + of_nat (Suc n)) (Suc n) x =
      (if off d x < n then ?m (s + (x - d)) else ?m x)"
  proof -
    have "copy_backward m (d + of_nat (Suc n)) (s + of_nat (Suc n)) (Suc n) x =
        copy_backward ?m (d + of_nat n) (s + of_nat n) n x"
      by (simp add: add.commute [of 1] flip: add.assoc)
    also have "\<dots> = (if off d x < n then ?m (s + (x - d)) else ?m x)"
      using Suc.prems by (intro Suc.IH) auto
    finally show ?thesis .
  qed
  have n: "n < 2 ^ 64" using Suc.prems(2) by linarith
  have last: "x = d + of_nat n \<longleftrightarrow> off d x = n"
    using off_add [OF n, of d] off_inverse [of d x] by auto
  have ne: "s + (x - d) \<noteq> d + of_nat n" if "off d x < n"
  proof
    assume eq: "s + (x - d) = d + of_nat n"
    have "unat (s + (x - d)) = unat s + off d x"
      using that Suc.prems(1) by (subst unat_add_lt) (auto simp: off_def)
    moreover have "unat (d + of_nat n) = unat d + n"
      using Suc.prems(2) n by (subst unat_add_lt) (auto simp: of_nat_lt_pow)
    ultimately show False using eq that Suc.prems(3) by (simp add: word_less_nat_alt)
  qed
  show ?case
  proof (cases "off d x < n")
    case True
    with step ne show ?thesis by simp
  next
    case False
    have "s + (x - d) = s + of_nat n" if "x = d + of_nat n" using that by simp
    with False step last show ?thesis by (auto simp: less_Suc_eq)
  qed
qed

text \<open>
  \<^verbatim>\<open>memmove\<close> moves the block as if through a temporary copy, whether or not
  source and destination overlap.
\<close>

lemma memmove_apply:
  assumes "unat src + unat n \<le> 2 ^ 64" and "unat dst + unat n \<le> 2 ^ 64"
  shows "memmove m dst src n x =
           (if off dst x < unat n then m (src + (x - dst)) else m x)"
proof (cases "n = 0")
  case True
  then show ?thesis by (simp add: memmove_def)
next
  case False
  have n: "ucast n = (of_nat (unat n) :: uint64)" by simp
  have n32: "unat n < 2 ^ 32" using unsigned_less [of n] by simp
  show ?thesis
  proof (cases "src < dst \<and> src + ucast n > dst")
    case True
    with False have "memmove m dst src n =
        copy_backward m (dst + of_nat (unat n)) (src + of_nat (unat n)) (unat n)"
      by (simp add: memmove_def)
    with True assms show ?thesis by (simp only: copy_backward_apply)
  next
    case no_overlap: False
    have "unat src + unat n \<le> unat dst" if "src < dst"
    proof -
      have "\<not> dst < src + ucast n" using no_overlap that by blast
      then have le: "unat (src + ucast n) \<le> unat dst" by (simp add: word_less_nat_alt)
      show ?thesis
      proof (cases "unat src + unat n < 2 ^ 64")
        case True
        have "unat (ucast n :: uint64) = unat n" using n32 by (simp add: n of_nat_lt_pow del: of_nat_unat)
        with True have "unat (src + ucast n) = unat src + unat n" by (simp add: unat_add_lt)
        with le show ?thesis by simp
      next
        case False
        with assms \<open>src < dst\<close> show ?thesis by (simp add: word_less_nat_alt)
      qed
    qed
    moreover have "memmove m dst src n = copy_forward m dst src (unat n)"
      using \<open>n \<noteq> 0\<close> no_overlap by (auto simp: memmove_def)
    ultimately show ?thesis using assms by (simp add: copy_forward_apply)
  qed
qed

lemma memmove_frame:
  assumes "unat src + unat n \<le> 2 ^ 64" and "unat dst + unat n \<le> 2 ^ 64"
    and "unat n \<le> off dst x"
  shows "memmove m dst src n x = m x"
  using assms by (simp add: memmove_apply)

section \<open>NUL-terminated strings\<close>

text \<open>\<open>cstr m s bs\<close>: the bytes \<open>bs\<close>, none of them NUL, stand at \<open>s\<close> and a NUL follows.\<close>

definition cstr :: "mem \<Rightarrow> uint64 \<Rightarrow> uchar list \<Rightarrow> bool" where
  "cstr m s bs \<longleftrightarrow> (\<forall>i < length bs. m (s + of_nat i) = bs ! i \<and> bs ! i \<noteq> 0)
     \<and> m (s + of_nat (length bs)) = 0"

lemma cstr_Nil [simp]: "cstr m s [] \<longleftrightarrow> m s = 0"
  by (simp add: cstr_def)

lemma cstr_Cons [simp]: "cstr m s (b # bs) \<longleftrightarrow> m s = b \<and> b \<noteq> 0 \<and> cstr m (s + 1) bs"
proof -
  have "(\<forall>i < length (b # bs). m (s + of_nat i) = (b # bs) ! i \<and> (b # bs) ! i \<noteq> 0) \<longleftrightarrow>
      (m s = b \<and> b \<noteq> 0) \<and> (\<forall>i < length bs. m (s + 1 + of_nat i) = bs ! i \<and> bs ! i \<noteq> 0)"
    by (auto simp: less_Suc_eq_0_disj algebra_simps)
  then show ?thesis by (auto simp: cstr_def algebra_simps)
qed

lemma strlen_loop_cstr:
  assumes "cstr m (s + of_nat k) bs"
  shows "strlen_loop m s k = Some (k + length bs)"
  using assms
proof (induction bs arbitrary: k)
  case Nil
  then show ?case by (simp add: strlen_loop.simps)
next
  case (Cons b bs)
  then have "m (s + of_nat k) \<noteq> 0" and "cstr m (s + of_nat (Suc k)) bs"
    by (simp_all add: algebra_simps)
  with Cons.IH [of "Suc k"] show ?case
    by (simp add: strlen_loop.simps [of m s k])
qed

lemma strlen_cstr: "cstr m s bs \<Longrightarrow> strlen m s = Some (length bs)"
  using strlen_loop_cstr [of m s 0 bs] by (simp add: strlen_def)

text \<open>
  \<^verbatim>\<open>strncmp\<close> returns 0 exactly when the two strings agree on their first
  \<open>n\<close> bytes, or up to and including a common NUL.
\<close>

lemma strncmp_loop_eq_0_iff:
  "strncmp_loop m p q n = 0 \<longleftrightarrow>
     (\<exists>k \<le> n. (\<forall>i < k. m (p + of_nat i) = m (q + of_nat i) \<and> m (p + of_nat i) \<noteq> 0)
        \<and> (k = n \<or> m (p + of_nat k) = 0 \<and> m (q + of_nat k) = 0))"
proof (induction n arbitrary: p q)
  case 0
  then show ?case by simp
next
  case (Suc n)
  let ?P = "\<lambda>p q k n. (\<forall>i < k. m (p + of_nat i) = m (q + of_nat i) \<and> m (p + of_nat i) \<noteq> 0)
        \<and> (k = n \<or> m (p + of_nat k) = 0 \<and> m (q + of_nat k) = 0)"
  have shift: "?P p q (Suc k) (Suc n) \<longleftrightarrow>
      m p = m q \<and> m p \<noteq> 0 \<and> ?P (p + 1) (q + 1) k n" for k
    by (auto simp: less_Suc_eq_0_disj algebra_simps)
  have split: "(\<exists>k \<le> Suc n. ?P p q k (Suc n)) \<longleftrightarrow>
      ?P p q 0 (Suc n) \<or> (\<exists>k \<le> n. ?P p q (Suc k) (Suc n))"
    by (rule ex_le_Suc_iff)
  show ?case
  proof (cases "m p \<noteq> 0 \<and> m p = m q")
    case True
    then show ?thesis unfolding split shift using Suc.IH by auto
  next
    case False
    then have "strncmp_loop m p q (Suc n) = uint (m p) - uint (m q)" by auto
    then have "strncmp_loop m p q (Suc n) = 0 \<longleftrightarrow> m p = m q"
      by (simp only: right_minus_eq word_uint_eq_iff)
    with False show ?thesis unfolding split shift by auto
  qed
qed

text \<open>
  \<^verbatim>\<open>safestrcpy\<close> writes only the \<open>n\<close> bytes it was given and always leaves a
  NUL among them; what stands before that NUL is a prefix of the source.
\<close>

lemma safestrcpy_loop_frame:
  assumes "n < off s x"
  shows "safestrcpy_loop m s t n x = m x"
  using assms
proof (induction n arbitrary: m s t)
  case 0
  then show ?case by auto
next
  case (Suc n)
  have "x \<noteq> s" using Suc.prems by auto
  then have o: "off s x = Suc (off (s + 1) x)" by (rule off_Suc)
  have "x \<noteq> s + 1" using Suc.prems o by auto
  with Suc.prems o \<open>x \<noteq> s\<close> show ?case by (simp add: Let_def Suc.IH)
qed

lemma cstr_upd_apart:
  assumes "\<And>i. i \<le> length bs \<Longrightarrow> t + of_nat i \<noteq> s"
  shows "cstr (m(s := c)) t bs \<longleftrightarrow> cstr m t bs"
  using assms by (auto simp: cstr_def)

lemma safestrcpy_loop_cstr:
  assumes "cstr m t bs" and "n < 2 ^ 64 - 1"
    and "\<And>i. i \<le> length bs \<Longrightarrow> n < off s (t + of_nat i)"
  shows "cstr (safestrcpy_loop m s t n) s (take n bs)"
  using assms
proof (induction n arbitrary: m s t bs)
  case 0
  then show ?case by simp
next
  case (Suc n)
  have apart: "t + of_nat i \<noteq> s" if "i \<le> length bs" for i
    using Suc.prems(3) [OF that] by auto
  show ?case
  proof (cases bs)
    case Nil
    then show ?thesis using Suc.prems(1) by (simp add: Let_def)
  next
    case (Cons b bs')
    let ?m = "m(s := b)"
    have b: "m t = b" "b \<noteq> 0" and c: "cstr m (t + 1) bs'"
      using Suc.prems(1) Cons by auto
    have h1: "cstr ?m (t + 1) bs'"
    proof (subst cstr_upd_apart)
      fix i assume "i \<le> length bs'"
      with apart [of "Suc i"] Cons show "t + 1 + of_nat i \<noteq> s" by (simp add: algebra_simps)
    qed (rule c)
    have h3: "n < off (s + 1) (t + 1 + of_nat i)" if "i \<le> length bs'" for i
    proof -
      have "Suc n < off s (t + of_nat (Suc i))"
        using that Cons by (intro Suc.prems(3)) simp
      moreover have "t + of_nat (Suc i) \<noteq> s" using that Cons by (intro apart) simp
      ultimately have "Suc n < Suc (off (s + 1) (t + of_nat (Suc i)))"
        by (simp add: off_Suc)
      then show ?thesis by (simp add: algebra_simps)
    qed
    have h2: "n < 2 ^ 64 - 1" using Suc.prems(2) by simp
    have "cstr (safestrcpy_loop ?m (s + 1) (t + 1) n) (s + 1) (take n bs')"
      by (rule Suc.IH [OF h1 h2 h3])
    moreover have "safestrcpy_loop ?m (s + 1) (t + 1) n s = b"
      using Suc.prems(2) by (subst safestrcpy_loop_frame) auto
    ultimately show ?thesis using b Cons by (simp add: Let_def)
  qed
qed

end
