(* ===== verification/Pool.thy ===== *)
theory Pool
  imports Prelude
begin

text \<open>
  The contract shared by the kernel's allocators: a pool of identical
  resources from which \<open>alloc\<close> takes a free one and to which \<open>release\<close> returns
  one that is in use.  Physical pages, open-file slots, disk-ring descriptors and
  disk blocks are all handed out under this contract.  The lemmas of the
  locale follow the sequences of calls that well-behaved clients can make (a
  client only releases what it holds).
\<close>

datatype 'r pool_op = Alloc | Release 'r

locale pool =
  fixes inv :: "'s \<Rightarrow> bool"
    and universe :: "'r set"
    and free_of :: "'s \<Rightarrow> 'r set"
    and alloc :: "'s \<Rightarrow> ('r \<times> 's) option"
    and release :: "'r \<Rightarrow> 's \<Rightarrow> 's option"
  assumes free_universe: "inv s \<Longrightarrow> free_of s \<subseteq> universe"
    and alloc_Some: "inv s \<Longrightarrow> alloc s = Some (r, s') \<Longrightarrow>
      r \<in> free_of s \<and> free_of s' = free_of s - {r} \<and> inv s'"
    and alloc_None: "inv s \<Longrightarrow> alloc s = None \<Longrightarrow> free_of s = {}"
    and release_ok: "inv s \<Longrightarrow> r \<in> universe \<Longrightarrow> r \<notin> free_of s \<Longrightarrow>
      \<exists>s'. release r s = Some s' \<and> free_of s' = insert r (free_of s) \<and> inv s'"
begin

text \<open>
  One call by the clients, who together hold the resources in the list; an
  allocation that fails leaves everything as it was.
\<close>

inductive pool_step :: "'s \<times> 'r list \<Rightarrow> 'r pool_op \<Rightarrow> 's \<times> 'r list \<Rightarrow> bool" where
  take: "alloc s = Some (r, s') \<Longrightarrow> pool_step (s, held) Alloc (s', r # held)"
| full: "alloc s = None \<Longrightarrow> pool_step (s, held) Alloc (s, held)"
| give: "r \<in> set held \<Longrightarrow> release r s = Some s' \<Longrightarrow>
    pool_step (s, held) (Release r) (s', remove1 r held)"

inductive pool_run :: "'s \<times> 'r list \<Rightarrow> 'r pool_op list \<Rightarrow> 's \<times> 'r list \<Rightarrow> bool" where
  nil: "pool_run c [] c"
| cons: "pool_step c a c' \<Longrightarrow> pool_run c' as c'' \<Longrightarrow> pool_run c (a # as) c''"

definition accounted :: "'s \<times> 'r list \<Rightarrow> bool" where
  "accounted c \<longleftrightarrow> inv (fst c) \<and> distinct (snd c) \<and> set (snd c) \<subseteq> universe
     \<and> set (snd c) \<inter> free_of (fst c) = {}"

text \<open>Nothing is handed out twice, and nothing leaks: held plus free stays the same set.\<close>

lemma pool_step_accounted:
  assumes "pool_step c a c'" and "accounted c"
  shows "accounted c' \<and> set (snd c') \<union> free_of (fst c') = set (snd c) \<union> free_of (fst c)"
  using assms
proof (induction rule: pool_step.induct)
  case (take s r s' held)
  then show ?case using alloc_Some [of s r s'] free_universe [of s]
    by (auto simp: accounted_def)
next
  case (full s held)
  then show ?case by simp
next
  case (give r held s s')
  then have "free_of s' = insert r (free_of s) \<and> inv s'"
    using release_ok [of s r] by (auto simp: accounted_def)
  with give show ?case by (auto simp: accounted_def dest: in_set_remove1 [THEN iffD1, rotated])
qed

lemma pool_run_accounted:
  assumes "pool_run c as c'" and "accounted c"
  shows "accounted c' \<and> set (snd c') \<union> free_of (fst c') = set (snd c) \<union> free_of (fst c)"
  using assms by (induction rule: pool_run.induct) (auto dest: pool_step_accounted)

text \<open>An allocation can only fail when every resource is held.\<close>

lemma alloc_exhausted:
  assumes "inv s" and "pool_run (s, []) as (s', held)" and "alloc s' = None"
  shows "set held = free_of s"
  using pool_run_accounted [OF assms(2)] alloc_None [of s'] assms by (auto simp: accounted_def)

text \<open>What was just released can be allocated again.\<close>

lemma release_alloc:
  assumes "inv s" and "r \<in> universe" and "r \<notin> free_of s" and "release r s = Some s'"
  shows "alloc s' \<noteq> None"
proof
  assume "alloc s' = None"
  then show False using release_ok [OF assms(1-3)] assms(4) alloc_None [of s'] by auto
qed

end

end
