(* ===== verification/Kalloc.thy ===== *)
theory Kalloc
  imports Riscv CString Pool
begin

text \<open>
  The physical page allocator, \<^verbatim>\<open>kernel/kalloc.c\<close>.  The free list is
  threaded through the free pages themselves: the first eight bytes of a free
  page hold the address of the next one.  \<open>free_list\<close> relates that chain to an
  abstract list of pages, and the allocator is shown to be a stack of distinct
  pages.  The linker symbol \<^verbatim>\<open>end\<close> is the parameter \<open>kend\<close>.
\<close>

section \<open>The allocator\<close>

record kmem =
  mem :: mem
  freelist :: uint64

definition kfree :: "uint64 \<Rightarrow> uint64 \<Rightarrow> 'a kmem_scheme \<Rightarrow> 'a kmem_scheme kres" where
  "kfree kend pa s =
     (if pa mod PGSIZE \<noteq> 0 \<or> pa < kend \<or> PHYSTOP \<le> pa then Panic ''kfree''
      else let m1 = memset (mem s) pa 1 4096;
               m2 = st64 m1 pa (freelist s)
           in Ret (s\<lparr>mem := m2, freelist := pa\<rparr>))"

definition kalloc :: "'a kmem_scheme \<Rightarrow> uint64 \<times> 'a kmem_scheme" where
  "kalloc s =
     (let r = freelist s;
          s1 = (if r \<noteq> 0 then s\<lparr>freelist := ld64 (mem s) r\<rparr> else s);
          s2 = (if r \<noteq> 0 then s1\<lparr>mem := memset (mem s1) r 5 4096\<rparr> else s1)
      in (r, s2))"

text \<open>
  \<^verbatim>\<open>for(; p + PGSIZE <= pa_end; p += PGSIZE) kfree(p);\<close> -- the loop ends
  because \<^verbatim>\<open>kfree\<close> accepts only addresses below \<^verbatim>\<open>PHYSTOP\<close>.
\<close>

function freerange_loop ::
  "uint64 \<Rightarrow> uint64 \<Rightarrow> uint64 \<Rightarrow> 'a kmem_scheme \<Rightarrow> 'a kmem_scheme kres" where
  "freerange_loop kend p pa_end s =
     (if p + PGSIZE \<le> pa_end
      then (case kfree kend p s of
              Ret s' \<Rightarrow> freerange_loop kend (p + PGSIZE) pa_end s'
            | Panic m \<Rightarrow> Panic m
            | Block c \<Rightarrow> Block c)
      else Ret s)"
  by pat_completeness auto
termination
proof (relation "measure (\<lambda>(kend, p, pa_end, s). unat PHYSTOP - unat p)")
  fix kend p pa_end :: uint64 and s s' :: "'a kmem_scheme"
  assume "kfree kend p s = Ret s'"
  then have lt: "unat p < unat PHYSTOP"
    by (simp add: kfree_def Let_def word_le_nat_alt split: if_splits)
  moreover have P: "unat PHYSTOP = 0x88000000" by (simp add: layout_values)
  ultimately have "unat (p + PGSIZE) = unat p + 4096"
    by (subst unat_add_lt) (auto simp: PGSIZE_def)
  with lt show "((kend, p + PGSIZE, pa_end, s'), kend, p, pa_end, s)
      \<in> measure (\<lambda>(kend, p, pa_end, s). unat PHYSTOP - unat p)"
    by simp
qed simp

declare freerange_loop.simps [simp del]

definition freerange ::
  "uint64 \<Rightarrow> uint64 \<Rightarrow> uint64 \<Rightarrow> 'a kmem_scheme \<Rightarrow> 'a kmem_scheme kres" where
  "freerange kend pa_start pa_end s = freerange_loop kend (PGROUNDUP pa_start) pa_end s"

definition kinit :: "uint64 \<Rightarrow> 'a kmem_scheme \<Rightarrow> 'a kmem_scheme kres" where
  "kinit kend s = freerange kend kend PHYSTOP s"

section \<open>Pages and frames\<close>

definition valid_page :: "uint64 \<Rightarrow> uint64 \<Rightarrow> bool" where
  "valid_page kend p \<longleftrightarrow> page_aligned p \<and> kend \<le> p \<and> p < PHYSTOP \<and> p \<noteq> 0"

definition in_page :: "uint64 \<Rightarrow> uint64 \<Rightarrow> bool" where
  "in_page p x \<longleftrightarrow> off p x < 4096"

text \<open>\<open>same_outside ps m m'\<close>: the two memories differ at most inside the pages \<open>ps\<close>.\<close>

definition same_outside :: "uint64 set \<Rightarrow> mem \<Rightarrow> mem \<Rightarrow> bool" where
  "same_outside ps m m' \<longleftrightarrow> (\<forall>x. (\<forall>p \<in> ps. \<not> in_page p x) \<longrightarrow> m' x = m x)"

lemma same_outside_refl [simp]: "same_outside ps m m"
  by (simp add: same_outside_def)

lemma same_outside_trans:
  "same_outside ps m m' \<Longrightarrow> same_outside qs m' m'' \<Longrightarrow> same_outside (ps \<union> qs) m m''"
  by (simp add: same_outside_def)

lemma same_outside_mono: "same_outside ps m m' \<Longrightarrow> ps \<subseteq> qs \<Longrightarrow> same_outside qs m m'"
  by (auto simp: same_outside_def)

text \<open>\<open>only_kmem s s'\<close>: nothing but the memory and the free list changed.\<close>

definition only_kmem :: "'a kmem_scheme \<Rightarrow> 'a kmem_scheme \<Rightarrow> bool" where
  "only_kmem s s' \<longleftrightarrow> (\<exists>m f. s' = s\<lparr>mem := m, freelist := f\<rparr>)"

lemma only_kmemI [intro]: "only_kmem s (s\<lparr>mem := m, freelist := f\<rparr>)"
  unfolding only_kmem_def by blast

lemma only_kmemI2 [intro]: "only_kmem s (s\<lparr>freelist := f, mem := m\<rparr>)"
  unfolding only_kmem_def by (rule exI [of _ m], rule exI [of _ f]) simp

lemma only_kmem_memI [intro]: "only_kmem s (s\<lparr>mem := m\<rparr>)"
  unfolding only_kmem_def by (rule exI [of _ m], rule exI [of _ "freelist s"]) simp

lemma only_kmem_refl [simp]: "only_kmem s s"
  unfolding only_kmem_def by (rule exI [of _ "mem s"], rule exI [of _ "freelist s"]) simp

lemma only_kmem_trans: "only_kmem s t \<Longrightarrow> only_kmem t u \<Longrightarrow> only_kmem s u"
  unfolding only_kmem_def by fastforce

lemma pages_apart:
  assumes "page_aligned p" and "page_aligned q" and "p \<noteq> q" and "in_page q x"
  shows "\<not> in_page p x"
proof -
  have "4096 \<le> unat (q + of_nat (off q x) - p)"
    using assms by (intro aligned_distance) (auto simp: page_aligned_unat in_page_def dvd_eq_mod_eq_0)
  then show ?thesis by (simp add: in_page_def off_inverse) (simp add: off_def)
qed

lemma in_page_offset: "i < 4096 \<Longrightarrow> in_page p (p + of_nat i)"
  by (simp add: in_page_def off_add)

lemma same_outside_memset: "same_outside {p} m (memset m p c 4096)"
  by (auto simp: same_outside_def memset_apply in_page_def)

lemma same_outside_st64:
  assumes "i \<le> 4088"
  shows "same_outside {p} m (st64 m (p + of_nat i) v)"
proof -
  have "off (p + of_nat i) x \<ge> 8" if "\<not> in_page p x" for x
  proof (rule ccontr)
    assume "\<not> 8 \<le> off (p + of_nat i) x"
    then have "off (p + of_nat i) x < 8" by simp
    moreover have "x = p + of_nat (i + off (p + of_nat i) x)"
      using off_inverse [of "p + of_nat i" x] by (simp add: algebra_simps)
    ultimately have "in_page p x"
      using assms in_page_offset [of "i + off (p + of_nat i) x" p] by simp
    with that show False by simp
  qed
  then show ?thesis by (force simp: same_outside_def stbytes_apply off_def)
qed

text \<open>A load from an aligned cell of a page outside the changed ones is unaffected.\<close>

lemma ld64_same_outside:
  assumes "same_outside ps m m'" and "\<And>p. p \<in> ps \<Longrightarrow> page_aligned p"
    and "page_aligned q" and "q \<notin> ps" and "i \<le> 4088"
  shows "ld64 m' (q + of_nat i) = ld64 m (q + of_nat i)"
proof (rule ldbytes_cong)
  fix j :: nat
  assume "j < 8"
  have "in_page q (q + of_nat (i + j))" using assms(5) \<open>j < 8\<close> by (intro in_page_offset) simp
  then have "\<not> in_page p (q + of_nat i + of_nat j)" if "p \<in> ps" for p
    using pages_apart [of p q] assms that by (metis add.assoc of_nat_add)
  with assms(1) show "m' (q + of_nat i + of_nat j) = m (q + of_nat i + of_nat j)"
    by (simp add: same_outside_def)
qed

section \<open>The free list as a list of pages\<close>

fun free_list :: "mem \<Rightarrow> uint64 \<Rightarrow> uint64 list \<Rightarrow> bool" where
  "free_list m a [] \<longleftrightarrow> a = 0"
| "free_list m a (p # ps) \<longleftrightarrow> a = p \<and> p \<noteq> 0 \<and> free_list m (ld64 m p) ps"

definition kmem_inv :: "uint64 \<Rightarrow> 'a kmem_scheme \<Rightarrow> uint64 list \<Rightarrow> bool" where
  "kmem_inv kend s ps \<longleftrightarrow> free_list (mem s) (freelist s) ps \<and> distinct ps
     \<and> (\<forall>p \<in> set ps. valid_page kend p)"

lemma free_list_unique: "free_list m a ps \<Longrightarrow> free_list m a qs \<Longrightarrow> ps = qs"
proof (induction ps arbitrary: a qs)
  case Nil
  then show ?case by (cases qs) auto
next
  case (Cons p ps)
  then show ?case by (cases qs) auto
qed

lemma free_list_same_outside:
  assumes "free_list m a ps" and "same_outside qs m m'" and "set ps \<inter> qs = {}"
    and "\<And>p. p \<in> set ps \<union> qs \<Longrightarrow> page_aligned p"
  shows "free_list m' a ps"
  using assms
proof (induction ps arbitrary: a)
  case Nil
  then show ?case by simp
next
  case (Cons p ps)
  have "ld64 m' (p + of_nat 0) = ld64 m (p + of_nat 0)"
    using Cons.prems by (intro ld64_same_outside) auto
  then show ?case using Cons by auto
qed

lemma kmem_inv_same_outside:
  assumes "kmem_inv kend s ps" and "same_outside qs (mem s) m'" and "set ps \<inter> qs = {}"
    and "\<And>q. q \<in> qs \<Longrightarrow> page_aligned q"
  shows "kmem_inv kend (s\<lparr>mem := m'\<rparr>) ps"
proof -
  have "free_list m' (freelist s) ps"
    using assms by (auto simp: kmem_inv_def valid_page_def
        intro: free_list_same_outside [of "mem s" "freelist s" ps qs])
  then show ?thesis using assms(1) by (simp add: kmem_inv_def)
qed

lemma valid_page_guard:
  "valid_page kend p \<Longrightarrow> \<not> (p mod PGSIZE \<noteq> 0 \<or> p < kend \<or> PHYSTOP \<le> p)"
  by (auto simp: valid_page_def page_aligned_def)

text \<open>\<^verbatim>\<open>kfree\<close> pushes a page that was not free and touches no other page.\<close>

lemma kfree_ok:
  assumes inv: "kmem_inv kend s ps" and v: "valid_page kend p" and new: "p \<notin> set ps"
  obtains s' where "kfree kend p s = Ret s'" and "kmem_inv kend s' (p # ps)"
    and "same_outside {p} (mem s) (mem s')"
    and "only_kmem s s'"
proof -
  define m1 where "m1 = memset (mem s) p 1 4096"
  define m2 where "m2 = st64 m1 p (freelist s)"
  have f: "kfree kend p s = Ret (s\<lparr>mem := m2, freelist := p\<rparr>)"
    using valid_page_guard [OF v] by (simp add: kfree_def Let_def m1_def m2_def)
  have "same_outside {p} m1 m2"
    using same_outside_st64 [of 0 p m1] by (simp add: m2_def)
  then have fr: "same_outside {p} (mem s) m2"
    using same_outside_trans [OF same_outside_memset [of p "mem s" 1], of "{p}" m2] by (simp add: m1_def)
  have "kmem_inv kend (s\<lparr>mem := m2\<rparr>) ps"
    by (rule kmem_inv_same_outside [OF inv fr]) (use new v in \<open>auto simp: valid_page_def\<close>)
  moreover have "ld64 m2 p = freelist s" by (simp add: m2_def)
  ultimately have "kmem_inv kend (s\<lparr>mem := m2, freelist := p\<rparr>) (p # ps)"
    using v new by (auto simp: kmem_inv_def valid_page_def)
  with f fr show thesis using that [of "s\<lparr>mem := m2, freelist := p\<rparr>"]
    by (auto simp: only_kmem_def)
qed

lemma kalloc_empty: "kmem_inv kend s [] \<Longrightarrow> kalloc s = (0, s)"
  by (simp add: kalloc_def kmem_inv_def)

lemma kalloc_pop:
  assumes inv: "kmem_inv kend s (p # ps)"
  obtains s' where "kalloc s = (p, s')" and "kmem_inv kend s' ps"
    and "same_outside {p} (mem s) (mem s')" and "\<forall>x. in_page p x \<longrightarrow> mem s' x = 5"
    and "only_kmem s s'"
proof -
  define m' where "m' = memset (mem s) p 5 4096"
  define t where "t = s\<lparr>freelist := ld64 (mem s) p\<rparr>"
  have p: "freelist s = p" "p \<noteq> 0" using inv by (auto simp: kmem_inv_def)
  have k: "kalloc s = (p, t\<lparr>mem := m'\<rparr>)"
    using p by (simp add: kalloc_def Let_def m'_def t_def)
  have fr: "same_outside {p} (mem t) m'" by (simp add: m'_def same_outside_memset t_def)
  have it: "kmem_inv kend t ps" using inv by (simp add: kmem_inv_def t_def)
  have "kmem_inv kend (t\<lparr>mem := m'\<rparr>) ps"
    by (rule kmem_inv_same_outside [OF it fr]) (use inv in \<open>auto simp: kmem_inv_def valid_page_def\<close>)
  moreover have "\<forall>x. in_page p x \<longrightarrow> m' x = 5"
    by (simp add: m'_def memset_apply in_page_def)
  moreover have "only_kmem s (t\<lparr>mem := m'\<rparr>)"
    unfolding t_def only_kmem_def by (rule exI [of _ m'], rule exI [of _ "ld64 (mem s) p"]) simp
  ultimately show thesis using k fr that [of "t\<lparr>mem := m'\<rparr>"] by (simp add: t_def)
qed

text \<open>The two outcomes of \<^verbatim>\<open>kalloc\<close> under the invariant.\<close>

lemma kalloc_cases:
  assumes "kmem_inv kend s ps"
  obtains (full) "ps = []" and "kalloc s = (0, s)"
  | (page) p qs s' where "ps = p # qs" and "kalloc s = (p, s')" and "kmem_inv kend s' qs"
    and "same_outside {p} (mem s) (mem s')" and "\<forall>x. in_page p x \<longrightarrow> mem s' x = 5"
    and "valid_page kend p" and "p \<notin> set qs"
    and "only_kmem s s'"
proof (cases ps)
  case Nil
  then show thesis using full kalloc_empty [of kend s] assms by simp
next
  case (Cons p qs)
  with assms obtain s' where "kalloc s = (p, s')" and "kmem_inv kend s' qs"
    and "same_outside {p} (mem s) (mem s')" and "\<forall>x. in_page p x \<longrightarrow> mem s' x = 5"
    and "only_kmem s s'"
    using kalloc_pop [of kend s p qs] by blast
  then show thesis using page [of p qs s'] Cons assms by (simp add: kmem_inv_def)
qed

section \<open>Freeing a range\<close>

text \<open>The pages \<open>p, p + 4096, \<dots>\<close> that fit below \<open>pa_end\<close>, in the order the loop frees them.\<close>

definition range_pages :: "uint64 \<Rightarrow> nat \<Rightarrow> uint64 list" where
  "range_pages p n = map (\<lambda>i. p + of_nat (4096 * i)) [0..<n]"

lemma range_pages_0 [simp]: "range_pages p 0 = []"
  by (simp add: range_pages_def)

lemma range_pages_Suc: "range_pages p (Suc n) = p # range_pages (p + 4096) n"
proof -
  have "[0..<Suc n] = 0 # map Suc [0..<n]" by (simp add: map_Suc_upt upt_conv_Cons)
  then show ?thesis by (simp add: range_pages_def o_def algebra_simps)
qed

lemma range_pages_valid:
  assumes "page_aligned p" and "kend \<le> p" and "p \<noteq> 0" and "unat p + 4096 * n \<le> unat PHYSTOP"
    and "q \<in> set (range_pages p n)"
  shows "valid_page kend q"
proof -
  obtain i where i: "i < n" "q = p + of_nat (4096 * i)"
    using assms(5) by (auto simp: range_pages_def)
  have ph: "unat PHYSTOP = 0x88000000" by (simp add: layout_values)
  have b: "4096 * i < 0x88000000" "unat p + 4096 * i < unat PHYSTOP" using i(1) assms(4) ph by linarith+
  have "unat (of_nat (4096 * i) :: uint64) = 4096 * i" using b(1) by (intro of_nat_lt_pow) simp
  then have u: "unat q = unat p + 4096 * i"
    unfolding i(2) using b ph by (subst unat_add_lt) auto
  have "q \<noteq> 0" using u assms(3) by (metis add_is_0 unsigned_0 unsigned_eq_0_iff)
  moreover have "page_aligned q" using u assms(1) by (simp add: page_aligned_unat)
  ultimately show ?thesis
    using u b assms(2) by (simp add: valid_page_def word_le_nat_alt word_less_nat_alt)
qed

lemma freerange_loop_ok:
  assumes "kmem_inv kend s ps" and "page_aligned p" and "kend \<le> p" and "p \<noteq> 0"
    and "unat p + 4096 * n \<le> unat pa_end" and "unat pa_end < unat p + 4096 * n + 4096"
    and "pa_end \<le> PHYSTOP" and "set ps \<inter> set (range_pages p n) = {}"
    and "distinct (range_pages p n)"
  shows "\<exists>s'. freerange_loop kend p pa_end s = Ret s'
           \<and> kmem_inv kend s' (rev (range_pages p n) @ ps)"
  using assms
proof (induction n arbitrary: p s ps)
  have ph: "unat PHYSTOP = 0x88000000" by (simp add: layout_values)
  have next_page: "unat (q + PGSIZE) = unat q + 4096" if "unat q \<le> 0x88000000" for q :: uint64
    using that by (subst unat_add_lt) (auto simp: PGSIZE_def)
  case 0
  have "unat p \<le> 0x88000000" using 0(5,7) ph by (simp add: word_le_nat_alt)
  then have "\<not> p + PGSIZE \<le> pa_end" using next_page 0(6) by (simp add: word_le_nat_alt)
  then show ?case using 0(1) by (simp add: freerange_loop.simps)
next
  have ph: "unat PHYSTOP = 0x88000000" by (simp add: layout_values)
  have next_page: "unat (q + PGSIZE) = unat q + 4096" if "unat q \<le> 0x88000000" for q :: uint64
    using that by (subst unat_add_lt) (auto simp: PGSIZE_def)
  case (Suc n)
  have le: "unat p + 4096 * Suc n \<le> unat PHYSTOP"
    using Suc.prems(5,7) by (simp add: word_le_nat_alt)
  then have u: "unat (p + PGSIZE) = unat p + 4096" using next_page ph by simp
  then have guard: "p + PGSIZE \<le> pa_end" using Suc.prems(5) by (simp add: word_le_nat_alt)
  have v: "valid_page kend p" and new: "p \<notin> set ps"
    using range_pages_valid [OF Suc.prems(2,3,4) le, of p] Suc.prems(8)
    by (auto simp: range_pages_Suc)
  obtain s' where k: "kfree kend p s = Ret s'" and inv: "kmem_inv kend s' (p # ps)"
    using kfree_ok [OF Suc.prems(1) v new] .
  have "\<exists>s''. freerange_loop kend (p + PGSIZE) pa_end s' = Ret s''
        \<and> kmem_inv kend s'' (rev (range_pages (p + PGSIZE) n) @ (p # ps))"
  proof (rule Suc.IH [OF inv])
    show "page_aligned (p + PGSIZE)" using Suc.prems(2) u by (simp add: page_aligned_unat)
    show "kend \<le> p + PGSIZE" using Suc.prems(3) u by (simp add: word_le_nat_alt)
    show "p + PGSIZE \<noteq> 0" using u by (metis add_is_0 unsigned_0 zero_neq_numeral)
    show "unat (p + PGSIZE) + 4096 * n \<le> unat pa_end" using Suc.prems(5) u by simp
    show "unat pa_end < unat (p + PGSIZE) + 4096 * n + 4096" using Suc.prems(6) u by simp
  qed (use Suc.prems(7-9) in \<open>auto simp: range_pages_Suc PGSIZE_def\<close>)
  then show ?case using guard k
    by (subst freerange_loop.simps) (simp add: range_pages_Suc PGSIZE_def)
qed

lemma range_pages_distinct:
  assumes "4096 * n < 2 ^ 64"
  shows "distinct (range_pages p n)"
proof -
  have "inj_on (\<lambda>i. p + of_nat (4096 * i)) {0..<n}"
  proof (rule inj_onI)
    fix i j
    assume "i \<in> {0..<n}" "j \<in> {0..<n}" and e: "p + of_nat (4096 * i) = p + of_nat (4096 * j)"
    then have lt: "4096 * i < 2 ^ 64" "4096 * j < 2 ^ 64" using assms by auto
    have "unat (of_nat (4096 * i) :: uint64) = unat (of_nat (4096 * j) :: uint64)"
      using e by simp
    moreover have "unat (of_nat (4096 * i) :: uint64) = 4096 * i"
      using lt(1) by (intro of_nat_lt_pow) simp
    moreover have "unat (of_nat (4096 * j) :: uint64) = 4096 * j"
      using lt(2) by (intro of_nat_lt_pow) simp
    ultimately show "i = j" by simp
  qed
  then show ?thesis by (simp add: range_pages_def distinct_map)
qed

section \<open>The allocator as a pool of pages\<close>

definition free_pages :: "'a kmem_scheme \<Rightarrow> uint64 set" where
  "free_pages s = {p. \<exists>ps. free_list (mem s) (freelist s) ps \<and> p \<in> set ps}"

definition kmem_ok :: "uint64 \<Rightarrow> 'a kmem_scheme \<Rightarrow> bool" where
  "kmem_ok kend s \<longleftrightarrow> (\<exists>ps. kmem_inv kend s ps)"

definition kalloc_opt :: "'a kmem_scheme \<Rightarrow> (uint64 \<times> 'a kmem_scheme) option" where
  "kalloc_opt s = (let (p, s') = kalloc s in if p = 0 then None else Some (p, s'))"

definition kfree_opt :: "uint64 \<Rightarrow> uint64 \<Rightarrow> 'a kmem_scheme \<Rightarrow> 'a kmem_scheme option" where
  "kfree_opt kend p s = (case kfree kend p s of Ret s' \<Rightarrow> Some s' | _ \<Rightarrow> None)"

lemma free_pages_inv: "kmem_inv kend s ps \<Longrightarrow> free_pages s = set ps"
  by (auto simp: free_pages_def kmem_inv_def dest: free_list_unique)

interpretation pages: pool "kmem_ok kend" "{p. valid_page kend p}" free_pages kalloc_opt
  "kfree_opt kend"
proof
  fix s :: "'a kmem_scheme" and r s'
  assume ok: "kmem_ok kend s"
  then obtain ps where inv: "kmem_inv kend s ps" by (auto simp: kmem_ok_def)
  note fp = free_pages_inv [OF inv]
  show "free_pages s \<subseteq> {p. valid_page kend p}" using inv fp by (auto simp: kmem_inv_def)
  show "r \<in> free_pages s \<and> free_pages s' = free_pages s - {r} \<and> kmem_ok kend s'"
    if "kalloc_opt s = Some (r, s')"
    using inv
  proof (cases rule: kalloc_cases)
    case (page p qs t)
    then show ?thesis using that fp free_pages_inv [of kend t qs]
      by (auto simp: kalloc_opt_def valid_page_def kmem_ok_def)
  qed (use that in \<open>simp add: kalloc_opt_def\<close>)
  show "free_pages s = {}" if "kalloc_opt s = None"
    using inv
  proof (cases rule: kalloc_cases)
    case (page p qs t)
    then show ?thesis using that by (simp add: kalloc_opt_def valid_page_def)
  qed (use fp in simp)
  show "\<exists>t. kfree_opt kend r s = Some t \<and> free_pages t = insert r (free_pages s) \<and> kmem_ok kend t"
    if r: "r \<in> {p. valid_page kend p}" "r \<notin> free_pages s"
  proof -
    obtain t where "kfree kend r s = Ret t" and "kmem_inv kend t (r # ps)"
      using kfree_ok [OF inv, of r] r fp by blast
    then show ?thesis using fp free_pages_inv [of kend t "r # ps"]
      by (auto simp: kfree_opt_def kmem_ok_def)
  qed
qed

section \<open>Properties of the allocator\<close>

lemma valid_pages_range:
  assumes "kend \<le> PHYSTOP" and "0 < kend"
    and n: "n = (unat PHYSTOP - unat (PGROUNDUP kend)) div 4096"
  shows "set (range_pages (PGROUNDUP kend) n) = {p. valid_page kend p}"
    and "unat (PGROUNDUP kend) + 4096 * n = unat PHYSTOP"
    and "PGROUNDUP kend \<noteq> 0" and "kend \<le> PGROUNDUP kend"
proof -
  define b where "b = PGROUNDUP kend"
  have ph: "unat PHYSTOP = 0x88000000" by (simp add: layout_values)
  have k: "unat kend \<le> 0x88000000" using assms(1) ph by (simp add: word_le_nat_alt)
  then show le: "kend \<le> PGROUNDUP kend" by (intro PGROUNDUP_ge) simp
  have ub: "unat b = (unat kend + 4095) div 4096 * 4096"
    unfolding b_def using k by (intro unat_PGROUNDUP) simp
  then have bp: "unat b \<le> unat PHYSTOP" using k ph by simp
  obtain q where q: "unat b = 4096 * q" using page_alignedE [OF PGROUNDUP_aligned [of kend]]
    unfolding b_def by blast
  have fit: "unat b + 4096 * n = unat PHYSTOP" using n bp ph q by (simp add: b_def)
  then show "unat (PGROUNDUP kend) + 4096 * n = unat PHYSTOP" by (simp add: b_def)
  show nz: "PGROUNDUP kend \<noteq> 0" using le assms(2) by auto
  show "set (range_pages (PGROUNDUP kend) n) = {p. valid_page kend p}"
  proof (intro set_eqI iffI)
    fix p
    assume "p \<in> set (range_pages (PGROUNDUP kend) n)"
    then show "p \<in> {p. valid_page kend p}"
      using range_pages_valid [OF PGROUNDUP_aligned le nz, of n p] fit by (simp add: b_def)
  next
    fix p
    assume "p \<in> {p. valid_page kend p}"
    then have p: "page_aligned p" "kend \<le> p" "p < PHYSTOP" by (auto simp: valid_page_def)
    obtain r where r: "unat p = 4096 * r" using p(1) by (rule page_alignedE)
    have "unat kend \<le> 4096 * r" using p(2) r by (simp add: word_le_nat_alt)
    then have "(unat kend + 4095) div 4096 \<le> r" by simp
    then have "q \<le> r" using ub q by simp
    moreover have "r < q + n" using p(3) r q fit by (simp add: word_less_nat_alt)
    moreover have "p = b + of_nat (4096 * (r - q))"
    proof -
      have "unat (b + of_nat (4096 * (r - q))) = unat b + 4096 * (r - q)"
      proof (subst unat_add_lt)
        have lt: "4096 * (r - q) < 2 ^ 64" using p(3) r ph by (simp add: word_less_nat_alt)
        have u: "unat (of_nat (4096 * (r - q)) :: uint64) = 4096 * (r - q)"
          by (rule of_nat_lt_pow) (use lt in simp)
        show "unat b + unat (of_nat (4096 * (r - q)) :: uint64) < 2 ^ LENGTH(64)"
          unfolding u using q r \<open>q \<le> r\<close> p(3) ph by (simp add: word_less_nat_alt)
        show "unat b + unat (of_nat (4096 * (r - q)) :: uint64) = unat b + 4096 * (r - q)"
          by (simp only: u)
      qed
      then have "unat p = unat (b + of_nat (4096 * (r - q)))" using r q \<open>q \<le> r\<close> by simp
      then show ?thesis by (simp only: word_unat_eq_iff)
    qed
    ultimately show "p \<in> set (range_pages (PGROUNDUP kend) n)"
      by (auto simp: range_pages_def b_def simp del: of_nat_mult)
  qed
qed

text \<open>
  C19: \<^verbatim>\<open>kinit\<close> terminates without a panic and puts on the free list exactly the
  pages that lie wholly between the end of the kernel and \<^verbatim>\<open>PHYSTOP\<close>, each once.
\<close>

theorem kinit_frees_all:
  assumes "0 < kend" and "kend \<le> PHYSTOP" and "freelist s = 0"
  shows "\<exists>s'. kinit kend s = Ret s' \<and> kmem_ok kend s' \<and> free_pages s' = {p. valid_page kend p}"
proof -
  define n where "n = (unat PHYSTOP - unat (PGROUNDUP kend)) div 4096"
  note v = valid_pages_range [OF assms(2,1) n_def]
  have "unat PHYSTOP = 0x88000000" by (simp add: layout_values)
  then have "4096 * n < 2 ^ 64" by (simp add: n_def)
  then have d: "distinct (range_pages (PGROUNDUP kend) n)" by (rule range_pages_distinct)
  have "kmem_inv kend s []" using assms(3) by (simp add: kmem_inv_def)
  then obtain s' where s': "freerange_loop kend (PGROUNDUP kend) PHYSTOP s = Ret s'"
    "kmem_inv kend s' (rev (range_pages (PGROUNDUP kend) n) @ [])"
    using freerange_loop_ok [of kend s "[]" "PGROUNDUP kend" n PHYSTOP] v d by auto
  then show ?thesis using free_pages_inv [OF s'(2)] v(1)
    by (auto simp: kinit_def freerange_def kmem_ok_def)
qed

text \<open>The machine's memory at power-on, for the witnesses: zeroed, with an empty free list.\<close>

definition blank_kmem :: kmem where
  "blank_kmem = \<lparr>mem = (\<lambda>_. 0), freelist = 0\<rparr>"

theorem kinit_frees_all_witness:
  "\<exists>s'. kinit (KERNBASE + 0x20000) blank_kmem = Ret s' \<and> kmem_ok (KERNBASE + 0x20000) s'
     \<and> free_pages s' = {p. valid_page (KERNBASE + 0x20000) p}"
  by (rule kinit_frees_all) (simp_all add: KERNBASE_def PHYSTOP_def blank_kmem_def)

text \<open>
  C11: over any sequence of \<^verbatim>\<open>kalloc\<close> and \<^verbatim>\<open>kfree\<close> calls in which callers free
  only pages they hold, no page is ever held twice or held while free, and no page
  is lost: the held and the free pages together stay all the pages there were.
\<close>

theorem kalloc_accounting:
  assumes "kmem_ok kend s" and "pool.pool_run kalloc_opt (kfree_opt kend) (s, []) ops (s', held)"
  shows "distinct held \<and> set held \<inter> free_pages s' = {} \<and> set held \<union> free_pages s' = free_pages s"
  using pages.pool_run_accounted [OF assms(2)] assms(1)
  by (auto simp: pages.accounted_def)

text \<open>Freeing any distinct pages one after the other gives a state with just these free.\<close>

lemma kmem_with_pages:
  assumes "distinct ps" and "\<forall>p \<in> set ps. valid_page kend p"
  shows "\<exists>s :: kmem. kmem_inv kend s ps"
  using assms
proof (induction ps)
  case Nil
  show ?case by (rule exI [of _ blank_kmem]) (simp add: kmem_inv_def blank_kmem_def)
next
  case (Cons p ps)
  then obtain s :: kmem where s: "kmem_inv kend s ps" by auto
  have "valid_page kend p" "p \<notin> set ps" using Cons.prems by auto
  from kfree_ok [OF s this] show ?case by blast
qed

theorem kalloc_accounting_witness:
  "\<exists>(s :: kmem) s' held. kmem_ok KERNBASE s \<and> held = [0x87001000, 0x87000000]
     \<and> pool.pool_run kalloc_opt (kfree_opt KERNBASE) (s, []) [Alloc, Alloc] (s', held)
     \<and> distinct held \<and> set held \<inter> free_pages s' = {} \<and> set held \<union> free_pages s' = free_pages s"
proof -
  let ?held = "[0x87001000, 0x87000000] :: uint64 list"
  have "\<forall>p \<in> set [0x87000000, 0x87001000]. valid_page KERNBASE p"
    by (simp add: valid_page_def page_aligned_def PGSIZE_def KERNBASE_def PHYSTOP_def)
  then obtain s :: kmem where s: "kmem_inv KERNBASE s [0x87000000, 0x87001000]"
    using kmem_with_pages [of "[0x87000000, 0x87001000]" KERNBASE] by auto
  obtain s1 where s1: "kalloc s = (0x87000000, s1)" "kmem_inv KERNBASE s1 [0x87001000]"
    using kalloc_pop [OF s] by blast
  obtain s2 where s2: "kalloc s1 = (0x87001000, s2)" using kalloc_pop [OF s1(2)] by blast
  have run: "pages.pool_run KERNBASE (s, []) [Alloc, Alloc] (s2, ?held)"
    using s1(1) s2 by (auto simp: kalloc_opt_def intro!: pages.pool_run.intros pages.pool_step.take)
  have ok: "kmem_ok KERNBASE s" using s by (auto simp: kmem_ok_def)
  show ?thesis using kalloc_accounting [OF ok run] run ok by blast
qed

end
