(* ===== verification/Vm.thy ===== *)
theory Vm
  imports Kalloc
begin

text \<open>
  Sv39 page tables, \<^verbatim>\<open>kernel/vm.c\<close>.  Page-table pages live in physical
  memory and are read and written through \<open>ld64\<close> and \<open>st64\<close>; a pointer to a PTE
  is its physical address and the null pointer is 0.  A dereference of a null
  PTE pointer is a fault taken in the kernel, which \<^verbatim>\<open>kerneltrap\<close> turns into
  a panic.  Kernel objects that are copied to or from user space are byte lists.
\<close>

unbundle bit_operations_syntax

section \<open>Walking a page table\<close>

fun walk_loop :: "nat \<Rightarrow> uint64 \<Rightarrow> uint64 \<Rightarrow> bool \<Rightarrow> 'a kmem_scheme \<Rightarrow> uint64 \<times> 'a kmem_scheme" where
  "walk_loop 0 pagetable va alloc s = (pagetable + 8 * PX 0 va, s)"
| "walk_loop (Suc n) pagetable va alloc s =
     (let pte = pagetable + 8 * PX (Suc n) va in
      if ld64 (mem s) pte AND PTE_V \<noteq> 0
      then walk_loop n (PTE2PA (ld64 (mem s) pte)) va alloc s
      else if \<not> alloc then (0, s)
      else let (pg, s1) = kalloc s in
           if pg = 0 then (0, s1)
           else let s2 = s1\<lparr>mem := memset (mem s1) pg 0 4096\<rparr>;
                    s3 = s2\<lparr>mem := st64 (mem s2) pte (PA2PTE pg OR PTE_V)\<rparr>
                in walk_loop n pg va alloc s3)"

definition walk :: "uint64 \<Rightarrow> uint64 \<Rightarrow> bool \<Rightarrow> 'a kmem_scheme \<Rightarrow> (uint64 \<times> 'a kmem_scheme) kres" where
  "walk pagetable va alloc s =
     (if MAXVA \<le> va then Panic ''walk'' else Ret (walk_loop 2 pagetable va alloc s))"

definition walkaddr :: "uint64 \<Rightarrow> uint64 \<Rightarrow> 'a kmem_scheme \<Rightarrow> uint64 kres" where
  "walkaddr pagetable va s =
     (if MAXVA \<le> va then Ret 0
      else kbind (walk pagetable va False s) (\<lambda>(pte, s).
        if pte = 0 then Ret 0
        else let e = ld64 (mem s) pte in
          if e AND PTE_V = 0 then Ret 0
          else if e AND PTE_U = 0 then Ret 0
          else Ret (PTE2PA e)))"

definition ismapped :: "uint64 \<Rightarrow> uint64 \<Rightarrow> 'a kmem_scheme \<Rightarrow> bool kres" where
  "ismapped pagetable va s =
     kbind (walk pagetable va False s) (\<lambda>(pte, s).
       Ret (pte \<noteq> 0 \<and> ld64 (mem s) pte AND PTE_V \<noteq> 0))"

section \<open>Creating mappings\<close>

text \<open>
  The loop of \<^verbatim>\<open>mappages\<close> has no bound of its own: it stops at \<open>last\<close>, on
  a failed allocation, or in the panic of \<^verbatim>\<open>walk\<close> once \<open>a\<close> passes
  \<^verbatim>\<open>MAXVA\<close>; the last is what makes it terminate for every argument.
\<close>

lemma below_MAXVA_step:
  "a < MAXVA \<Longrightarrow> unat MAXVA - unat (a + PGSIZE) < unat MAXVA - unat a"
proof -
  assume lt: "a < MAXVA"
  then have u: "unat a < 0x4000000000" by (simp add: layout_values word_less_nat_alt)
  then have "unat (a + PGSIZE) = unat a + 4096"
    by (subst unat_add_lt) (auto simp: PGSIZE_def)
  with lt show ?thesis by (simp add: word_less_nat_alt)
qed

function mappages_loop ::
  "uint64 \<Rightarrow> uint64 \<Rightarrow> uint64 \<Rightarrow> uint64 \<Rightarrow> cint \<Rightarrow> 'a kmem_scheme \<Rightarrow> (cint \<times> 'a kmem_scheme) kres" where
  "mappages_loop pagetable a final pa perm s =
     (case walk pagetable a True s of
        Ret (pte, s1) \<Rightarrow>
          if pte = 0 then Ret (-1, s1)
          else if ld64 (mem s1) pte AND PTE_V \<noteq> 0 then Panic ''mappages: remap''
          else let s2 = s1\<lparr>mem := st64 (mem s1) pte (PA2PTE pa OR scast perm OR PTE_V)\<rparr> in
            if a = final then Ret (0, s2)
            else mappages_loop pagetable (a + PGSIZE) final (pa + PGSIZE) perm s2
      | Panic m \<Rightarrow> Panic m
      | Block c \<Rightarrow> Block c)"
  by pat_completeness auto
termination
  by (relation "measure (\<lambda>(pagetable, a, final, pa, perm, s). unat MAXVA - unat a)")
    (auto simp: walk_def below_MAXVA_step split: if_splits)

declare mappages_loop.simps [simp del]

definition mappages ::
  "uint64 \<Rightarrow> uint64 \<Rightarrow> uint64 \<Rightarrow> uint64 \<Rightarrow> cint \<Rightarrow> 'a kmem_scheme \<Rightarrow> (cint \<times> 'a kmem_scheme) kres" where
  "mappages pagetable va size1 pa perm s =
     (if va mod PGSIZE \<noteq> 0 then Panic ''mappages: va not aligned''
      else if size1 mod PGSIZE \<noteq> 0 then Panic ''mappages: size not aligned''
      else if size1 = 0 then Panic ''mappages: size''
      else mappages_loop pagetable va (va + size1 - PGSIZE) pa perm s)"

definition uvmcreate :: "'a kmem_scheme \<Rightarrow> uint64 \<times> 'a kmem_scheme" where
  "uvmcreate s =
     (let (pagetable, s1) = kalloc s in
      if pagetable = 0 then (0, s1)
      else (pagetable, s1\<lparr>mem := memset (mem s1) pagetable 0 4096\<rparr>))"

definition kvmmap ::
  "uint64 \<Rightarrow> uint64 \<Rightarrow> uint64 \<Rightarrow> uint64 \<Rightarrow> cint \<Rightarrow> 'a kmem_scheme \<Rightarrow> 'a kmem_scheme kres" where
  "kvmmap kpgtbl va pa sz perm s =
     kbind (mappages kpgtbl va sz pa perm s) (\<lambda>(r, s1).
       if r \<noteq> 0 then Panic ''kvmmap'' else Ret s1)"

section \<open>Removing mappings\<close>

function uvmunmap_loop ::
  "uint64 \<Rightarrow> uint64 \<Rightarrow> uint64 \<Rightarrow> uint64 \<Rightarrow> bool \<Rightarrow> 'a kmem_scheme \<Rightarrow> 'a kmem_scheme kres" where
  "uvmunmap_loop kend pagetable a lim do_free s =
     (if a < lim then
        case walk pagetable a False s of
          Ret (pte, s1) \<Rightarrow>
            if pte = 0 \<or> ld64 (mem s1) pte AND PTE_V = 0
            then uvmunmap_loop kend pagetable (a + PGSIZE) lim do_free s1
            else (case (if do_free then kfree kend (PTE2PA (ld64 (mem s1) pte)) s1 else Ret s1) of
                    Ret s2 \<Rightarrow>
                      uvmunmap_loop kend pagetable (a + PGSIZE) lim do_free
                        (s2\<lparr>mem := st64 (mem s2) pte 0\<rparr>)
                  | Panic m \<Rightarrow> Panic m
                  | Block c \<Rightarrow> Block c)
        | Panic m \<Rightarrow> Panic m
        | Block c \<Rightarrow> Block c
      else Ret s)"
  by pat_completeness auto
termination
  by (relation "measure (\<lambda>(kend, pagetable, a, lim, do_free, s). unat MAXVA - unat a)")
    (auto simp: walk_def below_MAXVA_step split: if_splits)

declare uvmunmap_loop.simps [simp del]

definition uvmunmap ::
  "uint64 \<Rightarrow> uint64 \<Rightarrow> uint64 \<Rightarrow> uint64 \<Rightarrow> bool \<Rightarrow> 'a kmem_scheme \<Rightarrow> 'a kmem_scheme kres" where
  "uvmunmap kend pagetable va npages do_free s =
     (if va mod PGSIZE \<noteq> 0 then Panic ''uvmunmap: not aligned''
      else uvmunmap_loop kend pagetable va (va + npages * PGSIZE) do_free s)"

text \<open>The number of pages goes through a C \<^verbatim>\<open>int\<close> on its way to \<^verbatim>\<open>uvmunmap\<close>.\<close>

definition uvmdealloc ::
  "uint64 \<Rightarrow> uint64 \<Rightarrow> uint64 \<Rightarrow> uint64 \<Rightarrow> 'a kmem_scheme \<Rightarrow> (uint64 \<times> 'a kmem_scheme) kres" where
  "uvmdealloc kend pagetable oldsz newsz s =
     (if oldsz \<le> newsz then Ret (oldsz, s)
      else if PGROUNDUP newsz < PGROUNDUP oldsz then
        let npages = ucast ((PGROUNDUP oldsz - PGROUNDUP newsz) div PGSIZE) :: cint in
        kbind (uvmunmap kend pagetable (PGROUNDUP newsz) (scast npages) True s) (\<lambda>s1.
          Ret (newsz, s1))
      else Ret (newsz, s))"

section \<open>Growing, copying and freeing user memory\<close>

lemma mappages_RetD: "mappages pagetable va sz pa perm s = Ret r \<Longrightarrow> va < MAXVA"
  by (auto simp: mappages_def mappages_loop.simps [of _ va] walk_def not_le split: if_splits)

function uvmalloc_loop ::
  "uint64 \<Rightarrow> uint64 \<Rightarrow> uint64 \<Rightarrow> uint64 \<Rightarrow> uint64 \<Rightarrow> cint \<Rightarrow> 'a kmem_scheme
     \<Rightarrow> (uint64 \<times> 'a kmem_scheme) kres" where
  "uvmalloc_loop kend pagetable a oldsz newsz xperm s =
     (if a < newsz then
        let (pg, s1) = kalloc s in
        if pg = 0 then kbind (uvmdealloc kend pagetable a oldsz s1) (\<lambda>(_, s2). Ret (0, s2))
        else let s2 = s1\<lparr>mem := memset (mem s1) pg 0 4096\<rparr> in
          case mappages pagetable a PGSIZE pg (ucast (PTE_R OR PTE_U) OR xperm) s2 of
            Ret (r, s3) \<Rightarrow>
              if r \<noteq> 0 then
                kbind (kfree kend pg s3) (\<lambda>s4.
                kbind (uvmdealloc kend pagetable a oldsz s4) (\<lambda>(_, s5). Ret (0, s5)))
              else uvmalloc_loop kend pagetable (a + PGSIZE) oldsz newsz xperm s3
          | Panic m \<Rightarrow> Panic m
          | Block c \<Rightarrow> Block c
      else Ret (newsz, s))"
  by pat_completeness auto
termination
  by (relation "measure (\<lambda>(kend, pagetable, a, oldsz, newsz, xperm, s). unat MAXVA - unat a)")
    (auto dest!: mappages_RetD intro: below_MAXVA_step)

declare uvmalloc_loop.simps [simp del]

definition uvmalloc ::
  "uint64 \<Rightarrow> uint64 \<Rightarrow> uint64 \<Rightarrow> uint64 \<Rightarrow> cint \<Rightarrow> 'a kmem_scheme
     \<Rightarrow> (uint64 \<times> 'a kmem_scheme) kres" where
  "uvmalloc kend pagetable oldsz newsz xperm s =
     (if newsz < oldsz then Ret (oldsz, s)
      else let oldsz' = PGROUNDUP oldsz
           in uvmalloc_loop kend pagetable oldsz' oldsz' newsz xperm s)"

text \<open>
  \<^verbatim>\<open>freewalk\<close> recurses as deep as the table is; in C a cyclic table would
  overflow the one-page kernel stack into its guard page, which the model
  renders as a panic after \<open>STACK_FRAMES\<close> nested calls.  Sv39 tables need three.
\<close>

definition STACK_FRAMES :: nat where "STACK_FRAMES = 64"

fun freewalk_loop ::
  "(uint64 \<Rightarrow> 'a kmem_scheme \<Rightarrow> 'a kmem_scheme kres) \<Rightarrow> uint64 \<Rightarrow> nat list \<Rightarrow> 'a kmem_scheme
     \<Rightarrow> 'a kmem_scheme kres" where
  "freewalk_loop down pagetable [] s = Ret s"
| "freewalk_loop down pagetable (i # is) s =
     (let pte = ld64 (mem s) (pagetable + 8 * of_nat i) in
      if pte AND PTE_V \<noteq> 0 \<and> pte AND (PTE_R OR PTE_W OR PTE_X) = 0 then
        kbind (down (PTE2PA pte) s) (\<lambda>s1.
          freewalk_loop down pagetable is
            (s1\<lparr>mem := st64 (mem s1) (pagetable + 8 * of_nat i) 0\<rparr>))
      else if pte AND PTE_V \<noteq> 0 then Panic ''freewalk: leaf''
      else freewalk_loop down pagetable is s)"

fun freewalk :: "nat \<Rightarrow> uint64 \<Rightarrow> uint64 \<Rightarrow> 'a kmem_scheme \<Rightarrow> 'a kmem_scheme kres" where
  "freewalk 0 kend pagetable s = Panic ''kernel stack overflow''"
| "freewalk (Suc d) kend pagetable s =
     kbind (freewalk_loop (freewalk d kend) pagetable [0..<512] s) (\<lambda>s1. kfree kend pagetable s1)"

definition uvmfree :: "uint64 \<Rightarrow> uint64 \<Rightarrow> uint64 \<Rightarrow> 'a kmem_scheme \<Rightarrow> 'a kmem_scheme kres" where
  "uvmfree kend pagetable sz s =
     kbind (if 0 < sz then uvmunmap kend pagetable 0 (PGROUNDUP sz div PGSIZE) True s else Ret s)
       (\<lambda>s1. freewalk STACK_FRAMES kend pagetable s1)"

function uvmcopy_loop ::
  "uint64 \<Rightarrow> uint64 \<Rightarrow> uint64 \<Rightarrow> uint64 \<Rightarrow> uint64 \<Rightarrow> 'a kmem_scheme
     \<Rightarrow> (cint \<times> 'a kmem_scheme) kres" where
  "uvmcopy_loop kend old new i sz s =
     (if i < sz then
        case walk old i False s of
          Ret (pte, s0) \<Rightarrow>
            if pte = 0 \<or> ld64 (mem s0) pte AND PTE_V = 0
            then uvmcopy_loop kend old new (i + PGSIZE) sz s0
            else let pa = PTE2PA (ld64 (mem s0) pte);
                     flags = ucast (PTE_FLAGS (ld64 (mem s0) pte)) :: uint;
                     (pg, s1) = kalloc s0 in
              if pg = 0 then
                kbind (uvmunmap kend new 0 (i div PGSIZE) True s1) (\<lambda>s2. Ret (-1, s2))
              else let s2 = s1\<lparr>mem := memmove (mem s1) pg pa 4096\<rparr> in
                case mappages new i PGSIZE pg flags s2 of
                  Ret (r, s3) \<Rightarrow>
                    if r \<noteq> 0 then
                      kbind (kfree kend pg s3) (\<lambda>s4.
                      kbind (uvmunmap kend new 0 (i div PGSIZE) True s4) (\<lambda>s5. Ret (-1, s5)))
                    else uvmcopy_loop kend old new (i + PGSIZE) sz s3
                | Panic m \<Rightarrow> Panic m
                | Block c \<Rightarrow> Block c
        | Panic m \<Rightarrow> Panic m
        | Block c \<Rightarrow> Block c
      else Ret (0, s))"
  by pat_completeness auto
termination
  by (relation "measure (\<lambda>(kend, old, new, i, sz, s). unat MAXVA - unat i)")
    (auto simp: walk_def below_MAXVA_step split: if_splits)

declare uvmcopy_loop.simps [simp del]

definition uvmcopy ::
  "uint64 \<Rightarrow> uint64 \<Rightarrow> uint64 \<Rightarrow> uint64 \<Rightarrow> 'a kmem_scheme \<Rightarrow> (cint \<times> 'a kmem_scheme) kres" where
  "uvmcopy kend old new sz s = uvmcopy_loop kend old new 0 sz s"

definition uvmclear :: "uint64 \<Rightarrow> uint64 \<Rightarrow> 'a kmem_scheme \<Rightarrow> 'a kmem_scheme kres" where
  "uvmclear pagetable va s =
     kbind (walk pagetable va False s) (\<lambda>(pte, s).
       if pte = 0 then Panic ''uvmclear''
       else Ret (s\<lparr>mem := st64 (mem s) pte (ld64 (mem s) pte AND NOT PTE_U)\<rparr>))"

section \<open>Lazy allocation and copies between kernel and user space\<close>

text \<open>
  \<^verbatim>\<open>vmfault\<close> reads the size and the page table of \<^verbatim>\<open>myproc()\<close>; they
  are the arguments \<open>psz\<close> and \<open>ppt\<close> here and in the two copy routines that call it.
\<close>

definition vmfault ::
  "uint64 \<Rightarrow> uint64 \<Rightarrow> uint64 \<Rightarrow> uint64 \<Rightarrow> uint64 \<Rightarrow> 'a kmem_scheme
     \<Rightarrow> (uint64 \<times> 'a kmem_scheme) kres" where
  "vmfault kend psz ppt pagetable va s =
     (if psz \<le> va then Ret (0, s)
      else let va = PGROUNDDOWN va in
        kbind (ismapped pagetable va s) (\<lambda>mapped.
          if mapped then Ret (0, s)
          else let (pg, s1) = kalloc s in
            if pg = 0 then Ret (0, s1)
            else let s2 = s1\<lparr>mem := memset (mem s1) pg 0 4096\<rparr> in
              kbind (mappages ppt va PGSIZE pg (ucast (PTE_W OR PTE_U OR PTE_R)) s2) (\<lambda>(r, s3).
                if r \<noteq> 0 then kbind (kfree kend pg s3) (\<lambda>s4. Ret (0, s4))
                else Ret (pg, s3))))"

text \<open>The physical address behind a user page, faulting it in when it is missing.\<close>

definition user_page ::
  "uint64 \<Rightarrow> uint64 \<Rightarrow> uint64 \<Rightarrow> uint64 \<Rightarrow> uint64 \<Rightarrow> 'a kmem_scheme
     \<Rightarrow> (uint64 \<times> 'a kmem_scheme) kres" where
  "user_page kend psz ppt pagetable va0 s =
     kbind (walkaddr pagetable va0 s) (\<lambda>pa0.
       if pa0 = 0 then vmfault kend psz ppt pagetable va0 s else Ret (pa0, s))"

text \<open>How many bytes are left in the page that holds an address.\<close>

definition page_rest :: "uint64 \<Rightarrow> nat" where
  "page_rest a = unat (PGSIZE - (a - PGROUNDDOWN a))"

lemma page_offset: "unat (a - PGROUNDDOWN a) = unat a mod 4096"
  using PGROUNDDOWN_le [of a] by (simp add: unat_sub unat_PGROUNDDOWN)

lemma page_rest_eq: "page_rest a = 4096 - unat a mod 4096"
proof -
  have "unat (a - PGROUNDDOWN a) < 4096" by (simp add: page_offset)
  then have "a - PGROUNDDOWN a \<le> PGSIZE" by (simp add: word_le_nat_alt PGSIZE_def)
  then show ?thesis by (simp add: page_rest_def unat_sub page_offset) (simp add: PGSIZE_def)
qed

lemma page_rest_pos [simp]: "0 < page_rest a"
  by (simp add: page_rest_eq)

function copyout ::
  "uint64 \<Rightarrow> uint64 \<Rightarrow> uint64 \<Rightarrow> uint64 \<Rightarrow> uint64 \<Rightarrow> uchar list \<Rightarrow> 'a kmem_scheme
     \<Rightarrow> (cint \<times> 'a kmem_scheme) kres" where
  "copyout kend psz ppt pagetable dstva src s =
     (if src = [] then Ret (0, s)
      else let va0 = PGROUNDDOWN dstva in
        if MAXVA \<le> va0 then Ret (-1, s)
        else case user_page kend psz ppt pagetable va0 s of
          Ret (pa0, s1) \<Rightarrow>
            if pa0 = 0 then Ret (-1, s1)
            else (case walk pagetable va0 False s1 of
                Ret (pte, s2) \<Rightarrow>
                  if pte = 0 then Panic ''kerneltrap''
                  else if ld64 (mem s2) pte AND PTE_W = 0 then Ret (-1, s2)
                  else let n = min (page_rest dstva) (length src);
                           s3 = s2\<lparr>mem := put_bytes (mem s2) (pa0 + (dstva - va0)) (take n src)\<rparr>
                       in copyout kend psz ppt pagetable (va0 + PGSIZE) (drop n src) s3
              | Panic m \<Rightarrow> Panic m
              | Block c \<Rightarrow> Block c)
        | Panic m \<Rightarrow> Panic m
        | Block c \<Rightarrow> Block c)"
  by pat_completeness auto
termination
  by (relation "measure (\<lambda>(kend, psz, ppt, pagetable, dstva, src, s). length src)") auto

declare copyout.simps [simp del]

text \<open>The bytes that reach the kernel's buffer are part of the result, also on failure.\<close>

function copyin ::
  "uint64 \<Rightarrow> uint64 \<Rightarrow> uint64 \<Rightarrow> uint64 \<Rightarrow> uint64 \<Rightarrow> nat \<Rightarrow> 'a kmem_scheme
     \<Rightarrow> (cint \<times> uchar list \<times> 'a kmem_scheme) kres" where
  "copyin kend psz ppt pagetable srcva len s =
     (if len = 0 then Ret (0, [], s)
      else let va0 = PGROUNDDOWN srcva in
        case user_page kend psz ppt pagetable va0 s of
          Ret (pa0, s1) \<Rightarrow>
            if pa0 = 0 then Ret (-1, [], s1)
            else let n = min (page_rest srcva) len;
                     bs = get_bytes (mem s1) (pa0 + (srcva - va0)) n in
              (case copyin kend psz ppt pagetable (va0 + PGSIZE) (len - n) s1 of
                 Ret (r, cs, s2) \<Rightarrow> Ret (r, bs @ cs, s2)
               | Panic m \<Rightarrow> Panic m
               | Block c \<Rightarrow> Block c)
        | Panic m \<Rightarrow> Panic m
        | Block c \<Rightarrow> Block c)"
  by pat_completeness auto
termination
  by (relation "measure (\<lambda>(kend, psz, ppt, pagetable, srcva, len, s). len)") auto

declare copyin.simps [simp del]

text \<open>The inner loop of \<^verbatim>\<open>copyinstr\<close>: bytes up to and including a NUL, at most \<open>n\<close>.\<close>

fun copy_until_nul :: "mem \<Rightarrow> uint64 \<Rightarrow> nat \<Rightarrow> uchar list \<times> bool" where
  "copy_until_nul m p 0 = ([], False)"
| "copy_until_nul m p (Suc n) =
     (if m p = 0 then ([0], True)
      else let (bs, got_null) = copy_until_nul m (p + 1) n in (m p # bs, got_null))"

function copyinstr :: "uint64 \<Rightarrow> uint64 \<Rightarrow> nat \<Rightarrow> 'a kmem_scheme \<Rightarrow> (cint \<times> uchar list) kres" where
  "copyinstr pagetable srcva maxlen s =
     (if maxlen = 0 then Ret (-1, [])
      else let va0 = PGROUNDDOWN srcva in
        case walkaddr pagetable va0 s of
          Ret pa0 \<Rightarrow>
            if pa0 = 0 then Ret (-1, [])
            else let n = min (page_rest srcva) maxlen;
                     (bs, got_null) = copy_until_nul (mem s) (pa0 + (srcva - va0)) n in
              if got_null then Ret (0, bs)
              else (case copyinstr pagetable (va0 + PGSIZE) (maxlen - n) s of
                      Ret (r, cs) \<Rightarrow> Ret (r, bs @ cs)
                    | Panic m \<Rightarrow> Panic m
                    | Block c \<Rightarrow> Block c)
        | Panic m \<Rightarrow> Panic m
        | Block c \<Rightarrow> Block c)"
  by pat_completeness auto
termination
  by (relation "measure (\<lambda>(pagetable, srcva, maxlen, s). maxlen)") auto

declare copyinstr.simps [simp del]

section \<open>The kernel's own page table\<close>

text \<open>The linker symbols \<^verbatim>\<open>etext\<close> and \<^verbatim>\<open>trampoline\<close> are arguments.\<close>

fun proc_mapstacks_loop :: "nat list \<Rightarrow> uint64 \<Rightarrow> 'a kmem_scheme \<Rightarrow> 'a kmem_scheme kres" where
  "proc_mapstacks_loop [] kpgtbl s = Ret s"
| "proc_mapstacks_loop (i # is) kpgtbl s =
     (let (pa, s1) = kalloc s in
      if pa = 0 then Panic ''kalloc''
      else kbind (kvmmap kpgtbl (KSTACK i) pa PGSIZE (ucast (PTE_R OR PTE_W)) s1)
        (\<lambda>s2. proc_mapstacks_loop is kpgtbl s2))"

definition proc_mapstacks :: "uint64 \<Rightarrow> 'a kmem_scheme \<Rightarrow> 'a kmem_scheme kres" where
  "proc_mapstacks kpgtbl s = proc_mapstacks_loop [0..<NPROC] kpgtbl s"

definition kvmmake ::
  "uint64 \<Rightarrow> uint64 \<Rightarrow> 'a kmem_scheme \<Rightarrow> (uint64 \<times> 'a kmem_scheme) kres" where
  "kvmmake etext trampoline s0 =
     (let (kpgtbl, s) = kalloc s0;
          s = s\<lparr>mem := memset (mem s) kpgtbl 0 4096\<rparr>;
          RW = ucast (PTE_R OR PTE_W); RX = ucast (PTE_R OR PTE_X) in
      kbind (kvmmap kpgtbl UART0 UART0 PGSIZE RW s) (\<lambda>s.
      kbind (kvmmap kpgtbl VIRTIO0 VIRTIO0 PGSIZE RW s) (\<lambda>s.
      kbind (kvmmap kpgtbl PLIC PLIC 0x4000000 RW s) (\<lambda>s.
      kbind (kvmmap kpgtbl KERNBASE KERNBASE (etext - KERNBASE) RX s) (\<lambda>s.
      kbind (kvmmap kpgtbl etext etext (PHYSTOP - etext) RW s) (\<lambda>s.
      kbind (kvmmap kpgtbl TRAMPOLINE trampoline PGSIZE RX s) (\<lambda>s.
      kbind (proc_mapstacks kpgtbl s) (\<lambda>s. Ret (kpgtbl, s)))))))))"

section \<open>What these routines leave alone\<close>

text \<open>
  Every routine of this theory changes nothing of the kernel's state but the
  memory and the free list; the facts are collected in \<open>only_kmem\<close>.
\<close>

named_theorems only_kmem_rules

lemma kalloc_only [only_kmem_rules]: "kalloc s = (p, s') \<Longrightarrow> only_kmem s s'"
  by (auto simp: kalloc_def Let_def split: if_splits)

lemma kfree_only [only_kmem_rules]: "kfree kend p s = Ret s' \<Longrightarrow> only_kmem s s'"
  by (auto simp: kfree_def Let_def split: if_splits)

lemma only_kmem_mem_trans: "only_kmem s t \<Longrightarrow> only_kmem s (t\<lparr>mem := m\<rparr>)"
  by (rule only_kmem_trans [OF _ only_kmem_memI])

lemma only_kmem_mem_before: "only_kmem (s\<lparr>mem := m\<rparr>) t \<Longrightarrow> only_kmem s t"
  by (rule only_kmem_trans [OF only_kmem_memI])

lemma walk_loop_only: "walk_loop n t va alloc s = (a, s') \<Longrightarrow> only_kmem s s'"
proof (induction n arbitrary: t s)
  case 0
  then show ?case by auto
next
  case (Suc n)
  define pte where "pte = t + 8 * PX (Suc n) va"
  obtain pg s1 where k: "kalloc s = (pg, s1)" by (cases "kalloc s")
  define m3 where "m3 = st64 (memset (mem s1) pg 0 4096) pte (PA2PTE pg OR PTE_V)"
  have o: "only_kmem s s1" "only_kmem s (s1\<lparr>mem := m3\<rparr>)"
    using kalloc_only [OF k] only_kmem_mem_trans by auto
  consider "walk_loop n (PTE2PA (ld64 (mem s) pte)) va alloc s = (a, s')" | "s' = s" | "s' = s1"
    | "walk_loop n pg va alloc (s1\<lparr>mem := m3\<rparr>) = (a, s')"
    using Suc.prems k by (auto simp: Let_def m3_def pte_def split: if_splits)
  then show ?case by cases (use Suc.IH o in \<open>auto intro: only_kmem_trans\<close>)
qed

lemma walk_only [only_kmem_rules]: "walk t va alloc s = Ret (a, s') \<Longrightarrow> only_kmem s s'"
  by (auto simp: walk_def walk_loop_only split: if_splits)

lemma mappages_loop_only: "mappages_loop t a l pa perm s = Ret (r, s') \<Longrightarrow> only_kmem s s'"
proof (induction t a l pa perm s rule: mappages_loop.induct)
  case (1 t a l pa perm s)
  obtain pte s1 where w: "walk t a True s = Ret (pte, s1)"
    using 1(2) by (subst (asm) mappages_loop.simps) (auto split: kres.splits)
  then have o: "only_kmem s s1" by (rule walk_only)
  define s2 where "s2 = s1\<lparr>mem := st64 (mem s1) pte (PA2PTE pa OR scast perm OR PTE_V)\<rparr>"
  have o2: "only_kmem s s2" unfolding s2_def using o by (rule only_kmem_mem_trans)
  have "mappages_loop t (a + PGSIZE) l (pa + PGSIZE) perm s2 = Ret (r, s') \<Longrightarrow> only_kmem s2 s'"
    if "pte \<noteq> 0" "ld64 (mem s1) pte AND PTE_V = 0" "a \<noteq> l"
    using 1(1) [OF w refl _ _ s2_def] that by blast
  then show ?case using 1(2) w o o2
    by (subst (asm) mappages_loop.simps)
      (auto simp: Let_def s2_def [symmetric] split: if_splits intro: only_kmem_trans)
qed

lemma mappages_only [only_kmem_rules]: "mappages t va sz pa perm s = Ret (r, s') \<Longrightarrow> only_kmem s s'"
  by (auto simp: mappages_def mappages_loop_only split: if_splits)

lemma uvmcreate_only [only_kmem_rules]: "uvmcreate s = (t, s') \<Longrightarrow> only_kmem s s'"
  by (auto simp: uvmcreate_def Let_def split: if_splits prod.splits
      dest!: kalloc_only intro: only_kmem_mem_trans)

lemma uvmunmap_loop_only: "uvmunmap_loop kend t a l fr s = Ret s' \<Longrightarrow> only_kmem s s'"
proof (induction kend t a l fr s rule: uvmunmap_loop.induct)
  case (1 kend t a l fr s)
  show ?case
  proof (cases "a < l")
    case False
    then show ?thesis using 1(3) by (subst (asm) uvmunmap_loop.simps) simp
  next
    case True
    obtain pte s1 where w: "walk t a False s = Ret (pte, s1)"
      using 1(3) True by (subst (asm) uvmunmap_loop.simps) (auto split: kres.splits)
    then have o: "only_kmem s s1" by (rule walk_only)
    show ?thesis
    proof (cases "pte = 0 \<or> ld64 (mem s1) pte AND PTE_V = 0")
      case None: True
      then have "uvmunmap_loop kend t (a + PGSIZE) l fr s1 = Ret s'"
        using 1(3) True w by (subst (asm) uvmunmap_loop.simps) simp
      then show ?thesis using 1(1) [OF True w refl None] o by (blast intro: only_kmem_trans)
    next
      case False
      obtain s2 where k: "(if fr then kfree kend (PTE2PA (ld64 (mem s1) pte)) s1 else Ret s1) = Ret s2"
        using 1(3) True w False by (subst (asm) uvmunmap_loop.simps) (auto split: kres.splits)
      then have o2: "only_kmem s s2" using o by (auto split: if_splits dest: kfree_only intro: only_kmem_trans)
      have "uvmunmap_loop kend t (a + PGSIZE) l fr (s2\<lparr>mem := st64 (mem s2) pte 0\<rparr>) = Ret s'"
        using 1(3) True w False k by (subst (asm) uvmunmap_loop.simps) simp
      then show ?thesis using 1(2) [OF True w refl False k] o2
        by (blast dest: only_kmem_mem_before intro: only_kmem_trans)
    qed
  qed
qed

lemma uvmunmap_only [only_kmem_rules]: "uvmunmap kend t va n fr s = Ret s' \<Longrightarrow> only_kmem s s'"
  by (auto simp: uvmunmap_def uvmunmap_loop_only split: if_splits)

lemma uvmdealloc_only [only_kmem_rules]: "uvmdealloc kend t x n s = Ret (r, s') \<Longrightarrow> only_kmem s s'"
  by (auto simp: uvmdealloc_def Let_def uvmunmap_only split: if_splits)

lemma uvmalloc_loop_only: "uvmalloc_loop kend t a x n perm s = Ret (r, s') \<Longrightarrow> only_kmem s s'"
proof (induction kend t a x n perm s rule: uvmalloc_loop.induct)
  case (1 kend t a x n perm s)
  obtain pg s1 where k: "kalloc s = (pg, s1)" by (cases "kalloc s")
  define s2 where "s2 = s1\<lparr>mem := memset (mem s1) pg 0 4096\<rparr>"
  let ?map = "mappages t a PGSIZE pg (ucast (PTE_R OR PTE_U) OR perm) s2"
  have o: "only_kmem s s1" "only_kmem s s2"
    using kalloc_only [OF k] only_kmem_mem_trans by (auto simp: s2_def)
  have rec: "uvmalloc_loop kend t (a + PGSIZE) x n perm s3 = Ret (r, s') \<Longrightarrow> only_kmem s3 s'"
    if "a < n" "pg \<noteq> 0" "?map = Ret (0, s3)" for s3
    using 1(1) [OF that(1) k [symmetric] refl that(2) s2_def that(3) refl] by blast
  consider "s' = s" | s2' where "uvmdealloc kend t a x s1 = Ret (s2', s')"
    | r' s3 where "?map = Ret (r', s3)" "r' \<noteq> 0"
        "kbind (kfree kend pg s3) (\<lambda>s4. uvmdealloc kend t a x s4) = Ret (r, s') \<or>
         (\<exists>s4 z. kfree kend pg s3 = Ret s4 \<and> uvmdealloc kend t a x s4 = Ret (z, s'))"
    | s3 where "a < n" "pg \<noteq> 0" "?map = Ret (0, s3)"
        "uvmalloc_loop kend t (a + PGSIZE) x n perm s3 = Ret (r, s')"
    using 1(2) k by (subst (asm) uvmalloc_loop.simps)
      (auto simp: s2_def [symmetric] Let_def kbind_eq_Ret_iff split: if_splits kres.splits)
  then show ?case
  proof cases
    case 3
    then show ?thesis using o by (auto simp: kbind_eq_Ret_iff dest!: only_kmem_rules intro: only_kmem_trans)
  next
    case 4
    then show ?thesis using o rec by (blast dest: mappages_only intro: only_kmem_trans)
  qed (use o in \<open>auto dest: uvmdealloc_only intro: only_kmem_trans\<close>)
qed

lemma uvmalloc_only [only_kmem_rules]: "uvmalloc kend t x n perm s = Ret (r, s') \<Longrightarrow> only_kmem s s'"
  by (auto simp: uvmalloc_def Let_def uvmalloc_loop_only split: if_splits)

lemma freewalk_loop_only:
  assumes "\<And>c s s'. down c s = Ret s' \<Longrightarrow> only_kmem s s'"
  shows "freewalk_loop down t is s = Ret s' \<Longrightarrow> only_kmem s s'"
proof (induction "is" arbitrary: s)
  case Nil
  then show ?case by simp
next
  case (Cons i "is")
  then show ?case
    by (auto simp: Let_def kbind_eq_Ret_iff split: if_splits
        dest!: Cons.IH assms only_kmem_mem_before intro: only_kmem_trans)
qed

lemma freewalk_only [only_kmem_rules]: "freewalk d kend t s = Ret s' \<Longrightarrow> only_kmem s s'"
proof (induction d arbitrary: t s s')
  case 0
  then show ?case by simp
next
  case (Suc d)
  then obtain s1 where "freewalk_loop (freewalk d kend) t [0..<512] s = Ret s1" "kfree kend t s1 = Ret s'"
    by (auto simp: kbind_eq_Ret_iff)
  then show ?case using freewalk_loop_only [of "freewalk d kend"] Suc.IH kfree_only
    by (blast intro: only_kmem_trans)
qed

lemma uvmfree_only [only_kmem_rules]: "uvmfree kend t sz s = Ret s' \<Longrightarrow> only_kmem s s'"
  by (auto simp: uvmfree_def kbind_eq_Ret_iff split: if_splits
      dest!: uvmunmap_only freewalk_only intro: only_kmem_trans)

lemma vmfault_only [only_kmem_rules]: "vmfault kend psz ppt t va s = Ret (r, s') \<Longrightarrow> only_kmem s s'"
proof -
  assume v: "vmfault kend psz ppt t va s = Ret (r, s')"
  obtain pg s1 where k: "kalloc s = (pg, s1)" by (cases "kalloc s")
  define s2 where "s2 = s1\<lparr>mem := memset (mem s1) pg 0 4096\<rparr>"
  have o: "only_kmem s s1" "only_kmem s s2"
    using kalloc_only [OF k] only_kmem_mem_trans by (auto simp: s2_def)
  have "s' = s \<or> s' = s1 \<or> (\<exists>x r2 s3. mappages ppt x PGSIZE pg (ucast (PTE_W OR PTE_U OR PTE_R)) s2 = Ret (r2, s3)
      \<and> (s' = s3 \<or> kfree kend pg s3 = Ret s'))"
    using v k by (auto simp: vmfault_def Let_def kbind_eq_Ret_iff s2_def [symmetric] split: if_splits)
  then show ?thesis using o by (auto dest!: mappages_only kfree_only intro: only_kmem_trans)
qed

lemma user_page_only [only_kmem_rules]:
  "user_page kend psz ppt t va s = Ret (r, s') \<Longrightarrow> only_kmem s s'"
  by (auto simp: user_page_def kbind_eq_Ret_iff dest: vmfault_only split: if_splits)

lemma copyout_only [only_kmem_rules]:
  "copyout kend psz ppt t va src s = Ret (r, s') \<Longrightarrow> only_kmem s s'"
proof (induction kend psz ppt t va src s rule: copyout.induct)
  case (1 kend psz ppt t va src s)
  define v where "v = PGROUNDDOWN va"
  define n where "n = min (page_rest va) (length src)"
  let ?put = "\<lambda>pa0 s2. s2\<lparr>mem := put_bytes (mem s2) (pa0 + (va - v)) (take n src)\<rparr>"
  have "s' = s \<or> (\<exists>pa0 s1. user_page kend psz ppt t v s = Ret (pa0, s1) \<and> (s' = s1 \<or>
      (\<exists>pte s2. src \<noteq> [] \<and> \<not> MAXVA \<le> v \<and> pa0 \<noteq> 0 \<and> walk t v False s1 = Ret (pte, s2) \<and> (s' = s2 \<or>
        pte \<noteq> 0 \<and> ld64 (mem s2) pte AND PTE_W \<noteq> 0 \<and>
        copyout kend psz ppt t (v + PGSIZE) (drop n src) (?put pa0 s2) = Ret (r, s')))))"
    using 1(2) by (subst (asm) copyout.simps)
      (auto simp: Let_def v_def n_def split: if_splits kres.splits)
  then consider "s' = s" | pa0 s1 where "user_page kend psz ppt t v s = Ret (pa0, s1)" "s' = s1"
    | pa0 s1 pte s2 where "user_page kend psz ppt t v s = Ret (pa0, s1)" "walk t v False s1 = Ret (pte, s2)" "s' = s2"
    | pa0 s1 pte s2 where "src \<noteq> []" "\<not> MAXVA \<le> v" "user_page kend psz ppt t v s = Ret (pa0, s1)" "pa0 \<noteq> 0"
      "walk t v False s1 = Ret (pte, s2)" "pte \<noteq> 0" "ld64 (mem s2) pte AND PTE_W \<noteq> 0"
      "copyout kend psz ppt t (v + PGSIZE) (drop n src) (?put pa0 s2) = Ret (r, s')" by blast
  then show ?case
  proof cases
    case 4
    have "only_kmem (?put pa0 s2) s'"
      using 1(1) [OF 4(1) v_def 4(2) 4(3) refl 4(4) 4(5) refl 4(6,7) n_def refl] 4(8) by blast
    then show ?thesis using 4(3,5)
      by (blast dest: user_page_only walk_only only_kmem_mem_before intro: only_kmem_trans)
  qed (auto dest!: user_page_only walk_only intro: only_kmem_trans)
qed

lemma copyin_only [only_kmem_rules]:
  "copyin kend psz ppt t va len s = Ret (r, bs, s') \<Longrightarrow> only_kmem s s'"
proof (induction kend psz ppt t va len s arbitrary: r bs rule: copyin.induct)
  case (1 kend psz ppt t va len s)
  define v where "v = PGROUNDDOWN va"
  define n where "n = min (page_rest va) len"
  consider "s' = s" | pa0 where "user_page kend psz ppt t v s = Ret (pa0, s')"
    | pa0 s1 cs where "len \<noteq> 0" "user_page kend psz ppt t v s = Ret (pa0, s1)" "pa0 \<noteq> 0"
      "copyin kend psz ppt t (v + PGSIZE) (len - n) s1 = Ret (r, cs, s')"
    using 1(2) by (subst (asm) copyin.simps)
      (auto simp: Let_def v_def n_def split: if_splits kres.splits)
  then show ?case
  proof cases
    case 3
    have "only_kmem s1 s'" using 1(1) [OF 3(1) v_def 3(2) refl 3(3) n_def refl] 3(4) by blast
    then show ?thesis using 3(2) by (blast dest: user_page_only intro: only_kmem_trans)
  qed (auto dest: user_page_only)
qed

lemma uvmcopy_loop_only: "uvmcopy_loop kend old new i sz s = Ret (r, s') \<Longrightarrow> only_kmem s s'"
proof (induction kend old new i sz s rule: uvmcopy_loop.induct)
  case (1 kend old new i sz s)
  show ?case
  proof (cases "i < sz")
    case False
    then show ?thesis using 1(3) by (subst (asm) uvmcopy_loop.simps) simp
  next
    case True
    obtain pte s0 where w: "walk old i False s = Ret (pte, s0)"
      using 1(3) True by (subst (asm) uvmcopy_loop.simps) (auto split: kres.splits)
    then have o: "only_kmem s s0" by (rule walk_only)
    show ?thesis
    proof (cases "pte = 0 \<or> ld64 (mem s0) pte AND PTE_V = 0")
      case skip: True
      then have "uvmcopy_loop kend old new (i + PGSIZE) sz s0 = Ret (r, s')"
        using 1(3) True w by (subst (asm) uvmcopy_loop.simps) simp
      then show ?thesis using 1(1) [OF True w refl skip] o by (blast intro: only_kmem_trans)
    next
      case False
      define pa where "pa = PTE2PA (ld64 (mem s0) pte)"
      define flags where "flags = (ucast (PTE_FLAGS (ld64 (mem s0) pte)) :: uint)"
      obtain pg s1 where k: "kalloc s0 = (pg, s1)" by (cases "kalloc s0")
      define s2 where "s2 = s1\<lparr>mem := memmove (mem s1) pg pa 4096\<rparr>"
      have o2: "only_kmem s s1" "only_kmem s s2"
        using only_kmem_trans [OF o kalloc_only [OF k]] only_kmem_mem_trans by (auto simp: s2_def)
      let ?map = "mappages new i PGSIZE pg flags s2"
      consider "uvmunmap kend new 0 (i div PGSIZE) True s1 = Ret s'"
        | r' s3 s4 where "?map = Ret (r', s3)" "kfree kend pg s3 = Ret s4"
            "uvmunmap kend new 0 (i div PGSIZE) True s4 = Ret s'"
        | s3 where "pg \<noteq> 0" "?map = Ret (0, s3)" "uvmcopy_loop kend old new (i + PGSIZE) sz s3 = Ret (r, s')"
        using 1(3) True w False k by (subst (asm) uvmcopy_loop.simps)
          (auto simp: Let_def kbind_eq_Ret_iff pa_def [symmetric] flags_def [symmetric] s2_def [symmetric]
            split: if_splits kres.splits)
      then show ?thesis
      proof cases
        case 1
        then show ?thesis using o2 by (blast dest: uvmunmap_only intro: only_kmem_trans)
      next
        case 2
        then show ?thesis using o2 by (blast dest: mappages_only kfree_only uvmunmap_only intro: only_kmem_trans)
      next
        case 3
        have "only_kmem s3 s'"
          using "1.IH"(2) [OF True w refl False pa_def flags_def k [symmetric] refl 3(1) s2_def 3(2) refl] 3(3)
          by blast
        then show ?thesis using 3(2) o2 by (blast dest: mappages_only intro: only_kmem_trans)
      qed
    qed
  qed
qed

lemma uvmcopy_only [only_kmem_rules]: "uvmcopy kend old new sz s = Ret (r, s') \<Longrightarrow> only_kmem s s'"
  by (simp add: uvmcopy_def uvmcopy_loop_only)

lemma uvmclear_only [only_kmem_rules]: "uvmclear t va s = Ret s' \<Longrightarrow> only_kmem s s'"
  by (auto simp: uvmclear_def kbind_eq_Ret_iff split: if_splits dest!: walk_only intro: only_kmem_mem_trans)

end
