(* ===== verification/PageTable.thy ===== *)
theory PageTable
  imports Vm "HOL-Library.Sublist"
begin

text \<open>
  Correctness of the page-table code.  A table is addressed by the path of
  indices that leads to it from the root; \<open>tab\<close> follows a path, so that a path of
  three indices ends in the frame of a mapped page.  \<open>leaf\<close> is the abstract
  content of a page table: the entry of each virtual page, 0 where there is none.
\<close>

unbundle bit_operations_syntax

section \<open>Paths through a page table\<close>

definition entry :: "mem \<Rightarrow> uint64 \<Rightarrow> nat \<Rightarrow> uint64" where
  "entry m t i = ld64 m (t + 8 * of_nat i)"

definition pstep :: "mem \<Rightarrow> uint64 \<Rightarrow> nat \<Rightarrow> uint64 option" where
  "pstep m t i = (if entry m t i AND PTE_V \<noteq> 0 then Some (PTE2PA (entry m t i)) else None)"

fun tab :: "mem \<Rightarrow> uint64 \<Rightarrow> nat list \<Rightarrow> uint64 option" where
  "tab m t [] = Some t"
| "tab m t (i # p) = (case pstep m t i of None \<Rightarrow> None | Some c \<Rightarrow> tab m c p)"

definition paths :: "nat \<Rightarrow> nat list set" where
  "paths k = {p. length p \<le> k \<and> (\<forall>i \<in> set p. i < 512)}"

definition tables :: "mem \<Rightarrow> uint64 \<Rightarrow> uint64 set" where
  "tables m root = {t. \<exists>p \<in> paths 2. tab m root p = Some t}"

fun idxs :: "nat \<Rightarrow> uint64 \<Rightarrow> nat list" where
  "idxs 0 va = []"
| "idxs (Suc n) va = unat (PX (Suc n) va) # idxs n va"

definition pte_at :: "mem \<Rightarrow> uint64 \<Rightarrow> uint64 \<Rightarrow> uint64 option" where
  "pte_at m root va = map_option (\<lambda>t. t + 8 * PX 0 va) (tab m root (idxs 2 va))"

definition leaf :: "mem \<Rightarrow> uint64 \<Rightarrow> uint64 \<Rightarrow> uint64" where
  "leaf m root va = (case pte_at m root va of None \<Rightarrow> 0 | Some a \<Rightarrow> ld64 m a)"

text \<open>
  Well-formedness: every table is a page of RAM that is not free, and no page
  is a table twice.
\<close>

definition pt_wf :: "uint64 \<Rightarrow> mem \<Rightarrow> uint64 \<Rightarrow> uint64 set \<Rightarrow> bool" where
  "pt_wf kend m root F \<longleftrightarrow>
     (\<forall>p \<in> paths 2. \<forall>t. tab m root p = Some t \<longrightarrow> valid_page kend t \<and> t \<notin> F)
     \<and> (\<forall>p \<in> paths 2. \<forall>q \<in> paths 2. \<forall>t. tab m root p = Some t \<longrightarrow> tab m root q = Some t \<longrightarrow> p = q)"

lemma pt_wf_valid: "pt_wf kend m root F \<Longrightarrow> p \<in> paths 2 \<Longrightarrow> tab m root p = Some t \<Longrightarrow>
  valid_page kend t \<and> t \<notin> F"
  by (simp add: pt_wf_def)

lemma pt_wf_inj: "pt_wf kend m root F \<Longrightarrow> p \<in> paths 2 \<Longrightarrow> q \<in> paths 2 \<Longrightarrow>
  tab m root p = Some t \<Longrightarrow> tab m root q = Some t \<Longrightarrow> p = q"
  by (auto simp: pt_wf_def)

lemma paths_Nil [simp]: "[] \<in> paths k"
  by (simp add: paths_def)

lemma paths_snoc: "p @ [i] \<in> paths (Suc k) \<longleftrightarrow> p \<in> paths k \<and> i < 512"
  by (auto simp: paths_def)

lemma paths_mono: "p \<in> paths k \<Longrightarrow> k \<le> l \<Longrightarrow> p \<in> paths l"
  by (auto simp: paths_def)

lemma paths_prefix: "p @ q \<in> paths k \<Longrightarrow> p \<in> paths k"
  by (auto simp: paths_def)

lemma length_idxs [simp]: "length (idxs n va) = n"
  by (induction n) auto

lemma idxs_paths: "idxs n va \<in> paths n"
  by (induction n) (auto simp: paths_def PX_less)

lemma tab_append: "tab m t (p @ q) = (case tab m t p of None \<Rightarrow> None | Some u \<Rightarrow> tab m u q)"
  by (induction p arbitrary: t) (auto split: option.splits)

lemma tab_snoc: "tab m t (p @ [i]) = (case tab m t p of None \<Rightarrow> None | Some u \<Rightarrow> pstep m u i)"
  by (auto simp: tab_append split: option.splits)

text \<open>Cells of tables: two cells of table pages are the same only in the same table.\<close>

lemma unat_cell: "i < 512 \<Longrightarrow> unat (of_nat (8 * i) :: uint64) = 8 * i"
  by (rule of_nat_lt_pow) simp

lemma cell_mod8: "page_aligned t \<Longrightarrow> i < 512 \<Longrightarrow> unat (t + 8 * of_nat i) mod 8 = 0"
proof -
  assume t: "page_aligned t" and i: "i < 512"
  obtain q where q: "unat t = 4096 * q" "q < 2 ^ 52" using t by (rule page_alignedE)
  have u: "unat (8 * of_nat i :: uint64) = 8 * i" using unat_cell [OF i] by simp
  have "unat (t + 8 * of_nat i) = unat t + 8 * i"
    using q i u by (subst unat_add_lt) auto
  then show ?thesis using q by simp
qed

lemma cell_inj:
  assumes "page_aligned t" "page_aligned t'" "i < 512" "j < 512"
  shows "t + 8 * of_nat i = t' + 8 * of_nat j \<longleftrightarrow> t = t' \<and> i = j"
proof
  assume e: "t + 8 * of_nat i = t' + 8 * of_nat j"
  have "in_page t (t + of_nat (8 * i))" "in_page t' (t' + of_nat (8 * j))"
    using assms by (simp_all only: in_page_offset)
  then have tt: "t = t'" using pages_apart [of t' t "t + 8 * of_nat i"] assms e by auto
  with e have "of_nat (8 * i) = (of_nat (8 * j) :: uint64)" by simp
  moreover have "unat (of_nat (8 * i) :: uint64) = 8 * i" "unat (of_nat (8 * j) :: uint64) = 8 * j"
    using assms unat_cell by blast+
  ultimately have "8 * i = 8 * j" by metis
  with tt show "t = t' \<and> i = j" by simp
qed simp

lemma entry_st64:
  assumes "page_aligned t" "page_aligned t'" "i < 512" "j < 512"
  shows "entry (st64 m (t + 8 * of_nat i) v) t' j = (if t = t' \<and> i = j then v else entry m t' j)"
  using assms cell_inj [OF assms] by (simp add: entry_def ld64_st64_aligned cell_mod8)

lemma entry_same_outside:
  assumes "same_outside P m m'" "\<And>p. p \<in> P \<Longrightarrow> page_aligned p" "page_aligned t" "t \<notin> P" "i < 512"
  shows "entry m' t i = entry m t i"
  using ld64_same_outside [OF assms(1,2,3,4), of "8 * i"] assms(5) by (simp add: entry_def)

text \<open>
  When two memories agree on every entry of the tables but the one at index
  \<open>i\<close> of the table at \<open>p0\<close>, they agree on every path that does not go through it.
\<close>

lemma tab_agree:
  assumes "\<And>q j t. q \<in> paths 2 \<Longrightarrow> j < 512 \<Longrightarrow> tab m root q = Some t \<Longrightarrow> (q, j) \<noteq> (p0, i) \<Longrightarrow>
      entry m' t j = entry m t j"
    and "p \<in> paths 3" and "\<not> prefix (p0 @ [i]) p"
  shows "tab m' root p = tab m root p"
  using assms(2,3)
proof (induction p rule: rev_induct)
  case Nil
  then show ?case by simp
next
  case (snoc j p)
  have p: "p \<in> paths 2" "j < 512" using snoc.prems(1) by (auto simp: paths_snoc numeral_3_eq_3 numeral_2_eq_2)
  have "\<not> prefix (p0 @ [i]) p" and ne: "(p, j) \<noteq> (p0, i)" using snoc.prems(2) by auto
  then have "tab m' root p = tab m root p" using snoc.IH p(1) by (simp add: paths_def)
  then show ?case using assms(1) [OF p _ ne] by (auto simp: tab_snoc pstep_def split: option.splits)
qed

section \<open>Adding a page-table page\<close>

text \<open>
  The step of \<^verbatim>\<open>walk\<close> that links a zeroed page \<open>g\<close> below the table at
  path \<open>p0\<close>, at an index that was empty.
\<close>

lemma entry_zeroed:
  assumes "\<And>x. in_page g x \<Longrightarrow> m x = 0" and "j < 512"
  shows "entry m g j = 0"
proof -
  have "ld64 m (g + 8 * of_nat j) = ld64 (\<lambda>_. 0) (g + 8 * of_nat j)"
  proof (rule ldbytes_cong)
    fix i :: nat
    assume "i < 8"
    then have "in_page g (g + of_nat (8 * j + i))" using assms(2) by (intro in_page_offset) simp
    then show "m (g + 8 * of_nat j + of_nat i) = 0" using assms(1) by (simp add: algebra_simps)
  qed
  also have "\<dots> = 0" by (rule bit_word_eqI) (simp add: bit_ldbytes)
  finally show ?thesis by (simp add: entry_def)
qed

lemma memset_page: "in_page g x \<Longrightarrow> memset m g c 4096 x = ucast c"
  by (simp add: memset_apply in_page_def)

lemma table_link:
  assumes wf: "pt_wf kend m root F" and p0: "p0 \<in> paths 1" "tab m root p0 = Some t0"
    and i: "i < 512" and empty: "pstep m t0 i = None"
    and g: "valid_page kend g" "g \<in> F" and m1: "same_outside {g} m m1"
    and m'_def: "m' = st64 (memset m1 g 0 4096) (t0 + 8 * of_nat i) (PA2PTE g OR PTE_V)"
  shows link_entry: "\<And>q j t. q \<in> paths 2 \<Longrightarrow> j < 512 \<Longrightarrow> tab m root q = Some t \<Longrightarrow>
        (q, j) \<noteq> (p0, i) \<Longrightarrow> entry m' t j = entry m t j"
    and link_new: "pstep m' t0 i = Some g"
    and link_zero: "\<And>j. j < 512 \<Longrightarrow> entry m' g j = 0"
proof -
  have p02: "p0 \<in> paths 2" using p0(1) by (rule paths_mono) simp
  have v0: "valid_page kend t0" "t0 \<noteq> g"
    using pt_wf_valid [OF wf p02 p0(2)] g(2) by auto
  have al: "page_aligned t0" "page_aligned g" using v0 g by (auto simp: valid_page_def)
  define z where "z = memset m1 g 0 4096"
  have so: "same_outside {g} m z"
    using same_outside_trans [OF m1 same_outside_memset [of g m1 0]] by (simp add: z_def)
  have st: "entry m' t j = (if t0 = t \<and> i = j then PA2PTE g OR PTE_V else entry z t j)"
    if "page_aligned t" "j < 512" for t j
    using entry_st64 [OF al(1) that(1) i that(2)] by (simp add: m'_def z_def)
  show "entry m' t j = entry m t j"
    if "q \<in> paths 2" "j < 512" "tab m root q = Some t" "(q, j) \<noteq> (p0, i)" for q j t
  proof -
    have t: "valid_page kend t" "t \<notin> F" using pt_wf_valid [OF wf that(1,3)] by auto
    have "\<not> (t0 = t \<and> i = j)" using pt_wf_inj [OF wf p02 that(1) p0(2)] that(3,4) by auto
    then have "entry m' t j = entry z t j" using st [of t j] t that(2) by (auto simp: valid_page_def)
    also have "\<dots> = entry m t j"
      using entry_same_outside [OF so _ _ _ that(2), of t] t al g(2) by (auto simp: valid_page_def)
    finally show ?thesis .
  qed
  have "g < 2 ^ 56"
    using g(1) by (simp add: valid_page_def layout_values word_less_nat_alt)
  then have "PTE2PA (PA2PTE g OR PTE_V) = g"
    using al(2) by (intro PTE2PA_PA2PTE) (auto simp: PTE_V_def)
  moreover have "(PA2PTE g OR PTE_V) AND PTE_V \<noteq> 0"
    by (simp add: PTE_V_def bit.conj_disj_distrib2)
  ultimately show "pstep m' t0 i = Some g" using st [OF al(1) i] by (simp add: pstep_def)
  show "entry m' g j = 0" if "j < 512" for j
  proof -
    have "entry z g j = 0"
      by (rule entry_zeroed [OF _ that]) (simp add: z_def memset_page)
    then show ?thesis using st [OF al(2) that] v0(2) by simp
  qed
qed

text \<open>The paths of the new table tree, and that it is well formed.\<close>

lemma link_tab:
  assumes p0: "p0 \<in> paths 1" "tab m root p0 = Some t0" and empty: "pstep m t0 i = None"
    and agree: "\<And>q j t. q \<in> paths 2 \<Longrightarrow> j < 512 \<Longrightarrow> tab m root q = Some t \<Longrightarrow>
        (q, j) \<noteq> (p0, i) \<Longrightarrow> entry m' t j = entry m t j"
    and new: "pstep m' t0 i = Some g" and zero: "\<And>j. j < 512 \<Longrightarrow> entry m' g j = 0"
    and p: "p \<in> paths 2"
  shows "tab m' root p = (if p = p0 @ [i] then Some g else tab m root p)"
    and "prefix (p0 @ [i]) p \<Longrightarrow> tab m root p = None"
proof -
  have base: "tab m' root q = tab m root q" if "q \<in> paths 2" "\<not> prefix (p0 @ [i]) q" for q
    by (rule tab_agree [OF agree]) (use that in \<open>auto intro: paths_mono\<close>)
  have p02: "p0 \<in> paths 2" using p0(1) by (rule paths_mono) simp
  have "\<not> prefix (p0 @ [i]) p0" by (auto dest: prefix_length_le)
  then have b0: "tab m' root p0 = Some t0" using base [OF p02] p0(2) by simp
  show none: "tab m root p = None" if "prefix (p0 @ [i]) p"
    using that p0(2) empty by (auto simp: prefix_def tab_append)
  show "tab m' root p = (if p = p0 @ [i] then Some g else tab m root p)"
  proof (cases "prefix (p0 @ [i]) p")
    case True
    then obtain r where r: "p = p0 @ i # r" by (auto simp: prefix_def)
    show ?thesis
    proof (cases r)
      case Nil
      then show ?thesis using r b0 new by (simp add: tab_snoc)
    next
      case (Cons j r')
      then have "j < 512" using p r by (auto simp: paths_def)
      then have "pstep m' g j = None" using zero by (simp add: pstep_def)
      then show ?thesis using Cons r b0 new none [OF True] by (simp add: tab_append)
    qed
  qed (use base [OF p] in auto)
qed

lemma link_wf:
  assumes wf: "pt_wf kend m root F" and g: "valid_page kend g" "g \<in> F"
    and tb: "\<And>p. p \<in> paths 2 \<Longrightarrow> tab m' root p = (if p = r then Some g else tab m root p)"
  shows "pt_wf kend m' root (F - {g})"
  unfolding pt_wf_def
proof (intro conjI ballI allI impI)
  fix p t
  assume p: "p \<in> paths 2" and t: "tab m' root p = Some t"
  then show "valid_page kend t" "t \<notin> F - {g}"
    using tb [OF p] g pt_wf_valid [OF wf p, of t] by (auto split: if_splits)
next
  fix p q t
  assume p: "p \<in> paths 2" and q: "q \<in> paths 2"
    and t: "tab m' root p = Some t" "tab m' root q = Some t"
  then show "p = q"
    using tb [OF p] tb [OF q] g pt_wf_valid [OF wf p, of t] pt_wf_valid [OF wf q, of t]
      pt_wf_inj [OF wf p q, of t] by (auto split: if_splits)
qed

section \<open>walk\<close>

definition vm_ok :: "uint64 \<Rightarrow> 'a kmem_scheme \<Rightarrow> uint64 \<Rightarrow> uint64 list \<Rightarrow> bool" where
  "vm_ok kend s root ps \<longleftrightarrow> kmem_inv kend s ps \<and> pt_wf kend (mem s) root (set ps)"

text \<open>
  \<open>vm_grows\<close> relates two states between which page-table pages may have been
  added: pages come only from the front of the free list, and only they and the
  existing tables are written.
\<close>

definition vm_grows ::
  "uint64 \<Rightarrow> uint64 \<Rightarrow> 'a kmem_scheme \<Rightarrow> uint64 list \<Rightarrow> 'a kmem_scheme \<Rightarrow> uint64 list \<Rightarrow> bool" where
  "vm_grows kend root s ps s' ps' \<longleftrightarrow> vm_ok kend s' root ps' \<and> suffix ps' ps \<and> only_kmem s s'
     \<and> same_outside (set ps \<union> tables (mem s) root) (mem s) (mem s')
     \<and> tables (mem s') root \<subseteq> tables (mem s) root \<union> set ps"

lemma vm_grows_refl: "vm_ok kend s root ps \<Longrightarrow> vm_grows kend root s ps s ps"
  by (simp add: vm_grows_def)

lemma vm_grows_trans:
  assumes "vm_grows kend root s ps t qs" and "vm_grows kend root t qs u rs"
  shows "vm_grows kend root s ps u rs"
proof -
  have sub: "set qs \<subseteq> set ps" using assms(1) by (auto simp: vm_grows_def dest: set_mono_suffix)
  have "same_outside (set ps \<union> tables (mem s) root) (mem t) (mem u)"
    using assms sub by (auto simp: vm_grows_def elim!: same_outside_mono)
  then have "same_outside (set ps \<union> tables (mem s) root) (mem s) (mem u)"
    using assms(1) same_outside_trans by (fastforce simp: vm_grows_def)
  then show ?thesis using assms sub only_kmem_trans [of s t u]
    by (auto simp: vm_grows_def intro: suffix_order.trans)
qed

lemma tables_valid: "pt_wf kend m root F \<Longrightarrow> t \<in> tables m root \<Longrightarrow> valid_page kend t \<and> t \<notin> F"
  by (auto simp: tables_def dest: pt_wf_valid)

lemma walk_loop_lookup:
  "walk_loop n t va False s =
     ((case tab (mem s) t (idxs n va) of None \<Rightarrow> 0 | Some u \<Rightarrow> u + 8 * PX 0 va), s)"
  by (induction n arbitrary: t) (auto simp: pstep_def entry_def Let_def)

lemma walk_lookup:
  "va < MAXVA \<Longrightarrow>
   walk root va False s = Ret ((case pte_at (mem s) root va of None \<Rightarrow> 0 | Some a \<Rightarrow> a), s)"
  by (simp add: walk_def walk_loop_lookup pte_at_def not_le split: option.splits)

lemma leaf_entry:
  "leaf m root va = (case tab m root (idxs 2 va) of None \<Rightarrow> 0 | Some t \<Rightarrow> entry m t (unat (PX 0 va)))"
  by (auto simp: leaf_def pte_at_def entry_def split: option.splits)

lemma cell_nonzero: "valid_page kend t \<Longrightarrow> t + 8 * PX 0 va \<noteq> 0"
proof
  assume v: "valid_page kend t" and z: "t + 8 * PX 0 va = 0"
  have al: "page_aligned t" "page_aligned 0" "t \<noteq> 0"
    using v by (auto simp: valid_page_def page_aligned_def)
  have "t + 8 * of_nat (unat (PX 0 va)) = 0 + 8 * of_nat 0" using z by simp
  then show False using cell_inj [OF al(1,2) PX_less, of 0 0 va] al(3) by auto
qed

lemma link_leaf:
  assumes tb: "\<And>p. p \<in> paths 2 \<Longrightarrow> tab m' root p = (if p = p0 @ [i] then Some g else tab m root p)"
    and none: "tab m root (p0 @ [i]) = None" and p0: "p0 \<in> paths 1"
    and agree: "\<And>q j t. q \<in> paths 2 \<Longrightarrow> j < 512 \<Longrightarrow> tab m root q = Some t \<Longrightarrow>
        (q, j) \<noteq> (p0, i) \<Longrightarrow> entry m' t j = entry m t j"
    and zero: "\<And>j. j < 512 \<Longrightarrow> entry m' g j = 0"
  shows "leaf m' root va = leaf m root va"
proof (cases "idxs 2 va = p0 @ [i]")
  case True
  then have "tab m' root (p0 @ [i]) = Some g" using tb [OF idxs_paths [of 2 va]] by simp
  then show ?thesis using True none zero [OF PX_less] by (simp add: leaf_entry)
next
  case False
  have "length p0 \<le> 1" using p0 by (simp add: paths_def)
  then have "idxs 2 va \<noteq> p0" using length_idxs [of 2 va] by auto
  then have "entry m' t (unat (PX 0 va)) = entry m t (unat (PX 0 va))"
    if "tab m root (idxs 2 va) = Some t" for t
    using agree [OF idxs_paths PX_less that] by simp
  then show ?thesis using tb [of "idxs 2 va"] False
    by (auto simp: leaf_entry idxs_paths split: option.splits)
qed

text \<open>One level of \<^verbatim>\<open>walk\<close> that has to allocate.\<close>

lemma walk_grow:
  assumes ok: "vm_ok kend s root (g # ps)" and p0: "p0 \<in> paths 1" "tab (mem s) root p0 = Some t0"
    and i: "i < 512" and empty: "pstep (mem s) t0 i = None"
    and k: "kalloc s = (g, s1)" "kmem_inv kend s1 ps" "same_outside {g} (mem s) (mem s1)"
      "only_kmem s s1"
    and s3: "s3 = s1\<lparr>mem := st64 (memset (mem s1) g 0 4096) (t0 + 8 * of_nat i) (PA2PTE g OR PTE_V)\<rparr>"
  shows "vm_grows kend root s (g # ps) s3 ps"
    and "tab (mem s3) root (p0 @ [i]) = Some g"
    and "leaf (mem s3) root va = leaf (mem s) root va"
proof -
  define m where "m = mem s"
  define z where "z = memset (mem s1) g 0 4096"
  define m' where "m' = mem s3"
  have m': "m' = st64 z (t0 + 8 * of_nat i) (PA2PTE g OR PTE_V)" by (simp add: m'_def s3 z_def)
  have wf: "pt_wf kend m root (set (g # ps))" and g: "valid_page kend g" "g \<notin> set ps"
    using ok by (auto simp: vm_ok_def kmem_inv_def m_def)
  have p0': "tab m root p0 = Some t0" and empty': "pstep m t0 i = None"
    and so0: "same_outside {g} m (mem s1)" and gin: "g \<in> set (g # ps)"
    using p0(2) empty k(3) by (auto simp: m_def)
  note hyps = wf p0(1) p0' i empty' g(1) gin so0 m' [unfolded z_def]
  have agree: "entry m' t j = entry m t j"
    if "q \<in> paths 2" "j < 512" "tab m root q = Some t" "(q, j) \<noteq> (p0, i)" for q j t
    by (rule table_link(1) [OF hyps that])
  have new: "pstep m' t0 i = Some g" by (rule table_link(2) [OF hyps])
  have zero: "entry m' g j = 0" if "j < 512" for j by (rule table_link(3) [OF hyps that])
  have p1: "p0 @ [i] \<in> paths 2" using p0(1) i by (simp add: numeral_2_eq_2 paths_snoc)
  have p02: "p0 \<in> paths 2" using p0(1) by (rule paths_mono) simp
  have tbe: "tab m' root p = (if p = p0 @ [i] then Some g else tab m root p)" if "p \<in> paths 2" for p
    by (rule link_tab(1) [OF p0(1) p0' empty' agree new zero that])
  have none: "tab m root (p0 @ [i]) = None"
    by (rule link_tab(2) [OF p0(1) p0' empty' agree new zero p1 prefix_order.refl])
  show "tab (mem s3) root (p0 @ [i]) = Some g" using tbe [OF p1] by (simp add: m'_def)
  show "leaf (mem s3) root va = leaf (mem s) root va"
    using link_leaf [OF tbe none p0(1) agree zero] by (simp add: m'_def m_def)
  have t0: "valid_page kend t0" "t0 \<notin> set ps" "t0 \<in> tables m root"
    using pt_wf_valid [OF wf p02] p0 p02 by (auto simp: m_def tables_def)
  have "same_outside {t0} z m'"
    using same_outside_st64 [of "8 * i" t0 z] i by (simp add: m')
  moreover have "same_outside {g} (mem s1) z" by (simp add: z_def same_outside_memset)
  ultimately have so1: "same_outside {g, t0} (mem s1) m'"
    using same_outside_trans [of "{g}" "mem s1" z "{t0}" m'] by (simp add: insert_commute)
  then have so: "same_outside {g, t0} m m'"
    using same_outside_trans [OF k(3) so1] by (simp add: m_def insert_commute)
  have "kmem_inv kend (s1\<lparr>mem := m'\<rparr>) ps"
    by (rule kmem_inv_same_outside [OF k(2) so1]) (use g t0 in \<open>auto simp: valid_page_def\<close>)
  moreover have "pt_wf kend m' root (set ps)"
    using link_wf [OF wf g(1) _ tbe] g(2) by simp
  moreover have "s3 = s1\<lparr>mem := m'\<rparr>" by (simp add: m' s3 z_def)
  moreover have "tables m' root \<subseteq> insert g (tables m root)"
    using tbe by (auto simp: tables_def split: if_splits)
  ultimately show "vm_grows kend root s (g # ps) s3 ps"
    using so t0 k(4) only_kmem_trans [OF k(4) only_kmem_memI]
    by (auto simp: vm_grows_def vm_ok_def m_def suffix_ConsI elim!: same_outside_mono)
qed

text \<open>
  \<^verbatim>\<open>walk\<close> with allocation: it returns the entry's address unless memory runs
  out, and never changes what is mapped.
\<close>

lemma walk_loop_alloc:
  assumes "vm_ok kend s root ps" and "tab (mem s) root p = Some t" and "p @ idxs n va = idxs 2 va"
  shows "\<exists>a s' ps'. walk_loop n t va True s = (a, s') \<and> vm_grows kend root s ps s' ps'
      \<and> (\<forall>v. leaf (mem s') root v = leaf (mem s) root v)
      \<and> (if a = 0 then ps' = [] else pte_at (mem s') root va = Some a)"
  using assms
proof (induction n arbitrary: p t s ps)
  case 0
  have "valid_page kend t"
    using pt_wf_valid [of kend "mem s" root "set ps" p t] 0 idxs_paths [of 2 va] by (auto simp: vm_ok_def)
  then show ?case using 0 cell_nonzero [of kend t va] vm_grows_refl [OF 0(1)]
    by (auto simp: pte_at_def)
next
  case (Suc n)
  let ?i = "unat (PX (Suc n) va)"
  have plen: "p @ ?i # idxs n va \<in> paths 2" using Suc.prems(3) idxs_paths [of 2 va] by simp
  have p1: "p \<in> paths 1" using plen by (auto simp: paths_def)
  have pi: "(p @ [?i]) @ idxs n va = idxs 2 va" using Suc.prems(3) by simp
  show ?case
  proof (cases "pstep (mem s) t ?i")
    case (Some c)
    then have "tab (mem s) root (p @ [?i]) = Some c" using Suc.prems(2) by (simp add: tab_snoc)
    from Suc.IH [OF Suc.prems(1) this pi] show ?thesis
      using Some by (auto simp: pstep_def entry_def Let_def split: if_splits)
  next
    case None
    then have e: "ld64 (mem s) (t + 8 * PX (Suc n) va) AND PTE_V = 0"
      by (auto simp: pstep_def entry_def split: if_splits)
    have "kmem_inv kend s ps" using Suc.prems(1) by (simp add: vm_ok_def)
    then show ?thesis
    proof (cases rule: kalloc_cases)
      case full
      then show ?thesis using e Suc.prems(1) by (auto simp: Let_def vm_grows_refl)
    next
      case (page g qs s1)
      define s3 where "s3 = s1\<lparr>mem := st64 (memset (mem s1) g 0 4096) (t + 8 * PX (Suc n) va)
        (PA2PTE g OR PTE_V)\<rparr>"
      have "s3 = s1\<lparr>mem := st64 (memset (mem s1) g 0 4096) (t + 8 * of_nat ?i)
        (PA2PTE g OR PTE_V)\<rparr>" by (simp add: s3_def)
      note grow = walk_grow [OF Suc.prems(1) [unfolded page(1)] p1 Suc.prems(2) PX_less None
          page(2,3,4,8) this]
      have "vm_ok kend s3 root qs" using grow(1) by (simp add: vm_grows_def)
      from Suc.IH [OF this grow(2) pi] obtain a s' ps' where
        w: "walk_loop n g va True s3 = (a, s')" "vm_grows kend root s3 qs s' ps'"
          "\<forall>v. leaf (mem s') root v = leaf (mem s3) root v"
          "if a = 0 then ps' = [] else pte_at (mem s') root va = Some a" by blast
      have "walk_loop (Suc n) t va True s = (a, s')"
        using e page(2,6) w(1) by (simp add: Let_def s3_def valid_page_def)
      moreover have "vm_grows kend root s ps s' ps'"
        using vm_grows_trans [OF grow(1) w(2)] page(1) by simp
      ultimately show ?thesis using w(3,4) grow(3) by auto
    qed
  qed
qed

lemma walk_alloc:
  assumes "vm_ok kend s root ps" and "va < MAXVA"
  obtains a s' ps' where "walk root va True s = Ret (a, s')" and "vm_grows kend root s ps s' ps'"
    and "\<And>v. leaf (mem s') root v = leaf (mem s) root v"
    and "if a = 0 then ps' = [] else pte_at (mem s') root va = Some a"
proof -
  have "tab (mem s) root [] = Some root" "[] @ idxs 2 va = idxs 2 va" by simp_all
  from walk_loop_alloc [OF assms(1) this] show thesis
    using that assms(2) by (auto simp: walk_def not_le)
qed

section \<open>Writing a leaf entry\<close>

lemma pte_atD:
  assumes "pt_wf kend m root F" and "pte_at m root va = Some a"
  obtains t where "tab m root (idxs 2 va) = Some t" and "a = t + 8 * of_nat (unat (PX 0 va))"
    and "valid_page kend t" and "t \<notin> F" and "t \<in> tables m root" and "a \<noteq> 0"
proof -
  obtain t where t: "tab m root (idxs 2 va) = Some t" "a = t + 8 * PX 0 va"
    using assms(2) by (auto simp: pte_at_def)
  have v: "valid_page kend t" "t \<notin> F" using pt_wf_valid [OF assms(1) idxs_paths t(1)] by auto
  have "t \<in> tables m root" using t(1) idxs_paths [of 2 va] by (auto simp: tables_def)
  then show thesis using that [of t] t v cell_nonzero [OF v(1)] by simp
qed

lemma write_tab:
  assumes wf: "pt_wf kend m root F" and a: "pte_at m root va = Some a"
  shows "p \<in> paths 2 \<Longrightarrow> tab (st64 m a v) root p = tab m root p"
    and "page_aligned va \<Longrightarrow> va < MAXVA \<Longrightarrow> page_aligned w \<Longrightarrow> w < MAXVA \<Longrightarrow>
      leaf (st64 m a v) root w = (if w = va then v else leaf m root w)"
proof -
  obtain t where t: "tab m root (idxs 2 va) = Some t" "a = t + 8 * of_nat (unat (PX 0 va))"
    "valid_page kend t" using pte_atD [OF wf a] by blast
  have al: "page_aligned t" using t(3) by (simp add: valid_page_def)
  have e: "entry (st64 m a v) u j = (if (q, j) = (idxs 2 va, unat (PX 0 va)) then v else entry m u j)"
    if q: "q \<in> paths 2" and j: "j < 512" and u: "tab m root q = Some u" for q j u
  proof -
    have "page_aligned u" using pt_wf_valid [OF wf q u] by (simp add: valid_page_def)
    moreover have "t = u \<longleftrightarrow> q = idxs 2 va"
      using pt_wf_inj [OF wf q idxs_paths [of 2 va] u] u t(1) by auto
    ultimately show ?thesis using entry_st64 [OF al _ PX_less j, of u m 0 va v] t(2) by auto
  qed
  show tb: "tab (st64 m a v) root p = tab m root p" if "p \<in> paths 2" for p
  proof (rule tab_agree)
    show "entry (st64 m a v) u j = entry m u j"
      if "q \<in> paths 2" "j < 512" "tab m root q = Some u" "(q, j) \<noteq> (idxs 2 va, unat (PX 0 va))" for q j u
      using e [OF that(1-3)] that(4) by auto
    show "p \<in> paths 3" using that by (rule paths_mono) simp
    show "\<not> prefix (idxs 2 va @ [unat (PX 0 va)]) p"
      using that prefix_length_le [of "idxs 2 va @ [unat (PX 0 va)]" p] by (auto simp: paths_def)
  qed
  show "leaf (st64 m a v) root w = (if w = va then v else leaf m root w)"
    if al: "page_aligned va" "va < MAXVA" "page_aligned w" "w < MAXVA"
  proof -
    have key: "(idxs 2 w, unat (PX 0 w)) = (idxs 2 va, unat (PX 0 va)) \<longleftrightarrow> w = va"
    proof
      assume eq: "(idxs 2 w, unat (PX 0 w)) = (idxs 2 va, unat (PX 0 va))"
      have "PX l w = PX l va" if "l \<in> {0, 1, 2}" for l
        using that eq by (auto simp: numeral_2_eq_2 word_unat_eq_iff)
      then show "w = va" by (rule PX_inject [OF al(3,1,4,2)])
    qed simp
    show ?thesis
    proof (cases "tab m root (idxs 2 w)")
      case None
      then have "w \<noteq> va" using t(1) by auto
      then show ?thesis using None tb [OF idxs_paths [of 2 w]] by (simp add: leaf_entry)
    next
      case (Some u)
      then show ?thesis
        using e [OF idxs_paths PX_less Some] tb [OF idxs_paths [of 2 w]] key by (simp add: leaf_entry)
    qed
  qed
qed

lemma write_grows:
  assumes ok: "vm_ok kend s root ps" and a: "pte_at (mem s) root va = Some a"
  shows "vm_grows kend root s ps (s\<lparr>mem := st64 (mem s) a v\<rparr>) ps"
proof -
  have wf: "pt_wf kend (mem s) root (set ps)" and inv: "kmem_inv kend s ps"
    using ok by (auto simp: vm_ok_def)
  obtain t where t: "a = t + 8 * of_nat (unat (PX 0 va))" "valid_page kend t" "t \<notin> set ps"
    "t \<in> tables (mem s) root" using pte_atD [OF wf a] by blast
  have so: "same_outside {t} (mem s) (st64 (mem s) a v)"
    using same_outside_st64 [of "8 * unat (PX 0 va)" t "mem s" v] PX_less [of 0 va] by (simp add: t(1))
  have "kmem_inv kend (s\<lparr>mem := st64 (mem s) a v\<rparr>) ps"
    by (rule kmem_inv_same_outside [OF inv so]) (use t in \<open>auto simp: valid_page_def\<close>)
  moreover note tb = write_tab(1) [OF wf a]
  moreover have "pt_wf kend (st64 (mem s) a v) root (set ps)"
    using wf tb [of _ v] by (simp add: pt_wf_def)
  moreover have "tables (st64 (mem s) a v) root = tables (mem s) root"
    using tb [of _ v] by (auto simp: tables_def)
  ultimately show ?thesis using so t(4)
    by (auto simp: vm_grows_def vm_ok_def elim: same_outside_mono)
qed

section \<open>mappages\<close>

definition mapped :: "mem \<Rightarrow> uint64 \<Rightarrow> uint64 \<Rightarrow> bool" where
  "mapped m root va \<longleftrightarrow> leaf m root va AND PTE_V \<noteq> 0"

text \<open>The pages \<open>va, va + 4096, \<dots>\<close>, \<open>n\<close> of them.\<close>

definition page_range :: "uint64 \<Rightarrow> nat \<Rightarrow> uint64 set" where
  "page_range va n = {w. page_aligned w \<and> unat va \<le> unat w \<and> unat w < unat va + 4096 * n}"

lemma page_range_0 [simp]: "page_range va 0 = {}"
  by (auto simp: page_range_def)

lemma page_range_Suc:
  assumes "page_aligned va" and "unat va + 4096 < 2 ^ 64"
  shows "page_range va (Suc n) = insert va (page_range (va + PGSIZE) n)"
proof -
  have u: "unat (va + PGSIZE) = unat va + 4096"
    using assms(2) by (subst unat_add_lt) (auto simp: PGSIZE_def)
  obtain q where q: "unat va = 4096 * q" using assms(1) by (rule page_alignedE)
  have "w = va \<or> unat va + 4096 \<le> unat w" if w: "page_aligned w" "unat va \<le> unat w" for w
  proof -
    obtain r where r: "unat w = 4096 * r" using w(1) by (rule page_alignedE)
    show ?thesis using w(2) q r by (cases "r = q") (auto simp: word_unat_eq_iff)
  qed
  then show ?thesis using assms(1) u by (auto simp: page_range_def)
qed

text \<open>One turn of the loop of \<^verbatim>\<open>mappages\<close> at an unmapped page.\<close>

lemma map_one_page:
  assumes ok: "vm_ok kend s root ps" and al: "page_aligned a" and a: "a < MAXVA"
    and un: "\<not> mapped (mem s) root a"
  obtains (full) s1 where "walk root a True s = Ret (0, s1)" and "vm_grows kend root s ps s1 []"
  | (linked) pte s1 s2 qs where "walk root a True s = Ret (pte, s1)" and "pte \<noteq> 0"
    and "ld64 (mem s1) pte AND PTE_V = 0"
    and "s2 = s1\<lparr>mem := st64 (mem s1) pte v\<rparr>" and "vm_grows kend root s ps s2 qs"
    and "\<And>w. page_aligned w \<Longrightarrow> w < MAXVA \<Longrightarrow>
      leaf (mem s2) root w = (if w = a then v else leaf (mem s) root w)"
proof -
  obtain pte s1 qs where w: "walk root a True s = Ret (pte, s1)" "vm_grows kend root s ps s1 qs"
    "\<And>v. leaf (mem s1) root v = leaf (mem s) root v"
    "if pte = 0 then qs = [] else pte_at (mem s1) root a = Some pte"
    by (rule walk_alloc [OF ok a]) blast
  show thesis
  proof (cases "pte = 0")
    case True
    then show ?thesis using full [of s1] w by simp
  next
    case False
    then have at: "pte_at (mem s1) root a = Some pte" using w(4) by simp
    have ok1: "vm_ok kend s1 root qs" using w(2) by (simp add: vm_grows_def)
    then have wf1: "pt_wf kend (mem s1) root (set qs)" by (simp add: vm_ok_def)
    have "\<not> mapped (mem s1) root a" using un w(3) by (simp add: mapped_def)
    then have nv: "ld64 (mem s1) pte AND PTE_V = 0" using at by (simp add: mapped_def leaf_def)
    define s2 where "s2 = s1\<lparr>mem := st64 (mem s1) pte v\<rparr>"
    show ?thesis
    proof (rule linked [OF w(1) False nv s2_def])
      show "vm_grows kend root s ps s2 qs"
        using vm_grows_trans [OF w(2) write_grows [OF ok1 at]] by (simp add: s2_def)
      show "leaf (mem s2) root w = (if w = a then v else leaf (mem s) root w)"
        if "page_aligned w" "w < MAXVA" for w
        using write_tab(2) [OF wf1 at al a that] w(3) by (simp add: s2_def)
    qed
  qed
qed

text \<open>
  \<open>range_mapped\<close> is the content of the page table after a range has been mapped.
\<close>

definition range_mapped ::
  "uint64 \<Rightarrow> mem \<Rightarrow> mem \<Rightarrow> uint64 \<Rightarrow> nat \<Rightarrow> uint64 \<Rightarrow> cint \<Rightarrow> bool" where
  "range_mapped root m m' va n pa perm \<longleftrightarrow>
     (\<forall>w. page_aligned w \<longrightarrow> w < MAXVA \<longrightarrow> leaf m' root w =
        (if w \<in> page_range va n then PA2PTE (pa + (w - va)) OR scast perm OR PTE_V
         else leaf m root w))"

lemma range_mappedD: "range_mapped root m m' va n pa perm \<Longrightarrow> page_aligned w \<Longrightarrow> w < MAXVA \<Longrightarrow>
  leaf m' root w = (if w \<in> page_range va n then PA2PTE (pa + (w - va)) OR scast perm OR PTE_V
         else leaf m root w)"
  by (simp add: range_mapped_def)

text \<open>
  \<^verbatim>\<open>mappages\<close> on a range that has no mappings yet: it installs exactly the
  new entries, or it returns -1, having used up all of memory.
\<close>

lemma mappages_loop_ok:
  assumes "vm_ok kend s root ps" and "page_aligned a" and "unat a + 4096 * Suc n \<le> unat MAXVA"
    and "\<forall>w \<in> page_range a (Suc n). \<not> mapped (mem s) root w"
  shows "\<exists>r s' ps'. mappages_loop root a (a + of_nat (4096 * n)) pa perm s = Ret (r, s')
      \<and> vm_grows kend root s ps s' ps'
      \<and> (r = 0 \<and> range_mapped root (mem s) (mem s') a (Suc n) pa perm \<or> r = -1 \<and> ps' = [])"
  using assms
proof (induction n arbitrary: a pa s ps)
  case 0
  have a: "a < MAXVA" using 0(3) by (simp add: word_less_nat_alt)
  have pr: "page_range a (Suc 0) = {a}"
    using page_range_Suc [of a 0] 0(2,3) by (simp add: layout_values)
  then have "\<not> mapped (mem s) root a" using 0(4) by simp
  from 0(1,2) a this show ?case
    by (cases rule: map_one_page [where v = "PA2PTE pa OR scast perm OR PTE_V"];
        subst mappages_loop.simps) (auto simp: range_mapped_def pr)
next
  case (Suc n)
  have ma: "unat MAXVA = 0x4000000000" by (simp add: layout_values)
  have a: "a < MAXVA" using Suc.prems(3) by (simp add: word_less_nat_alt)
  have ua: "unat (a + PGSIZE) = unat a + 4096"
    using Suc.prems(3) ma by (subst unat_add_lt) (auto simp: PGSIZE_def)
  let ?b = "a + PGSIZE"
  have pr: "page_range a (Suc (Suc n)) = insert a (page_range ?b (Suc n))"
    using page_range_Suc [of a "Suc n"] Suc.prems(2,3) ma by simp
  then have "\<not> mapped (mem s) root a" using Suc.prems(4) by simp
  from Suc.prems(1,2) a this show ?case
  proof (cases rule: map_one_page [where v = "PA2PTE pa OR scast perm OR PTE_V"])
    case (full s1)
    then show ?thesis by (subst mappages_loop.simps) auto
  next
    case (linked pte s1 s2 qs)
    have an: "a \<notin> page_range ?b (Suc n)" using ua by (simp add: page_range_def)
    have in_range: "page_aligned v \<and> v < MAXVA" if "v \<in> page_range ?b (Suc n)" for v
      using that Suc.prems(3) ua by (simp add: page_range_def word_less_nat_alt)
    have "\<not> mapped (mem s2) root v" if "v \<in> page_range ?b (Suc n)" for v
      using linked(6) [of v] in_range [OF that] that an Suc.prems(4) pr by (auto simp: mapped_def)
    moreover have "vm_ok kend s2 root qs" using linked(5) by (simp add: vm_grows_def)
    moreover have "page_aligned ?b" using Suc.prems(2) ua by (simp add: page_aligned_unat)
    moreover have "unat ?b + 4096 * Suc n \<le> unat MAXVA" using Suc.prems(3) ua by simp
    ultimately obtain r s' ps' where rec: "mappages_loop root ?b (?b + of_nat (4096 * n))
          (pa + PGSIZE) perm s2 = Ret (r, s')" "vm_grows kend root s2 qs s' ps'"
      "r = 0 \<and> range_mapped root (mem s2) (mem s') ?b (Suc n) (pa + PGSIZE) perm \<or> r = -1 \<and> ps' = []"
      using Suc.IH [of s2 qs ?b "pa + PGSIZE"] by blast
    have "unat (of_nat (4096 * Suc n) :: uint64) = 4096 * Suc n"
      using Suc.prems(3) ma by (intro of_nat_lt_pow) simp
    then have ne: "a \<noteq> a + of_nat (4096 * Suc n)" by auto
    have last: "?b + of_nat (4096 * n) = a + of_nat (4096 * Suc n)" by (simp add: PGSIZE_def)
    have step: "mappages_loop root a (a + of_nat (4096 * Suc n)) pa perm s = Ret (r, s')"
      using linked(1-4) ne rec(1) [unfolded last]
      by (subst mappages_loop.simps) (simp del: of_nat_mult of_nat_Suc mult_Suc_right)
    have off: "pa + PGSIZE + (w - ?b) = pa + (w - a)" for w by simp
    have "range_mapped root (mem s) (mem s') a (Suc (Suc n)) pa perm"
      if "range_mapped root (mem s2) (mem s') ?b (Suc n) (pa + PGSIZE) perm"
      unfolding range_mapped_def using range_mappedD [OF that] linked(6) an pr off by auto
    then show ?thesis using step vm_grows_trans [OF linked(5) rec(2)] rec(3) by blast
  qed
qed

section \<open>Looking up what was mapped\<close>

lemma walkaddr_pte:
  assumes "va < MAXVA" and "pte_at (mem s) root va \<noteq> Some 0"
  shows "walkaddr root va s =
    Ret (let e = leaf (mem s) root va in
         if e AND PTE_V \<noteq> 0 \<and> e AND PTE_U \<noteq> 0 then PTE2PA e else 0)"
  using assms(1) walk_lookup [OF assms(1), of root s] assms(2)
  by (cases "pte_at (mem s) root va") (auto simp: walkaddr_def leaf_def not_le Let_def)

lemma walkaddr_cong: "mem s = mem t \<Longrightarrow> walkaddr root va s = walkaddr root va t"
  by (simp add: walkaddr_def walk_def walk_loop_lookup)

lemma vm_ok_walkaddr:
  assumes "vm_ok kend s root ps" and "va < MAXVA"
  shows "walkaddr root va s =
    Ret (let e = leaf (mem s) root va in
         if e AND PTE_V \<noteq> 0 \<and> e AND PTE_U \<noteq> 0 then PTE2PA e else 0)"
proof (rule walkaddr_pte [OF assms(2)])
  show "pte_at (mem s) root va \<noteq> Some 0"
    using pte_atD [of kend "mem s" root "set ps" va 0] assms(1) by (auto simp: vm_ok_def)
qed

text \<open>The entry that maps a frame: its address and flags can be read back.\<close>

lemma mapped_entry:
  assumes "page_aligned pa" and "pa < 2 ^ 56" and f: "scast perm OR PTE_V < (2 ^ 10 :: uint64)"
  defines "e \<equiv> PA2PTE pa OR scast (perm :: cint) OR PTE_V"
  shows "PTE2PA e = pa" and "e AND PTE_V \<noteq> 0" and "PTE_FLAGS e = scast perm OR PTE_V"
proof -
  have e: "e = PA2PTE pa OR (scast perm OR PTE_V)" by (simp add: e_def or.assoc)
  show "PTE2PA e = pa" unfolding e by (rule PTE2PA_PA2PTE [OF assms(1,2) f])
  show "PTE_FLAGS e = scast perm OR PTE_V" unfolding e by (rule PTE_FLAGS_PA2PTE [OF f])
  show "e AND PTE_V \<noteq> 0" by (simp add: e_def PTE_V_def bit.conj_disj_distrib2)
qed

lemma PTE_FLAGS_and: "(f::uint64) < 2 ^ 10 \<Longrightarrow> e AND f = PTE_FLAGS e AND f"
proof (rule bit_word_eqI)
  fix k
  assume f: "f < 2 ^ 10" and k: "k < LENGTH(64)"
  have m: "PTE_FLAGS e = e AND mask 10" by (simp add: PTE_FLAGS_def mask_eq_exp_minus_1)
  show "bit (e AND f) k = bit (PTE_FLAGS e AND f) k"
    using small_bits [OF f, of k] by (cases "k < 10") (auto simp: m bit_and_iff bit_mask_iff simp del: mask_numeral)
qed

text \<open>The size argument of one page, and the whole of \<^verbatim>\<open>mappages\<close>.\<close>

lemma mappages_ok:
  assumes "vm_ok kend s root ps" and "page_aligned va" and "unat va + 4096 * Suc n \<le> unat MAXVA"
    and "\<forall>w \<in> page_range va (Suc n). \<not> mapped (mem s) root w"
  shows "\<exists>r s' ps'. mappages root va (of_nat (4096 * Suc n)) pa perm s = Ret (r, s')
      \<and> vm_grows kend root s ps s' ps'
      \<and> (r = 0 \<and> range_mapped root (mem s) (mem s') va (Suc n) pa perm \<or> r = -1 \<and> ps' = [])"
proof -
  have "unat MAXVA = 0x4000000000" by (simp add: layout_values)
  then have u: "unat (of_nat (4096 * Suc n) :: uint64) = 4096 * Suc n"
    using assms(3) by (intro of_nat_lt_pow) simp
  have al: "page_aligned (of_nat (4096 * Suc n))" unfolding page_aligned_unat u by simp
  have nz: "of_nat (4096 * Suc n) \<noteq> (0::uint64)" using u by (metis mult_is_0 nat.simps(3) unsigned_0 zero_neq_numeral)
  have last: "va + of_nat (4096 * Suc n) - PGSIZE = va + of_nat (4096 * n)" by (simp add: PGSIZE_def)
  have "mappages root va (of_nat (4096 * Suc n)) pa perm s
      = mappages_loop root va (va + of_nat (4096 * n)) pa perm s"
    using assms(2) al nz last unfolding mappages_def page_aligned_def by (simp only: if_False simp_thms)
  then show ?thesis using mappages_loop_ok [OF assms] by metis
qed

lemma page_range_one: "page_aligned va \<Longrightarrow> va < MAXVA \<Longrightarrow> page_range va (Suc 0) = {va}"
  using page_range_Suc [of va 0] by (simp add: layout_values word_less_nat_alt)

lemma below_MAXVA_room: "page_aligned va \<Longrightarrow> va < MAXVA \<Longrightarrow> unat va + 4096 \<le> unat MAXVA"
proof -
  assume "page_aligned va" and lt: "va < MAXVA"
  then obtain q where q: "unat va = 4096 * q" by (auto elim: page_alignedE)
  have "4096 * q < 4096 * 0x4000000" using lt q by (simp add: word_less_nat_alt layout_values)
  then have "Suc q \<le> 0x4000000" by simp
  then have "4096 * Suc q \<le> 4096 * 0x4000000" by (rule mult_le_mono2)
  then show ?thesis using q by (simp add: layout_values)
qed

text \<open>One page: the case almost every caller needs.\<close>

lemma mappages_one:
  assumes "vm_ok kend s root ps" and "page_aligned va" and "va < MAXVA" and "\<not> mapped (mem s) root va"
  obtains (mapped) s' ps' where "mappages root va PGSIZE pa perm s = Ret (0, s')"
      "vm_grows kend root s ps s' ps'"
      "\<And>w. page_aligned w \<Longrightarrow> w < MAXVA \<Longrightarrow> leaf (mem s') root w =
         (if w = va then PA2PTE pa OR scast perm OR PTE_V else leaf (mem s) root w)"
  | (full) s' where "mappages root va PGSIZE pa perm s = Ret (-1, s')" "vm_grows kend root s ps s' []"
proof -
  have sz: "of_nat (4096 * Suc 0) = PGSIZE" by (simp add: PGSIZE_def)
  have room: "unat va + 4096 * Suc 0 \<le> unat MAXVA" using below_MAXVA_room [OF assms(2,3)] by simp
  have un: "\<forall>w \<in> page_range va (Suc 0). \<not> PageTable.mapped (mem s) root w"
    using assms(4) page_range_one [OF assms(2,3)] by simp
  from mappages_ok [OF assms(1,2) room un, unfolded sz, of pa perm] show thesis
    using mapped full page_range_one [OF assms(2,3)] by (auto simp: range_mapped_def)
qed

section \<open>Fresh page tables\<close>

lemma tab_empty:
  assumes "\<And>j. j < 512 \<Longrightarrow> entry m root j = 0" and "p \<in> paths 3"
  shows "tab m root p = (if p = [] then Some root else None)"
proof (cases p)
  case Nil
  then show ?thesis by simp
next
  case (Cons i q)
  then have "i < 512" using assms(2) by (simp add: paths_def)
  then have "pstep m root i = None" using assms(1) by (simp add: pstep_def)
  then show ?thesis using Cons by simp
qed

text \<open>\<^verbatim>\<open>uvmcreate\<close> gives a tree of one empty table.\<close>

lemma uvmcreate_ok:
  assumes inv: "kmem_inv kend s (p # ps)"
  obtains s' where "uvmcreate s = (p, s')" and "vm_ok kend s' p ps" and "only_kmem s s'"
    and "\<And>va. leaf (mem s') p va = 0" and "tables (mem s') p = {p}"
    and "\<And>q. q \<in> paths 3 \<Longrightarrow> tab (mem s') p q = (if q = [] then Some p else None)"
proof -
  obtain s1 where k: "kalloc s = (p, s1)" "kmem_inv kend s1 ps" "only_kmem s s1"
    using kalloc_pop [OF inv] by metis
  define s' where "s' = s1\<lparr>mem := memset (mem s1) p 0 4096\<rparr>"
  have p: "valid_page kend p" "p \<notin> set ps" "page_aligned p" "p \<noteq> 0"
    using inv by (auto simp: kmem_inv_def valid_page_def)
  have zero: "entry (mem s') p j = 0" if "j < 512" for j
    using entry_zeroed [OF _ that, of p "mem s'"] memset_page [of p] by (simp add: s'_def)
  have tb: "tab (mem s') p q = (if q = [] then Some p else None)" if "q \<in> paths 3" for q
    by (rule tab_empty [OF zero that])
  have two: "q \<in> paths 2 \<Longrightarrow> q \<in> paths 3" for q using paths_mono [of q 2 3] by simp
  have "kmem_inv kend s' ps" unfolding s'_def
    by (rule kmem_inv_same_outside [OF k(2) same_outside_memset]) (use p in auto)
  moreover have "pt_wf kend (mem s') p (set ps)"
    unfolding pt_wf_def using p tb two by (auto split: if_splits)
  ultimately have ok: "vm_ok kend s' p ps" by (simp add: vm_ok_def)
  have cr: "uvmcreate s = (p, s')" using k(1) p(4) by (simp add: uvmcreate_def s'_def)
  have tabs: "tables (mem s') p = {p}" using tb two paths_Nil by (auto simp: tables_def split: if_splits)
  have "idxs 2 va \<noteq> []" for va using length_idxs [of 2 va] by (metis list.size(3) zero_neq_numeral)
  then have lf: "leaf (mem s') p va = 0" for va
    using tb [OF two [OF idxs_paths]] by (simp add: leaf_def pte_at_def)
  show thesis
  proof (rule that [OF cr ok])
    show "only_kmem s s'" using only_kmem_trans [OF k(3) only_kmem_memI] by (simp add: s'_def)
    show "tab (mem s') p q = (if q = [] then Some p else None)" if "q \<in> paths 3" for q by (rule tb [OF that])
  qed (rule lf tabs)+
qed

text \<open>
  C12: \<^verbatim>\<open>mappages\<close> over a range of pages that has no mapping yet.  It never
  panics.  When it returns 0, the page table maps page number \<open>k\<close> of the range to
  physical page number \<open>k\<close> of the target with the requested permissions, and every
  other mapping is as before; when it returns -1, no free page is left.  Either way only free pages
  and pages of the tree itself have been written.
\<close>

theorem mappages_maps_range:
  assumes "vm_ok kend s root ps" and "page_aligned va" and "unat va + 4096 * Suc n \<le> unat MAXVA"
    and "\<forall>w \<in> page_range va (Suc n). \<not> mapped (mem s) root w"
  shows "\<exists>r s' ps'. mappages root va (of_nat (4096 * Suc n)) pa perm s = Ret (r, s')
      \<and> vm_ok kend s' root ps' \<and> same_outside (set ps \<union> tables (mem s) root) (mem s) (mem s')
      \<and> (r = 0 \<and> (\<forall>w. page_aligned w \<longrightarrow> w < MAXVA \<longrightarrow> leaf (mem s') root w =
               (if w \<in> page_range va (Suc n) then PA2PTE (pa + (w - va)) OR scast perm OR PTE_V
                else leaf (mem s) root w))
         \<or> r = -1 \<and> ps' = [])"
  using mappages_ok [OF assms, of pa perm] unfolding vm_grows_def range_mapped_def by blast

theorem mappages_maps_range_witness:
  "\<exists>s ps root r s'. vm_ok KERNBASE (s :: kmem) root ps
     \<and> mappages root 0 (of_nat (4096 * Suc 1)) 0x87000000 (ucast (PTE_R OR PTE_U)) s = Ret (r, s')"
proof -
  have "\<forall>p \<in> set [0x87000000, 0x87001000]. valid_page KERNBASE p"
    by (simp add: valid_page_def page_aligned_def layout_values PGSIZE_def KERNBASE_def)
  then obtain s0 :: kmem where s0: "kmem_inv KERNBASE s0 [0x87000000, 0x87001000]"
    using kmem_with_pages [of "[0x87000000, 0x87001000]" KERNBASE] by auto
  obtain s :: kmem where s: "vm_ok KERNBASE s 0x87000000 [0x87001000]" "\<And>va. leaf (mem s) 0x87000000 va = 0"
    by (rule uvmcreate_ok [OF s0]) blast
  have un: "\<forall>w \<in> page_range 0 (Suc 1). \<not> mapped (mem s) 0x87000000 w"
    using s(2) by (simp add: mapped_def)
  have al: "page_aligned 0" and rm: "unat 0 + 4096 * Suc 1 \<le> unat MAXVA"
    by (simp_all add: page_aligned_def layout_values)
  show ?thesis using mappages_maps_range [OF s(1) al rm un, of "0x87000000" "ucast (PTE_R OR PTE_U)"] s(1) by blast
qed

end
