(* ===== verification/UserMem.thy ===== *)
theory UserMem
  imports PageTable
begin

text \<open>
  User memory as a process sees it: \<open>umem\<close> gives the byte behind each user
  virtual address.  \<^verbatim>\<open>copyout\<close> writes and \<^verbatim>\<open>copyin\<close> reads exactly the
  addressed bytes of that view, across page boundaries.
\<close>

unbundle bit_operations_syntax

section \<open>The view of an address space\<close>

definition umem :: "mem \<Rightarrow> uint64 \<Rightarrow> uint64 \<Rightarrow> uchar option" where
  "umem m root x =
     (let e = leaf m root (PGROUNDDOWN x) in
      if x < MAXVA \<and> e AND PTE_V \<noteq> 0 \<and> e AND PTE_U \<noteq> 0
      then Some (m (PTE2PA e + (x - PGROUNDDOWN x))) else None)"

definition writable :: "mem \<Rightarrow> uint64 \<Rightarrow> uint64 \<Rightarrow> bool" where
  "writable m root x \<longleftrightarrow> umem m root x \<noteq> None \<and> leaf m root (PGROUNDDOWN x) AND PTE_W \<noteq> 0"

text \<open>
  No page of the tree, be it a table or a mapped frame, is reached by two
  paths, and none is the page at address 0.
\<close>

definition space_wf :: "mem \<Rightarrow> uint64 \<Rightarrow> bool" where
  "space_wf m root \<longleftrightarrow> page_aligned root \<and> (\<forall>p \<in> paths 3. tab m root p \<noteq> Some 0) \<and>
     (\<forall>p \<in> paths 3. \<forall>q \<in> paths 3. \<forall>t. tab m root p = Some t \<longrightarrow> tab m root q = Some t \<longrightarrow> p = q)"

lemma space_wf_inj: "space_wf m root \<Longrightarrow> p \<in> paths 3 \<Longrightarrow> q \<in> paths 3 \<Longrightarrow>
  tab m root p = Some t \<Longrightarrow> tab m root q = Some t \<Longrightarrow> p = q"
  by (auto simp: space_wf_def)

definition page_path :: "uint64 \<Rightarrow> nat list" where
  "page_path va = idxs 2 va @ [unat (PX 0 va)]"

lemma page_path_paths [simp]: "page_path va \<in> paths 3"
  using idxs_paths [of 2 va] PX_less [of 0 va]
  by (auto simp: page_path_def paths_def)

lemma length_page_path [simp]: "length (page_path va) = 3"
  by (simp add: page_path_def)

lemma page_path_inj:
  assumes "page_aligned v" "page_aligned w" "v < MAXVA" "w < MAXVA" "page_path v = page_path w"
  shows "v = w"
proof (rule PX_inject [OF assms(1-4)])
  show "PX l v = PX l w" if "l \<in> {0, 1, 2}" for l
    using that assms(5) by (auto simp: page_path_def numeral_2_eq_2 word_unat_eq_iff)
qed

lemma tab_page_path:
  "leaf m root va AND PTE_V \<noteq> 0 \<Longrightarrow> tab m root (page_path va) = Some (PTE2PA (leaf m root va))"
  by (auto simp: leaf_entry page_path_def tab_snoc pstep_def split: option.splits)

lemma tab_aligned: "page_aligned root \<Longrightarrow> tab m root p = Some t \<Longrightarrow> page_aligned t"
  by (induction p rule: rev_induct) (auto simp: tab_snoc pstep_def split: option.splits if_splits)

text \<open>Writes inside one mapped frame leave the whole tree alone.\<close>

lemma write_frame:
  assumes wf: "space_wf m root" and v: "leaf m root w AND PTE_V \<noteq> 0"
    and so: "same_outside {PTE2PA (leaf m root w)} m m'"
  shows "p \<in> paths 3 \<Longrightarrow> tab m' root p = tab m root p"
    and "leaf m' root x = leaf m root x"
proof -
  let ?f = "PTE2PA (leaf m root w)"
  have root: "page_aligned root" using wf by (simp add: space_wf_def)
  have e: "entry m' t j = entry m t j" if q: "q \<in> paths 2" and j: "j < 512" and t: "tab m root q = Some t" for q j t
  proof -
    have "t \<noteq> ?f"
    proof
      assume "t = ?f"
      then have "q = page_path w"
        using space_wf_inj [OF wf paths_mono [OF q] page_path_paths t, of w] tab_page_path [OF v] by simp
      then have "length q = 3" by simp
      then show False using q by (simp add: paths_def)
    qed
    then show ?thesis using entry_same_outside [OF so _ tab_aligned [OF root t] _ j] by simp
  qed
  show tb: "tab m' root p = tab m root p" if "p \<in> paths 3" for p
  proof (rule tab_agree [where ?p0.0 = "[0, 0, 0]" and i = 0])
    show "entry m' t j = entry m t j" if "q \<in> paths 2" "j < 512" "tab m root q = Some t" for q j t
      by (rule e [OF that])
    show "\<not> prefix ([0, 0, 0] @ [0]) p"
      using that prefix_length_le [of "[0, 0, 0] @ [0]" p] by (auto simp: paths_def)
  qed (rule that)
  have "tab m' root (idxs 2 x) = tab m root (idxs 2 x)"
    by (rule tb) (rule paths_mono [OF idxs_paths], simp)
  then show "leaf m' root x = leaf m root x"
    using e [OF idxs_paths [of 2 x] PX_less] by (auto simp: leaf_entry split: option.splits)
qed

lemma write_frame_wf:
  assumes "space_wf m root" and "leaf m root w AND PTE_V \<noteq> 0"
    and "same_outside {PTE2PA (leaf m root w)} m m'"
  shows "space_wf m' root"
  using assms(1) write_frame(1) [OF assms] by (simp add: space_wf_def)

lemma frames_differ:
  assumes wf: "space_wf m root" and v: "leaf m root v AND PTE_V \<noteq> 0" and w: "leaf m root w AND PTE_V \<noteq> 0"
    and al: "page_aligned v" "page_aligned w" "v < MAXVA" "w < MAXVA" and ne: "v \<noteq> w"
  shows "PTE2PA (leaf m root v) \<noteq> PTE2PA (leaf m root w)"
proof
  assume "PTE2PA (leaf m root v) = PTE2PA (leaf m root w)"
  then have "page_path v = page_path w"
    using space_wf_inj [OF wf page_path_paths page_path_paths tab_page_path [OF v]] tab_page_path [OF w]
    by simp
  then show False using page_path_inj [OF al] ne by simp
qed

section \<open>Chunks of one page\<close>

lemma in_page_PGROUNDDOWN: "in_page f (f + (x - PGROUNDDOWN x))"
  by (simp add: in_page_def off_def page_offset)

lemma PGROUNDDOWN_unique:
  assumes "page_aligned p" and "unat p \<le> unat x" and "unat x < unat p + 4096"
  shows "PGROUNDDOWN x = p"
proof -
  obtain q where q: "unat p = 4096 * q" using assms(1) by (rule page_alignedE)
  have "unat x = 4096 * q + (unat x - 4096 * q)" "unat x - 4096 * q < 4096" using assms q by simp_all
  then have "unat x mod 4096 = unat x - 4096 * q"
    by (metis mod_less mod_mult_self3 mult.commute)
  then have "unat (PGROUNDDOWN x) = unat p" using assms(2) q by (simp add: unat_PGROUNDDOWN)
  then show ?thesis by (simp add: word_unat_eq_iff)
qed

lemma chunk_page:
  assumes "off d x < page_rest d"
  shows "PGROUNDDOWN x = PGROUNDDOWN d" and "unat x = unat d + off d x"
proof -
  obtain q where q: "unat (PGROUNDDOWN d) = 4096 * q" "q < 2 ^ 52"
    using PGROUNDDOWN_aligned [of d] by (rule page_alignedE)
  have d: "unat d = 4096 * q + unat d mod 4096"
    using q(1) unat_PGROUNDDOWN [of d] by (metis le_add_diff_inverse2 mod_less_eq_dividend)
  have lt: "unat d + off d x < 4096 * q + 4096" using assms d by (simp add: page_rest_eq)
  then have lt64: "unat d + off d x < 2 ^ 64" using q(2) by simp
  have "unat (d + (x - d)) = unat d + off d x"
    unfolding off_def by (rule unat_add_lt) (use lt64 in \<open>simp add: off_def\<close>)
  then show u: "unat x = unat d + off d x" by simp
  show "PGROUNDDOWN x = PGROUNDDOWN d"
    by (rule PGROUNDDOWN_unique) (use u lt q d in auto)
qed

lemma below_MAXVA_page:
  assumes "PGROUNDDOWN x < MAXVA"
  shows "x < MAXVA"
proof -
  obtain q where q: "unat (PGROUNDDOWN x) = 4096 * q"
    using PGROUNDDOWN_aligned [of x] by (rule page_alignedE)
  have "4096 * q < 4096 * 0x4000000" using assms q by (simp add: word_less_nat_alt layout_values)
  then have "Suc q \<le> 0x4000000" by simp
  then have "4096 * Suc q \<le> 4096 * 0x4000000" by (rule mult_le_mono2)
  moreover have "unat x = 4096 * q + unat x mod 4096"
    using q unat_PGROUNDDOWN [of x] by (metis le_add_diff_inverse2 mod_less_eq_dividend)
  moreover define r where "r = unat x mod 4096"
  moreover have "r < 4096" by (simp add: r_def)
  ultimately have "unat x < 4096 * 0x4000000" by simp
  then show ?thesis by (simp add: word_less_nat_alt layout_values)
qed

lemma put_bytes_in_page:
  assumes "unat k + length bs \<le> 4096"
  shows "same_outside {f} m (put_bytes m (f + k) bs)"
proof -
  have "\<not> off (f + k) y < length bs" if "\<not> in_page f y" for y
  proof
    assume "off (f + k) y < length bs"
    then have lt: "unat k + off (f + k) y < 4096" using assms by simp
    have "y = f + of_nat (unat k + off (f + k) y)"
      using off_inverse [of "f + k" y] by (simp add: algebra_simps)
    then have "in_page f y" using in_page_offset [OF lt, of f] by simp
    then show False using that by simp
  qed
  then show ?thesis
    using assms by (auto simp: same_outside_def put_bytes_apply off_def)
qed

lemma write_chunk:
  assumes wf: "space_wf m root" and w: "writable m root d"
    and n: "length bs \<le> page_rest d"
    and m': "m' = put_bytes m (PTE2PA (leaf m root (PGROUNDDOWN d)) + (d - PGROUNDDOWN d)) bs"
  shows "space_wf m' root" and "leaf m' root x = leaf m root x"
    and "umem m' root x = (if off d x < length bs then Some (bs ! off d x) else umem m root x)"
proof -
  define v where "v = PGROUNDDOWN d"
  define f where "f = PTE2PA (leaf m root v)"
  have V: "leaf m root v AND PTE_V \<noteq> 0" and d: "d < MAXVA" and U: "leaf m root v AND PTE_U \<noteq> 0"
    using w by (auto simp: writable_def umem_def v_def f_def Let_def split: if_splits)
  have v: "page_aligned v" "v < MAXVA"
    using d PGROUNDDOWN_le [of d] by (auto simp: v_def)
  have len: "unat (d - v) + length bs \<le> 4096" "length bs \<le> 4096"
    using n page_offset [of d] mod_less_divisor [of 4096 "unat d"] by (auto simp: page_rest_eq v_def)
  have so: "same_outside {f} m m'"
    using put_bytes_in_page [OF len(1), of f m] by (simp add: m' f_def v_def)
  show "space_wf m' root" by (rule write_frame_wf [OF wf V so [unfolded f_def]])
  show lf: "leaf m' root x = leaf m root x" for x by (rule write_frame(2) [OF wf V so [unfolded f_def]])
  show "umem m' root x = (if off d x < length bs then Some (bs ! off d x) else umem m root x)"
  proof (cases "PGROUNDDOWN x = v")
    case True
    have "m' (f + (x - v)) = (if off d x < length bs then bs ! off d x else m (f + (x - v)))"
      using len(2) by (simp add: m' f_def v_def put_bytes_apply off_def)
    moreover have "x < MAXVA" using below_MAXVA_page [of x] True v(2) by simp
    ultimately show ?thesis
      using True V U lf [of v] by (auto simp: umem_def Let_def f_def [symmetric])
  next
    case False
    have no: "\<not> off d x < length bs" using chunk_page(1) [of d x] False n by (auto simp: v_def)
    let ?e = "leaf m root (PGROUNDDOWN x)" and ?a = "PTE2PA (leaf m root (PGROUNDDOWN x)) + (x - PGROUNDDOWN x)"
    have "m' ?a = m ?a" if x: "x < MAXVA" "?e AND PTE_V \<noteq> 0"
    proof -
      have "PGROUNDDOWN x < MAXVA" using x(1) PGROUNDDOWN_le [of x] by simp
      then have "PTE2PA ?e \<noteq> f"
        using frames_differ [OF wf x(2) V _ v(1) _ v(2)] False by (simp add: f_def)
      then have "\<not> in_page f ?a"
        using pages_apart [of f "PTE2PA ?e"] in_page_PGROUNDDOWN by (simp add: f_def)
      then show ?thesis using so by (simp add: same_outside_def)
    qed
    then show ?thesis using no lf by (auto simp: umem_def Let_def)
  qed
qed

section \<open>copyout and copyin\<close>

lemma pte_at_nonzero: "space_wf m root \<Longrightarrow> pte_at m root va \<noteq> Some 0"
proof
  assume wf: "space_wf m root" and "pte_at m root va = Some 0"
  then obtain t where t: "tab m root (idxs 2 va) = Some t" "t + 8 * PX 0 va = 0"
    by (auto simp: pte_at_def)
  have p: "idxs 2 va \<in> paths 3" by (rule paths_mono [OF idxs_paths]) simp
  have "page_aligned root" and "t \<noteq> 0" using wf p t(1) by (auto simp: space_wf_def)
  then have al: "page_aligned t" "page_aligned 0" "t \<noteq> 0"
    using tab_aligned t(1) by (auto simp: page_aligned_def)
  have "t + 8 * of_nat (unat (PX 0 va)) = 0 + 8 * of_nat 0" using t(2) by simp
  then show False using cell_inj [OF al(1,2) PX_less, of 0 0 va] al(3) by auto
qed

lemma walkaddr_leaf:
  assumes "va < MAXVA" and "space_wf (mem s) root"
  shows "walkaddr root va s =
    Ret (let e = leaf (mem s) root va in
         if e AND PTE_V \<noteq> 0 \<and> e AND PTE_U \<noteq> 0 then PTE2PA e else 0)"
  by (rule walkaddr_pte [OF assms(1) pte_at_nonzero [OF assms(2)]])

lemma leaf_frame_nonzero:
  assumes "space_wf m root" and "leaf m root va AND PTE_V \<noteq> 0"
  shows "PTE2PA (leaf m root va) \<noteq> 0"
  using assms(1) tab_page_path [OF assms(2)] page_path_paths [of va] by (auto simp: space_wf_def)

text \<open>On a mapped user page the copy loops find the frame without faulting.\<close>

lemma user_page_mapped:
  assumes "space_wf (mem s) root" and "umem (mem s) root x \<noteq> None"
  shows "user_page kend psz ppt root (PGROUNDDOWN x) s = Ret (PTE2PA (leaf (mem s) root (PGROUNDDOWN x)), s)"
    and "PTE2PA (leaf (mem s) root (PGROUNDDOWN x)) \<noteq> 0" and "PGROUNDDOWN x < MAXVA"
proof -
  have x: "x < MAXVA" "leaf (mem s) root (PGROUNDDOWN x) AND PTE_V \<noteq> 0"
    "leaf (mem s) root (PGROUNDDOWN x) AND PTE_U \<noteq> 0"
    using assms(2) by (auto simp: umem_def Let_def split: if_splits)
  show lt: "PGROUNDDOWN x < MAXVA" using x(1) PGROUNDDOWN_le [of x] by simp
  show nz: "PTE2PA (leaf (mem s) root (PGROUNDDOWN x)) \<noteq> 0"
    by (rule leaf_frame_nonzero [OF assms(1) x(2)])
  show "user_page kend psz ppt root (PGROUNDDOWN x) s = Ret (PTE2PA (leaf (mem s) root (PGROUNDDOWN x)), s)"
    using walkaddr_leaf [OF lt assms(1)] x nz by (simp add: user_page_def Let_def)
qed

text \<open>Offsets from the start of the next page.\<close>

lemma off_shift:
  assumes "k \<le> off d x" and "k < 2 ^ 64"
  shows "off (d + of_nat k) x = off d x - k"
proof -
  have "unat (of_nat k :: uint64) = k" using assms(2) by (intro of_nat_lt_pow) simp
  then have "of_nat k \<le> x - d" using assms(1) by (simp add: word_le_nat_alt off_def)
  moreover have "x - (d + of_nat k) = (x - d) - of_nat k" by simp
  ultimately show ?thesis using \<open>unat (of_nat k :: uint64) = k\<close>
    by (simp only: off_def unat_sub)
qed

lemma next_page: "PGROUNDDOWN d + PGSIZE = d + of_nat (page_rest d)"
  by (simp add: page_rest_def)

lemma off_drop:
  assumes "length src < 2 ^ 63" and "n \<le> length src"
  shows "(if off (d + of_nat n) x < length (drop n src) then Some (drop n src ! off (d + of_nat n) x)
          else if off d x < n then Some (take n src ! off d x) else z)
    = (if off d x < length src then Some (src ! off d x) else z)"
proof (cases "n \<le> off d x")
  case True
  then show ?thesis using assms off_shift [OF True] by (auto simp: less_diff_conv2)
next
  case False
  let ?y = "off (d + of_nat n) x"
  have n: "unat (of_nat n :: uint64) = n" using assms by (intro of_nat_lt_pow) simp
  have "d + of_nat n + of_nat ?y = d + of_nat (off d x)" by (simp add: off_inverse)
  then have "of_nat (n + ?y) = (of_nat (off d x) :: uint64)" by simp
  then have "unat (of_nat (n + ?y) :: uint64) = off d x" by (simp add: off_def)
  moreover have "?y < 2 ^ 64" using unsigned_less [of "x - (d + of_nat n)"] by (simp add: off_def)
  ultimately have "\<not> n + ?y < 2 ^ 64" using False of_nat_lt_pow [of "n + ?y", where ?'a = 64] by fastforce
  then have "\<not> ?y < length (drop n src)" using assms by simp
  then show ?thesis using False assms by simp
qed

lemma copyout_ok:
  assumes "space_wf (mem s) root" and "length src < 2 ^ 63"
    and "\<forall>i < length src. writable (mem s) root (dstva + of_nat i)"
  shows "\<exists>s'. copyout kend psz ppt root dstva src s = Ret (0, s')
      \<and> only_kmem s s' \<and> freelist s' = freelist s \<and> space_wf (mem s') root
      \<and> (\<forall>w. leaf (mem s') root w = leaf (mem s) root w)
      \<and> (\<forall>x. umem (mem s') root x =
             (if off dstva x < length src then Some (src ! off dstva x) else umem (mem s) root x))"
  using assms
proof (induction "length src" arbitrary: dstva src s rule: less_induct)
  case less
  show ?case
  proof (cases "src = []")
    case True
    then show ?thesis using less.prems(1) by (simp add: copyout.simps)
  next
    case False
    define v where "v = PGROUNDDOWN dstva"
    define n where "n = min (page_rest dstva) (length src)"
    define f where "f = PTE2PA (leaf (mem s) root v)"
    define s1 where "s1 = s\<lparr>mem := put_bytes (mem s) (f + (dstva - v)) (take n src)\<rparr>"
    have w: "writable (mem s) root dstva" using less.prems(3) False by auto
    then have u: "umem (mem s) root dstva \<noteq> None" and W: "leaf (mem s) root v AND PTE_W \<noteq> 0"
      by (auto simp: writable_def v_def)
    note up = user_page_mapped [OF less.prems(1) u, folded v_def f_def]
    have V: "leaf (mem s) root v \<noteq> 0" using W by auto
    then obtain a where a: "pte_at (mem s) root v = Some a" "ld64 (mem s) a = leaf (mem s) root v"
      by (auto simp: leaf_def split: option.splits)
    have walk: "walk root v False s = Ret (a, s)" "a \<noteq> 0"
      using walk_lookup [OF up(3), of root s] a pte_at_nonzero [OF less.prems(1), of v] by auto
    have n: "0 < n" "n \<le> length src" using False by (auto simp: n_def)
    have step: "copyout kend psz ppt root dstva src s
        = copyout kend psz ppt root (v + PGSIZE) (drop n src) s1"
      using False up(1,2) walk a(2) W up(3) [unfolded not_le [symmetric]]
      by (subst copyout.simps) (simp add: v_def [symmetric] n_def [symmetric] s1_def f_def)
    have m1: "mem s1 = put_bytes (mem s)
        (PTE2PA (leaf (mem s) root (PGROUNDDOWN dstva)) + (dstva - PGROUNDDOWN dstva)) (take n src)"
      by (simp add: s1_def f_def v_def)
    have ln: "length (take n src) \<le> page_rest dstva" by (simp add: n_def)
    note ch = write_chunk [OF less.prems(1) w ln m1]
    have next_d: "drop n src \<noteq> [] \<Longrightarrow> v + PGSIZE = dstva + of_nat n"
      using next_page [of dstva] by (auto simp: v_def n_def min_def split: if_splits)
    have "writable (mem s1) root (v + PGSIZE + of_nat i)" if i: "i < length (drop n src)" for i
    proof -
      have x: "v + PGSIZE + of_nat i = dstva + of_nat (n + i)" using next_d i by (auto simp: algebra_simps)
      have "writable (mem s) root (dstva + of_nat (n + i))" using less.prems(3) i
        by (simp del: of_nat_add)
      then show ?thesis unfolding x by (simp add: writable_def ch(2,3) del: of_nat_add)
    qed
    moreover have lt: "length (drop n src) < length src" using n by simp
    moreover have len: "length (drop n src) < 2 ^ 63" using less.prems(2) by simp
    ultimately obtain s' where s': "copyout kend psz ppt root (v + PGSIZE) (drop n src) s1 = Ret (0, s')"
      "only_kmem s1 s'" "freelist s' = freelist s1" "space_wf (mem s') root"
      "\<And>w. leaf (mem s') root w = leaf (mem s1) root w"
      "\<And>x. umem (mem s') root x = (if off (v + PGSIZE) x < length (drop n src)
          then Some (drop n src ! off (v + PGSIZE) x) else umem (mem s1) root x)"
      using less.hyps [OF lt ch(1) len] by blast
    have "umem (mem s') root x =
        (if off dstva x < length src then Some (src ! off dstva x) else umem (mem s) root x)" for x
    proof (cases "drop n src = []")
      case True
      then show ?thesis using s'(6) ch(3) n by simp
    next
      case False
      have "length (take n src) = n" using n by simp
      then show ?thesis
        unfolding s'(6) ch(3) next_d [OF False] by (simp only: off_drop [OF less.prems(2) n(2)])
    qed
    moreover have "only_kmem s s1" by (auto simp: s1_def)
    then have "only_kmem s s'" using s'(2) by (rule only_kmem_trans)
    ultimately show ?thesis using step s' ch(2) by (simp add: s1_def)
  qed
qed

lemma off_eq_0_iff: "off x y = 0 \<longleftrightarrow> y = x"
  by (simp add: off_def unat_eq_0)

lemma copyout_byte:
  assumes "space_wf (mem s) root" and "writable (mem s) root x"
  obtains s' where "copyout kend psz ppt root x [c] s = Ret (0, s')" and "only_kmem s s'"
    and "space_wf (mem s') root" and "\<And>w. leaf (mem s') root w = leaf (mem s) root w"
    and "\<And>y. umem (mem s') root y = (if y = x then Some c else umem (mem s) root y)"
    and "\<And>y. writable (mem s') root y = writable (mem s) root y"
proof -
  have wr: "\<forall>i < length [c]. writable (mem s) root (x + of_nat i)" using assms(2) by simp
  obtain s' where s': "copyout kend psz ppt root x [c] s = Ret (0, s')" "only_kmem s s'" "space_wf (mem s') root"
    "\<forall>w. leaf (mem s') root w = leaf (mem s) root w"
    "\<forall>y. umem (mem s') root y = (if off x y < length [c] then Some ([c] ! off x y) else umem (mem s) root y)"
    using copyout_ok [OF assms(1) _ wr, of kend psz ppt] by auto
  have u: "umem (mem s') root y = (if y = x then Some c else umem (mem s) root y)" for y
    using s'(5) by (simp add: off_eq_0_iff)
  have "writable (mem s') root y = writable (mem s) root y" for y
    using assms(2) s'(4) u by (auto simp: writable_def)
  then show thesis using that [of s'] s'(1-4) u by blast
qed

lemma copyin_ok:
  assumes "space_wf (mem s) root" and "\<forall>i < len. umem (mem s) root (srcva + of_nat i) \<noteq> None"
  shows "copyin kend psz ppt root srcva len s =
    Ret (0, map (\<lambda>i. the (umem (mem s) root (srcva + of_nat i))) [0..<len], s)"
  using assms
proof (induction len arbitrary: srcva rule: less_induct)
  case (less len)
  show ?case
  proof (cases "len = 0")
    case True
    then show ?thesis by (simp add: copyin.simps)
  next
    case False
    define v where "v = PGROUNDDOWN srcva"
    define n where "n = min (page_rest srcva) len"
    have u: "umem (mem s) root srcva \<noteq> None" using less.prems(2) False by auto
    note up = user_page_mapped [OF less.prems(1) u, folded v_def]
    define f where "f = PTE2PA (leaf (mem s) root v)"
    have n: "0 < n" "n \<le> len" "n \<le> page_rest srcva" using False by (auto simp: n_def)
    let ?get = "\<lambda>x. the (umem (mem s) root x)"
    have chunk: "get_bytes (mem s) (f + (srcva - v)) n = map (\<lambda>i. ?get (srcva + of_nat i)) [0..<n]"
    proof (rule nth_equalityI)
      fix i
      assume "i < length (get_bytes (mem s) (f + (srcva - v)) n)"
      then have i: "i < n" by simp
      let ?x = "srcva + of_nat i"
      have "off srcva ?x = i" using i n(3) by (intro off_add) (simp add: page_rest_eq)
      then have "PGROUNDDOWN ?x = v" using chunk_page(1) [of srcva ?x] i n(3) by (simp add: v_def)
      moreover have "umem (mem s) root ?x \<noteq> None" using less.prems(2) i n(2) by simp
      ultimately have "?get ?x = mem s (f + (?x - v))"
        by (auto simp: umem_def Let_def f_def split: if_splits)
      then show "get_bytes (mem s) (f + (srcva - v)) n ! i = map (\<lambda>i. ?get (srcva + of_nat i)) [0..<n] ! i"
        using i by (simp add: get_bytes_nth algebra_simps)
    qed simp
    have next_d: "n < len \<Longrightarrow> v + PGSIZE = srcva + of_nat n"
      using next_page [of srcva] by (auto simp: v_def n_def min_def split: if_splits)
    have rest: "copyin kend psz ppt root (v + PGSIZE) (len - n) s =
        Ret (0, map (\<lambda>i. ?get (srcva + of_nat i)) [n..<len], s)"
    proof (cases "n < len")
      case True
      have "umem (mem s) root (v + PGSIZE + of_nat i) \<noteq> None" if i: "i < len - n" for i
        using less.prems(2) [rule_format, of "n + i"] i next_d [OF True] by (simp add: algebra_simps)
      then have "copyin kend psz ppt root (v + PGSIZE) (len - n) s =
          Ret (0, map (\<lambda>i. ?get (v + PGSIZE + of_nat i)) [0..<len - n], s)"
        using less.IH [of "len - n" "v + PGSIZE"] n True less.prems(1) by simp
      moreover have "map (\<lambda>i. ?get (v + PGSIZE + of_nat i)) [0..<len - n] = map (\<lambda>i. ?get (srcva + of_nat i)) [n..<len]"
        using next_d [OF True] n by (auto intro!: nth_equalityI simp: algebra_simps)
      ultimately show ?thesis by simp
    next
      case False
      then show ?thesis by (simp add: copyin.simps)
    qed
    have app: "[0..<len] = [0..<n] @ [n..<len]" using upt_add_eq_append [of 0 n "len - n"] n(2) by simp
    show ?thesis using False up(1,2) chunk rest
      by (subst copyin.simps) (simp add: v_def [symmetric] n_def [symmetric] f_def [symmetric] app)
  qed
qed

section \<open>Round trip\<close>

text \<open>
  C14: bytes that \<^verbatim>\<open>copyout\<close> writes to a writable user range are what
  \<^verbatim>\<open>copyin\<close> reads back, across page boundaries; every other byte the process can
  see, its mappings and the free list are unchanged.
\<close>

theorem copyout_copyin_roundtrip:
  assumes "space_wf (mem s) root" and "length src < 2 ^ 63"
    and "\<forall>i < length src. writable (mem s) root (va + of_nat i)"
  shows "\<exists>s'. copyout kend psz ppt root va src s = Ret (0, s')
      \<and> copyin kend psz ppt root va (length src) s' = Ret (0, src, s')
      \<and> (\<forall>x. length src \<le> off va x \<longrightarrow> umem (mem s') root x = umem (mem s) root x)
      \<and> (\<forall>w. leaf (mem s') root w = leaf (mem s) root w) \<and> freelist s' = freelist s"
proof -
  obtain s' where s': "copyout kend psz ppt root va src s = Ret (0, s')" "freelist s' = freelist s"
    "space_wf (mem s') root" "\<forall>w. leaf (mem s') root w = leaf (mem s) root w"
    "\<forall>x. umem (mem s') root x =
       (if off va x < length src then Some (src ! off va x) else umem (mem s) root x)"
    using copyout_ok [OF assms, of kend psz ppt] by auto
  have at: "umem (mem s') root (va + of_nat i) = Some (src ! i)" if "i < length src" for i
    using s'(5) off_add [of i va] that assms(2) by simp
  then have "copyin kend psz ppt root va (length src) s' = Ret (0, map (\<lambda>i. src ! i) [0..<length src], s')"
    using copyin_ok [OF s'(3), of "length src" va kend psz ppt] by (simp cong: map_cong)
  then have "copyin kend psz ppt root va (length src) s' = Ret (0, src, s')" by (simp add: map_nth)
  then show ?thesis using s' by auto
qed

text \<open>A tree with one user page: virtual page 0 is the frame at \<^verbatim>\<open>0x87003000\<close>.\<close>

definition one_page_mem :: mem where
  "one_page_mem = st64 (st64 (st64 (\<lambda>_. 0) 0x87000000 (PA2PTE 0x87001000 OR PTE_V))
     0x87001000 (PA2PTE 0x87002000 OR PTE_V))
     0x87002000 (PA2PTE 0x87003000 OR (PTE_R OR PTE_W OR PTE_U OR PTE_V))"

lemma one_page_entry:
  assumes "i < 512" and "page_aligned t"
  shows "entry one_page_mem t i =
    (if i \<noteq> 0 then 0
     else if t = 0x87002000 then PA2PTE 0x87003000 OR (PTE_R OR PTE_W OR PTE_U OR PTE_V)
     else if t = 0x87001000 then PA2PTE 0x87002000 OR PTE_V
     else if t = 0x87000000 then PA2PTE 0x87001000 OR PTE_V else 0)"
proof -
  have al: "page_aligned 0x87000000" "page_aligned 0x87001000" "page_aligned 0x87002000"
    by (simp_all add: page_aligned_def PGSIZE_def)
  have z: "entry (\<lambda>_. 0) t i = 0" by (rule entry_zeroed [OF _ assms(1)]) simp
  have e: "entry (st64 m u v) t i = (if u = t \<and> i = 0 then v else entry m t i)" if "page_aligned u" for m u v
    using entry_st64 [OF that assms(2) _ assms(1), of 0 m v] by auto
  show ?thesis unfolding one_page_mem_def e [OF al(1)] e [OF al(2)] e [OF al(3)] z by simp
qed

lemma one_page_tab:
  assumes "p \<in> paths 3"
  shows "tab one_page_mem 0x87000000 p =
    (if p = [] then Some 0x87000000 else if p = [0] then Some 0x87001000
     else if p = [0, 0] then Some 0x87002000 else if p = [0, 0, 0] then Some 0x87003000 else None)"
proof -
  have al: "page_aligned 0x87000000" "page_aligned 0x87001000" "page_aligned 0x87002000"
    by (simp_all add: page_aligned_def PGSIZE_def)
  have step: "pstep one_page_mem 0x87000000 i = (if i = 0 then Some 0x87001000 else None)"
    "pstep one_page_mem 0x87001000 i = (if i = 0 then Some 0x87002000 else None)"
    "pstep one_page_mem 0x87002000 i = (if i = 0 then Some 0x87003000 else None)" if "i < 512" for i
    by (simp_all add: pstep_def one_page_entry that al pte_flag_defs PTE2PA_def PA2PTE_def)
  have "length p \<le> 3" "\<forall>i \<in> set p. i < 512" using assms by (auto simp: paths_def)
  then show ?thesis
    by (cases p; cases "tl p"; cases "tl (tl p)") (auto simp: step split: option.splits)
qed

lemma one_page_space: "space_wf one_page_mem 0x87000000"
  unfolding space_wf_def using one_page_tab
  by (auto simp: page_aligned_def PGSIZE_def split: if_splits)

lemma one_page_writable: "i < 4096 \<Longrightarrow> writable one_page_mem 0x87000000 (of_nat i)"
proof -
  assume i: "i < 4096"
  have "off 0 (of_nat i) = i" using i off_add [of i 0] by simp
  then have pg: "PGROUNDDOWN (of_nat i) = 0"
    using PGROUNDDOWN_unique [of 0 "of_nat i"] i by (simp add: page_aligned_def off_def)
  have "tab one_page_mem 0x87000000 (idxs 2 0) = Some 0x87002000"
    using one_page_tab [of "idxs 2 0"] idxs_paths [of 2 0] paths_mono [of "idxs 2 0" 2 3]
    by (simp add: numeral_2_eq_2 PX_def PXMASK_def)
  moreover have "entry one_page_mem 0x87002000 0 = PA2PTE 0x87003000 OR (PTE_R OR PTE_W OR PTE_U OR PTE_V)"
    by (rule one_page_entry [THEN trans]) (simp_all add: page_aligned_def PGSIZE_def)
  ultimately have "leaf one_page_mem 0x87000000 0 = PA2PTE 0x87003000 OR (PTE_R OR PTE_W OR PTE_U OR PTE_V)"
    by (simp add: leaf_def pte_at_def entry_def PX_def PXMASK_def)
  moreover have "(of_nat i :: uint64) < MAXVA"
    using i of_nat_lt_pow [of i, where ?'a = 64] by (simp add: word_less_nat_alt layout_values)
  ultimately show ?thesis using pg by (simp add: writable_def umem_def pte_flag_defs PA2PTE_def)
qed

theorem copyout_copyin_roundtrip_witness:
  "\<exists>s'. copyout KERNBASE 0 0 0x87000000 (of_nat 8) [1, 2, 3] \<lparr>mem = one_page_mem, freelist = 0\<rparr> = Ret (0, s')
     \<and> copyin KERNBASE 0 0 0x87000000 (of_nat 8) 3 s' = Ret (0, [1, 2, 3], s')"
proof -
  let ?s = "\<lparr>mem = one_page_mem, freelist = 0\<rparr> :: kmem" and ?src = "[1, 2, 3] :: uchar list"
  have wf: "space_wf (mem ?s) 0x87000000" using one_page_space by simp
  have wr: "\<forall>i < length ?src. writable (mem ?s) 0x87000000 (of_nat 8 + of_nat i)"
    using one_page_writable [of "8 + _"] by (simp only: of_nat_add kmem.simps) simp
  show ?thesis using copyout_copyin_roundtrip [OF wf _ wr, of KERNBASE 0 0] by (auto simp: numeral_3_eq_3)
qed

end
