(* ===== verification/Proc.thy ===== *)
theory Proc
  imports UserMem
begin

text \<open>
  Processes, \<^verbatim>\<open>kernel/proc.h\<close> and \<^verbatim>\<open>kernel/proc.c\<close>.  The process table
  is a list of \<^verbatim>\<open>NPROC\<close> records; a \<^verbatim>\<open>struct proc *\<close> is an index into it.
  The process on whose behalf an operation runs, \<^verbatim>\<open>myproc()\<close>, is the argument
  \<open>me\<close>.  A section of code that runs under a lock is one step; \<^verbatim>\<open>sleep\<close> ends
  a step, leaving the caller in state \<open>SLEEPING\<close> on its channel, and the code after
  it is the next step of the same process.
\<close>

unbundle bit_operations_syntax

section \<open>The process table\<close>

datatype procstate = UNUSED | USED | SLEEPING | RUNNABLE | RUNNING | ZOMBIE

definition NSIG :: nat where "NSIG = 7"
definition SIG_DFL :: uint64 where "SIG_DFL = 0"
definition SIG_IGN :: uint64 where "SIG_IGN = 1"

record pcontext =
  ctx_ra :: uint64
  ctx_sp :: uint64
  ctx_s :: "uint64 list"

record proc =
  p_state :: procstate
  p_chan :: chan
  p_killed :: cint
  p_xstate :: cint
  p_pid :: cint
  p_parent :: "nat option"
  p_kstack :: uint64
  p_sz :: uint64
  p_pagetable :: uint64
  p_trapframe :: uint64
  p_context :: pcontext
  p_ofile :: "nat option list"
  p_cwd :: "nat option"
  p_name :: "uchar list"
  p_signal_handlers :: "uint64 list"
  p_pending_signals :: cint
  p_sigmask :: uint

record kproc = kmem +
  procs :: "proc list"
  nextpid :: cint
  initproc :: "nat option"
  ticks :: uint

text \<open>Symbols the linker places: the end of the kernel, and three code addresses.\<close>

record linkmap =
  lm_end :: uint64
  lm_etext :: uint64
  lm_trampoline :: uint64
  lm_forkret :: uint64

text \<open>Offsets of the fields of \<^verbatim>\<open>struct trapframe\<close> that the kernel's C code uses.\<close>

definition TF_kernel_satp :: uint64 where "TF_kernel_satp = 0"
definition TF_kernel_sp :: uint64 where "TF_kernel_sp = 8"
definition TF_kernel_trap :: uint64 where "TF_kernel_trap = 16"
definition TF_epc :: uint64 where "TF_epc = 24"
definition TF_kernel_hartid :: uint64 where "TF_kernel_hartid = 32"
definition TF_sp :: uint64 where "TF_sp = 48"
definition TF_a :: "nat \<Rightarrow> uint64" where "TF_a n = 112 + 8 * of_nat n"
definition TF_SIZE :: nat where "TF_SIZE = 288"

abbreviation pget :: "nat \<Rightarrow> 'a kproc_scheme \<Rightarrow> proc" where
  "pget i s \<equiv> procs s ! i"

definition pset :: "nat \<Rightarrow> (proc \<Rightarrow> proc) \<Rightarrow> 'a kproc_scheme \<Rightarrow> 'a kproc_scheme" where
  "pset i f s = s\<lparr>procs := (procs s)[i := f (procs s ! i)]\<rparr>"

definition procinit :: "'a kproc_scheme \<Rightarrow> 'a kproc_scheme" where
  "procinit s = s\<lparr>procs :=
     map (\<lambda>i. (procs s ! i)\<lparr>p_state := UNUSED, p_kstack := KSTACK i\<rparr>) [0..<NPROC]\<rparr>"

definition allocpid :: "'a kproc_scheme \<Rightarrow> cint \<times> 'a kproc_scheme" where
  "allocpid s = (nextpid s, s\<lparr>nextpid := nextpid s + 1\<rparr>)"

section \<open>Address spaces of processes\<close>

definition proc_pagetable ::
  "linkmap \<Rightarrow> uint64 \<Rightarrow> 'a kmem_scheme \<Rightarrow> (uint64 \<times> 'a kmem_scheme) kres" where
  "proc_pagetable L tf s =
     (let (pagetable, s1) = uvmcreate s in
      if pagetable = 0 then Ret (0, s1)
      else kbind (mappages pagetable TRAMPOLINE PGSIZE (lm_trampoline L) (ucast (PTE_R OR PTE_X)) s1)
        (\<lambda>(r, s2).
        if r <s 0 then kbind (uvmfree (lm_end L) pagetable 0 s2) (\<lambda>s3. Ret (0, s3))
        else kbind (mappages pagetable TRAPFRAME PGSIZE tf (ucast (PTE_R OR PTE_W)) s2) (\<lambda>(r, s3).
          if r <s 0 then
            kbind (uvmunmap (lm_end L) pagetable TRAMPOLINE 1 False s3) (\<lambda>s4.
            kbind (uvmfree (lm_end L) pagetable 0 s4) (\<lambda>s5. Ret (0, s5)))
          else Ret (pagetable, s3))))"

definition proc_freepagetable ::
  "uint64 \<Rightarrow> uint64 \<Rightarrow> uint64 \<Rightarrow> 'a kmem_scheme \<Rightarrow> 'a kmem_scheme kres" where
  "proc_freepagetable kend pagetable sz s =
     kbind (uvmunmap kend pagetable TRAMPOLINE 1 False s) (\<lambda>s1.
     kbind (uvmunmap kend pagetable TRAPFRAME 1 False s1) (\<lambda>s2.
     uvmfree kend pagetable sz s2))"

section \<open>Allocating and freeing process structures\<close>

definition freeproc :: "uint64 \<Rightarrow> nat \<Rightarrow> 'a kproc_scheme \<Rightarrow> 'a kproc_scheme kres" where
  "freeproc kend i s =
     kbind (if p_trapframe (pget i s) \<noteq> 0 then kfree kend (p_trapframe (pget i s)) s else Ret s) (\<lambda>s.
     let s = pset i (\<lambda>p. p\<lparr>p_trapframe := 0\<rparr>) s in
     kbind (if p_pagetable (pget i s) \<noteq> 0
            then proc_freepagetable kend (p_pagetable (pget i s)) (p_sz (pget i s)) s
            else Ret s) (\<lambda>s.
     Ret (pset i (\<lambda>p. p\<lparr>p_pagetable := 0, p_sz := 0, p_pid := 0, p_parent := None,
       p_name := (p_name p)[0 := 0], p_chan := ChanNone, p_killed := 0, p_xstate := 0,
       p_state := UNUSED, p_signal_handlers := replicate NSIG SIG_DFL, p_pending_signals := 0\<rparr>) s)))"

definition allocproc :: "linkmap \<Rightarrow> 'a kproc_scheme \<Rightarrow> (nat option \<times> 'a kproc_scheme) kres" where
  "allocproc L s =
     (case scan (\<lambda>p. p_state p = UNUSED) (procs s) of
        None \<Rightarrow> Ret (None, s)
      | Some i \<Rightarrow>
          let (pid, s) = allocpid s;
              s = pset i (\<lambda>p. p\<lparr>p_pid := pid, p_state := USED\<rparr>) s;
              (tf, s) = kalloc s;
              s = pset i (\<lambda>p. p\<lparr>p_trapframe := tf\<rparr>) s in
          if tf = 0 then kbind (freeproc (lm_end L) i s) (\<lambda>s. Ret (None, s))
          else kbind (proc_pagetable L tf s) (\<lambda>(pt, s).
            let s = pset i (\<lambda>p. p\<lparr>p_pagetable := pt\<rparr>) s in
            if pt = 0 then kbind (freeproc (lm_end L) i s) (\<lambda>s. Ret (None, s))
            else Ret (Some i, pset i (\<lambda>p. p\<lparr>
              p_context := \<lparr>ctx_ra = lm_forkret L, ctx_sp = p_kstack p + PGSIZE, ctx_s = replicate 12 0\<rparr>,
              p_signal_handlers := replicate NSIG SIG_DFL, p_pending_signals := 0, p_sigmask := 0\<rparr>) s)))"

definition growproc :: "uint64 \<Rightarrow> nat \<Rightarrow> cint \<Rightarrow> 'a kproc_scheme \<Rightarrow> (cint \<times> 'a kproc_scheme) kres" where
  "growproc kend me n s =
     (let sz = p_sz (pget me s); pt = p_pagetable (pget me s) in
      if 0 <s n then
        if TRAPFRAME < sz + scast n then Ret (-1, s)
        else kbind (uvmalloc kend pt sz (sz + scast n) (ucast PTE_W) s) (\<lambda>(sz', s).
          if sz' = 0 then Ret (-1, s)
          else Ret (0, pset me (\<lambda>p. p\<lparr>p_sz := sz'\<rparr>) s))
      else if n <s 0 then
        kbind (uvmdealloc kend pt sz (sz + scast n) s) (\<lambda>(sz', s).
          Ret (0, pset me (\<lambda>p. p\<lparr>p_sz := sz'\<rparr>) s))
      else Ret (0, pset me (\<lambda>p. p\<lparr>p_sz := sz\<rparr>) s))"

section \<open>Sleeping and waking\<close>

text \<open>The channel that stands for the address of a process structure (null for none).\<close>

definition proc_chan :: "nat option \<Rightarrow> chan" where
  "proc_chan i = (case i of None \<Rightarrow> ChanNone | Some j \<Rightarrow> ChanProc j)"

text \<open>Up to the call of \<^verbatim>\<open>sched\<close>, and after it returns.\<close>

definition sleep :: "nat \<Rightarrow> chan \<Rightarrow> 'a kproc_scheme \<Rightarrow> 'a kproc_scheme" where
  "sleep me c s = pset me (\<lambda>p. p\<lparr>p_chan := c, p_state := SLEEPING\<rparr>) s"

definition sleep_return :: "nat \<Rightarrow> 'a kproc_scheme \<Rightarrow> 'a kproc_scheme" where
  "sleep_return me s = pset me (\<lambda>p. p\<lparr>p_chan := ChanNone\<rparr>) s"

definition wake_one :: "chan \<Rightarrow> proc \<Rightarrow> proc" where
  "wake_one c p = (if p_state p = SLEEPING \<and> p_chan p = c then p\<lparr>p_state := RUNNABLE\<rparr> else p)"

definition wakeup :: "nat option \<Rightarrow> chan \<Rightarrow> 'a kproc_scheme \<Rightarrow> 'a kproc_scheme" where
  "wakeup me c s = s\<lparr>procs :=
     map (\<lambda>i. if Some i \<noteq> me then wake_one c (procs s ! i) else procs s ! i) [0..<length (procs s)]\<rparr>"

text \<open>
  \<^verbatim>\<open>scheduler\<close>'s body for one table entry, up to the switch to the process;
  the result says whether it was taken.  \<^verbatim>\<open>yield\<close> up to its call of \<^verbatim>\<open>sched\<close>.
\<close>

definition schedule :: "nat \<Rightarrow> 'a kproc_scheme \<Rightarrow> bool \<times> 'a kproc_scheme" where
  "schedule i s =
     (if p_state (pget i s) = RUNNABLE
      then (True, pset i (\<lambda>p. p\<lparr>p_state := RUNNING\<rparr>) s) else (False, s))"

definition yield :: "nat \<Rightarrow> 'a kproc_scheme \<Rightarrow> 'a kproc_scheme" where
  "yield me s = pset me (\<lambda>p. p\<lparr>p_state := RUNNABLE\<rparr>) s"

definition kkill :: "cint \<Rightarrow> 'a kproc_scheme \<Rightarrow> cint \<times> 'a kproc_scheme" where
  "kkill pid s =
     (case scan (\<lambda>p. p_pid p = pid) (procs s) of
        None \<Rightarrow> (-1, s)
      | Some i \<Rightarrow> (0, pset i (\<lambda>p. p\<lparr>p_killed := 1,
          p_state := (if p_state p = SLEEPING then RUNNABLE else p_state p)\<rparr>) s))"

definition setkilled :: "nat \<Rightarrow> 'a kproc_scheme \<Rightarrow> 'a kproc_scheme" where
  "setkilled i s = pset i (\<lambda>p. p\<lparr>p_killed := 1\<rparr>) s"

definition killed :: "nat \<Rightarrow> 'a kproc_scheme \<Rightarrow> cint" where
  "killed i s = p_killed (pget i s)"

section \<open>Exit and wait\<close>

fun reparent_loop :: "nat \<Rightarrow> nat list \<Rightarrow> 'a kproc_scheme \<Rightarrow> 'a kproc_scheme" where
  "reparent_loop p [] s = s"
| "reparent_loop p (pp # pps) s =
     reparent_loop p pps
       (if p_parent (pget pp s) = Some p
        then wakeup (Some p) (proc_chan (initproc s)) (pset pp (\<lambda>q. q\<lparr>p_parent := initproc s\<rparr>) s)
        else s)"

definition reparent :: "nat \<Rightarrow> 'a kproc_scheme \<Rightarrow> 'a kproc_scheme" where
  "reparent p s = reparent_loop p [0..<length (procs s)] s"

text \<open>
  The part of \<^verbatim>\<open>kexit\<close> after the files and the directory are released:
  from taking \<^verbatim>\<open>wait_lock\<close> to the call of \<^verbatim>\<open>sched\<close>.
\<close>

definition exit_zombie :: "nat \<Rightarrow> cint \<Rightarrow> 'a kproc_scheme \<Rightarrow> 'a kproc_scheme" where
  "exit_zombie me status s =
     (let s = reparent me s;
          s = wakeup (Some me) (proc_chan (p_parent (pget me s))) s
      in pset me (\<lambda>p. p\<lparr>p_xstate := status, p_state := ZOMBIE\<rparr>) s)"

text \<open>The little-endian bytes of a C \<^verbatim>\<open>int\<close>, as \<^verbatim>\<open>copyout\<close> sees them.\<close>

definition bytes32 :: "uint \<Rightarrow> uchar list" where
  "bytes32 v = map (\<lambda>k. ucast (drop_bit (8 * k) v)) [0..<4]"

text \<open>One turn of the loop of \<^verbatim>\<open>kwait\<close>: it returns, or goes to sleep on itself.\<close>

datatype 'r segment = Done 'r | Sleeps

definition kwait ::
  "uint64 \<Rightarrow> nat \<Rightarrow> uint64 \<Rightarrow> 'a kproc_scheme \<Rightarrow> (cint segment \<times> 'a kproc_scheme) kres" where
  "kwait kend me addr s =
     (case scan (\<lambda>pp. p_parent pp = Some me \<and> p_state pp = ZOMBIE) (procs s) of
        Some i \<Rightarrow>
          let pid = p_pid (pget i s) in
          kbind (if addr \<noteq> 0
                 then copyout kend (p_sz (pget me s)) (p_pagetable (pget me s)) (p_pagetable (pget me s))
                        addr (bytes32 (p_xstate (pget i s))) s
                 else Ret (0, s)) (\<lambda>(r, s).
            if r <s 0 then Ret (Done (-1), s)
            else kbind (freeproc kend i s) (\<lambda>s. Ret (Done pid, s)))
      | None \<Rightarrow>
          if \<not> list_ex (\<lambda>pp. p_parent pp = Some me) (procs s) \<or> killed me s \<noteq> 0
          then Ret (Done (-1), s)
          else Ret (Sleeps, sleep me (ChanProc me) s))"

section \<open>Fork and exit\<close>

text \<open>
  Reference counts of files and inodes belong to the file layer: \<open>dup_refs\<close>
  stands for the calls of \<^verbatim>\<open>filedup\<close> and \<^verbatim>\<open>idup\<close> in \<^verbatim>\<open>kfork\<close> (which return
  the pointer they are given), \<open>close_refs\<close> for the calls of \<^verbatim>\<open>fileclose\<close> and
  \<^verbatim>\<open>iput\<close> in \<^verbatim>\<open>kexit\<close>.
\<close>

definition fork_ofile :: "nat option list \<Rightarrow> nat option list \<Rightarrow> nat option list" where
  "fork_ofile parent child =
     map (\<lambda>i. if parent ! i \<noteq> None then parent ! i else child ! i) [0..<NOFILE]"

text \<open>\<^verbatim>\<open>safestrcpy(old, name, sizeof(old))\<close> on the 16 bytes of a process name.\<close>

definition copy_name :: "uchar list \<Rightarrow> uchar list \<Rightarrow> uchar list" where
  "copy_name old name = (let n = takeWhile (\<lambda>c. c \<noteq> 0) (take 15 name)
     in n @ [0] @ drop (length n + 1) old)"

definition fork_child :: "nat \<Rightarrow> nat \<Rightarrow> 'a kproc_scheme \<Rightarrow> 'a kproc_scheme" where
  "fork_child me np s =
     (let p = pget me s; q = pget np s;
          m = memmove (mem s) (p_trapframe q) (p_trapframe p) (of_nat TF_SIZE);
          m = st64 m (p_trapframe q + TF_a 0) 0
      in pset np (\<lambda>q. q\<lparr>p_sz := p_sz p, p_ofile := fork_ofile (p_ofile p) (p_ofile q),
           p_cwd := p_cwd p, p_name := copy_name (p_name q) (p_name p)\<rparr>) (s\<lparr>mem := m\<rparr>))"

definition kfork ::
  "(nat \<Rightarrow> 'a kproc_scheme \<Rightarrow> 'a kproc_scheme kres) \<Rightarrow> linkmap \<Rightarrow> nat \<Rightarrow> 'a kproc_scheme
     \<Rightarrow> (cint \<times> 'a kproc_scheme) kres" where
  "kfork dup_refs L me s =
     kbind (allocproc L s) (\<lambda>(r, s).
     case r of None \<Rightarrow> Ret (-1, s)
     | Some np \<Rightarrow>
         kbind (uvmcopy (lm_end L) (p_pagetable (pget me s)) (p_pagetable (pget np s)) (p_sz (pget me s)) s)
           (\<lambda>(c, s).
           if c <s 0 then kbind (freeproc (lm_end L) np s) (\<lambda>s. Ret (-1, s))
           else kbind (dup_refs me s) (\<lambda>s.
             let s = fork_child me np s;
                 pid = p_pid (pget np s);
                 s = pset np (\<lambda>q. q\<lparr>p_parent := Some me\<rparr>) s;
                 s = pset np (\<lambda>q. q\<lparr>p_state := RUNNABLE\<rparr>) s
             in Ret (pid, s))))"

definition kexit ::
  "(nat \<Rightarrow> 'a kproc_scheme \<Rightarrow> 'a kproc_scheme kres) \<Rightarrow> nat \<Rightarrow> cint \<Rightarrow> 'a kproc_scheme
     \<Rightarrow> 'a kproc_scheme kres" where
  "kexit close_refs me status s =
     (if initproc s = Some me then Panic ''init exiting''
      else kbind (close_refs me s) (\<lambda>s. Ret (exit_zombie me status s)))"

section \<open>Copies to and from either space\<close>

definition either_copyout ::
  "uint64 \<Rightarrow> nat \<Rightarrow> bool \<Rightarrow> uint64 \<Rightarrow> uchar list \<Rightarrow> 'a kproc_scheme \<Rightarrow> (cint \<times> 'a kproc_scheme) kres" where
  "either_copyout kend me user_dst dst src s =
     (let p = pget me s in
      if user_dst then copyout kend (p_sz p) (p_pagetable p) (p_pagetable p) dst src s
      else Ret (0, s\<lparr>mem := put_bytes (mem s) dst src\<rparr>))"

definition either_copyin ::
  "uint64 \<Rightarrow> nat \<Rightarrow> bool \<Rightarrow> uint64 \<Rightarrow> nat \<Rightarrow> 'a kproc_scheme
     \<Rightarrow> (cint \<times> uchar list \<times> 'a kproc_scheme) kres" where
  "either_copyin kend me user_src src len s =
     (let p = pget me s in
      if user_src then copyin kend (p_sz p) (p_pagetable p) (p_pagetable p) src len s
      else Ret (0, get_bytes (mem s) src len, s))"

end
