(* ===== verification/ProcInv.thy ===== *)
theory ProcInv
  imports Proc
begin

text \<open>
  The process table as a state machine.  \<open>proc_step\<close> interleaves the steps that
  any process or CPU can take on the table; \<open>ptable_inv\<close> is kept by all of them:
  process ids are unique, and no process is ever the child of a process that has
  exited.
\<close>

section \<open>Effects of the operations on the table\<close>

lemma only_kmem_kproc:
  assumes "only_kmem s s'"
  shows "procs s' = procs s" and "nextpid s' = nextpid s" and "initproc s' = initproc s"
    and "ticks s' = ticks s"
  using assms by (auto simp: only_kmem_def)

lemma pset_fields [simp]:
  "procs (pset i f s) = (procs s)[i := f (procs s ! i)]"
  "nextpid (pset i f s) = nextpid s" "initproc (pset i f s) = initproc s"
  "ticks (pset i f s) = ticks s" "mem (pset i f s) = mem s" "freelist (pset i f s) = freelist s"
  by (simp_all add: pset_def)

lemma wakeup_fields [simp]:
  "length (procs (wakeup me c s)) = length (procs s)"
  "nextpid (wakeup me c s) = nextpid s" "initproc (wakeup me c s) = initproc s"
  "ticks (wakeup me c s) = ticks s" "mem (wakeup me c s) = mem s" "freelist (wakeup me c s) = freelist s"
  by (simp_all add: wakeup_def)

lemma wakeup_nth:
  "j < length (procs s) \<Longrightarrow>
   procs (wakeup me c s) ! j = (if Some j \<noteq> me then wake_one c (procs s ! j) else procs s ! j)"
  by (simp add: wakeup_def)

text \<open>\<open>woken q q'\<close>: the process is unchanged or was taken out of its sleep.\<close>

definition woken :: "proc \<Rightarrow> proc \<Rightarrow> bool" where
  "woken q q' \<longleftrightarrow> q' = q \<or> p_state q = SLEEPING \<and> q' = q\<lparr>p_state := RUNNABLE\<rparr>"

lemma wakenI: "woken q (wake_one c q)" and woken_refl [simp]: "woken q q"
  by (auto simp: woken_def wake_one_def)

lemma woken_trans: "woken p q \<Longrightarrow> woken q r \<Longrightarrow> woken p r"
  by (auto simp: woken_def)

lemma woken_parent: "woken q q' \<Longrightarrow> woken (q\<lparr>p_parent := x\<rparr>) (q'\<lparr>p_parent := x\<rparr>)"
  by (auto simp: woken_def)

lemma wakeup_woken: "j < length (procs s) \<Longrightarrow> woken (procs s ! j) (procs (wakeup me c s) ! j)"
  by (simp add: wakeup_nth wakenI)

lemma reparent_loop_fields [simp]:
  "length (procs (reparent_loop p js s)) = length (procs s)"
  "nextpid (reparent_loop p js s) = nextpid s" "initproc (reparent_loop p js s) = initproc s"
  by (induction js arbitrary: s) simp_all

lemma wakeup_parent:
  "j < length (procs s) \<Longrightarrow> p_parent (procs (wakeup me c s) ! j) = p_parent (procs s ! j)"
  by (simp add: wakeup_nth wake_one_def)

lemma reparent_loop_parent:
  assumes "j < length (procs s)" and "initproc s \<noteq> Some p"
  shows "p_parent (procs (reparent_loop p js s) ! j) =
    (if p_parent (procs s ! j) = Some p \<and> j \<in> set js then initproc s else p_parent (procs s ! j))"
  using assms
proof (induction js arbitrary: s)
  case (Cons i js)
  then show ?case
    by (auto simp: wakeup_parent nth_list_update_if)
qed simp

text \<open>Apart from the parents, reparenting only wakes processes up.\<close>

lemma reparent_loop_woken:
  assumes "j < length (procs s)"
  shows "woken ((procs s ! j)\<lparr>p_parent := x\<rparr>) ((procs (reparent_loop p js s) ! j)\<lparr>p_parent := x\<rparr>)"
  using assms
proof (induction js arbitrary: s)
  case (Cons i js)
  define u where "u = pset i (\<lambda>q. q\<lparr>p_parent := initproc s\<rparr>) s"
  define t where "t = (if p_parent (pget i s) = Some p then wakeup (Some p) (proc_chan (initproc s)) u else s)"
  have len: "j < length (procs u)" "j < length (procs t)" using Cons.prems by (auto simp: u_def t_def)
  have "(procs u ! j)\<lparr>p_parent := x\<rparr> = (procs s ! j)\<lparr>p_parent := x\<rparr>"
    using Cons.prems by (simp add: u_def nth_list_update_if)
  then have w: "woken ((procs s ! j)\<lparr>p_parent := x\<rparr>) ((procs t ! j)\<lparr>p_parent := x\<rparr>)"
    using woken_parent [OF wakeup_woken [OF len(1)], of x] by (simp add: t_def)
  have step: "reparent_loop p (i # js) s = reparent_loop p js t" by (simp add: t_def u_def)
  show ?case unfolding step by (rule woken_trans [OF w Cons.IH [OF len(2)]])
qed simp

lemma exit_zombie_nth:
  assumes "me < length (procs s)" and "initproc s \<noteq> Some me" and "j < length (procs s)"
  shows "p_parent (procs (exit_zombie me status s) ! j) =
      (if p_parent (procs s ! j) = Some me then initproc s else p_parent (procs s ! j))"
    and "j \<noteq> me \<Longrightarrow> woken ((procs s ! j)\<lparr>p_parent := x\<rparr>)
      ((procs (exit_zombie me status s) ! j)\<lparr>p_parent := x\<rparr>)"
    and "p_state (procs (exit_zombie me status s) ! me) = ZOMBIE"
    and "p_xstate (procs (exit_zombie me status s) ! me) = status"
    and "p_pid (procs (exit_zombie me status s) ! j) = p_pid (procs s ! j)"
proof -
  define r where "r = reparent me s"
  define w where "w = wakeup (Some me) (proc_chan (p_parent (pget me r))) r"
  have e: "exit_zombie me status s = pset me (\<lambda>p. p\<lparr>p_xstate := status, p_state := ZOMBIE\<rparr>) w"
    by (simp add: exit_zombie_def r_def w_def Let_def)
  have len: "length (procs r) = length (procs s)" "length (procs w) = length (procs s)"
    by (simp_all add: r_def reparent_def w_def)
  have pr: "p_parent (procs w ! j) = (if p_parent (procs s ! j) = Some me then initproc s else p_parent (procs s ! j))"
    using reparent_loop_parent [OF assms(3,2)] assms(3) len
    by (simp add: w_def wakeup_parent r_def reparent_def)
  have wk: "woken ((procs s ! j)\<lparr>p_parent := x\<rparr>) ((procs w ! j)\<lparr>p_parent := x\<rparr>)" for x
    using reparent_loop_woken [OF assms(3), of x me] woken_parent [OF wakeup_woken [of j r], of x] assms(3) len(1)
    by (auto simp: w_def r_def reparent_def intro: woken_trans)
  have pid: "p_pid (procs w ! j) = p_pid (procs s ! j)"
    using wk [of None] by (auto simp: woken_def dest: arg_cong [where f = p_pid])
  show "p_parent (procs (exit_zombie me status s) ! j) =
      (if p_parent (procs s ! j) = Some me then initproc s else p_parent (procs s ! j))"
    using pr assms(1) len by (cases "j = me") (simp_all add: e)
  show "woken ((procs s ! j)\<lparr>p_parent := x\<rparr>) ((procs (exit_zombie me status s) ! j)\<lparr>p_parent := x\<rparr>)"
    if "j \<noteq> me" using that wk by (simp add: e)
  show "p_state (procs (exit_zombie me status s) ! me) = ZOMBIE"
    "p_xstate (procs (exit_zombie me status s) ! me) = status"
    using assms(1) len by (simp_all add: e)
  show "p_pid (procs (exit_zombie me status s) ! j) = p_pid (procs s ! j)"
    using pid assms(1) len by (cases "j = me") (simp_all add: e)
qed

lemma exit_zombie_fields [simp]:
  "length (procs (exit_zombie me status s)) = length (procs s)"
  "nextpid (exit_zombie me status s) = nextpid s" "initproc (exit_zombie me status s) = initproc s"
  by (simp_all add: exit_zombie_def Let_def reparent_def)

section \<open>Allocation and release of table entries\<close>

definition freed :: "proc \<Rightarrow> proc" where
  "freed p = p\<lparr>p_trapframe := 0, p_pagetable := 0, p_sz := 0, p_pid := 0, p_parent := None,
     p_name := (p_name p)[0 := 0], p_chan := ChanNone, p_killed := 0, p_xstate := 0,
     p_state := UNUSED, p_signal_handlers := replicate NSIG SIG_DFL, p_pending_signals := 0\<rparr>"

lemma proc_freepagetable_only: "proc_freepagetable kend t sz s = Ret s' \<Longrightarrow> only_kmem s s'"
  by (auto simp: proc_freepagetable_def kbind_eq_Ret_iff dest!: only_kmem_rules intro: only_kmem_trans)

lemma freeproc_procs:
  assumes "freeproc kend i s = Ret s'"
  shows "procs s' = (procs s)[i := freed (procs s ! i)]" and "nextpid s' = nextpid s"
    and "initproc s' = initproc s"
proof -
  obtain s1 s2 where
    s1: "(if p_trapframe (pget i s) \<noteq> 0 then kfree kend (p_trapframe (pget i s)) s else Ret s) = Ret s1"
    and s2: "(let t = pset i (\<lambda>p. p\<lparr>p_trapframe := 0\<rparr>) s1 in
       if p_pagetable (pget i t) \<noteq> 0 then proc_freepagetable kend (p_pagetable (pget i t)) (p_sz (pget i t)) t
       else Ret t) = Ret s2"
    and s': "s' = pset i (\<lambda>p. p\<lparr>p_pagetable := 0, p_sz := 0, p_pid := 0, p_parent := None,
       p_name := (p_name p)[0 := 0], p_chan := ChanNone, p_killed := 0, p_xstate := 0,
       p_state := UNUSED, p_signal_handlers := replicate NSIG SIG_DFL, p_pending_signals := 0\<rparr>) s2"
    using assms by (auto simp: freeproc_def kbind_eq_Ret_iff Let_def)
  have o1: "only_kmem s s1" using s1 by (auto split: if_splits dest: kfree_only)
  have o2: "only_kmem (pset i (\<lambda>p. p\<lparr>p_trapframe := 0\<rparr>) s1) s2"
    using s2 by (auto simp: Let_def split: if_splits dest: proc_freepagetable_only)
  note k = only_kmem_kproc [OF o1] only_kmem_kproc [OF o2]
  show "procs s' = (procs s)[i := freed (procs s ! i)]"
    using k by (cases "i < length (procs s)") (auto simp: s' freed_def list_update_beyond)
  show "nextpid s' = nextpid s" "initproc s' = initproc s" using k by (simp_all add: s')
qed

lemma proc_pagetable_only: "proc_pagetable L tf s = Ret (t, s') \<Longrightarrow> only_kmem s s'"
  by (auto simp: proc_pagetable_def kbind_eq_Ret_iff Let_def split: prod.splits if_splits
      dest!: only_kmem_rules; meson only_kmem_trans)

text \<open>
  \<^verbatim>\<open>allocproc\<close> hands out the first unused entry under a fresh process id; when
  it fails, the entry it had reserved is unused again.
\<close>

lemma allocproc_cases:
  assumes "allocproc L s = Ret (r, s')"
  obtains (full) "r = None" and "s' = s" and "scan (\<lambda>p. p_state p = UNUSED) (procs s) = None"
  | (nomem) i q where "r = None" and "scan (\<lambda>p. p_state p = UNUSED) (procs s) = Some i"
    and "procs s' = (procs s)[i := freed q]" and "nextpid s' = nextpid s + 1" and "initproc s' = initproc s"
  | (found) i q where "r = Some i" and "scan (\<lambda>p. p_state p = UNUSED) (procs s) = Some i"
    and "procs s' = (procs s)[i := q]" and "p_state q = USED" and "p_pid q = nextpid s"
    and "p_parent q = p_parent (procs s ! i)" and "p_killed q = p_killed (procs s ! i)"
    and "p_pending_signals q = 0" and "p_sigmask q = 0"
    and "nextpid s' = nextpid s + 1" and "initproc s' = initproc s"
proof (cases "scan (\<lambda>p. p_state p = UNUSED) (procs s)")
  case None
  then show ?thesis using full assms by (auto simp: allocproc_def)
next
  case (Some i)
  define u where "u = pset i (\<lambda>p. p\<lparr>p_pid := nextpid s, p_state := USED\<rparr>) (s\<lparr>nextpid := nextpid s + 1\<rparr>)"
  obtain tf v where k: "kalloc u = (tf, v)" by (cases "kalloc u")
  define w where "w = pset i (\<lambda>p. p\<lparr>p_trapframe := tf\<rparr>) v"
  have i: "i < length (procs s)" using Some by (auto dest: scan_SomeD)
  have kv: "procs v = procs u" "nextpid v = nextpid s + 1" "initproc v = initproc s"
    using only_kmem_kproc [OF kalloc_only [OF k]] by (simp_all add: u_def)
  have wq: "procs w = (procs s)[i := (procs s ! i)\<lparr>p_pid := nextpid s, p_state := USED, p_trapframe := tf\<rparr>]"
    using i by (simp add: w_def kv u_def)
  have wn: "nextpid w = nextpid s + 1" "initproc w = initproc s" by (simp_all add: w_def kv)
  have fail: thesis if "freeproc (lm_end L) i x = Ret s'" "r = None" "procs x = (procs s)[i := q]"
    "nextpid x = nextpid s + 1" "initproc x = initproc s" for x q
    using nomem [OF that(2) Some] freeproc_procs [OF that(1)] that i by simp
  show ?thesis
  proof (cases "tf = 0")
    case True
    then have "freeproc (lm_end L) i w = Ret s'" "r = None"
      using assms Some k by (auto simp: allocproc_def allocpid_def Let_def u_def w_def kbind_eq_Ret_iff)
    then show ?thesis using fail wq wn by blast
  next
    case False
    then obtain pt x where x: "proc_pagetable L tf w = Ret (pt, x)"
      and rest: "(let y = pset i (\<lambda>p. p\<lparr>p_pagetable := pt\<rparr>) x in
        if pt = 0 then kbind (freeproc (lm_end L) i y) (\<lambda>s. Ret (None, s))
        else Ret (Some i, pset i (\<lambda>p. p\<lparr>
              p_context := \<lparr>ctx_ra = lm_forkret L, ctx_sp = p_kstack p + PGSIZE, ctx_s = replicate 12 0\<rparr>,
              p_signal_handlers := replicate NSIG SIG_DFL, p_pending_signals := 0, p_sigmask := 0\<rparr>) y))
        = Ret (r, s')"
      using assms Some k
      by (auto simp: allocproc_def allocpid_def Let_def u_def w_def kbind_eq_Ret_iff)
    define y where "y = pset i (\<lambda>p. p\<lparr>p_pagetable := pt\<rparr>) x"
    have kx: "procs x = procs w" "nextpid x = nextpid s + 1" "initproc x = initproc s"
      using only_kmem_kproc [OF proc_pagetable_only [OF x]] wn by simp_all
    have yq: "procs y = (procs s)[i := (procs s ! i)\<lparr>p_pid := nextpid s, p_state := USED,
        p_trapframe := tf, p_pagetable := pt\<rparr>]" "nextpid y = nextpid s + 1" "initproc y = initproc s"
      using i by (simp_all add: y_def kx wq)
    show ?thesis
    proof (cases "pt = 0")
      case True
      then have "freeproc (lm_end L) i y = Ret s'" "r = None"
        using rest by (auto simp: Let_def y_def kbind_eq_Ret_iff)
      then show ?thesis by (rule fail [OF _ _ yq])
    next
      case False
      define q where "q = (procs s ! i)\<lparr>p_pid := nextpid s, p_state := USED,
        p_trapframe := tf, p_pagetable := pt,
        p_context := \<lparr>ctx_ra = lm_forkret L, ctx_sp = p_kstack (procs s ! i) + PGSIZE, ctx_s = replicate 12 0\<rparr>,
        p_signal_handlers := replicate NSIG SIG_DFL, p_pending_signals := 0, p_sigmask := 0\<rparr>"
      have "r = Some i" "procs s' = (procs s)[i := q]" "nextpid s' = nextpid s + 1" "initproc s' = initproc s"
        using rest False yq i by (auto simp: Let_def y_def [symmetric] q_def)
      then show ?thesis using found [OF _ Some, of q] by (simp add: q_def)
    qed
  qed
qed

section \<open>The invariant of the process table\<close>

definition live :: "proc \<Rightarrow> bool" where
  "live p \<longleftrightarrow> p_state p \<noteq> UNUSED \<and> p_state p \<noteq> ZOMBIE"

definition ptable_inv :: "'a kproc_scheme \<Rightarrow> bool" where
  "ptable_inv s \<longleftrightarrow> length (procs s) = NPROC \<and> 0 < sint (nextpid s)
     \<and> (\<forall>i < NPROC. p_state (pget i s) = UNUSED \<longrightarrow> p_pid (pget i s) = 0 \<and> p_parent (pget i s) = None)
     \<and> (\<forall>i < NPROC. p_state (pget i s) \<noteq> UNUSED \<longrightarrow>
          0 < sint (p_pid (pget i s)) \<and> sint (p_pid (pget i s)) < sint (nextpid s))
     \<and> (\<forall>i < NPROC. \<forall>j < NPROC. p_state (pget i s) \<noteq> UNUSED \<longrightarrow> p_pid (pget i s) = p_pid (pget j s) \<longrightarrow> i = j)
     \<and> (\<forall>i < NPROC. \<forall>j. p_parent (pget i s) = Some j \<longrightarrow> j < NPROC \<and> live (pget j s))
     \<and> (\<exists>k < NPROC. initproc s = Some k \<and> live (pget k s))"

lemma ptable_invD:
  assumes "ptable_inv s"
  shows "length (procs s) = NPROC" and "0 < sint (nextpid s)"
    and "i < NPROC \<Longrightarrow> p_state (pget i s) = UNUSED \<Longrightarrow> p_pid (pget i s) = 0 \<and> p_parent (pget i s) = None"
    and "i < NPROC \<Longrightarrow> p_state (pget i s) \<noteq> UNUSED \<Longrightarrow>
          0 < sint (p_pid (pget i s)) \<and> sint (p_pid (pget i s)) < sint (nextpid s)"
    and "i < NPROC \<Longrightarrow> j < NPROC \<Longrightarrow> p_state (pget i s) \<noteq> UNUSED \<Longrightarrow>
          p_pid (pget i s) = p_pid (pget j s) \<Longrightarrow> i = j"
    and "i < NPROC \<Longrightarrow> p_parent (pget i s) = Some j \<Longrightarrow> j < NPROC \<and> live (pget j s)"
    and "\<exists>k < NPROC. initproc s = Some k \<and> live (pget k s)"
  using assms unfolding ptable_inv_def by blast+

text \<open>Most steps leave ids and parents alone and neither create nor end a process.\<close>

definition alike :: "proc \<Rightarrow> proc \<Rightarrow> bool" where
  "alike p q \<longleftrightarrow> p_pid q = p_pid p \<and> p_parent q = p_parent p
     \<and> (p_state q = UNUSED \<longleftrightarrow> p_state p = UNUSED) \<and> (p_state q = ZOMBIE \<longleftrightarrow> p_state p = ZOMBIE)"

lemma alike_refl [simp]: "alike p p"
  by (simp add: alike_def)

lemma woken_alike: "woken p q \<Longrightarrow> alike p q"
  by (auto simp: woken_def alike_def)

lemma ptable_inv_alike:
  assumes inv: "ptable_inv s" and len: "length (procs s') = length (procs s)"
    and al: "\<And>i. i < NPROC \<Longrightarrow> alike (pget i s) (pget i s')"
    and np: "sint (nextpid s) \<le> sint (nextpid s')" and ip: "initproc s' = initproc s"
  shows "ptable_inv s'"
proof -
  have e: "p_pid (pget i s') = p_pid (pget i s)" "p_parent (pget i s') = p_parent (pget i s)"
    "p_state (pget i s') = UNUSED \<longleftrightarrow> p_state (pget i s) = UNUSED" "live (pget i s') \<longleftrightarrow> live (pget i s)"
    if "i < NPROC" for i
    using al [OF that] by (auto simp: alike_def live_def)
  show ?thesis unfolding ptable_inv_def
  proof (intro conjI allI impI)
    show "length (procs s') = NPROC" using ptable_invD(1) [OF inv] len by simp
    show "0 < sint (nextpid s')" using ptable_invD(2) [OF inv] np by simp
    show "\<exists>k < NPROC. initproc s' = Some k \<and> live (pget k s')" using ptable_invD(7) [OF inv] e ip by auto
  next
    fix i
    assume i: "i < NPROC"
    show "p_pid (pget i s') = 0" "p_parent (pget i s') = None" if "p_state (pget i s') = UNUSED"
      using ptable_invD(3) [OF inv i] e [OF i] that by auto
    show "0 < sint (p_pid (pget i s'))" "sint (p_pid (pget i s')) < sint (nextpid s')"
      if "p_state (pget i s') \<noteq> UNUSED"
      using ptable_invD(4) [OF inv i] e [OF i] that np by auto
    show "i = j" if "j < NPROC" "p_state (pget i s') \<noteq> UNUSED" "p_pid (pget i s') = p_pid (pget j s')" for j
      using ptable_invD(5) [OF inv i that(1)] e [OF i] e [OF that(1)] that by auto
    show "j < NPROC" "live (pget j s')" if "p_parent (pget i s') = Some j" for j
      using ptable_invD(6) [OF inv i, of j] e [OF i] e [of j] that by auto
  qed
qed

text \<open>One entry changes.\<close>

lemma ptable_inv_pset_alike:
  assumes "ptable_inv s" and "i < NPROC" and "alike (pget i s) (f (pget i s))"
  shows "ptable_inv (pset i f s)"
  by (rule ptable_inv_alike [OF assms(1)])
    (use assms ptable_invD(1) [OF assms(1)] in \<open>auto simp: nth_list_update_if\<close>)

lemma ptable_inv_wakeup: "ptable_inv s \<Longrightarrow> ptable_inv (wakeup me c s)"
  by (rule ptable_inv_alike) (auto simp: ptable_invD(1) wakeup_woken woken_alike)

lemma ptable_inv_only_kmem:
  assumes "ptable_inv s" and "only_kmem s s'"
  shows "ptable_inv s'"
  using assms(1) unfolding ptable_inv_def only_kmem_kproc [OF assms(2)] .

text \<open>Releasing an entry that no process has as its parent.\<close>

lemma not_live_childless:
  assumes "ptable_inv s" and "\<not> live (pget i s)"
  shows "\<forall>j < NPROC. p_parent (pget j s) \<noteq> Some i" and "initproc s \<noteq> Some i"
  using ptable_invD(6,7) [OF assms(1)] assms(2) by auto

lemma ptable_inv_free:
  assumes inv: "ptable_inv s" and i: "i < NPROC"
    and z: "\<forall>j < NPROC. p_parent (pget j s) \<noteq> Some i" "initproc s \<noteq> Some i"
    and s': "procs s' = (procs s)[i := freed q]" "nextpid s' = nextpid s" "initproc s' = initproc s"
  shows "ptable_inv s'"
proof -
  have len: "length (procs s) = NPROC" by (rule ptable_invD(1) [OF inv])
  have gi: "p_state (pget i s') = UNUSED" "p_pid (pget i s') = 0" "p_parent (pget i s') = None"
    using i len by (simp_all add: s' freed_def)
  have g: "pget j s' = pget j s" if "j \<noteq> i" for j using that by (simp add: s')
  show ?thesis unfolding ptable_inv_def
  proof (intro conjI allI impI)
    show "length (procs s') = NPROC" "0 < sint (nextpid s')" using len ptable_invD(2) [OF inv] by (simp_all add: s')
    obtain k where k: "k < NPROC" "initproc s = Some k" "live (pget k s)" using ptable_invD(7) [OF inv] by blast
    then show "\<exists>k < NPROC. initproc s' = Some k \<and> live (pget k s')"
      using g [of k] z(2) s'(3) by auto
  next
    fix j
    assume j: "j < NPROC"
    show "p_pid (pget j s') = 0" "p_parent (pget j s') = None" if "p_state (pget j s') = UNUSED"
    proof -
      have "p_pid (pget j s') = 0 \<and> p_parent (pget j s') = None"
      proof (cases "j = i")
        case True
        then show ?thesis using gi by simp
      next
        case False
        then show ?thesis using that ptable_invD(3) [OF inv j] g by simp
      qed
      then show "p_pid (pget j s') = 0" "p_parent (pget j s') = None" by blast+
    qed
    show "0 < sint (p_pid (pget j s'))" "sint (p_pid (pget j s')) < sint (nextpid s')"
      if "p_state (pget j s') \<noteq> UNUSED"
    proof -
      have "j \<noteq> i" using that gi by blast
      then show "0 < sint (p_pid (pget j s'))" "sint (p_pid (pget j s')) < sint (nextpid s')"
        using ptable_invD(4) [OF inv j] that g s'(2) by simp_all
    qed
    show "j = k" if k: "k < NPROC" "p_state (pget j s') \<noteq> UNUSED" "p_pid (pget j s') = p_pid (pget k s')" for k
    proof -
      have ji: "j \<noteq> i" using k(2) gi by blast
      then have pos: "0 < sint (p_pid (pget j s))" using ptable_invD(4) [OF inv j] k(2) g by simp
      have "k \<noteq> i"
      proof
        assume "k = i"
        then have "p_pid (pget j s) = 0" using k(3) g [OF ji] gi(2) by simp
        then show False using pos by simp
      qed
      then show ?thesis using ptable_invD(5) [OF inv j k(1)] k(2,3) g [OF ji] g [of k] by simp
    qed
    show "k < NPROC" "live (pget k s')" if k: "p_parent (pget j s') = Some k" for k
    proof -
      have "j \<noteq> i" using k gi by auto
      then have "p_parent (pget j s) = Some k" using k g by simp
      then have "k < NPROC" "live (pget k s)" "k \<noteq> i" using ptable_invD(6) [OF inv j] z(1) j by blast+
      then show "k < NPROC" "live (pget k s')" using g by simp_all
    qed
  qed
qed

text \<open>A fresh entry, and the publication of a child under its parent.\<close>

lemma unused_slot:
  assumes "ptable_inv s" and "scan (\<lambda>p. p_state p = UNUSED) (procs s) = Some i"
  shows "i < NPROC" and "p_state (pget i s) = UNUSED"
  using scan_SomeD [OF assms(2)] ptable_invD(1) [OF assms(1)] by auto

lemma ptable_inv_alloc:
  assumes inv: "ptable_inv s" and i: "i < NPROC" and u: "p_state (pget i s) = UNUSED"
    and q: "p_state q \<noteq> UNUSED" "p_state q \<noteq> ZOMBIE" "p_pid q = nextpid s"
      "\<And>j. p_parent q = Some j \<Longrightarrow> j < NPROC \<and> live (pget j s)"
    and s': "procs s' = (procs s)[i := q]" "nextpid s' = nextpid s + 1" "initproc s' = initproc s"
    and room: "sint (nextpid s) < 2 ^ 31 - 1"
  shows "ptable_inv s'"
proof -
  have len: "length (procs s) = NPROC" by (rule ptable_invD(1) [OF inv])
  have gi: "pget i s' = q" using i len by (simp add: s')
  have g: "pget j s' = pget j s" if "j \<noteq> i" for j using that by (simp add: s')
  have np: "sint (nextpid s') = sint (nextpid s) + 1" using sint_inc [OF room] s'(2) by simp
  have lv: "live (pget j s')" if "live (pget j s)" for j
    using that g [of j] gi q(1,2) by (cases "j = i") (auto simp: live_def)
  have fresh: "p_pid (pget j s) \<noteq> nextpid s" if "j < NPROC" for j
    using ptable_invD(3,4) [OF inv that] ptable_invD(2) [OF inv] by (cases "p_state (pget j s) = UNUSED") auto
  show ?thesis unfolding ptable_inv_def
  proof (intro conjI allI impI)
    show "length (procs s') = NPROC" "0 < sint (nextpid s')"
      using len np ptable_invD(2) [OF inv] by (simp_all add: s'(1))
    obtain k where k: "k < NPROC" "initproc s = Some k" "live (pget k s)" using ptable_invD(7) [OF inv] by blast
    then show "\<exists>k < NPROC. initproc s' = Some k \<and> live (pget k s')" using lv [OF k(3)] s'(3) by auto
  next
    fix j
    assume j: "j < NPROC"
    show "p_pid (pget j s') = 0" "p_parent (pget j s') = None" if "p_state (pget j s') = UNUSED"
    proof -
      have "j \<noteq> i" using that gi q(1) by auto
      then show "p_pid (pget j s') = 0" "p_parent (pget j s') = None"
        using ptable_invD(3) [OF inv j] that g by simp_all
    qed
    show "0 < sint (p_pid (pget j s'))" "sint (p_pid (pget j s')) < sint (nextpid s')"
      if a: "p_state (pget j s') \<noteq> UNUSED"
    proof -
      have "0 < sint (p_pid (pget j s')) \<and> sint (p_pid (pget j s')) < sint (nextpid s) + 1"
      proof (cases "j = i")
        case True
        then show ?thesis using gi q(3) ptable_invD(2) [OF inv] by simp
      next
        case False
        then show ?thesis using ptable_invD(4) [OF inv j] a g by simp
      qed
      then show "0 < sint (p_pid (pget j s'))" "sint (p_pid (pget j s')) < sint (nextpid s')"
        using np by simp_all
    qed
    show "j = k" if k: "k < NPROC" "p_state (pget j s') \<noteq> UNUSED" "p_pid (pget j s') = p_pid (pget k s')" for k
    proof (cases "j = i \<or> k = i")
      case True
      then show ?thesis using k(3) gi q(3) g fresh [OF j] fresh [OF k(1)] by (metis (no_types))
    next
      case False
      then show ?thesis using ptable_invD(5) [OF inv j k(1)] k(2,3) g by simp
    qed
    show "k < NPROC" "live (pget k s')" if k: "p_parent (pget j s') = Some k" for k
    proof -
      have "k < NPROC \<and> live (pget k s)"
      proof (cases "j = i")
        case True
        then show ?thesis using k gi q(4) by simp
      next
        case False
        then show ?thesis using k g ptable_invD(6) [OF inv j] by simp
      qed
      then show "k < NPROC" "live (pget k s')" using lv by simp_all
    qed
  qed
qed

lemma ptable_inv_exit:
  assumes inv: "ptable_inv s" and me: "me < NPROC" "live (pget me s)" and ni: "initproc s \<noteq> Some me"
  shows "ptable_inv (exit_zombie me status s)"
proof -
  let ?s = "exit_zombie me status s"
  have len: "length (procs s) = NPROC" by (rule ptable_invD(1) [OF inv])
  have ml: "me < length (procs s)" using me(1) len by simp
  obtain k where k: "k < NPROC" "initproc s = Some k" "live (pget k s)" using ptable_invD(7) [OF inv] by blast
  have ez: "p_pid (pget j ?s) = p_pid (pget j s)"
    "p_parent (pget j ?s) = (if p_parent (pget j s) = Some me then initproc s else p_parent (pget j s))"
    "j \<noteq> me \<Longrightarrow> (p_state (pget j ?s) = UNUSED \<longleftrightarrow> p_state (pget j s) = UNUSED) \<and> (live (pget j ?s) \<longleftrightarrow> live (pget j s))"
    if "j < NPROC" for j
  proof -
    have jl: "j < length (procs s)" using that len by simp
    show "p_pid (pget j ?s) = p_pid (pget j s)" by (rule exit_zombie_nth(5) [OF ml ni jl])
    show "p_parent (pget j ?s) = (if p_parent (pget j s) = Some me then initproc s else p_parent (pget j s))"
      by (rule exit_zombie_nth(1) [OF ml ni jl])
    show "(p_state (pget j ?s) = UNUSED \<longleftrightarrow> p_state (pget j s) = UNUSED) \<and> (live (pget j ?s) \<longleftrightarrow> live (pget j s))"
      if "j \<noteq> me"
      using exit_zombie_nth(2) [OF ml ni jl that, of None status]
      by (auto simp: woken_def live_def dest: arg_cong [where f = p_state])
  qed
  have z: "p_state (pget me ?s) = ZOMBIE" by (rule exit_zombie_nth(3) [OF ml ni ml])
  have un: "p_state (pget j ?s) = UNUSED \<longleftrightarrow> p_state (pget j s) = UNUSED" if "j < NPROC" for j
    using ez(3) [OF that] z me(2) by (cases "j = me") (auto simp: live_def)
  have km: "k \<noteq> me" using ni k(2) by auto
  show ?thesis unfolding ptable_inv_def
  proof (intro conjI allI impI)
    show "length (procs ?s) = NPROC" "0 < sint (nextpid ?s)" using len ptable_invD(2) [OF inv] by simp_all
    show "\<exists>k < NPROC. initproc ?s = Some k \<and> live (pget k ?s)" using k ez(3) [OF k(1) km] by auto
  next
    fix j
    assume j: "j < NPROC"
    show "p_pid (pget j ?s) = 0" "p_parent (pget j ?s) = None" if "p_state (pget j ?s) = UNUSED"
      using ptable_invD(3) [OF inv j] ez(1,2) [OF j] un [OF j] that by simp_all
    show "0 < sint (p_pid (pget j ?s))" "sint (p_pid (pget j ?s)) < sint (nextpid ?s)"
      if "p_state (pget j ?s) \<noteq> UNUSED"
      using ptable_invD(4) [OF inv j] ez(1) [OF j] un [OF j] that by simp_all
    show "j = i" if "i < NPROC" "p_state (pget j ?s) \<noteq> UNUSED" "p_pid (pget j ?s) = p_pid (pget i ?s)" for i
      using ptable_invD(5) [OF inv j that(1)] ez(1) [OF j] ez(1) [OF that(1)] un [OF j] that by simp
    show "i < NPROC" "live (pget i ?s)" if i: "p_parent (pget j ?s) = Some i" for i
    proof -
      have "i = k \<or> p_parent (pget j s) = Some i \<and> i \<noteq> me" using i ez(2) [OF j] k(2) by (auto split: if_splits)
      then have "i < NPROC \<and> live (pget i s) \<and> i \<noteq> me" using ptable_invD(6) [OF inv j, of i] k km by blast
      then show "i < NPROC" "live (pget i ?s)" using ez(3) [of i] by simp_all
    qed
  qed
qed

lemma ptable_inv_parent:
  assumes inv: "ptable_inv s" and i: "i < NPROC" "p_state (pget i s) \<noteq> UNUSED"
    and me: "me < NPROC" "live (pget me s)"
  shows "ptable_inv (pset i (\<lambda>q. q\<lparr>p_parent := Some me\<rparr>) s)"
proof -
  let ?s = "pset i (\<lambda>q. q\<lparr>p_parent := Some me\<rparr>) s"
  have len: "length (procs s) = NPROC" by (rule ptable_invD(1) [OF inv])
  have g: "p_state (pget j ?s) = p_state (pget j s)" "p_pid (pget j ?s) = p_pid (pget j s)"
    "live (pget j ?s) = live (pget j s)"
    "p_parent (pget j ?s) = (if j = i then Some me else p_parent (pget j s))" if "j < NPROC" for j
    using that len by (auto simp: nth_list_update_if live_def)
  show ?thesis unfolding ptable_inv_def
  proof (intro conjI allI impI)
    show "length (procs ?s) = NPROC" "0 < sint (nextpid ?s)" using len ptable_invD(2) [OF inv] by simp_all
    obtain k where k: "k < NPROC" "initproc s = Some k" "live (pget k s)" using ptable_invD(7) [OF inv] by blast
    then show "\<exists>k < NPROC. initproc ?s = Some k \<and> live (pget k ?s)" using g(3) [OF k(1)] by auto
  next
    fix j
    assume j: "j < NPROC"
    show "p_pid (pget j ?s) = 0" "p_parent (pget j ?s) = None" if "p_state (pget j ?s) = UNUSED"
      using that ptable_invD(3) [OF inv j] i(2) unfolding g [OF j] by auto
    show "0 < sint (p_pid (pget j ?s))" "sint (p_pid (pget j ?s)) < sint (nextpid ?s)"
      if "p_state (pget j ?s) \<noteq> UNUSED"
      using that ptable_invD(4) [OF inv j] unfolding g [OF j] by auto
    show "j = k" if "k < NPROC" "p_state (pget j ?s) \<noteq> UNUSED" "p_pid (pget j ?s) = p_pid (pget k ?s)" for k
      using that(2,3) ptable_invD(5) [OF inv j that(1)] unfolding g [OF j] g [OF that(1)] by auto
    show "k < NPROC" "live (pget k ?s)" if k: "p_parent (pget j ?s) = Some k" for k
    proof -
      have "k < NPROC \<and> live (pget k s)"
        using k me ptable_invD(6) [OF inv j] unfolding g [OF j] by (cases "j = i") auto
      then show "k < NPROC" "live (pget k ?s)" using g(3) [of k] by simp_all
    qed
  qed
qed

section \<open>Fork, wait and exit keep the invariant\<close>

text \<open>
  What the file layer's share of \<^verbatim>\<open>kfork\<close> and \<^verbatim>\<open>kexit\<close> may do to the table:
  file descriptors and directories, but no ids or parents, and no states except
  that closing a file may wake processes up.
\<close>

definition table_neutral :: "(nat \<Rightarrow> 'a kproc_scheme \<Rightarrow> 'a kproc_scheme kres) \<Rightarrow> bool" where
  "table_neutral f \<longleftrightarrow> (\<forall>me s s'. f me s = Ret s' \<longrightarrow>
     length (procs s') = length (procs s) \<and> nextpid s' = nextpid s \<and> initproc s' = initproc s \<and>
     (\<forall>i < length (procs s). alike (pget i s) (pget i s')
        \<and> (p_state (pget i s) \<notin> {SLEEPING, RUNNABLE} \<longrightarrow> p_state (pget i s') = p_state (pget i s))))"

lemma table_neutral_inv:
  assumes "table_neutral f" and "f me s = Ret s'" and "ptable_inv s"
  shows "ptable_inv s'"
    and "\<And>i. i < NPROC \<Longrightarrow> p_state (pget i s) \<notin> {SLEEPING, RUNNABLE} \<Longrightarrow> p_state (pget i s') = p_state (pget i s)"
    and "initproc s' = initproc s"
proof -
  have len: "length (procs s) = NPROC" by (rule ptable_invD(1) [OF assms(3)])
  have f: "length (procs s') = length (procs s)" "nextpid s' = nextpid s" "initproc s' = initproc s"
    "\<And>i. i < NPROC \<Longrightarrow> alike (pget i s) (pget i s')
       \<and> (p_state (pget i s) \<notin> {SLEEPING, RUNNABLE} \<longrightarrow> p_state (pget i s') = p_state (pget i s))"
    using assms(1,2) len unfolding table_neutral_def by auto
  show "ptable_inv s'" by (rule ptable_inv_alike [OF assms(3)]) (use f in auto)
  show "\<And>i. i < NPROC \<Longrightarrow> p_state (pget i s) \<notin> {SLEEPING, RUNNABLE} \<Longrightarrow> p_state (pget i s') = p_state (pget i s)" "initproc s' = initproc s" using f by auto
qed

lemma allocproc_inv:
  assumes inv: "ptable_inv s" and room: "sint (nextpid s) < 2 ^ 31 - 1"
    and a: "allocproc L s = Ret (r, s')"
  shows "ptable_inv s'"
    and "r = Some i \<Longrightarrow> i < NPROC \<and> p_state (pget i s) = UNUSED \<and> p_state (pget i s') = USED
      \<and> (\<forall>j < NPROC. p_parent (pget j s') \<noteq> Some i) \<and> initproc s' \<noteq> Some i"
    and "j < NPROC \<Longrightarrow> p_state (pget j s) \<noteq> UNUSED \<Longrightarrow> pget j s' = pget j s"
proof -
  have len: "length (procs s) = NPROC" by (rule ptable_invD(1) [OF inv])
  have "ptable_inv s' \<and> (r = Some i \<longrightarrow> i < NPROC \<and> p_state (pget i s) = UNUSED \<and> p_state (pget i s') = USED
      \<and> (\<forall>j < NPROC. p_parent (pget j s') \<noteq> Some i) \<and> initproc s' \<noteq> Some i)
      \<and> (j < NPROC \<longrightarrow> p_state (pget j s) \<noteq> UNUSED \<longrightarrow> pget j s' = pget j s)"
    using a
  proof (cases rule: allocproc_cases)
    case full
    then show ?thesis using inv by simp
  next
    case (nomem k q)
    note k = unused_slot [OF inv nomem(2)]
    have "\<not> live (pget k s)" using k(2) by (simp add: live_def)
    note nl = not_live_childless [OF inv this]
    have "ptable_inv (s'\<lparr>nextpid := nextpid s\<rparr>)"
      by (rule ptable_inv_free [OF inv k(1) nl, where q = q]) (use nomem in auto)
    then have "ptable_inv s'"
      by (rule ptable_inv_alike) (use sint_inc [OF room] nomem(4) in auto)
    then show ?thesis using nomem k by (auto simp: nth_list_update_if len)
  next
    case (found k q)
    note k = unused_slot [OF inv found(2)]
    have par: "p_parent q = None" using ptable_invD(3) [OF inv k] found(6) by simp
    have "ptable_inv s'"
      by (rule ptable_inv_alloc [OF inv k, where q = q]) (use found par room in auto)
    moreover have "\<forall>m < NPROC. p_parent (pget m s') \<noteq> Some k"
      using not_live_childless(1) [OF inv, of k] k(2) found(3) par len
      by (auto simp: nth_list_update_if live_def)
    moreover have "initproc s' \<noteq> Some k"
      using not_live_childless(2) [OF inv, of k] k(2) found(11) by (simp add: live_def)
    moreover have "p_state (pget k s') = USED" using found(3,4) k(1) len by simp
    moreover have "p_state (pget j s) \<noteq> UNUSED \<Longrightarrow> pget j s' = pget j s"
      using found(3) k(2) by (cases "j = k") auto
    ultimately show ?thesis unfolding found(1) using k by blast
  qed
  then show "ptable_inv s'"
    and "r = Some i \<Longrightarrow> i < NPROC \<and> p_state (pget i s) = UNUSED \<and> p_state (pget i s') = USED
      \<and> (\<forall>j < NPROC. p_parent (pget j s') \<noteq> Some i) \<and> initproc s' \<noteq> Some i"
    and "j < NPROC \<Longrightarrow> p_state (pget j s) \<noteq> UNUSED \<Longrightarrow> pget j s' = pget j s" by blast+
qed

lemma fork_child_fields [simp]:
  "procs (fork_child me np s) = (procs s)[np := (procs s ! np)\<lparr>p_sz := p_sz (pget me s),
     p_ofile := fork_ofile (p_ofile (pget me s)) (p_ofile (procs s ! np)), p_cwd := p_cwd (pget me s),
     p_name := copy_name (p_name (pget np s)) (p_name (pget me s))\<rparr>]"
  "nextpid (fork_child me np s) = nextpid s" "initproc (fork_child me np s) = initproc s"
  by (simp_all add: fork_child_def Let_def)

lemma kfork_inv:
  assumes inv: "ptable_inv s" and room: "sint (nextpid s) < 2 ^ 31 - 1" and dup: "table_neutral dup"
    and me: "me < NPROC" "p_state (pget me s) = RUNNING"
    and f: "kfork dup L me s = Ret (r, s')"
  shows "ptable_inv s'"
proof -
  obtain x s1 where a: "allocproc L s = Ret (x, s1)" using f by (auto simp: kfork_def kbind_eq_Ret_iff)
  note inv1 = allocproc_inv(1) [OF inv room a]
  show ?thesis
  proof (cases x)
    case None
    then show ?thesis using f a inv1 by (simp add: kfork_def)
  next
    case (Some np)
    note np = allocproc_inv(2) [OF inv room a Some]
    obtain c s2 where u: "uvmcopy (lm_end L) (p_pagetable (pget me s1)) (p_pagetable (pget np s1))
        (p_sz (pget me s1)) s1 = Ret (c, s2)"
      using f a Some by (auto simp: kfork_def kbind_eq_Ret_iff)
    note o = uvmcopy_only [OF u]
    have inv2: "ptable_inv s2" by (rule ptable_inv_only_kmem [OF inv1 o])
    note k2 = only_kmem_kproc [OF o]
    have meU: "p_state (pget me s2) = RUNNING"
      using allocproc_inv(3) [OF inv room a me(1)] me(2) k2(1) by simp
    show ?thesis
    proof (cases "c <s 0")
      case True
      then have fr: "freeproc (lm_end L) np s2 = Ret s'"
        using f a Some u by (auto simp: kfork_def kbind_eq_Ret_iff)
      show ?thesis
        by (rule ptable_inv_free [OF inv2 _ _ _ freeproc_procs [OF fr]]) (use np k2 in auto)
    next
      case False
      then obtain s3 where d: "dup me s2 = Ret s3" and s': "s' = pset np (\<lambda>q. q\<lparr>p_state := RUNNABLE\<rparr>)
          (pset np (\<lambda>q. q\<lparr>p_parent := Some me\<rparr>) (fork_child me np s3))"
        using f a Some u by (auto simp: kfork_def kbind_eq_Ret_iff Let_def)
      note n3 = table_neutral_inv [OF dup d inv2]
      define s4 where "s4 = fork_child me np s3"
      have len3: "length (procs s3) = NPROC" by (rule ptable_invD(1) [OF n3(1)])
      have inv4: "ptable_inv s4"
        by (rule ptable_inv_alike [OF n3(1)]) (use len3 in \<open>auto simp: s4_def nth_list_update_if alike_def\<close>)
      have st4: "p_state (pget i s4) = p_state (pget i s2)" if "i < NPROC" "p_state (pget i s2) \<notin> {SLEEPING, RUNNABLE}" for i
        using that n3(2) [OF that] len3 by (cases "i = np") (simp_all add: s4_def)
      have npl: "np < NPROC" "p_state (pget np s4) = USED" "p_state (pget me s4) = RUNNING"
        using np st4 me(1) meU k2(1) by auto
      have inv5: "ptable_inv (pset np (\<lambda>q. q\<lparr>p_parent := Some me\<rparr>) s4)"
        by (rule ptable_inv_parent [OF inv4]) (use npl me(1) in \<open>auto simp: live_def\<close>)
      show ?thesis unfolding s' s4_def [symmetric]
        by (rule ptable_inv_pset_alike [OF inv5 npl(1)])
          (use npl ptable_invD(1) [OF inv4] in \<open>auto simp: alike_def\<close>)
    qed
  qed
qed

lemma kwait_inv:
  assumes inv: "ptable_inv s" and me: "me < NPROC" "p_state (pget me s) = RUNNING"
    and w: "kwait kend me addr s = Ret (r, s')"
  shows "ptable_inv s'"
proof (cases "scan (\<lambda>pp. p_parent pp = Some me \<and> p_state pp = ZOMBIE) (procs s)")
  case None
  show ?thesis
  proof (cases "s' = s")
    case False
    then have "s' = sleep me (ChanProc me) s" using w None by (auto simp: kwait_def split: if_splits)
    then show ?thesis using ptable_inv_pset_alike [OF inv me(1)] me(2) by (simp add: sleep_def alike_def)
  qed (use inv in simp)
next
  case (Some i)
  have i: "i < NPROC" "p_state (pget i s) = ZOMBIE"
    using scan_SomeD [OF Some] ptable_invD(1) [OF inv] by auto
  obtain c s1 where c: "(if addr \<noteq> 0
        then copyout kend (p_sz (pget me s)) (p_pagetable (pget me s)) (p_pagetable (pget me s))
               addr (bytes32 (p_xstate (pget i s))) s else Ret (0, s)) = Ret (c, s1)"
    and rest: "(if c <s 0 then Ret (Done (-1), s1)
       else kbind (freeproc kend i s1) (\<lambda>s. Ret (Done (p_pid (pget i s1)), s))) = Ret (r, s') \<or>
       s' = s1 \<or> freeproc kend i s1 = Ret s'"
    using w Some by (auto simp: kwait_def Let_def kbind_eq_Ret_iff split: if_splits)
  have o: "only_kmem s s1" using c by (auto split: if_splits dest: copyout_only)
  have inv1: "ptable_inv s1" by (rule ptable_inv_only_kmem [OF inv o])
  have z: "\<not> live (pget i s1)" using i(2) only_kmem_kproc(1) [OF o] by (simp add: live_def)
  consider "s' = s1" | "freeproc kend i s1 = Ret s'" using rest by (auto simp: kbind_eq_Ret_iff split: if_splits)
  then show ?thesis
  proof cases
    case 2
    show ?thesis by (rule ptable_inv_free [OF inv1 i(1) not_live_childless [OF inv1 z] freeproc_procs [OF 2]])
  qed (use inv1 in simp)
qed

section \<open>The table as a state machine\<close>

text \<open>
  The steps of the scheduler, of running processes and of interrupt handlers on
  the table, in any order.  Process ids are C ints that only grow: a step that
  creates a process is considered while the counter is below its maximum.
\<close>

inductive proc_step ::
  "(nat \<Rightarrow> 'a kproc_scheme \<Rightarrow> 'a kproc_scheme kres) \<Rightarrow> (nat \<Rightarrow> 'a kproc_scheme \<Rightarrow> 'a kproc_scheme kres)
     \<Rightarrow> linkmap \<Rightarrow> 'a kproc_scheme \<Rightarrow> 'a kproc_scheme \<Rightarrow> bool" for dup close L where
  run: "i < NPROC \<Longrightarrow> schedule i s = (True, s') \<Longrightarrow> proc_step dup close L s s'"
| yields: "me < NPROC \<Longrightarrow> p_state (pget me s) = RUNNING \<Longrightarrow> proc_step dup close L s (yield me s)"
| sleeps: "me < NPROC \<Longrightarrow> p_state (pget me s) = RUNNING \<Longrightarrow> proc_step dup close L s (sleep me c s)"
| resumes: "me < NPROC \<Longrightarrow> p_state (pget me s) = RUNNING \<Longrightarrow> proc_step dup close L s (sleep_return me s)"
| wakes: "proc_step dup close L s (wakeup me c s)"
| kills: "kkill pid s = (r, s') \<Longrightarrow> proc_step dup close L s s'"
| faults: "me < NPROC \<Longrightarrow> p_state (pget me s) = RUNNING \<Longrightarrow> proc_step dup close L s (setkilled me s)"
| forks: "me < NPROC \<Longrightarrow> p_state (pget me s) = RUNNING \<Longrightarrow> sint (nextpid s) < 2 ^ 31 - 1 \<Longrightarrow>
    kfork dup L me s = Ret (r, s') \<Longrightarrow> proc_step dup close L s s'"
| waits: "me < NPROC \<Longrightarrow> p_state (pget me s) = RUNNING \<Longrightarrow>
    kwait (lm_end L) me addr s = Ret (w, s') \<Longrightarrow> proc_step dup close L s s'"
| exits: "me < NPROC \<Longrightarrow> p_state (pget me s) = RUNNING \<Longrightarrow>
    kexit close me status s = Ret s' \<Longrightarrow> proc_step dup close L s s'"
| memory: "only_kmem s s' \<Longrightarrow> proc_step dup close L s s'"

lemma kkill_inv: "ptable_inv s \<Longrightarrow> kkill pid s = (r, s') \<Longrightarrow> ptable_inv s'"
proof (cases "scan (\<lambda>p. p_pid p = pid) (procs s)")
  case (Some i)
  assume inv: "ptable_inv s" and k: "kkill pid s = (r, s')"
  have i: "i < NPROC" using scan_SomeD(1) [OF Some] ptable_invD(1) [OF inv] by simp
  show ?thesis using k Some ptable_inv_pset_alike [OF inv i] by (auto simp: kkill_def alike_def)
qed (simp add: kkill_def)

lemma proc_step_inv:
  assumes "proc_step dup close L s s'" and "table_neutral dup" and "table_neutral close" and "ptable_inv s"
  shows "ptable_inv s'"
  using assms
proof (induction rule: proc_step.induct)
  case (run i s s')
  then show ?case using ptable_inv_pset_alike [OF run(5,1)]
    by (auto simp: schedule_def alike_def split: if_splits)
next
  case (exits me s status s')
  then obtain s1 where c: "close me s = Ret s1" and s': "s' = exit_zombie me status s1" and ni: "initproc s \<noteq> Some me"
    by (auto simp: kexit_def kbind_eq_Ret_iff split: if_splits)
  note n = table_neutral_inv [OF exits(5) c exits(6)]
  show ?case unfolding s'
    by (rule ptable_inv_exit [OF n(1) exits(1)]) (use n exits ni in \<open>auto simp: live_def\<close>)
next
  case (yields me s)
  then show ?case using ptable_inv_pset_alike [OF yields(5,1)] by (simp add: yield_def alike_def)
next
  case (sleeps me s c)
  then show ?case using ptable_inv_pset_alike [OF sleeps(5,1)] by (simp add: sleep_def alike_def)
next
  case (resumes me s)
  then show ?case using ptable_inv_pset_alike [OF resumes(5,1)] by (simp add: sleep_return_def alike_def)
next
  case (wakes s me c)
  then show ?case by (simp add: ptable_inv_wakeup)
next
  case (kills pid s r s')
  then show ?case using kkill_inv by blast
next
  case (faults me s)
  then show ?case using ptable_inv_pset_alike [OF faults(5,1)] by (simp add: setkilled_def alike_def)
next
  case (forks me s r s')
  show ?case by (rule kfork_inv [OF forks(7,3,5,1,2,4)])
next
  case (waits me s addr w s')
  show ?case by (rule kwait_inv [OF waits(6,1,2,3)])
next
  case (memory s s')
  show ?case by (rule ptable_inv_only_kmem [OF memory(4,1)])
qed

lemma process_table_general:
  assumes "ptable_inv s" and "table_neutral dup" and "table_neutral close"
    and "(proc_step dup close L)\<^sup>*\<^sup>* s s'"
  shows "(\<forall>i < NPROC. \<forall>j < NPROC. p_state (pget i s') \<noteq> UNUSED \<longrightarrow> p_state (pget j s') \<noteq> UNUSED \<longrightarrow>
           p_pid (pget i s') = p_pid (pget j s') \<longrightarrow> i = j)
    \<and> (\<forall>i < NPROC. p_state (pget i s') \<noteq> UNUSED \<longrightarrow> 0 < sint (p_pid (pget i s')))
    \<and> (\<forall>i < NPROC. \<forall>j. p_parent (pget i s') = Some j \<longrightarrow>
           j < NPROC \<and> p_state (pget j s') \<noteq> UNUSED \<and> p_state (pget j s') \<noteq> ZOMBIE)"
proof -
  have "ptable_inv s'"
    using assms(4,1)
  proof (induction rule: rtranclp_induct)
    case (step t u)
    then show ?case using proc_step_inv assms(2,3) by blast
  qed
  note inv = ptable_invD [OF this]
  show ?thesis using inv(4,5,6) unfolding live_def by blast
qed

text \<open>A table with init alone in it, as it is after \<^verbatim>\<open>userinit\<close>.\<close>

definition unused_proc :: proc where
  "unused_proc = \<lparr>p_state = UNUSED, p_chan = ChanNone, p_killed = 0, p_xstate = 0, p_pid = 0,
     p_parent = None, p_kstack = 0, p_sz = 0, p_pagetable = 0, p_trapframe = 0,
     p_context = \<lparr>ctx_ra = 0, ctx_sp = 0, ctx_s = replicate 12 0\<rparr>, p_ofile = replicate NOFILE None,
     p_cwd = None, p_name = replicate 16 0, p_signal_handlers = replicate NSIG 0,
     p_pending_signals = 0, p_sigmask = 0\<rparr>"

definition init_table :: kproc where
  "init_table = \<lparr>mem = (\<lambda>_. 0), freelist = 0,
     procs = unused_proc\<lparr>p_state := RUNNABLE, p_pid := 1\<rparr> # replicate (NPROC - 1) unused_proc,
     nextpid = 2, initproc = Some 0, ticks = 0\<rparr>"

lemma init_table_nth:
  "i < NPROC \<Longrightarrow> pget i init_table = (if i = 0 then unused_proc\<lparr>p_state := RUNNABLE, p_pid := 1\<rparr> else unused_proc)"
  by (simp add: init_table_def nth_Cons')

lemma init_table_inv: "ptable_inv init_table"
proof -
  have "length (procs init_table) = NPROC" "nextpid init_table = 2" "initproc init_table = Some 0"
    "0 < NPROC" by (simp_all add: init_table_def NPROC_def)
  then show ?thesis unfolding ptable_inv_def
    by (auto simp: init_table_nth unused_proc_def live_def)
qed

end
