(* ===== verification/Sem.thy ===== *)
theory Sem
  imports ProcInv
begin

text \<open>
  Counting semaphores, \<^verbatim>\<open>kernel/sem.c\<close>.  \<^verbatim>\<open>sem_wait\<close> is two steps: up to the
  return or the first \<^verbatim>\<open>sleep\<close>, and from a wake-up to the return or the next
  \<^verbatim>\<open>sleep\<close>; each runs under the semaphore's lock.
\<close>

section \<open>The semaphore table\<close>

record sem =
  sem_key :: cint
  sem_value :: cint
  sem_used :: cint
  sem_nwaiting :: cint

record ksem = kproc +
  semtable :: "sem list"

definition semset :: "nat \<Rightarrow> (sem \<Rightarrow> sem) \<Rightarrow> 'a ksem_scheme \<Rightarrow> 'a ksem_scheme" where
  "semset i f s = s\<lparr>semtable := (semtable s)[i := f (semtable s ! i)]\<rparr>"

definition seminit :: "'a ksem_scheme \<Rightarrow> 'a ksem_scheme" where
  "seminit s = s\<lparr>semtable := map (\<lambda>x. x\<lparr>sem_used := 0\<rparr>) (semtable s)\<rparr>"

definition sem_get :: "cint \<Rightarrow> cint \<Rightarrow> 'a ksem_scheme \<Rightarrow> cint \<times> 'a ksem_scheme" where
  "sem_get key initval s =
     (if initval <s 0 then (-1, s)
      else case scan (\<lambda>x. sem_used x = 0) (semtable s) of
          Some i \<Rightarrow> (of_nat i, semset i (\<lambda>x. x\<lparr>sem_used := 1, sem_key := key, sem_value := initval,
                                                sem_nwaiting := 0\<rparr>) s)
        | None \<Rightarrow> (-1, s))"

text \<open>The guard \<^verbatim>\<open>sid < 0 || sid >= NSEM\<close>, negated, with the index it admits.\<close>

definition sem_index :: "cint \<Rightarrow> nat option" where
  "sem_index sid = (if sid <s 0 \<or> of_nat NSEM \<le>s sid then None else Some (unat sid))"

text \<open>The test of \<^verbatim>\<open>while(s->value < 0)\<close> with the sleep of its body.\<close>

definition sem_wait_test :: "nat \<Rightarrow> nat \<Rightarrow> 'a ksem_scheme \<Rightarrow> cint segment \<times> 'a ksem_scheme" where
  "sem_wait_test me i s =
     (if sem_value (semtable s ! i) <s 0
      then (Sleeps, sleep me (ChanSem i) (semset i (\<lambda>x. x\<lparr>sem_nwaiting := sem_nwaiting x + 1\<rparr>) s))
      else (Done 0, s))"

definition sem_wait :: "nat \<Rightarrow> cint \<Rightarrow> 'a ksem_scheme \<Rightarrow> cint segment \<times> 'a ksem_scheme" where
  "sem_wait me sid s =
     (case sem_index sid of None \<Rightarrow> (Done (-1), s)
      | Some i \<Rightarrow>
          if sem_used (semtable s ! i) = 0 then (Done (-1), s)
          else sem_wait_test me i (semset i (\<lambda>x. x\<lparr>sem_value := sem_value x - 1\<rparr>) s))"

definition sem_wait_resume :: "nat \<Rightarrow> nat \<Rightarrow> 'a ksem_scheme \<Rightarrow> cint segment \<times> 'a ksem_scheme" where
  "sem_wait_resume me i s =
     (let s = semset i (\<lambda>x. x\<lparr>sem_nwaiting := sem_nwaiting x - 1\<rparr>) (sleep_return me s) in
      if sem_used (semtable s ! i) = 0 then (Done (-1), s) else sem_wait_test me i s)"

definition sem_post :: "nat \<Rightarrow> cint \<Rightarrow> 'a ksem_scheme \<Rightarrow> cint \<times> 'a ksem_scheme" where
  "sem_post me sid s =
     (case sem_index sid of None \<Rightarrow> (-1, s)
      | Some i \<Rightarrow>
          if sem_used (semtable s ! i) = 0 then (-1, s)
          else (0, wakeup (Some me) (ChanSem i) (semset i (\<lambda>x. x\<lparr>sem_value := sem_value x + 1\<rparr>) s)))"

definition sem_close :: "nat \<Rightarrow> cint \<Rightarrow> 'a ksem_scheme \<Rightarrow> cint \<times> 'a ksem_scheme" where
  "sem_close me sid s =
     (case sem_index sid of None \<Rightarrow> (-1, s)
      | Some i \<Rightarrow>
          if sem_used (semtable s ! i) = 0 then (-1, s)
          else (0, wakeup (Some me) (ChanSem i) (semset i (\<lambda>x. x\<lparr>sem_used := 0\<rparr>) s)))"

section \<open>Histories of one semaphore\<close>

text \<open>
  The calls made on semaphore \<open>i\<close>, with what has happened so far: which processes
  are blocked in it, how many waits were begun, how many have returned 0, and how
  many posts were made.
\<close>

record sem_hist =
  blocked :: "nat set"
  begun :: nat
  completed :: nat
  posted :: nat

lemma sem_fields [simp]:
  "semtable (semset i f s) = (semtable s)[i := f (semtable s ! i)]" "procs (semset i f s) = procs s"
  "semtable (pset j g s) = semtable s" "semtable (wakeup mo c s) = semtable s"
  "semtable (sleep me c s) = semtable s" "semtable (sleep_return me s) = semtable s"
  by (simp_all add: semset_def pset_def wakeup_def sleep_def sleep_return_def)

lemma sem_index_iff: "sem_index sid = Some i \<longleftrightarrow> sid = of_nat i \<and> i < NSEM"
proof
  assume "sem_index sid = Some i"
  then have r: "0 \<le> sint sid" "sint sid < 16" "i = unat sid"
    by (auto simp: sem_index_def NSEM_def word_sless_alt word_sle_eq split: if_splits)
  have "unat sid < 16" using unat_sint_nonneg [OF r(1)] r(2) by linarith
  then show "sid = of_nat i \<and> i < NSEM" using r(3) by (simp add: NSEM_def)
next
  assume a: "sid = of_nat i \<and> i < NSEM"
  then have "sint sid = int i" "unat sid = i"
    using sint_of_nat_small [of i] of_nat_lt_pow [of i, where ?'a = 32] by (simp_all add: NSEM_def)
  then show "sem_index sid = Some i" using a by (simp add: sem_index_def NSEM_def word_sless_alt word_sle_eq)
qed

text \<open>Waits and posts by processes, in any order; only a blocked process can be resumed.\<close>

inductive sem_step ::
  "nat \<Rightarrow> 'a ksem_scheme \<times> sem_hist \<Rightarrow> 'a ksem_scheme \<times> sem_hist \<Rightarrow> bool" for i where
  begin_done: "me \<notin> blocked h \<Longrightarrow> sem_wait me (of_nat i) s = (Done 0, s') \<Longrightarrow>
    sem_step i (s, h) (s', h\<lparr>begun := begun h + 1, completed := completed h + 1\<rparr>)"
| begin_sleep: "me \<notin> blocked h \<Longrightarrow> sem_wait me (of_nat i) s = (Sleeps, s') \<Longrightarrow>
    sem_step i (s, h) (s', h\<lparr>begun := begun h + 1, blocked := insert me (blocked h)\<rparr>)"
| resume_done: "me \<in> blocked h \<Longrightarrow> sem_wait_resume me i s = (Done 0, s') \<Longrightarrow>
    sem_step i (s, h) (s', h\<lparr>completed := completed h + 1, blocked := blocked h - {me}\<rparr>)"
| resume_sleep: "me \<in> blocked h \<Longrightarrow> sem_wait_resume me i s = (Sleeps, s') \<Longrightarrow> sem_step i (s, h) (s', h)"
| post: "sem_post me (of_nat i) s = (0, s') \<Longrightarrow> sem_step i (s, h) (s', h\<lparr>posted := posted h + 1\<rparr>)"
| other: "semtable s' ! i = semtable s ! i \<Longrightarrow> length (semtable s') = length (semtable s) \<Longrightarrow>
    sem_step i (s, h) (s', h)"

text \<open>
  The arithmetic of the counters: the value is the initial one plus the posts minus
  the waits begun, the waiter count is the number of blocked processes, and no more
  waits have completed than the initial value and the posts allow.
\<close>

definition sem_inv :: "nat \<Rightarrow> int \<Rightarrow> 'a ksem_scheme \<times> sem_hist \<Rightarrow> bool" where
  "sem_inv i v c \<longleftrightarrow> (let x = semtable (fst c) ! i; h = snd c in
     i < length (semtable (fst c)) \<and> i < NSEM \<and> sem_used x \<noteq> 0
     \<and> sem_value x = word_of_int (v + int (posted h) - int (begun h))
     \<and> sem_nwaiting x = of_nat (card (blocked h)) \<and> finite (blocked h)
     \<and> begun h = completed h + card (blocked h)
     \<and> int (completed h) \<le> v + int (posted h))"

text \<open>The counters stay within a C int while fewer than 2 to the 31 calls have been made.\<close>

definition sem_small :: "int \<Rightarrow> sem_hist \<Rightarrow> bool" where
  "sem_small v h \<longleftrightarrow> 0 \<le> v \<and> v + int (posted h) < 2 ^ 31 \<and> int (begun h) < 2 ^ 31"

lemma sem_value_sign:
  assumes "sem_small v h" and "x = word_of_int (v + int (posted h) - int (begun h))"
  shows "(x :: cint) <s 0 \<longleftrightarrow> v + int (posted h) < int (begun h)"
proof -
  have "sint x = v + int (posted h) - int (begun h)"
    unfolding assms(2) using assms(1) by (intro sint_of_int) (auto simp: sem_small_def)
  then show ?thesis by (auto simp: word_sless_alt)
qed

text \<open>
  The test of the loop, for a process that has begun a wait and is counted neither
  as blocked nor as completed.
\<close>

lemma sem_test_inv:
  assumes x: "i < length (semtable t)" "i < NSEM" "sem_used (semtable t ! i) \<noteq> 0"
      "sem_value (semtable t ! i) = word_of_int (v + int (posted h) - int (begun h))"
      "sem_nwaiting (semtable t ! i) = of_nat (card B)"
    and B: "finite B" "me \<notin> B" "begun h = completed h + card B + 1"
    and le: "int (completed h) \<le> v + int (posted h)" and small: "sem_small v h"
    and test: "sem_wait_test me i t = (r, s')"
  shows "r = Done 0 \<Longrightarrow> sem_inv i v (s', h\<lparr>completed := completed h + 1, blocked := B\<rparr>)"
    and "r = Sleeps \<Longrightarrow> sem_inv i v (s', h\<lparr>blocked := insert me B\<rparr>)"
proof -
  note sign = sem_value_sign [OF small x(4)]
  show "sem_inv i v (s', h\<lparr>completed := completed h + 1, blocked := B\<rparr>)" if "r = Done 0"
  proof -
    have "s' = t" "int (begun h) \<le> v + int (posted h)"
      using test that sign by (auto simp: sem_wait_test_def split: if_splits)
    then show ?thesis using x B by (simp add: sem_inv_def)
  qed
  show "sem_inv i v (s', h\<lparr>blocked := insert me B\<rparr>)" if "r = Sleeps"
  proof -
    have "semtable s' = (semtable t)[i := (semtable t ! i)\<lparr>sem_nwaiting := sem_nwaiting (semtable t ! i) + 1\<rparr>]"
      using test that by (auto simp: sem_wait_test_def split: if_splits)
    then show ?thesis using x B le by (simp add: sem_inv_def)
  qed
qed

lemma sem_invD:
  assumes "sem_inv i v (s, h)"
  shows "i < length (semtable s)" "sem_index (of_nat i) = Some i" "sem_used (semtable s ! i) \<noteq> 0" "i < NSEM"
    "sem_value (semtable s ! i) = word_of_int (v + int (posted h) - int (begun h))"
    "sem_nwaiting (semtable s ! i) = of_nat (card (blocked h))" "finite (blocked h)"
    "begun h = completed h + card (blocked h)" "int (completed h) \<le> v + int (posted h)"
  using assms by (simp_all add: sem_inv_def Let_def sem_index_iff)

lemma sem_wait_inv:
  assumes inv: "sem_inv i v (s, h)" and me: "me \<notin> blocked h"
    and w: "sem_wait me (of_nat i) s = (r, s')" and small: "sem_small v (h\<lparr>begun := begun h + 1\<rparr>)"
  shows "r = Done 0 \<Longrightarrow> sem_inv i v (s', h\<lparr>begun := begun h + 1, completed := completed h + 1\<rparr>)"
    and "r = Sleeps \<Longrightarrow> sem_inv i v (s', h\<lparr>begun := begun h + 1, blocked := insert me (blocked h)\<rparr>)"
proof -
  note d = sem_invD [OF inv]
  define t where "t = semset i (\<lambda>x. x\<lparr>sem_value := sem_value x - 1\<rparr>) s"
  have test: "sem_wait_test me i t = (r, s')" using w d(2,3) by (simp add: sem_wait_def t_def)
  have x: "i < length (semtable t)" "sem_used (semtable t ! i) \<noteq> 0"
    "sem_value (semtable t ! i) = word_of_int (v + int (posted (h\<lparr>begun := begun h + 1\<rparr>)) - int (begun (h\<lparr>begun := begun h + 1\<rparr>)))"
    "sem_nwaiting (semtable t ! i) = of_nat (card (blocked h))"
    using d by (simp_all add: t_def)
  have b: "begun (h\<lparr>begun := begun h + 1\<rparr>) = completed (h\<lparr>begun := begun h + 1\<rparr>) + card (blocked h) + 1"
    "int (completed (h\<lparr>begun := begun h + 1\<rparr>)) \<le> v + int (posted (h\<lparr>begun := begun h + 1\<rparr>))" using d by simp_all
  note test_inv = sem_test_inv [OF x(1) d(4) x(2,3,4) d(7) me b small test]
  show "sem_inv i v (s', h\<lparr>begun := begun h + 1, completed := completed h + 1\<rparr>)" if "r = Done 0"
    using test_inv(1) [OF that] by (simp add: sem_inv_def)
  show "sem_inv i v (s', h\<lparr>begun := begun h + 1, blocked := insert me (blocked h)\<rparr>)" if "r = Sleeps"
    using test_inv(2) [OF that] by simp
qed

lemma sem_resume_inv:
  assumes inv: "sem_inv i v (s, h)" and me: "me \<in> blocked h"
    and w: "sem_wait_resume me i s = (r, s')" and small: "sem_small v h"
  shows "r = Done 0 \<Longrightarrow> sem_inv i v (s', h\<lparr>completed := completed h + 1, blocked := blocked h - {me}\<rparr>)"
    and "r = Sleeps \<Longrightarrow> sem_inv i v (s', h)"
proof -
  note d = sem_invD [OF inv]
  define B where "B = blocked h - {me}"
  have c: "card (blocked h) = Suc (card B)" using card_Suc_Diff1 [OF d(7) me] by (simp only: B_def)
  define t where "t = semset i (\<lambda>x. x\<lparr>sem_nwaiting := sem_nwaiting x - 1\<rparr>) (sleep_return me s)"
  have test: "sem_wait_test me i t = (r, s')"
    using w d(1,3) by (simp add: sem_wait_resume_def Let_def t_def)
  have x: "i < length (semtable t)" "sem_used (semtable t ! i) \<noteq> 0"
    "sem_value (semtable t ! i) = word_of_int (v + int (posted h) - int (begun h))"
    "sem_nwaiting (semtable t ! i) = of_nat (card B)"
    using d c by (simp_all add: t_def)
  have B: "finite B" "me \<notin> B" "begun h = completed h + card B + 1" using d c by (simp_all add: B_def)
  note test_inv = sem_test_inv [OF x(1) d(4) x(2,3,4) B d(9) small test]
  show "sem_inv i v (s', h\<lparr>completed := completed h + 1, blocked := blocked h - {me}\<rparr>)" if "r = Done 0"
    using test_inv(1) [OF that] by (simp add: B_def)
  show "sem_inv i v (s', h)" if "r = Sleeps"
    using test_inv(2) [OF that] me by (simp add: B_def insert_absorb)
qed

lemma sem_step_inv:
  assumes "sem_step i c c'" and "sem_inv i v c" and "sem_small v (snd c')"
  shows "sem_inv i v c'"
  using assms
proof (induction rule: sem_step.induct)
  case (begin_done me h s s')
  show ?case by (rule sem_wait_inv(1) [OF begin_done(3,1,2)]) (use begin_done(4) in \<open>simp_all add: sem_small_def\<close>)
next
  case (begin_sleep me h s s')
  show ?case by (rule sem_wait_inv(2) [OF begin_sleep(3,1,2)]) (use begin_sleep(4) in \<open>simp_all add: sem_small_def\<close>)
next
  case (resume_done me h s s')
  show ?case by (rule sem_resume_inv(1) [OF resume_done(3,1,2)]) (use resume_done(4) in \<open>simp_all add: sem_small_def\<close>)
next
  case (resume_sleep me h s s')
  show ?case by (rule sem_resume_inv(2) [OF resume_sleep(3,1,2)]) (use resume_sleep(4) in simp_all)
next
  case (post me s s' h)
  note d = sem_invD [OF post(2)]
  have "semtable s' = (semtable s)[i := (semtable s ! i)\<lparr>sem_value := sem_value (semtable s ! i) + 1\<rparr>]"
    using post(1) d by (auto simp: sem_post_def split: if_splits)
  then show ?case using d by (simp add: sem_inv_def algebra_simps)
next
  case (other s' s h)
  then show ?case by (simp add: sem_inv_def Let_def)
qed

lemma sem_step_small: "sem_step i c c' \<Longrightarrow> sem_small v (snd c') \<Longrightarrow> sem_small v (snd c)"
  by (induction rule: sem_step.induct) (auto simp: sem_small_def)

definition no_history :: sem_hist where
  "no_history = \<lparr>blocked = {}, begun = 0, completed = 0, posted = 0\<rparr>"

lemma sem_get_inv:
  assumes "sem_get key v s = (of_nat i, s')" and "i < NSEM" and "length (semtable s) = NSEM"
  shows "sem_inv i (sint v) (s', no_history)"
proof -
  have ne: "of_nat i \<noteq> (-1 :: cint)"
  proof
    assume "of_nat i = (-1 :: cint)"
    then have "sint (of_nat i :: cint) = sint (-1 :: cint)" by simp
    then show False using sint_of_nat_small [of i] assms(2) by (simp add: NSEM_def)
  qed
  then have v: "\<not> v <s 0" using assms(1) by (auto simp: sem_get_def)
  obtain j where j: "scan (\<lambda>x. sem_used x = 0) (semtable s) = Some j"
    using assms(1) ne v by (cases "scan (\<lambda>x. sem_used x = 0) (semtable s)") (auto simp: sem_get_def)
  then have ij: "of_nat i = (of_nat j :: cint)"
    and s': "s' = semset j (\<lambda>x. x\<lparr>sem_used := 1, sem_key := key, sem_value := v, sem_nwaiting := 0\<rparr>) s"
    using assms(1) v by (simp_all add: sem_get_def)
  have jl: "j < NSEM" using scan_SomeD(1) [OF j] assms(3) by simp
  have "sint (of_nat i :: cint) = int i" "sint (of_nat j :: cint) = int j"
    using sint_of_nat_small assms(2) jl by (simp_all add: NSEM_def)
  then have "int i = int j" unfolding ij by (simp only:)
  then have "i = j" by simp
  then have "i < length (semtable s)" and "s' = semset i (\<lambda>x. x\<lparr>sem_used := 1, sem_key := key,
      sem_value := v, sem_nwaiting := 0\<rparr>) s" using jl assms(3) s' by simp_all
  moreover have "0 \<le> sint v" using v by (simp add: word_sless_alt)
  ultimately show ?thesis using assms(2) by (simp add: sem_inv_def no_history_def)
qed

text \<open>
  C15: from the creation of a semaphore with value \<open>v\<close> on, however waits, wake-ups
  and posts interleave, at most \<open>v\<close> plus the number of posts waits have returned 0, and
  the kernel's waiter count is the number of processes blocked in the semaphore (as long
  as the number of calls fits a C int).
\<close>

theorem sem_safety:
  assumes "sem_get key v s = (of_nat i, s0)" and "i < NSEM" and "length (semtable s) = NSEM"
    and "(sem_step i)\<^sup>*\<^sup>* (s0, no_history) (s', h)" and "sem_small (sint v) h"
  shows "int (completed h) \<le> sint v + int (posted h)
    \<and> sem_nwaiting (semtable s' ! i) = of_nat (card (blocked h))
    \<and> begun h = completed h + card (blocked h)"
proof -
  have "sem_small (sint v) (snd c) \<Longrightarrow> sem_inv i (sint v) c" if "(sem_step i)\<^sup>*\<^sup>* (s0, no_history) c" for c
    using that
  proof (induction rule: rtranclp_induct)
    case base
    show ?case by (rule sem_get_inv [OF assms(1-3)])
  next
    case (step c d)
    then show ?case using sem_step_inv sem_step_small by blast
  qed
  from this [OF assms(4)] have "sem_inv i (sint v) (s', h)" using assms(5) by simp
  from sem_invD [OF this] show ?thesis by simp
qed


text \<open>Two concrete histories on the table with init alone.\<close>

definition sem_table :: ksem where
  "sem_table = kproc.extend init_table \<lparr>semtable =
     replicate NSEM \<lparr>sem_key = 0, sem_value = 0, sem_used = 0, sem_nwaiting = 0\<rparr>\<rparr>"

theorem sem_safety_witness:
  "\<exists>s0 s'. sem_get 7 1 sem_table = (of_nat 0, s0)
     \<and> (sem_step 0)\<^sup>*\<^sup>* (s0, no_history) (s', no_history\<lparr>begun := 1, completed := 1\<rparr>)
     \<and> (1::int) \<le> sint (1::cint) + int 0"
proof -
  let ?x = "\<lparr>sem_key = 7, sem_value = 1, sem_used = 1, sem_nwaiting = 0\<rparr>"
  define s0 where "s0 = snd (sem_get 7 1 sem_table)"
  have g: "sem_get 7 1 sem_table = (of_nat 0, s0)" and t0: "semtable s0 ! 0 = ?x" "length (semtable s0) = NSEM"
    by (simp_all add: s0_def sem_get_def sem_table_def kproc.extend_def NSEM_def scan_def numeral_eq_Suc semset_def word_sless_alt)
  define s' where "s' = snd (sem_wait 3 (of_nat 0) s0)"
  have "sem_index (of_nat 0) = Some 0" by (simp add: sem_index_iff NSEM_def del: of_nat_0)
  then have w: "sem_wait 3 (of_nat 0) s0 = (Done 0, s')"
    using t0 by (simp add: s'_def sem_wait_def sem_wait_test_def NSEM_def)
  have "sem_step 0 (s0, no_history) (s', no_history\<lparr>begun := begun no_history + 1, completed := completed no_history + 1\<rparr>)"
    by (rule sem_step.begin_done [OF _ w]) (simp add: no_history_def)
  then have st: "(sem_step 0)\<^sup>*\<^sup>* (s0, no_history) (s', no_history\<lparr>begun := 1, completed := 1\<rparr>)"
    by (simp add: no_history_def)
  have len: "length (semtable sem_table) = NSEM" "(0::nat) < NSEM"
    by (simp_all add: sem_table_def kproc.extend_def NSEM_def)
  have sm: "sem_small (sint (1::cint)) (no_history\<lparr>begun := 1, completed := 1\<rparr>)"
    by (simp add: sem_small_def no_history_def)
  show ?thesis using sem_safety [OF g len(2,1) st sm] g st by (auto simp: no_history_def)
qed


end
