(* ===== verification/Shmem.thy ===== *)
theory Shmem
  imports Sem
begin

text \<open>
  Shared memory regions, \<^verbatim>\<open>kernel/shmem.c\<close>.  A region is one physical page,
  found by its key and mapped by every process that attaches to it.
\<close>

unbundle bit_operations_syntax

section \<open>The region table\<close>

record shmregion =
  shm_key :: cint
  shm_refcount :: cint
  shm_kpage :: uint64

record kshm = ksem +
  shmtable :: "shmregion list"

definition free_region :: shmregion where
  "free_region = \<lparr>shm_key = 0, shm_refcount = 0, shm_kpage = 0\<rparr>"

definition shmset :: "nat \<Rightarrow> (shmregion \<Rightarrow> shmregion) \<Rightarrow> 'a kshm_scheme \<Rightarrow> 'a kshm_scheme" where
  "shmset i f s = s\<lparr>shmtable := (shmtable s)[i := f (shmtable s ! i)]\<rparr>"

definition shmem_init :: "'a kshm_scheme \<Rightarrow> 'a kshm_scheme" where
  "shmem_init s = s\<lparr>shmtable := map (\<lambda>_. free_region) (shmtable s)\<rparr>"

text \<open>
  The search of \<^verbatim>\<open>shmem_get\<close> is one pass that stops at the key and remembers
  the first free slot before it; when it does not stop, that is the first free slot
  of the table.
\<close>

definition shmem_get :: "cint \<Rightarrow> cint \<Rightarrow> 'a kshm_scheme \<Rightarrow> cint \<times> 'a kshm_scheme" where
  "shmem_get key sz s =
     (if key \<le>s 0 \<or> sz \<le>s 0 \<or> ucast PGSIZE <s sz then (-1, s)
      else case scan (\<lambda>r. shm_key r = key) (shmtable s) of
          Some i \<Rightarrow> (of_nat i, s)
        | None \<Rightarrow>
            case scan (\<lambda>r. shm_key r = 0) (shmtable s) of
              None \<Rightarrow> (-1, s)
            | Some i \<Rightarrow>
                let (page, s1) = kalloc s in
                if page = 0 then (-1, s1)
                else let s2 = s1\<lparr>mem := memset (mem s1) page 0 4096\<rparr>
                     in (of_nat i, shmset i (\<lambda>_. \<lparr>shm_key = key, shm_refcount = 0, shm_kpage = page\<rparr>) s2))"

definition shmem_at :: "nat \<Rightarrow> cint \<Rightarrow> 'a kshm_scheme \<Rightarrow> (uint64 \<times> 'a kshm_scheme) kres" where
  "shmem_at me rid s =
     (if rid <s 0 \<or> of_nat NSHMEM \<le>s rid then Ret (0, s)
      else let r = shmtable s ! unat rid in
        if shm_key r = 0 \<or> shm_kpage r = 0 then Ret (0, s)
        else let p = pget me s; uva = PGROUNDUP (p_sz p) in
          kbind (mappages (p_pagetable p) uva PGSIZE (shm_kpage r) (ucast (PTE_R OR PTE_W OR PTE_U)) s)
            (\<lambda>(c, s1).
            if c <s 0 then Ret (0, s1)
            else Ret (uva, shmset (unat rid) (\<lambda>r. r\<lparr>shm_refcount := shm_refcount r + 1\<rparr>)
                             (pset me (\<lambda>p. p\<lparr>p_sz := uva + PGSIZE\<rparr>) s1))))"

definition shmem_dt :: "uint64 \<Rightarrow> nat \<Rightarrow> uint64 \<Rightarrow> 'a kshm_scheme \<Rightarrow> (cint \<times> 'a kshm_scheme) kres" where
  "shmem_dt kend me uva s =
     (let p = pget me s in
      if uva = 0 \<or> uva mod PGSIZE \<noteq> 0 \<or> p_sz p \<le> uva then Ret (-1, s)
      else kbind (walkaddr (p_pagetable p) uva s) (\<lambda>pa.
        if pa = 0 then Ret (-1, s)
        else case scan (\<lambda>r. shm_kpage r = pa) (shmtable s) of
            None \<Rightarrow> Ret (-1, s)
          | Some i \<Rightarrow>
              kbind (uvmunmap kend (p_pagetable p) uva 1 False s) (\<lambda>s.
              let s = shmset i (\<lambda>r. r\<lparr>shm_refcount := shm_refcount r - 1\<rparr>) s in
              if shm_refcount (shmtable s ! i) \<le>s 0
              then kbind (kfree kend (shm_kpage (shmtable s ! i)) s) (\<lambda>s.
                     Ret (0, shmset i (\<lambda>_. free_region) s))
              else Ret (0, s))))"

lemma shm_fields [simp]:
  "shmtable (shmset i f s) = (shmtable s)[i := f (shmtable s ! i)]" "procs (shmset i f s) = procs s"
  "mem (shmset i f s) = mem s" "freelist (shmset i f s) = freelist s"
  "shmtable (pset j g s) = shmtable s"
  by (simp_all add: shmset_def pset_def)

lemma only_kmem_shm: "only_kmem s s' \<Longrightarrow> shmtable s' = shmtable s"
  by (auto simp: only_kmem_def)

section \<open>Keys\<close>

text \<open>Slots in use have distinct keys, so a key names at most one region.\<close>

definition shm_inv :: "'a kshm_scheme \<Rightarrow> bool" where
  "shm_inv s \<longleftrightarrow> length (shmtable s) = NSHMEM \<and>
     (\<forall>i < NSHMEM. \<forall>j < NSHMEM. shm_key (shmtable s ! i) \<noteq> 0 \<longrightarrow>
        shm_key (shmtable s ! i) = shm_key (shmtable s ! j) \<longrightarrow> i = j)"

lemma shm_inv_cong: "shmtable s' = shmtable s \<Longrightarrow> shm_inv s' = shm_inv s"
  by (simp only: shm_inv_def)

lemma shmem_get_inv:
  assumes "shm_inv s" and "shmem_get key sz s = (r, s')"
  shows "shm_inv s'"
proof (cases "scan (\<lambda>r. shm_key r = key) (shmtable s) = None \<and> scan (\<lambda>r. shm_key r = 0) (shmtable s) \<noteq> None")
  case True
  then obtain i where i: "scan (\<lambda>r. shm_key r = 0) (shmtable s) = Some i" by auto
  obtain page s1 where k: "kalloc s = (page, s1)" by (cases "kalloc s")
  have t: "shmtable s1 = shmtable s" by (rule only_kmem_shm [OF kalloc_only [OF k]])
  have fresh: "shm_key (shmtable s ! j) \<noteq> key" if "j < NSHMEM" for j
    using True that assms(1) by (auto simp: scan_None_iff shm_inv_def)
  have len: "length (shmtable s) = NSHMEM" using assms(1) by (simp add: shm_inv_def)
  have "shmtable s' = shmtable s \<or>
      shmtable s' = (shmtable s)[i := \<lparr>shm_key = key, shm_refcount = 0, shm_kpage = page\<rparr>]"
    using assms(2) True i k t by (auto simp: shmem_get_def Let_def split: if_splits)
  then show ?thesis
  proof
    assume "shmtable s' = shmtable s"
    then show ?thesis using assms(1) shm_inv_cong by blast
  next
    let ?r = "\<lparr>shm_key = key, shm_refcount = 0, shm_kpage = page\<rparr>"
    assume u: "shmtable s' = (shmtable s)[i := ?r]"
    have "x = y" if x: "x < NSHMEM" and y: "y < NSHMEM" and nz: "shm_key (shmtable s' ! x) \<noteq> 0"
      and eq: "shm_key (shmtable s' ! x) = shm_key (shmtable s' ! y)" for x y
    proof (cases "x = i \<or> y = i")
      case True
      then show ?thesis using u eq fresh [OF x] fresh [OF y] x y len
        by (cases "x = i"; cases "y = i"; simp add: nth_list_update_if)
    next
      case False
      then have "shm_key (shmtable s ! x) \<noteq> 0" "shm_key (shmtable s ! x) = shm_key (shmtable s ! y)"
        using u nz eq by (simp_all add: nth_list_update_if)
      then show ?thesis using assms(1) x y unfolding shm_inv_def by blast
    qed
    then show ?thesis using len u unfolding shm_inv_def by simp
  qed
next
  case False
  then have "s' = s" using assms(2) by (auto simp: shmem_get_def split: if_splits option.splits)
  then show ?thesis using assms(1) by simp
qed

lemma region_index: "i < NSHMEM \<Longrightarrow> \<not> (of_nat i :: cint) <s 0 \<and> \<not> of_nat NSHMEM \<le>s (of_nat i :: cint)
    \<and> unat (of_nat i :: cint) = i"
  using sint_of_nat_small [of i] of_nat_lt_pow [of i, where ?'a = 32]
  by (simp add: NSHMEM_def word_sless_alt word_sle_eq)

text \<open>
  C24: a key names one region.  Once \<^verbatim>\<open>shmem_get\<close> has returned an id for a key,
  asking for the key again, with any size that is accepted, returns the same id and
  changes nothing.
\<close>

theorem shmem_get_same_key:
  assumes "length (shmtable s) = NSHMEM" and "shmem_get key sz s = (r, s')" and "r \<noteq> -1"
    and "\<not> sz' \<le>s 0" and "\<not> ucast PGSIZE <s sz'"
  shows "shmem_get key sz' s' = (r, s')"
proof -
  have ok: "\<not> key \<le>s 0" using assms(2,3) by (auto simp: shmem_get_def)
  show ?thesis
  proof (cases "scan (\<lambda>r. shm_key r = key) (shmtable s)")
    case (Some i)
    then have "s' = s" "r = of_nat i" using assms(2,3) by (auto simp: shmem_get_def split: if_splits)
    then show ?thesis using Some ok assms(4,5) by (simp add: shmem_get_def)
  next
    case None
    obtain i page s1 where i: "scan (\<lambda>r. shm_key r = 0) (shmtable s) = Some i" and k: "kalloc s = (page, s1)"
      and r: "r = of_nat i" and s': "shmtable s' = (shmtable s1)[i := \<lparr>shm_key = key, shm_refcount = 0, shm_kpage = page\<rparr>]"
      using assms(2,3) None by (auto simp: shmem_get_def Let_def split: if_splits option.splits prod.splits)
    have t: "shmtable s1 = shmtable s" by (rule only_kmem_shm [OF kalloc_only [OF k]])
    have il: "i < length (shmtable s)" using scan_SomeD(1) [OF i] .
    have "scan (\<lambda>r. shm_key r = key) (shmtable s') = Some i"
      using None il s' t by (auto simp: scan_Some_iff scan_None_iff nth_list_update_if)
    then show ?thesis using ok assms(4,5) r by (simp add: shmem_get_def)
  qed
qed

lemma attach_flags: "scast (ucast (PTE_R OR PTE_W OR PTE_U) :: cint) OR PTE_V < (2 ^ 10 :: uint64)"
  "(scast (ucast (PTE_R OR PTE_W OR PTE_U) :: cint) OR PTE_V) AND PTE_U \<noteq> (0 :: uint64)"
  "(scast (ucast (PTE_R OR PTE_W OR PTE_U) :: cint) OR PTE_V) AND PTE_W \<noteq> (0 :: uint64)"
  by (simp_all add: pte_flag_defs)

text \<open>
  C23: a successful attach returns the first page boundary at or above the old size,
  grows the process over it, counts the reference, and maps the region's page there for
  reading and writing by the user; no other page of the process changes.  It fails only
  when memory has run out.
\<close>

theorem shmem_at_maps:
  assumes ok: "vm_ok kend s (p_pagetable (pget me s)) ps" and i: "i < NSHMEM" "length (shmtable s) = NSHMEM"
    and r: "shm_key (shmtable s ! i) \<noteq> 0" "shm_kpage (shmtable s ! i) \<noteq> 0"
      "page_aligned (shm_kpage (shmtable s ! i))" "shm_kpage (shmtable s ! i) < 2 ^ 56"
    and va: "PGROUNDUP (p_sz (pget me s)) < MAXVA"
      "\<not> mapped (mem s) (p_pagetable (pget me s)) (PGROUNDUP (p_sz (pget me s)))"
    and me: "me < length (procs s)"
  shows "\<exists>u s'. shmem_at me (of_nat i) s = Ret (u, s') \<and>
    (u = PGROUNDUP (p_sz (pget me s)) \<and> p_sz (pget me s') = u + PGSIZE
       \<and> shm_refcount (shmtable s' ! i) = shm_refcount (shmtable s ! i) + 1
       \<and> walkaddr (p_pagetable (pget me s)) u s' = Ret (shm_kpage (shmtable s ! i))
       \<and> (\<forall>w. page_aligned w \<longrightarrow> w < MAXVA \<longrightarrow> w \<noteq> u \<longrightarrow>
            leaf (mem s') (p_pagetable (pget me s)) w = leaf (mem s) (p_pagetable (pget me s)) w)
     \<or> u = 0 \<and> kmem_inv kend s' [])"
proof -
  let ?root = "p_pagetable (pget me s)" and ?u = "PGROUNDUP (p_sz (pget me s))"
  let ?pg = "shm_kpage (shmtable s ! i)" and ?perm = "ucast (PTE_R OR PTE_W OR PTE_U) :: cint"
  note ri = region_index [OF i(1)]
  from ok PGROUNDUP_aligned va(1,2) show ?thesis
  proof (cases rule: mappages_one [where pa = ?pg and perm = ?perm])
    case (mapped t qs)
    define s' where "s' = shmset i (\<lambda>r. r\<lparr>shm_refcount := shm_refcount r + 1\<rparr>)
        (pset me (\<lambda>p. p\<lparr>p_sz := ?u + PGSIZE\<rparr>) t)"
    have o: "only_kmem s t" by (rule mappages_only [OF mapped(1)])
    have at: "shmem_at me (of_nat i) s = Ret (?u, s')"
      using ri r(1,2) mapped(1) by (simp add: shmem_at_def Let_def s'_def)
    have okt: "vm_ok kend t ?root qs" using mapped(2) by (simp add: vm_grows_def)
    let ?e = "PA2PTE ?pg OR scast ?perm OR PTE_V"
    note e = mapped_entry [OF r(3,4) attach_flags(1)]
    have "?e AND PTE_U \<noteq> 0"
      using PTE_FLAGS_and [of PTE_U ?e] e(3) attach_flags(2) by (simp add: PTE_U_def)
    then have "walkaddr ?root ?u t = Ret ?pg"
      using vm_ok_walkaddr [OF okt va(1)] mapped(3) [OF PGROUNDUP_aligned va(1)] e by (simp add: Let_def)
    moreover have m: "mem s' = mem t" by (simp add: s'_def)
    ultimately have w: "walkaddr ?root ?u s' = Ret ?pg" using walkaddr_cong [OF m] by simp
    have sz: "p_sz (pget me s') = ?u + PGSIZE" using me only_kmem_kproc(1) [OF o] by (simp add: s'_def)
    have rc: "shm_refcount (shmtable s' ! i) = shm_refcount (shmtable s ! i) + 1"
      using i only_kmem_shm [OF o] by (simp add: s'_def)
    have "\<forall>w. page_aligned w \<longrightarrow> w < MAXVA \<longrightarrow> w \<noteq> ?u \<longrightarrow> leaf (mem s') ?root w = leaf (mem s) ?root w"
      using mapped(3) m by simp
    then show ?thesis using at w sz rc by blast
  next
    case (full t)
    then have "shmem_at me (of_nat i) s = Ret (0, t)"
      using ri r(1,2) by (simp add: shmem_at_def Let_def)
    then show ?thesis using full(2) by (auto simp: vm_grows_def vm_ok_def)
  qed
qed

section \<open>A booted table\<close>

definition shm_table :: kshm where
  "shm_table = ksem.extend sem_table \<lparr>shmtable = replicate NSHMEM free_region\<rparr>"

lemma shm_table_fields [simp]: "shmtable shm_table = replicate NSHMEM free_region"
  "procs shm_table = procs init_table"
  by (simp_all add: shm_table_def sem_table_def ksem.extend_def kproc.extend_def)

lemma shm_table_with_pages:
  obtains s :: kshm where "kmem_inv KERNBASE s [0x87000000, 0x87001000]"
    and "shmtable s = replicate NSHMEM free_region" and "procs s = procs init_table"
proof -
  have "\<forall>p \<in> set [0x87000000, 0x87001000]. valid_page KERNBASE p"
    by (simp add: valid_page_def page_aligned_def layout_values PGSIZE_def KERNBASE_def)
  then obtain k :: kmem where k: "kmem_inv KERNBASE k [0x87000000, 0x87001000]"
    using kmem_with_pages [of "[0x87000000, 0x87001000]" KERNBASE] by auto
  define s where "s = shm_table\<lparr>mem := mem k, freelist := freelist k\<rparr>"
  have "kmem_inv KERNBASE s [0x87000000, 0x87001000]" using k by (simp add: kmem_inv_def s_def)
  then show thesis using that [of s] by (simp add: s_def)
qed

theorem shmem_get_same_key_witness:
  "\<exists>s s' :: kshm. shmem_get 5 100 s = (0, s') \<and> s \<noteq> s' \<and> shmem_get 5 4096 s' = (0, s')"
proof -
  obtain s :: kshm where s: "kmem_inv KERNBASE s [0x87000000, 0x87001000]"
    "shmtable s = replicate NSHMEM free_region" by (rule shm_table_with_pages)
  obtain s1 where k: "kalloc s = (0x87000000, s1)" by (rule kalloc_pop [OF s(1)])
  have t: "shmtable s1 = shmtable s" by (rule only_kmem_shm [OF kalloc_only [OF k]])
  define s' where "s' = snd (shmem_get 5 100 s)"
  have sc: "scan (\<lambda>r. shm_key r = 5) (shmtable s) = None" "scan (\<lambda>r. shm_key r = 0) (shmtable s) = Some 0"
    unfolding s(2) by (simp_all add: scan_None_iff scan_Some_iff free_region_def NSHMEM_def)
  have g: "shmem_get 5 100 s = (0, s')" and ne: "shm_key (shmtable s' ! 0) = 5"
    using k sc t s(2) by (simp_all add: s'_def shmem_get_def PGSIZE_def word_sle_eq word_sless_alt NSHMEM_def)
  have "shm_key (shmtable s ! 0) \<noteq> 5" using s(2) by (simp add: free_region_def NSHMEM_def)
  then have "s \<noteq> s'" using ne by auto
  then show ?thesis using g shmem_get_same_key [OF _ g, of 4096] s(2)
    by (auto simp: PGSIZE_def word_sle_eq word_sless_alt)
qed

theorem shmem_at_maps_witness:
  "\<exists>(s :: kshm) u s'. 0 < NSHMEM \<and> shm_kpage (shmtable s ! 0) = 0x87005000
     \<and> shmem_at 0 (of_nat 0) s = Ret (u, s')"
proof -
  let ?r = "\<lparr>shm_key = 5, shm_refcount = 0, shm_kpage = 0x87005000\<rparr>"
  obtain s0 :: kshm where s0: "kmem_inv KERNBASE s0 [0x87000000, 0x87001000]"
    "shmtable s0 = replicate NSHMEM free_region" "procs s0 = procs init_table" by (rule shm_table_with_pages)
  obtain s1 where s1: "vm_ok KERNBASE s1 0x87000000 [0x87001000]" "\<And>va. leaf (mem s1) 0x87000000 va = 0"
    "only_kmem s0 s1" by (rule uvmcreate_ok [OF s0(1)]) blast
  define s where "s = pset 0 (\<lambda>p. p\<lparr>p_pagetable := 0x87000000\<rparr>) (shmset 0 (\<lambda>_. ?r) s1)"
  have t: "shmtable s1 = replicate NSHMEM free_region" "procs s1 = procs init_table"
    using only_kmem_shm [OF s1(3)] only_kmem_kproc(1) [OF s1(3)] s0 by simp_all
  have n: "0 < NSHMEM" "0 < NPROC" "procs init_table \<noteq> []" by (simp_all add: NSHMEM_def NPROC_def init_table_def)
  have reg: "shmtable s ! 0 = ?r" "length (shmtable s) = NSHMEM" using n(1) t(1) by (simp_all add: s_def)
  have pr: "p_pagetable (pget 0 s) = 0x87000000" "p_sz (pget 0 s) = 0" "0 < length (procs s)"
    using t(2) n init_table_nth [of 0] by (simp_all add: s_def unused_proc_def)
  have m: "mem s = mem s1" "freelist s = freelist s1" by (simp_all add: s_def)
  have ok: "vm_ok KERNBASE s (p_pagetable (pget 0 s)) [0x87001000]"
    using s1(1) unfolding pr vm_ok_def kmem_inv_def m .
  have va: "PGROUNDUP (p_sz (pget 0 s)) < MAXVA"
    "\<not> mapped (mem s) (p_pagetable (pget 0 s)) (PGROUNDUP (p_sz (pget 0 s)))"
    using s1(2) m by (simp_all add: pr PGROUNDUP_def PGSIZE_def layout_values mapped_def)
  have pa: "shm_key (shmtable s ! 0) \<noteq> 0" "shm_kpage (shmtable s ! 0) \<noteq> 0"
    "page_aligned (shm_kpage (shmtable s ! 0))" "shm_kpage (shmtable s ! 0) < 2 ^ 56"
    by (simp_all add: reg page_aligned_def PGSIZE_def)
  have kp: "shm_kpage (shmtable s ! 0) = 0x87005000" by (simp add: reg(1))
  show ?thesis using shmem_at_maps [OF ok n(1) reg(2) pa va pr(3)] kp n(1) by blast
qed

end
