(* ===== verification/Ring.thy ===== *)
theory Ring
  imports Prelude
begin

text \<open>
  Circular buffers with free-running 32-bit indices, the representation that the pipe
  and the console share: index \<open>i\<close> names cell \<open>i mod N\<close>, and the number of items between
  two indices is their difference modulo \<open>2\<^sup>3\<^sup>2\<close>, also after the indices have wrapped
  around.  The locale \<open>fifo\<close> is the contract of a bounded queue and what follows from it
  for any run of its operations.
\<close>

section \<open>Items between two indices\<close>

definition ring_read :: "'a list \<Rightarrow> uint \<Rightarrow> 'a" where
  "ring_read buf i = buf ! (unat i mod length buf)"

definition ring_write :: "'a list \<Rightarrow> uint \<Rightarrow> 'a \<Rightarrow> 'a list" where
  "ring_write buf i x = buf[unat i mod length buf := x]"

definition ring_items :: "'a list \<Rightarrow> uint \<Rightarrow> uint \<Rightarrow> 'a list" where
  "ring_items buf r w = map (\<lambda>k. ring_read buf (r + of_nat k)) [0..<unat (w - r)]"

lemma length_ring_write [simp]: "length (ring_write buf i x) = length buf"
  by (simp add: ring_write_def)

lemma length_ring_items [simp]: "length (ring_items buf r w) = unat (w - r)"
  by (simp add: ring_items_def)

lemma ring_items_empty [simp]: "ring_items buf r r = []"
  by (simp add: ring_items_def)

lemma ring_items_eq_Nil [simp]: "ring_items buf r w = [] \<longleftrightarrow> r = w"
  by (auto simp: ring_items_def unat_eq_0)

lemma ring_index:
  assumes "N dvd 2 ^ 32"
  shows "unat (r + of_nat k :: uint) mod N = (unat r + k) mod N"
proof -
  have "unat (r + of_nat k :: uint) = (unat r + k) mod 2 ^ 32"
    by (simp add: unat_word_ariths unat_of_nat take_bit_eq_mod mod_simps)
  then show ?thesis using assms by (simp add: mod_mod_cancel)
qed

lemma ring_distance: "(w::uint) = r + of_nat (unat (w - r))"
  by simp

lemma ring_inc: "unat (w - r) < 2 ^ 32 - 1 \<Longrightarrow> unat (w + 1 - r :: uint) = Suc (unat (w - r))"
proof -
  assume "unat (w - r) < 2 ^ 32 - 1"
  moreover have "w + 1 - r = (w - r) + 1" by simp
  ultimately show ?thesis by (simp only:) (simp add: unat_word_ariths)
qed

text \<open>A buffer whose size divides \<open>2\<^sup>3\<^sup>2\<close>, so that indices may wrap.\<close>

definition ring_buf :: "'a list \<Rightarrow> bool" where
  "ring_buf buf \<longleftrightarrow> length buf dvd 2 ^ 32 \<and> 0 < length buf \<and> length buf < 2 ^ 32"

lemma ring_buf_write [simp]: "ring_buf (ring_write buf i x) = ring_buf buf"
  by (simp add: ring_buf_def)

lemma ring_read_write:
  assumes "ring_buf buf" and "unat (w - r) < length buf" and "k < unat (w - r)"
  shows "ring_read (ring_write buf w x) (r + of_nat k) = ring_read buf (r + of_nat k)"
proof -
  let ?N = "length buf" and ?d = "unat (w - r)"
  have dv: "?N dvd 2 ^ 32" using assms(1) by (simp add: ring_buf_def)
  have "unat w mod ?N = (unat r + ?d) mod ?N" using ring_index [OF dv, of r ?d] ring_distance [of w r] by simp
  moreover have "unat (r + of_nat k) mod ?N = (unat r + k) mod ?N" by (rule ring_index [OF dv])
  moreover have "\<not> ?N dvd (unat r + ?d) - (unat r + k)" using assms(2,3) by (auto dest: dvd_imp_le)
  then have "(unat r + ?d) mod ?N \<noteq> (unat r + k) mod ?N"
    using assms(3) by (subst mod_eq_dvd_iff_nat) auto
  ultimately show ?thesis by (simp add: ring_read_def ring_write_def)
qed

lemma ring_put:
  assumes "ring_buf buf" and "unat (w - r) < length buf"
  shows "ring_items (ring_write buf w x) r (w + 1) = ring_items buf r w @ [x]"
proof -
  have n: "unat (w + 1 - r) = Suc (unat (w - r))" using assms by (intro ring_inc) (simp add: ring_buf_def)
  have "ring_read (ring_write buf w x) w = x" using assms(1) by (simp add: ring_read_def ring_write_def ring_buf_def)
  then show ?thesis using ring_read_write [OF assms] by (simp add: ring_items_def n)
qed

lemma ring_get:
  assumes "r \<noteq> w"
  shows "ring_items buf r w = ring_read buf r # ring_items buf (r + 1) w"
proof -
  have "0 < unat (w - r)" using assms by (simp add: unat_gt_0)
  moreover have "w - r = (w - (r + 1)) + 1" by simp
  ultimately have n: "unat (w - r) = Suc (unat (w - (r + 1)))"
    by (metis add.commute diff_add_cancel unat_gt_0 unat_minus_one Suc_pred' add_diff_cancel_right')
  show ?thesis unfolding ring_items_def n
    by (simp add: upt_conv_Cons map_Suc_upt [symmetric] algebra_simps del: upt_Suc)
qed

lemma ring_unput:
  assumes "r \<noteq> w"
  shows "ring_items buf r w = ring_items buf r (w - 1) @ [ring_read buf (w - 1)]"
proof -
  have "w - r \<noteq> 0" using assms by simp
  moreover have e: "w - 1 - r = w - r - 1" by simp
  ultimately have n: "unat (w - r) = Suc (unat (w - 1 - r))"
    by (metis unat_gt_0 unat_minus_one Suc_pred')
  have "r + of_nat (unat (w - 1 - r)) = w - 1" using ring_distance [of "w - 1" r] by simp
  then show ?thesis unfolding ring_items_def n by simp
qed

lemma ring_split:
  assumes "unat (w - r) + unat (e - w) < 2 ^ 32"
  shows "ring_items buf r e = ring_items buf r w @ ring_items buf w e"
proof -
  have "e - r = (w - r) + (e - w)" by simp
  then have n: "unat (e - r) = unat (w - r) + unat (e - w)" using assms unat_add_lt [of "w - r" "e - w"] by simp
  have "r + of_nat (unat (w - r) + k) = w + of_nat k" for k by simp
  then show ?thesis unfolding ring_items_def n upt_add_eq_append [OF zero_le]
    by (auto intro!: nth_equalityI simp: nth_append)
qed

section \<open>Bounded queues\<close>

locale fifo =
  fixes inv :: "'s \<Rightarrow> bool" and items :: "'s \<Rightarrow> 'e list" and cap :: nat
    and put :: "'e \<Rightarrow> 's \<Rightarrow> 's option" and get :: "'s \<Rightarrow> ('e \<times> 's) option"
  assumes bounded: "inv s \<Longrightarrow> length (items s) \<le> cap"
    and put_items: "inv s \<Longrightarrow> put x s = Some s' \<Longrightarrow> inv s' \<and> items s' = items s @ [x]"
    and put_full: "inv s \<Longrightarrow> put x s = None \<longleftrightarrow> length (items s) = cap"
    and get_items: "inv s \<Longrightarrow> get s = Some (x, s') \<Longrightarrow> inv s' \<and> items s = x # items s'"
    and get_empty: "inv s \<Longrightarrow> get s = None \<longleftrightarrow> items s = []"
begin

fun put_all :: "'e list \<Rightarrow> 's \<Rightarrow> 's option" where
  "put_all [] s = Some s"
| "put_all (x # xs) s = (case put x s of None \<Rightarrow> None | Some s' \<Rightarrow> put_all xs s')"

fun get_n :: "nat \<Rightarrow> 's \<Rightarrow> 'e list \<times> 's" where
  "get_n 0 s = ([], s)"
| "get_n (Suc n) s = (case get s of None \<Rightarrow> ([], s) | Some (x, s') \<Rightarrow> map_prod (Cons x) (\<lambda>s. s) (get_n n s'))"

lemma put_all_items:
  assumes "inv s" and "length (items s) + length xs \<le> cap"
  shows "\<exists>s'. put_all xs s = Some s' \<and> inv s' \<and> items s' = items s @ xs"
  using assms
proof (induction xs arbitrary: s)
  case Nil
  then show ?case by simp
next
  case (Cons x xs)
  then obtain s1 where s1: "put x s = Some s1" using put_full [of s x] by (cases "put x s") auto
  then have "inv s1" "items s1 = items s @ [x]" using put_items Cons.prems(1) by blast+
  then show ?case using Cons.IH [of s1] Cons.prems(2) s1 by auto
qed

lemma get_n_items:
  assumes "inv s"
  shows "inv (snd (get_n n s)) \<and> fst (get_n n s) = take n (items s) \<and> items (snd (get_n n s)) = drop n (items s)"
  using assms
proof (induction n arbitrary: s)
  case 0
  then show ?case by simp
next
  case (Suc n)
  show ?case
  proof (cases "get s")
    case None
    then show ?thesis using get_empty [OF Suc.prems] Suc.prems by simp
  next
    case (Some xs)
    then obtain x s1 where xs: "xs = (x, s1)" "get s = Some (x, s1)" by (cases xs) auto
    then have "inv s1" "items s = x # items s1" using get_items Suc.prems by blast+
    then show ?thesis using Suc.IH [of s1] xs by simp
  qed
qed

text \<open>What goes in comes out, in order.\<close>

lemma put_get:
  assumes "inv s" and "items s = []" and "length xs \<le> cap"
  shows "\<exists>s'. put_all xs s = Some s' \<and> fst (get_n (length xs) s') = xs \<and> items (snd (get_n (length xs) s')) = []"
proof -
  obtain s' where s': "put_all xs s = Some s'" "inv s'" "items s' = xs"
    using put_all_items [OF assms(1), of xs] assms(2,3) by auto
  then show ?thesis using get_n_items [OF s'(2), of "length xs"] by simp
qed

end

end
