(* ===== verification/Pipe.thy ===== *)
theory Pipe
  imports Shmem Ring
begin

text \<open>
  Pipes, \<^verbatim>\<open>kernel/pipe.c\<close>.  A \<^verbatim>\<open>struct pipe\<close> fills a page of its own; \<open>pipes\<close>
  gives the structure at each address.  A call that has to wait ends its step with
  the caller asleep, and \<^verbatim>\<open>pipewrite\<close> continues at the byte it had reached.
  \<^verbatim>\<open>pipealloc\<close> is with the file table, in \<open>File\<close>.
\<close>

section \<open>Pipes\<close>

definition PIPESIZE :: uint where "PIPESIZE = 512"

record pipe =
  pi_data :: "uchar list"
  pi_nread :: uint
  pi_nwrite :: uint
  pi_readopen :: cint
  pi_writeopen :: cint

record kpipe = kshm +
  pipes :: "uint64 \<Rightarrow> pipe"

definition pipeset :: "uint64 \<Rightarrow> (pipe \<Rightarrow> pipe) \<Rightarrow> 'a kpipe_scheme \<Rightarrow> 'a kpipe_scheme" where
  "pipeset pi f s = s\<lparr>pipes := (pipes s)(pi := f (pipes s pi))\<rparr>"

definition pipeclose :: "uint64 \<Rightarrow> nat \<Rightarrow> uint64 \<Rightarrow> bool \<Rightarrow> 'a kpipe_scheme \<Rightarrow> 'a kpipe_scheme kres" where
  "pipeclose kend me pi wr s =
     (let s = (if wr
               then wakeup (Some me) (ChanPipeRead pi) (pipeset pi (\<lambda>p. p\<lparr>pi_writeopen := 0\<rparr>) s)
               else wakeup (Some me) (ChanPipeWrite pi) (pipeset pi (\<lambda>p. p\<lparr>pi_readopen := 0\<rparr>) s))
      in if pi_readopen (pipes s pi) = 0 \<and> pi_writeopen (pipes s pi) = 0 then kfree kend pi s else Ret s)"

text \<open>The statements that move one byte into and out of the buffer, with the tests that guard them.\<close>

definition pipe_put :: "uchar \<Rightarrow> pipe \<Rightarrow> pipe option" where
  "pipe_put ch p =
     (if pi_nwrite p = pi_nread p + PIPESIZE then None
      else Some (p\<lparr>pi_data := ring_write (pi_data p) (pi_nwrite p) ch, pi_nwrite := pi_nwrite p + 1\<rparr>))"

definition pipe_get :: "pipe \<Rightarrow> (uchar \<times> pipe) option" where
  "pipe_get p =
     (if pi_nread p = pi_nwrite p then None
      else Some (ring_read (pi_data p) (pi_nread p), p\<lparr>pi_nread := pi_nread p + 1\<rparr>))"

text \<open>A call returned a value, or sleeps after so many bytes.\<close>

datatype pipe_out = Returned cint | Waiting cint

definition pipewrite_end :: "nat \<Rightarrow> uint64 \<Rightarrow> cint \<Rightarrow> 'a kpipe_scheme \<Rightarrow> (pipe_out \<times> 'a kpipe_scheme) kres" where
  "pipewrite_end me pi i s = Ret (Returned i, wakeup (Some me) (ChanPipeRead pi) s)"

function pipewrite_loop ::
  "uint64 \<Rightarrow> nat \<Rightarrow> uint64 \<Rightarrow> uint64 \<Rightarrow> cint \<Rightarrow> cint \<Rightarrow> 'a kpipe_scheme
     \<Rightarrow> (pipe_out \<times> 'a kpipe_scheme) kres" where
  "pipewrite_loop kend me pi addr n i s =
     (if i <s n then
        if pi_readopen (pipes s pi) = 0 \<or> killed me s \<noteq> 0 then Ret (Returned (-1), s)
        else if pi_nwrite (pipes s pi) = pi_nread (pipes s pi) + PIPESIZE then
          Ret (Waiting i, sleep me (ChanPipeWrite pi) (wakeup (Some me) (ChanPipeRead pi) s))
        else (case copyin kend (p_sz (pget me s)) (p_pagetable (pget me s)) (p_pagetable (pget me s))
                    (addr + scast i) 1 s of
            Ret (r, bytes, s1) \<Rightarrow>
              if r = -1 then pipewrite_end me pi i s1
              else pipewrite_loop kend me pi addr n (i + 1)
                     (pipeset pi (\<lambda>p. case pipe_put (hd bytes) p of Some q \<Rightarrow> q | None \<Rightarrow> p) s1)
          | Panic m \<Rightarrow> Panic m
          | Block c \<Rightarrow> Block c)
      else pipewrite_end me pi i s)"
  by pat_completeness auto
termination
  by (relation "measure (\<lambda>(kend, me, pi, addr, n, i, s). nat (sint n - sint i))")
     (auto simp: word_sless_alt sint_inc_less)

declare pipewrite_loop.simps [simp del]

definition pipewrite ::
  "uint64 \<Rightarrow> nat \<Rightarrow> uint64 \<Rightarrow> uint64 \<Rightarrow> cint \<Rightarrow> 'a kpipe_scheme \<Rightarrow> (pipe_out \<times> 'a kpipe_scheme) kres" where
  "pipewrite kend me pi addr n s = pipewrite_loop kend me pi addr n 0 s"

definition pipewrite_resume ::
  "uint64 \<Rightarrow> nat \<Rightarrow> uint64 \<Rightarrow> uint64 \<Rightarrow> cint \<Rightarrow> cint \<Rightarrow> 'a kpipe_scheme
     \<Rightarrow> (pipe_out \<times> 'a kpipe_scheme) kres" where
  "pipewrite_resume kend me pi addr n i s = pipewrite_loop kend me pi addr n i (sleep_return me s)"

definition piperead_end :: "nat \<Rightarrow> uint64 \<Rightarrow> cint \<Rightarrow> 'a kpipe_scheme \<Rightarrow> (pipe_out \<times> 'a kpipe_scheme) kres" where
  "piperead_end me pi i s = Ret (Returned i, wakeup (Some me) (ChanPipeWrite pi) s)"

function piperead_loop ::
  "uint64 \<Rightarrow> nat \<Rightarrow> uint64 \<Rightarrow> uint64 \<Rightarrow> cint \<Rightarrow> cint \<Rightarrow> 'a kpipe_scheme
     \<Rightarrow> (pipe_out \<times> 'a kpipe_scheme) kres" where
  "piperead_loop kend me pi addr n i s =
     (if i <s n then
        case pipe_get (pipes s pi) of
          None \<Rightarrow> piperead_end me pi i s
        | Some (ch, p) \<Rightarrow>
            (case copyout kend (p_sz (pget me s)) (p_pagetable (pget me s)) (p_pagetable (pget me s))
                    (addr + scast i) [ch] s of
               Ret (r, s1) \<Rightarrow>
                 if r = -1 then piperead_end me pi (if i = 0 then -1 else i) s1
                 else piperead_loop kend me pi addr n (i + 1) (pipeset pi (\<lambda>_. p) s1)
             | Panic m \<Rightarrow> Panic m
             | Block c \<Rightarrow> Block c)
      else piperead_end me pi i s)"
  by pat_completeness auto
termination
  by (relation "measure (\<lambda>(kend, me, pi, addr, n, i, s). nat (sint n - sint i))")
     (auto simp: word_sless_alt sint_inc_less)

declare piperead_loop.simps [simp del]

definition piperead ::
  "uint64 \<Rightarrow> nat \<Rightarrow> uint64 \<Rightarrow> uint64 \<Rightarrow> cint \<Rightarrow> 'a kpipe_scheme \<Rightarrow> (pipe_out \<times> 'a kpipe_scheme) kres" where
  "piperead kend me pi addr n s =
     (if pi_nread (pipes s pi) = pi_nwrite (pipes s pi) \<and> pi_writeopen (pipes s pi) \<noteq> 0 then
        if killed me s \<noteq> 0 then Ret (Returned (-1), s)
        else Ret (Waiting 0, sleep me (ChanPipeRead pi) s)
      else piperead_loop kend me pi addr n 0 s)"

definition piperead_resume ::
  "uint64 \<Rightarrow> nat \<Rightarrow> uint64 \<Rightarrow> uint64 \<Rightarrow> cint \<Rightarrow> 'a kpipe_scheme \<Rightarrow> (pipe_out \<times> 'a kpipe_scheme) kres" where
  "piperead_resume kend me pi addr n s = piperead kend me pi addr n (sleep_return me s)"

section \<open>The buffer is a queue\<close>

definition pipe_ok :: "pipe \<Rightarrow> bool" where
  "pipe_ok p \<longleftrightarrow> length (pi_data p) = 512 \<and> unat (pi_nwrite p - pi_nread p) \<le> 512"

definition pipe_items :: "pipe \<Rightarrow> uchar list" where
  "pipe_items p = ring_items (pi_data p) (pi_nread p) (pi_nwrite p)"

lemma pipe_full: "pipe_ok p \<Longrightarrow> pi_nwrite p = pi_nread p + PIPESIZE \<longleftrightarrow> length (pipe_items p) = 512"
proof -
  have "w = r + PIPESIZE \<longleftrightarrow> unat (w - r) = 512" for w r :: uint
  proof
    assume "unat (w - r) = 512"
    then have "w - r = PIPESIZE" by (simp add: word_unat_eq_iff PIPESIZE_def)
    then show "w = r + PIPESIZE" by (simp add: diff_eq_eq add.commute)
  qed (simp add: PIPESIZE_def)
  then show ?thesis by (simp add: pipe_items_def)
qed

interpretation pipeq: fifo pipe_ok pipe_items 512 pipe_put pipe_get
proof unfold_locales
  fix p q :: pipe and x :: uchar
  assume ok: "pipe_ok p"
  then have rb: "ring_buf (pi_data p)" by (simp add: ring_buf_def pipe_ok_def dvd_def)
  show "length (pipe_items p) \<le> 512" using ok by (simp add: pipe_items_def pipe_ok_def)
  show "pipe_put x p = None \<longleftrightarrow> length (pipe_items p) = 512"
    using pipe_full [OF ok] by (simp add: pipe_put_def)
  show "pipe_get p = None \<longleftrightarrow> pipe_items p = []" by (auto simp: pipe_get_def pipe_items_def)
  show "pipe_ok q \<and> pipe_items q = pipe_items p @ [x]" if put: "pipe_put x p = Some q"
  proof -
    have q: "q = p\<lparr>pi_data := ring_write (pi_data p) (pi_nwrite p) x, pi_nwrite := pi_nwrite p + 1\<rparr>"
      and ne: "pi_nwrite p \<noteq> pi_nread p + PIPESIZE" using put by (auto simp: pipe_put_def split: if_splits)
    have lt: "unat (pi_nwrite p - pi_nread p) < length (pi_data p)"
      using ok pipe_full [OF ok] ne by (auto simp: pipe_ok_def pipe_items_def)
    then have "unat (pi_nwrite p + 1 - pi_nread p) \<le> 512" using ok by (subst ring_inc) (auto simp: pipe_ok_def)
    then show ?thesis using ring_put [OF rb lt, of x] ok by (simp add: q pipe_ok_def pipe_items_def)
  qed
  show "pipe_ok q \<and> pipe_items p = x # pipe_items q" if get: "pipe_get p = Some (x, q)"
  proof -
    have q: "q = p\<lparr>pi_nread := pi_nread p + 1\<rparr>" "x = ring_read (pi_data p) (pi_nread p)"
      and ne: "pi_nread p \<noteq> pi_nwrite p" using get by (auto simp: pipe_get_def split: if_splits)
    note it = ring_get [OF ne, of "pi_data p"]
    have "length (ring_items (pi_data p) (pi_nread p + 1) (pi_nwrite p)) \<le> 512"
      using arg_cong [OF it, of length] ok by (simp add: pipe_ok_def)
    then show ?thesis using it ok by (simp add: q pipe_ok_def pipe_items_def)
  qed
qed

section \<open>What a call moves\<close>

lemma pipe_fields [simp]:
  "pipes (pipeset pi f s) = (pipes s)(pi := f (pipes s pi))" "procs (pipeset pi f s) = procs s"
  "mem (pipeset pi f s) = mem s" "freelist (pipeset pi f s) = freelist s" "killed me (pipeset pi f s) = killed me s"
  "pipes (wakeup w c s) = pipes s" "pipes (sleep me c s) = pipes s" "pipes (sleep_return me s) = pipes s"
  by (simp_all add: pipeset_def killed_def wakeup_def sleep_def sleep_return_def pset_def)

lemma sleep_mem [simp]: "mem (sleep me c s) = mem s" "mem (sleep_return me s) = mem s"
  by (simp_all add: sleep_def sleep_return_def)

lemma only_kmem_pipes: "only_kmem s s' \<Longrightarrow> pipes s' = pipes s"
  by (auto simp: only_kmem_def)

lemma wakeup_pagetable:
  "i < length (procs s) \<Longrightarrow> p_pagetable (pget i (wakeup w c s)) = p_pagetable (pget i s)"
  by (simp add: wakeup_nth wake_one_def)

text \<open>The byte that process \<open>i\<close> sees at a user address.\<close>

definition ubyte :: "'a kproc_scheme \<Rightarrow> nat \<Rightarrow> uint64 \<Rightarrow> uchar" where
  "ubyte s i x = the (umem (mem s) (p_pagetable (pget i s)) x)"

text \<open>
  \<^verbatim>\<open>pipewrite\<close> from byte \<open>a\<close> of a mapped buffer of \<open>N\<close> bytes: it appends the bytes up to
  some \<open>j\<close> to the queue.  It stops short of \<open>N\<close> only when the queue is full, and then sleeps;
  or it moves nothing because the read side is closed or the process has been killed.
\<close>

lemma pipewrite_loop_ok:
  assumes "N < 2 ^ 31" and "a \<le> N" and "space_wf (mem s) (p_pagetable (pget me s))" and "pipe_ok (pipes s pi)"
    and "\<forall>k < N. umem (mem s) (p_pagetable (pget me s)) (addr + of_nat k) \<noteq> None"
  shows "\<exists>j out s'. a \<le> j \<and> j \<le> N \<and> pipewrite_loop kend me pi addr (of_nat N) (of_nat a) s = Ret (out, s')
    \<and> mem s' = mem s \<and> pipe_ok (pipes s' pi)
    \<and> pipe_items (pipes s' pi) = pipe_items (pipes s pi) @ map (\<lambda>k. ubyte s me (addr + of_nat k)) [a..<j]
    \<and> (out = Returned (of_nat j) \<and> j = N
       \<or> out = Waiting (of_nat j) \<and> j < N \<and> length (pipe_items (pipes s' pi)) = 512
       \<or> out = Returned (-1) \<and> j = a \<and> (pi_readopen (pipes s pi) = 0 \<or> killed me s \<noteq> 0))"
  using assms(2-5)
proof (induction "N - a" arbitrary: a s)
  case 0
  then have "a = N" by simp
  then show ?case using 0 by (intro exI [of _ a]) (simp add: pipewrite_end_def pipewrite_loop.simps)
next
  case (Suc d)
  have lt: "a < N" "(of_nat a :: cint) <s of_nat N" using Suc.hyps(2) assms(1) by (simp_all add: of_nat_sless)
  let ?p = "pipes s pi" and ?b = "ubyte s me (addr + of_nat a)"
  note step = pipewrite_loop.simps [of kend me pi addr "of_nat N" "of_nat a" s]
  show ?case
  proof (cases "pi_readopen ?p = 0 \<or> killed me s \<noteq> 0")
    case True
    then show ?thesis using lt step Suc.prems by (intro exI [of _ a]) auto
  next
    case opn: False
    show ?thesis
    proof (cases "pi_nwrite ?p = pi_nread ?p + PIPESIZE")
      case True
      then show ?thesis using opn lt step Suc.prems pipe_full [OF Suc.prems(3)]
        by (intro exI [of _ a]) simp
    next
      case False
      then obtain q where q: "pipe_put ?b ?p = Some q" by (simp add: pipe_put_def)
      then have q': "pipe_ok q" "pipe_items q = pipe_items ?p @ [?b]" "pi_readopen q = pi_readopen ?p"
        using pipeq.put_items [OF Suc.prems(3) q] by (auto simp: pipe_put_def split: if_splits)
      have sc: "(scast (of_nat a :: cint) :: uint64) = of_nat a" using lt(1) assms(1) by (simp add: scast_of_nat_small)
      have cp: "copyin kend (p_sz (pget me s)) (p_pagetable (pget me s)) (p_pagetable (pget me s))
          (addr + of_nat a) 1 s = Ret (0, [?b], s)"
        using copyin_ok [OF Suc.prems(2), of 1 "addr + of_nat a"] Suc.prems(4) lt(1)
        by (simp add: ubyte_def)
      define t where "t = pipeset pi (\<lambda>_. q) s"
      have nx: "pipewrite_loop kend me pi addr (of_nat N) (of_nat a) s
          = pipewrite_loop kend me pi addr (of_nat N) (of_nat (Suc a)) t"
        using step opn False lt(2) cp q by (simp add: sc t_def pipeset_def add.commute)
      have t: "mem t = mem s" "procs t = procs s" "pipes t pi = q" "killed me t = killed me s" by (simp_all add: t_def)
      have d: "d = N - Suc a" "Suc a \<le> N" using Suc.hyps(2) lt(1) by simp_all
      have pre: "space_wf (mem t) (p_pagetable (pget me t))" "pipe_ok (pipes t pi)"
        "\<forall>k < N. umem (mem t) (p_pagetable (pget me t)) (addr + of_nat k) \<noteq> None"
        using Suc.prems q' by (simp_all add: t)
      obtain j out s' where j: "Suc a \<le> j" "j \<le> N" "mem s' = mem t" "pipe_ok (pipes s' pi)"
        "pipewrite_loop kend me pi addr (of_nat N) (of_nat (Suc a)) t = Ret (out, s')"
        "pipe_items (pipes s' pi) = pipe_items (pipes t pi) @ map (\<lambda>k. ubyte t me (addr + of_nat k)) [Suc a..<j]"
        "out = Returned (of_nat j) \<and> j = N
         \<or> out = Waiting (of_nat j) \<and> j < N \<and> length (pipe_items (pipes s' pi)) = 512
         \<or> out = Returned (-1) \<and> j = Suc a \<and> (pi_readopen (pipes t pi) = 0 \<or> killed me t \<noteq> 0)"
        using Suc.hyps(1) [OF d pre] by blast
      have "ubyte t me x = ubyte s me x" for x by (simp add: ubyte_def t)
      then have "pipe_items (pipes s' pi) = pipe_items ?p @ map (\<lambda>k. ubyte s me (addr + of_nat k)) [a..<j]"
        using j(1,6) q'(2) by (simp add: t upt_conv_Cons)
      then show ?thesis using j nx opn q'(3) by (intro exI [of _ j] exI [of _ out] exI [of _ s']) (auto simp: t)
    qed
  qed
qed

text \<open>
  \<^verbatim>\<open>piperead\<close>'s loop from byte \<open>a\<close> of a writable buffer of \<open>N\<close> bytes: it takes bytes off
  the queue until the buffer is full or the queue empty, and puts them in the buffer in order.
\<close>

lemma piperead_loop_ok:
  assumes "N < 2 ^ 31" and "a \<le> N" and "space_wf (mem s) (p_pagetable (pget me s))" and "pipe_ok (pipes s pi)"
    and "\<forall>k < N. writable (mem s) (p_pagetable (pget me s)) (addr + of_nat k)"
    and "me < length (procs s)"
  shows "\<exists>j s'. a \<le> j \<and> j \<le> N \<and> piperead_loop kend me pi addr (of_nat N) (of_nat a) s = Ret (Returned (of_nat j), s')
    \<and> pipe_ok (pipes s' pi) \<and> j = min N (a + length (pipe_items (pipes s pi)))
    \<and> pipe_items (pipes s pi) = map (\<lambda>k. ubyte s' me (addr + of_nat k)) [a..<j] @ pipe_items (pipes s' pi)
    \<and> p_pagetable (pget me s') = p_pagetable (pget me s)
    \<and> (\<forall>k < a. ubyte s' me (addr + of_nat k) = ubyte s me (addr + of_nat k))"
  using assms(2-6)
proof (induction "N - a" arbitrary: a s)
  case 0
  then have "a = N" by simp
  then show ?case using 0
    by (intro exI [of _ a] exI [of _ "wakeup (Some me) (ChanPipeWrite pi) s"])
       (auto simp: piperead_end_def ubyte_def wakeup_pagetable piperead_loop.simps)
next
  case (Suc d)
  have lt: "a < N" "(of_nat a :: cint) <s of_nat N" using Suc.hyps(2) assms(1) by (simp_all add: of_nat_sless)
  let ?p = "pipes s pi" and ?root = "p_pagetable (pget me s)"
  note step = piperead_loop.simps [of kend me pi addr "of_nat N" "of_nat a" s]
  show ?case
  proof (cases "pipe_get ?p")
    case None
    then have "pipe_items ?p = []" using pipeq.get_empty [OF Suc.prems(3)] by simp
    then show ?thesis using lt step Suc.prems None
      by (intro exI [of _ a] exI [of _ "wakeup (Some me) (ChanPipeWrite pi) s"])
         (auto simp: piperead_end_def ubyte_def wakeup_pagetable)
  next
    case (Some cq)
    then obtain ch q where cq: "cq = (ch, q)" "pipe_get ?p = Some (ch, q)" by (cases cq) auto
    then have q: "pipe_ok q" "pipe_items ?p = ch # pipe_items q" using pipeq.get_items [OF Suc.prems(3)] by blast+
    have sc: "(scast (of_nat a :: cint) :: uint64) = of_nat a" using lt(1) assms(1) by (simp add: scast_of_nat_small)
    have "writable (mem s) ?root (addr + of_nat a)" using Suc.prems(4) lt(1) by simp
    then obtain u where u: "copyout kend (p_sz (pget me s)) ?root ?root (addr + of_nat a) [ch] s = Ret (0, u)"
      "only_kmem s u" "space_wf (mem u) ?root" "\<And>w. leaf (mem u) ?root w = leaf (mem s) ?root w"
      "\<And>x. umem (mem u) ?root x = (if x = addr + of_nat a then Some ch else umem (mem s) ?root x)"
      "\<And>x. writable (mem u) ?root x = writable (mem s) ?root x"
      by (rule copyout_byte [OF Suc.prems(2), where kend = kend and psz = "p_sz (pget me s)" and ppt = ?root and c = ch]) blast
    define t where "t = pipeset pi (\<lambda>_. q) u"
    have nx: "piperead_loop kend me pi addr (of_nat N) (of_nat a) s
        = piperead_loop kend me pi addr (of_nat N) (of_nat (Suc a)) t"
      using step lt(2) cq u(1) by (simp add: sc t_def pipeset_def add.commute)
    have t: "mem t = mem u" "procs t = procs s" "pipes t pi = q"
      using only_kmem_kproc(1) [OF u(2)] by (simp_all add: t_def)
    have d: "d = N - Suc a" "Suc a \<le> N" using Suc.hyps(2) lt(1) by simp_all
    have pre: "space_wf (mem t) (p_pagetable (pget me t))" "pipe_ok (pipes t pi)"
      "\<forall>k < N. writable (mem t) (p_pagetable (pget me t)) (addr + of_nat k)" "me < length (procs t)"
      using Suc.prems u(3) q(1) by (simp_all add: t u(6))
    obtain j s' where j: "Suc a \<le> j" "j \<le> N" "pipe_ok (pipes s' pi)"
      "piperead_loop kend me pi addr (of_nat N) (of_nat (Suc a)) t = Ret (Returned (of_nat j), s')"
      "j = min N (Suc a + length (pipe_items (pipes t pi)))"
      "pipe_items (pipes t pi) = map (\<lambda>k. ubyte s' me (addr + of_nat k)) [Suc a..<j] @ pipe_items (pipes s' pi)"
      "p_pagetable (pget me s') = p_pagetable (pget me t)"
      "\<forall>k < Suc a. ubyte s' me (addr + of_nat k) = ubyte t me (addr + of_nat k)"
      using Suc.hyps(1) [OF d pre] by blast
    have at: "ubyte t me (addr + of_nat k) = (if k = a then ch else ubyte s me (addr + of_nat k))" if "k \<le> a" for k
    proof -
      have "(of_nat k :: uint64) = of_nat a \<longleftrightarrow> k = a"
        using that lt(1) assms(1) of_nat_lt_pow [of a, where ?'a = 64] of_nat_lt_pow [of k, where ?'a = 64]
        by auto
      then show ?thesis by (simp add: ubyte_def t u(5))
    qed
    have it: "pipe_items ?p = map (\<lambda>k. ubyte s' me (addr + of_nat k)) [a..<j] @ pipe_items (pipes s' pi)"
      using q(2) j(1,6,8) at [of a] by (simp add: t upt_conv_Cons)
    have keep: "\<forall>k < a. ubyte s' me (addr + of_nat k) = ubyte s me (addr + of_nat k)"
      using j(8) at by simp
    have le: "a \<le> j" and jm: "j = min N (a + length (pipe_items ?p))" and pg: "p_pagetable (pget me s') = ?root"
      using j(1,5,7) q(2) by (simp_all add: t)
    have run: "piperead_loop kend me pi addr (of_nat N) (of_nat a) s = Ret (Returned (of_nat j), s')"
      using nx j(4) by simp
    show ?thesis using le j(2) run j(3) jm it pg keep by blast
  qed
qed

section \<open>Streams\<close>

text \<open>
  Any number of processes write to and read from the pipe, each call cut where it sleeps.
  \<open>W\<close> collects the bytes that the writers had in their buffers, \<open>R\<close> those that
  the readers find in theirs.  \<open>moved\<close> is the position a call has reached.  Steps of
  the kernel that leave the pipe alone come in between.
\<close>

definition moved :: "nat \<Rightarrow> pipe_out \<Rightarrow> nat" where
  "moved i r = (case r of Returned v \<Rightarrow> if v = -1 then i else unat v | Waiting v \<Rightarrow> unat v)"

inductive pipe_step ::
  "uint64 \<Rightarrow> kpipe \<times> uchar list \<times> uchar list \<Rightarrow> kpipe \<times> uchar list \<times> uchar list \<Rightarrow> bool" for pi where
  writes: "N < 2 ^ 31 \<Longrightarrow> a \<le> N \<Longrightarrow> space_wf (mem s) (p_pagetable (pget me s)) \<Longrightarrow>
    \<forall>k < N. umem (mem s) (p_pagetable (pget me s)) (addr + of_nat k) \<noteq> None \<Longrightarrow>
    pipewrite_loop kend me pi addr (of_nat N) (of_nat a) s = Ret (r, s') \<Longrightarrow>
    pipe_step pi (s, W, R) (s', W @ map (\<lambda>k. ubyte s me (addr + of_nat k)) [a..<moved a r], R)"
| reads: "N < 2 ^ 31 \<Longrightarrow> me < length (procs s) \<Longrightarrow> space_wf (mem s) (p_pagetable (pget me s)) \<Longrightarrow>
    \<forall>k < N. writable (mem s) (p_pagetable (pget me s)) (addr + of_nat k) \<Longrightarrow>
    piperead kend me pi addr (of_nat N) s = Ret (r, s') \<Longrightarrow>
    pipe_step pi (s, W, R) (s', W, R @ map (\<lambda>k. ubyte s' me (addr + of_nat k)) [0..<moved 0 r])"
| other: "pipes s' pi = pipes s pi \<Longrightarrow> pipe_step pi (s, W, R) (s', W, R)"

definition pipe_inv :: "uint64 \<Rightarrow> kpipe \<times> uchar list \<times> uchar list \<Rightarrow> bool" where
  "pipe_inv pi = (\<lambda>(s, W, R). pipe_ok (pipes s pi) \<and> W = R @ pipe_items (pipes s pi))"

lemma moved_simps: "j < 2 ^ 31 \<Longrightarrow> moved i (Returned (of_nat j)) = j" "j < 2 ^ 31 \<Longrightarrow> moved i (Waiting (of_nat j)) = j"
  "moved i (Returned (-1)) = i"
  using of_nat_not_minus_1 [of j] of_nat_lt_pow [of j, where ?'a = 32] by (simp_all add: moved_def)

lemma pipe_step_inv: "pipe_step pi x y \<Longrightarrow> pipe_inv pi x \<Longrightarrow> pipe_inv pi y"
proof (induction rule: pipe_step.induct)
  case (writes N a s me addr kend r s' W R)
  then have ok: "pipe_ok (pipes s pi)" and W: "W = R @ pipe_items (pipes s pi)" by (auto simp: pipe_inv_def)
  obtain j where j: "j \<le> N" "pipe_ok (pipes s' pi)"
    "pipe_items (pipes s' pi) = pipe_items (pipes s pi) @ map (\<lambda>k. ubyte s me (addr + of_nat k)) [a..<j]"
    "r = Returned (of_nat j) \<or> r = Waiting (of_nat j) \<or> r = Returned (-1) \<and> j = a"
    using pipewrite_loop_ok [OF writes(1-3) ok writes(4), of kend] writes(5) by auto
  have "moved a r = j" using j(1,4) writes(1) by (auto simp: moved_simps)
  then show ?case using j W by (simp add: pipe_inv_def)
next
  case (reads N me s addr kend r s' W R)
  then have ok: "pipe_ok (pipes s pi)" and W: "W = R @ pipe_items (pipes s pi)" by (auto simp: pipe_inv_def)
  show ?case
  proof (cases "pi_nread (pipes s pi) = pi_nwrite (pipes s pi) \<and> pi_writeopen (pipes s pi) \<noteq> 0")
    case True
    then have "moved 0 r = 0" "pipes s' pi = pipes s pi"
      using reads(5) moved_simps(2) [of 0 0] by (auto simp: piperead_def moved_simps(3) split: if_splits)
    then show ?thesis using ok W by (simp add: pipe_inv_def)
  next
    case False
    then have "piperead_loop kend me pi addr (of_nat N) (of_nat 0) s = Ret (r, s')"
      using reads(5) by (auto simp: piperead_def)
    then obtain j where j: "j \<le> N" "r = Returned (of_nat j)" "pipe_ok (pipes s' pi)"
      "pipe_items (pipes s pi) = map (\<lambda>k. ubyte s' me (addr + of_nat k)) [0..<j] @ pipe_items (pipes s' pi)"
      using piperead_loop_ok [OF reads(1) le0 reads(3) ok reads(4) reads(2), of kend]
      by (metis kres.inject(1) prod.inject)
    then have "moved 0 r = j" using reads(1) by (simp add: moved_simps)
    then show ?thesis using j W by (simp add: pipe_inv_def)
  qed
next
  case (other s' s W R)
  then show ?case by (simp add: pipe_inv_def)
qed

text \<open>
  C13: a pipe is a byte stream.  However writers and readers interleave, and however their
  calls are cut by sleeping, the bytes that the readers find in their buffers, in order, are the bytes
  that the writers had in theirs, up to the at most 512 that are still in the pipe.  This holds also
  after the 32-bit counters have wrapped around.
\<close>

theorem pipe_stream:
  assumes "length (pi_data (pipes s pi)) = 512" and "pi_nread (pipes s pi) = pi_nwrite (pipes s pi)"
    and "(pipe_step pi)\<^sup>*\<^sup>* (s, [], []) (s', W, R)"
  shows "\<exists>rest. W = R @ rest \<and> length rest = unat (pi_nwrite (pipes s' pi) - pi_nread (pipes s' pi)) \<and> length rest \<le> 512"
proof -
  have "pipe_inv pi (s, [], [])" using assms(1,2) by (simp add: pipe_inv_def pipe_ok_def pipe_items_def)
  with assms(3) have "pipe_inv pi (s', W, R)" by (induction rule: rtranclp_induct) (auto dest: pipe_step_inv)
  then have "W = R @ pipe_items (pipes s' pi)" "pipe_ok (pipes s' pi)" by (auto simp: pipe_inv_def)
  moreover have "length (pipe_items (pipes s' pi)) = unat (pi_nwrite (pipes s' pi) - pi_nread (pipes s' pi))"
    by (simp add: pipe_items_def)
  ultimately show ?thesis by (auto simp: pipe_ok_def)
qed

definition pipe_demo :: kpipe where
  "pipe_demo = kshm.extend (shm_table\<lparr>mem := one_page_mem,
       procs := (procs shm_table)[0 := (procs shm_table ! 0)\<lparr>p_pagetable := 0x87000000\<rparr>]\<rparr>)
     \<lparr>pipes = (\<lambda>_. \<lparr>pi_data = replicate 512 0, pi_nread = 0, pi_nwrite = 0, pi_readopen = 1, pi_writeopen = 1\<rparr>)\<rparr>"

theorem pipe_stream_witness:
  "\<exists>s' W R. (pipe_step 0x87010000)\<^sup>*\<^sup>* (pipe_demo, [], []) (s', W, R) \<and> length W = 3 \<and> (\<exists>rest. W = R @ rest)"
proof -
  let ?pi = "0x87010000 :: uint64"
  have n: "procs init_table \<noteq> []" "0 < NPROC" by (simp_all add: init_table_def NPROC_def)
  have fs: "mem pipe_demo = one_page_mem" "p_pagetable (pget 0 pipe_demo) = 0x87000000" "killed 0 pipe_demo = 0"
    "pipes pipe_demo ?pi = \<lparr>pi_data = replicate 512 0, pi_nread = 0, pi_nwrite = 0, pi_readopen = 1, pi_writeopen = 1\<rparr>"
    using n init_table_nth [of 0] by (simp_all add: pipe_demo_def kshm.extend_def killed_def unused_proc_def)
  have e: "length (pi_data (pipes pipe_demo ?pi)) = 512"
    "pi_nread (pipes pipe_demo ?pi) = pi_nwrite (pipes pipe_demo ?pi)" by (simp_all add: fs)
  have ro: "pi_readopen (pipes pipe_demo ?pi) \<noteq> 0" by (simp add: fs)
  have ok: "pipe_ok (pipes pipe_demo ?pi)" and it: "pipe_items (pipes pipe_demo ?pi) = []"
    by (simp_all add: fs pipe_ok_def pipe_items_def)
  have wf: "space_wf (mem pipe_demo) (p_pagetable (pget 0 pipe_demo))" using one_page_space by (simp add: fs)
  have mp: "\<forall>k < 3. umem (mem pipe_demo) (p_pagetable (pget 0 pipe_demo)) (0 + of_nat k) \<noteq> None"
    using one_page_writable by (simp add: fs writable_def)
  have l: "(3::nat) < 2 ^ 31" "0 \<le> (3::nat)" by simp_all
  from pipewrite_loop_ok [OF l wf ok mp, of KERNBASE] obtain j r s' where j: "j \<le> 3"
    "pipewrite_loop KERNBASE 0 ?pi 0 (of_nat 3) (of_nat 0) pipe_demo = Ret (r, s')"
    "pipe_items (pipes s' ?pi) = map (\<lambda>k. ubyte pipe_demo 0 (0 + of_nat k)) [0..<j]"
    "r = Returned (of_nat j) \<and> j = 3 \<or> length (pipe_items (pipes s' ?pi)) = 512"
    by (auto simp: it fs(3) ro)
  then have r: "r = Returned (of_nat 3)" by auto
  have st: "(pipe_step ?pi)\<^sup>*\<^sup>* (pipe_demo, [], [])
      (s', [] @ map (\<lambda>k. ubyte pipe_demo 0 (0 + of_nat k)) [0..<moved 0 r], [])"
    using pipe_step.writes [OF l wf mp j(2)] by blast
  have "length ([] @ map (\<lambda>k. ubyte pipe_demo 0 (0 + of_nat k)) [0..<moved 0 r]) = 3"
    unfolding r using moved_simps(1) [of 3 0] by simp
  then show ?thesis using pipe_stream [OF e st] st by blast
qed

end
