(* ===== verification/Printf.thy ===== *)
theory Printf
  imports Prelude
begin

text \<open>
  Formatted output: \<^verbatim>\<open>kernel/printf.c\<close> and \<^verbatim>\<open>user/printf.c\<close>, two programs for
  the same task.  The kernel's passes C \<^verbatim>\<open>int\<close>s to \<^verbatim>\<open>consputc\<close>; the user's
  writes bytes to a file descriptor.  What each emits is a list, in order.  A
  \<^verbatim>\<open>va_list\<close> is the sequence of its 8-byte slots, each with the string it points to
  in case it is used as a \<^verbatim>\<open>char *\<close>.
\<close>

abbreviation asc :: "char \<Rightarrow> uchar" where
  "asc c \<equiv> of_char c"

abbreviation cstr :: "string \<Rightarrow> uchar list" where
  "cstr s \<equiv> map of_char s"

record slot =
  slot_word :: uint64
  slot_str :: "uchar list"

text \<open>The byte at index \<open>i\<close> of a C string, whose terminating zero is not part of the list.\<close>

definition str_at :: "uchar list \<Rightarrow> nat \<Rightarrow> uchar" where
  "str_at s i = (if i < length s then s ! i else 0)"

section \<open>Numbers\<close>

text \<open>
  The \<^verbatim>\<open>do\<close>-loop of \<^verbatim>\<open>printint\<close>, least significant digit first.  It is only
  used with bases 10 and 16; the test of the base is there for termination.
\<close>

function digit_loop :: "uchar list \<Rightarrow> uint64 \<Rightarrow> uint64 \<Rightarrow> uchar list" where
  "digit_loop D base x =
     D ! unat (x mod base) #
     (if x div base = 0 \<or> base \<le> 1 then [] else digit_loop D base (x div base))"
  by pat_completeness auto
termination
proof (relation "measure (\<lambda>(D, base, x). unat x)")
  fix D base x
  assume a: "\<not> (x div base = 0 \<or> base \<le> (1::uint64))"
  then have "1 < unat base" "0 < unat x" by (auto simp: word_le_nat_alt unat_gt_0)
  then have "unat x div unat base < unat x" by (rule div_less_dividend)
  then show "((D, base, x div base), D, base, x) \<in> measure (\<lambda>(D, base, x). unat x)"
    by (simp add: unat_div)
qed simp

declare digit_loop.simps [simp del]

definition kdigits :: "uchar list" where "kdigits = cstr ''0123456789abcdef''"
definition udigits :: "uchar list" where "udigits = cstr ''0123456789ABCDEF''"

definition kprintint :: "uchar list \<Rightarrow> uint64 \<Rightarrow> uint64 \<Rightarrow> bool \<Rightarrow> cint list" where
  "kprintint D xx base sign =
     (let sign = (sign \<and> xx <s 0);
          x = (if sign then - xx else xx);
          buf = digit_loop D base x;
          buf = (if sign then buf @ [asc CHR ''-''] else buf)
      in map ucast (rev buf))"

fun kptr_loop :: "uchar list \<Rightarrow> nat \<Rightarrow> uint64 \<Rightarrow> cint list" where
  "kptr_loop D 0 x = []"
| "kptr_loop D (Suc n) x = ucast (D ! unat (drop_bit 60 x)) # kptr_loop D n (push_bit 4 x)"

definition kprintptr :: "uchar list \<Rightarrow> uint64 \<Rightarrow> cint list" where
  "kprintptr D x = map ucast (cstr ''0x'') @ kptr_loop D 16 x"

definition uprintint :: "uchar list \<Rightarrow> uint64 \<Rightarrow> uint64 \<Rightarrow> bool \<Rightarrow> uchar list" where
  "uprintint D xx base sg =
     (let neg = (sg \<and> xx <s 0);
          x = (if neg then - xx else xx);
          buf = digit_loop D base x;
          buf = (if neg then buf @ [asc CHR ''-''] else buf)
      in rev buf)"

fun uptr_loop :: "uchar list \<Rightarrow> nat \<Rightarrow> uint64 \<Rightarrow> uchar list" where
  "uptr_loop D 0 x = []"
| "uptr_loop D (Suc n) x = D ! unat (drop_bit 60 x) # uptr_loop D n (push_bit 4 x)"

definition uprintptr :: "uchar list \<Rightarrow> uint64 \<Rightarrow> uchar list" where
  "uprintptr D x = cstr ''0x'' @ uptr_loop D 16 x"

section \<open>The kernel's printf\<close>

text \<open>\<^verbatim>\<open>va_arg\<close> at \<^verbatim>\<open>int\<close> and at \<^verbatim>\<open>uint32\<close>, widened to \<^verbatim>\<open>long long\<close>.\<close>

definition va_int :: "slot \<Rightarrow> uint64" where
  "va_int a = scast (ucast (slot_word a) :: cint)"

definition va_uint32 :: "slot \<Rightarrow> uint64" where
  "va_uint32 a = ucast (ucast (slot_word a) :: uint)"

definition va_str :: "slot \<Rightarrow> uchar list" where
  "va_str a = takeWhile (\<lambda>c. c \<noteq> 0) (if slot_word a = 0 then cstr ''(null)'' else slot_str a)"

text \<open>
  One conversion: what is emitted, how far \<^verbatim>\<open>i\<close> advances beyond the conversion character,
  and how many slots are used.  \<open>None\<close> is the \<^verbatim>\<open>break\<close>.
\<close>

definition kconv :: "uchar list \<Rightarrow> slot \<Rightarrow> uchar \<Rightarrow> uchar \<Rightarrow> uchar \<Rightarrow> (cint list \<times> nat \<times> nat) option" where
  "kconv D a c0 c1 c2 =
     (if c0 = asc CHR ''d'' then Some (kprintint D (va_int a) 10 True, 0, 1)
      else if c0 = asc CHR ''l'' \<and> c1 = asc CHR ''d'' then Some (kprintint D (slot_word a) 10 True, 1, 1)
      else if c0 = asc CHR ''l'' \<and> c1 = asc CHR ''l'' \<and> c2 = asc CHR ''d''
        then Some (kprintint D (slot_word a) 10 True, 2, 1)
      else if c0 = asc CHR ''u'' then Some (kprintint D (va_uint32 a) 10 False, 0, 1)
      else if c0 = asc CHR ''l'' \<and> c1 = asc CHR ''u'' then Some (kprintint D (slot_word a) 10 False, 1, 1)
      else if c0 = asc CHR ''l'' \<and> c1 = asc CHR ''l'' \<and> c2 = asc CHR ''u''
        then Some (kprintint D (slot_word a) 10 False, 2, 1)
      else if c0 = asc CHR ''x'' then Some (kprintint D (va_uint32 a) 16 False, 0, 1)
      else if c0 = asc CHR ''l'' \<and> c1 = asc CHR ''x'' then Some (kprintint D (slot_word a) 16 False, 1, 1)
      else if c0 = asc CHR ''l'' \<and> c1 = asc CHR ''l'' \<and> c2 = asc CHR ''x''
        then Some (kprintint D (slot_word a) 16 False, 2, 1)
      else if c0 = asc CHR ''p'' then Some (kprintptr D (slot_word a), 0, 1)
      else if c0 = asc CHR ''c'' then Some ([ucast (slot_word a)], 0, 1)
      else if c0 = asc CHR ''s'' then Some (map ucast (va_str a), 0, 1)
      else if c0 = asc CHR ''%'' then Some ([ucast (asc CHR ''%'')], 0, 0)
      else if c0 = 0 then None
      else Some ([ucast (asc CHR ''%''), ucast c0], 0, 0))"

text \<open>The loop, at index \<open>i\<close> of the format with slot \<open>k\<close> next.\<close>

function kprintf_loop :: "uchar list \<Rightarrow> uchar list \<Rightarrow> (nat \<Rightarrow> slot) \<Rightarrow> nat \<Rightarrow> nat \<Rightarrow> cint list" where
  "kprintf_loop D fmt va i k =
     (let cx = str_at fmt i in
      if cx = 0 then []
      else if cx \<noteq> asc CHR ''%'' then ucast cx # kprintf_loop D fmt va (i + 1) k
      else let c0 = str_at fmt (i + 1);
               c1 = (if c0 \<noteq> 0 then str_at fmt (i + 2) else 0);
               c2 = (if c1 \<noteq> 0 then str_at fmt (i + 3) else 0)
           in case kconv D (va k) c0 c1 c2 of
                None \<Rightarrow> []
              | Some (emit, adv, used) \<Rightarrow> emit @ kprintf_loop D fmt va (i + 2 + adv) (k + used))"
  by pat_completeness auto
termination
  by (relation "measure (\<lambda>(D, fmt, va, i, k). length fmt - i)") (auto simp: str_at_def split: if_splits)

declare kprintf_loop.simps [simp del]

definition kprintf :: "uchar list \<Rightarrow> (nat \<Rightarrow> slot) \<Rightarrow> cint list" where
  "kprintf fmt va = kprintf_loop kdigits fmt va 0 0"

section \<open>The user library's printf\<close>

definition uconv :: "uchar list \<Rightarrow> slot \<Rightarrow> uchar \<Rightarrow> uchar \<Rightarrow> uchar \<Rightarrow> uchar list \<times> nat \<times> nat" where
  "uconv D a c0 c1 c2 =
     (if c0 = asc CHR ''d'' then (uprintint D (va_int a) 10 True, 0, 1)
      else if c0 = asc CHR ''l'' \<and> c1 = asc CHR ''d'' then (uprintint D (slot_word a) 10 True, 1, 1)
      else if c0 = asc CHR ''l'' \<and> c1 = asc CHR ''l'' \<and> c2 = asc CHR ''d''
        then (uprintint D (slot_word a) 10 True, 2, 1)
      else if c0 = asc CHR ''u'' then (uprintint D (va_uint32 a) 10 False, 0, 1)
      else if c0 = asc CHR ''l'' \<and> c1 = asc CHR ''u'' then (uprintint D (slot_word a) 10 False, 1, 1)
      else if c0 = asc CHR ''l'' \<and> c1 = asc CHR ''l'' \<and> c2 = asc CHR ''u''
        then (uprintint D (slot_word a) 10 False, 2, 1)
      else if c0 = asc CHR ''x'' then (uprintint D (va_uint32 a) 16 False, 0, 1)
      else if c0 = asc CHR ''l'' \<and> c1 = asc CHR ''x'' then (uprintint D (slot_word a) 16 False, 1, 1)
      else if c0 = asc CHR ''l'' \<and> c1 = asc CHR ''l'' \<and> c2 = asc CHR ''x''
        then (uprintint D (slot_word a) 16 False, 2, 1)
      else if c0 = asc CHR ''p'' then (uprintptr D (slot_word a), 0, 1)
      else if c0 = asc CHR ''c'' then ([ucast (slot_word a)], 0, 1)
      else if c0 = asc CHR ''s'' then (va_str a, 0, 1)
      else if c0 = asc CHR ''%'' then ([asc CHR ''%''], 0, 0)
      else ([asc CHR ''%'', c0], 0, 0))"

text \<open>\<open>pct\<close> is the test \<^verbatim>\<open>state == '%'\<close>.\<close>

function vprintf_loop :: "uchar list \<Rightarrow> uchar list \<Rightarrow> (nat \<Rightarrow> slot) \<Rightarrow> bool \<Rightarrow> nat \<Rightarrow> nat \<Rightarrow> uchar list" where
  "vprintf_loop D fmt va pct i k =
     (let c0 = str_at fmt i in
      if c0 = 0 then []
      else if \<not> pct then
        if c0 = asc CHR ''%'' then vprintf_loop D fmt va True (i + 1) k
        else c0 # vprintf_loop D fmt va False (i + 1) k
      else let c1 = str_at fmt (i + 1);
               c2 = (if c1 \<noteq> 0 then str_at fmt (i + 2) else 0);
               (emit, adv, used) = uconv D (va k) c0 c1 c2
           in emit @ vprintf_loop D fmt va False (i + 1 + adv) (k + used))"
  by pat_completeness auto
termination
  by (relation "measure (\<lambda>(D, fmt, va, pct, i, k). length fmt - i)") (auto simp: str_at_def split: if_splits)

declare vprintf_loop.simps [simp del]

definition vprintf :: "uchar list \<Rightarrow> (nat \<Rightarrow> slot) \<Rightarrow> uchar list" where
  "vprintf fmt va = vprintf_loop udigits fmt va False 0 0"

section \<open>The two agree\<close>

lemma ucast_down_up: "(ucast (ucast (c :: uchar) :: cint) :: uchar) = c"
  by (rule bit_word_eqI) (simp add: bit_ucast_iff)

lemma ucast_chain: "(ucast (ucast (w :: uint64) :: cint) :: uchar) = ucast w"
  by (rule bit_word_eqI) (simp add: bit_ucast_iff)

lemma kprintint_bytes: "map ucast (kprintint D xx base sg) = uprintint D xx base sg"
  by (simp add: kprintint_def uprintint_def Let_def ucast_down_up comp_def)

lemma kptr_loop_bytes: "map ucast (kptr_loop D n x) = uptr_loop D n x"
  by (induction n arbitrary: x) (simp_all add: ucast_down_up)

lemma kprintptr_bytes: "map ucast (kprintptr D x) = uprintptr D x"
  by (simp add: kprintptr_def uprintptr_def kptr_loop_bytes ucast_down_up)

text \<open>A conversion that does not end the kernel's loop emits the same bytes in both.\<close>

lemma kconv_uconv:
  "c0 \<noteq> 0 \<Longrightarrow> \<exists>emit adv used. kconv D a c0 c1 c2 = Some (emit, adv, used)
     \<and> uconv D a c0 c1 c2 = (map ucast emit, adv, used)"
  by (auto simp: kconv_def uconv_def kprintint_bytes kprintptr_bytes ucast_down_up ucast_chain comp_def)

lemma kconv_zero: "kconv D a 0 c1 c2 = None"
  by (simp add: kconv_def)

lemma kprintf_vprintf_loop: "map ucast (kprintf_loop D fmt va i k) = vprintf_loop D fmt va False i k"
proof (induction "length fmt - i" arbitrary: i k rule: less_induct)
  case less
  let ?cx = "str_at fmt i" and ?c0 = "str_at fmt (i + 1)"
  show ?case
  proof (cases "?cx = 0 \<or> ?cx \<noteq> asc CHR ''%''")
    case True
    moreover have "length fmt - (i + 1) < length fmt - i" if "?cx \<noteq> 0"
      using that by (auto simp: str_at_def split: if_splits)
    ultimately show ?thesis using less.hyps [of "i + 1" k]
      by (subst kprintf_loop.simps, subst vprintf_loop.simps) (auto simp: ucast_down_up Let_def)
  next
    case False
    then have pc: "?cx = asc CHR ''%''" "?cx \<noteq> 0" by auto
    then have lt: "i < length fmt" by (auto simp: str_at_def split: if_splits)
    have v: "vprintf_loop D fmt va False i k = vprintf_loop D fmt va True (i + 1) k"
      using pc by (subst vprintf_loop.simps) simp
    show ?thesis
    proof (cases "?c0 = 0")
      case True
      then show ?thesis unfolding v using pc
        by (subst kprintf_loop.simps, subst vprintf_loop.simps) (simp add: kconv_zero)
    next
      case False
      let ?c1 = "str_at fmt (i + 2)"
      let ?c2 = "if ?c1 \<noteq> 0 then str_at fmt (i + 3) else 0"
      obtain emit adv used where c: "kconv D (va k) ?c0 ?c1 ?c2 = Some (emit, adv, used)"
        "uconv D (va k) ?c0 ?c1 ?c2 = (map ucast emit, adv, used)"
        using kconv_uconv [OF False] by blast
      have "length fmt - (i + 2 + adv) < length fmt - i" using lt by simp
      note ih = less.hyps [OF this, of "k + used"]
      have l: "kprintf_loop D fmt va i k = emit @ kprintf_loop D fmt va (i + 2 + adv) (k + used)"
        using pc False c(1) by (subst kprintf_loop.simps) (simp add: Let_def)
      have r: "vprintf_loop D fmt va True (i + 1) k = map ucast emit @ vprintf_loop D fmt va False (i + 2 + adv) (k + used)"
        using False c(2) by (cases "?c1 = 0"; subst vprintf_loop.simps; simp add: Let_def numeral_3_eq_3)
      show ?thesis unfolding v l r using ih by simp
    qed
  qed
qed


section \<open>What numbers look like\<close>

definition digits_value :: "nat \<Rightarrow> nat list \<Rightarrow> nat" where
  "digits_value base ds = foldr (\<lambda>d v. d + base * v) ds 0"

lemma digit_loop_value:
  assumes b: "1 < base"
  shows "\<exists>ds. digit_loop D base x = map (\<lambda>d. D ! d) ds \<and> ds \<noteq> [] \<and> (\<forall>d \<in> set ds. d < unat base)
    \<and> digits_value (unat base) ds = unat x \<and> (last ds = 0 \<longrightarrow> ds = [0])"
proof (induction "unat x" arbitrary: x rule: less_induct)
  case less
  have b': "1 < unat base" "\<not> base \<le> 1" using b by (simp_all add: word_less_nat_alt not_le)
  let ?d = "unat (x mod base)"
  have d: "?d < unat base" "?d = unat x mod unat base" using b' by (simp_all add: unat_mod)
  show ?case
  proof (cases "x div base = 0")
    case True
    then have z: "unat x div unat base = 0" by (metis unat_div unsigned_0)
    then have "unat x < unat base" using b' by (simp add: div_eq_0_iff)
    then show ?thesis using True d by (intro exI [of _ "[?d]"]) (simp add: digit_loop.simps [of D base x] digits_value_def)
  next
    case False
    then have nz: "unat x div unat base \<noteq> 0" by (metis unat_div unat_eq_0)
    then have "0 < unat x" by (cases "unat x") auto
    then have lt: "unat (x div base) < unat x" using div_less_dividend [OF b'(1)] by (simp only: unat_div)
    obtain ds where ds: "digit_loop D base (x div base) = map (\<lambda>d. D ! d) ds" "ds \<noteq> []"
      "\<forall>d \<in> set ds. d < unat base" "digits_value (unat base) ds = unat (x div base)" "last ds = 0 \<longrightarrow> ds = [0]"
      using less.hyps [OF lt] by (elim exE conjE) (rule that)
    have "ds \<noteq> [0]" using ds(4) nz by (auto simp: digits_value_def unat_div)
    moreover have "?d + unat base * (unat x div unat base) = unat x" using d(2) by (simp add: mod_mult_div_eq)
    ultimately show ?thesis using False b' d ds
      by (intro exI [of _ "?d # ds"]) (auto simp: digit_loop.simps [of D base x] digits_value_def unat_div)
  qed
qed

lemma digits_value_ge:
  assumes "ds \<noteq> []" and "last ds \<noteq> 0"
  shows "base ^ (length ds - 1) \<le> digits_value base ds"
  using assms
proof (induction ds)
  case Nil
  then show ?case by simp
next
  case (Cons d ds)
  show ?case
  proof (cases "ds = []")
    case True
    then show ?thesis using Cons.prems by (simp add: digits_value_def)
  next
    case False
    then have "base ^ (length ds - 1) \<le> digits_value base ds" using Cons.IH Cons.prems by simp
    then have "base * base ^ (length ds - 1) \<le> base * digits_value base ds" by (rule mult_le_mono2)
    moreover have "base * base ^ (length ds - 1) = base ^ length ds"
      using False by (cases ds) simp_all
    ultimately have "base ^ length ds \<le> d + base * digits_value base ds" by linarith
    then show ?thesis by (simp add: digits_value_def)
  qed
qed

lemma digits_length:
  assumes "ds \<noteq> []" and "last ds = 0 \<longrightarrow> ds = [0]" and "digits_value base ds < base ^ k" and "0 < k" and "1 < base"
  shows "length ds \<le> k"
proof (cases "last ds = 0")
  case True
  then show ?thesis using assms(2,4) by simp
next
  case False
  then have "base ^ (length ds - 1) < base ^ k" using digits_value_ge [OF assms(1)] assms(3) le_less_trans by blast
  then show ?thesis using assms(1,5) by (simp add: power_strict_increasing_iff)
qed

lemma magnitude64:
  "0 \<le> sint x \<Longrightarrow> int (unat x) = \<bar>sint x\<bar>" "sint x < 0 \<Longrightarrow> int (unat (- x)) = \<bar>sint x\<bar>" for x :: uint64
proof -
  have u: "uint x = sint x mod 2 ^ 64" by (simp add: uint_sint take_bit_eq_mod)
  have r: "- (2 ^ 63) \<le> sint x" "sint x < 2 ^ 63" using sint_ge [of x] sint_lt [of x] by simp_all
  show "int (unat x) = \<bar>sint x\<bar>" if "0 \<le> sint x" using that u r by simp
  have "int (unat (- x)) = (- sint x) mod 2 ^ 64" by (simp add: uint_word_ariths(4) u mod_minus_eq)
  then show "int (unat (- x)) = \<bar>sint x\<bar>" if "sint x < 0" using that r by simp
qed

text \<open>
  C21: \<^verbatim>\<open>printint\<close> writes the number.  In bases 10 and 16 what it emits is the minus sign of
  a negative number in a signed conversion and then the digits of its magnitude, most significant first
  and without leading zeros, also for the most negative number, whose magnitude does
  not fit a \<^verbatim>\<open>long long\<close>; and its buffer of 20 characters is never overrun.
\<close>

theorem printint_correct:
  assumes "base \<in> {10, 16}" and "length D = 16"
  shows "\<exists>ds. kprintint D xx base sg = map ucast ((if sg \<and> sint xx < 0 then [asc CHR ''-''] else []) @ map (\<lambda>d. D ! d) (rev ds))
    \<and> (\<forall>d \<in> set ds. d < unat base) \<and> (last ds = 0 \<longrightarrow> ds = [0])
    \<and> int (digits_value (unat base) ds) = (if sg then \<bar>sint xx\<bar> else uint xx)
    \<and> length (kprintint D xx base sg) \<le> 20"
proof -
  let ?neg = "sg \<and> sint xx < 0"
  define x where "x = (if ?neg then - xx else xx)"
  have b: "1 < base" using assms(1) by auto
  obtain ds where ds: "digit_loop D base x = map (\<lambda>d. D ! d) ds" "ds \<noteq> []" "\<forall>d \<in> set ds. d < unat base"
    "digits_value (unat base) ds = unat x" "last ds = 0 \<longrightarrow> ds = [0]"
    using digit_loop_value [OF b, of D x] by (elim exE conjE) (rule that)
  have out: "kprintint D xx base sg = map ucast ((if ?neg then [asc CHR ''-''] else []) @ map (\<lambda>d. D ! d) (rev ds))"
    using ds(1) by (cases ?neg) (auto simp: kprintint_def Let_def word_sless_alt x_def rev_map)
  have mag: "int (unat x) = (if sg then \<bar>sint xx\<bar> else uint xx)"
    using magnitude64 [of xx] by (simp add: x_def)
  have x64: "unat x < 2 ^ 64" using unsigned_less [of x] by simp
  have "unat x < 10 ^ 20" using x64 by simp
  moreover have "unat x < 10 ^ 19" if "?neg"
  proof -
    have "int (unat x) \<le> 2 ^ 63" using that sint_ge [of xx] unfolding mag by simp
    then have "unat x \<le> nat (2 ^ 63)" by linarith
    then show ?thesis by simp
  qed
  moreover have "unat x < 16 ^ 16" using x64 by simp
  ultimately have len: "length ds \<le> (if ?neg then 19 else 20)"
    using assms(1) ds(4) digits_length [OF ds(2,5), of "unat base" 19] digits_length [OF ds(2,5), of "unat base" 20]
      digits_length [OF ds(2,5), of "unat base" 16] by (auto split: if_splits)
  then have "length (kprintint D xx base sg) \<le> 20" unfolding out by auto
  then show ?thesis using out ds mag by auto
qed

theorem printint_correct_witness:
  "\<exists>ds. int (digits_value 10 ds) = \<bar>sint (- (2 ^ 63) :: uint64)\<bar> \<and> length (kprintint kdigits (- (2 ^ 63)) 10 True) \<le> 20"
  using printint_correct [of 10 kdigits "- (2 ^ 63)" True] by (auto simp: kdigits_def)

end
