(* ===== verification/Console.thy ===== *)
theory Console
  imports Pipe Printf
begin

text \<open>
  The console: \<^verbatim>\<open>kernel/console.c\<close>, the UART driver below it, \<^verbatim>\<open>kernel/uart.c\<close>,
  and \<^verbatim>\<open>procdump\<close>, which the console calls.  Of the UART device the model has the bytes
  written to its transmit register, in order, the bytes waiting in its receive
  register, and, as an argument of the interrupt handler, whether it reports the
  transmitter idle.  A wait for the transmit register by polling is taken to end.
\<close>

section \<open>State\<close>

definition BACKSPACE :: cint where "BACKSPACE = 0x100"
definition INPUT_BUF_SIZE :: nat where "INPUT_BUF_SIZE = 128"

record consbuf =
  c_buf :: "uchar list"
  c_r :: uint
  c_w :: uint
  c_e :: uint

record kcons = kpipe +
  cons :: consbuf
  uart_tx :: "uchar list"
  uart_rx :: "uchar list"
  tx_busy :: cint

definition consset :: "(consbuf \<Rightarrow> consbuf) \<Rightarrow> 'a kcons_scheme \<Rightarrow> 'a kcons_scheme" where
  "consset f s = s\<lparr>cons := f (cons s)\<rparr>"

section \<open>The UART\<close>

definition uartputc_sync :: "cint \<Rightarrow> 'a kcons_scheme \<Rightarrow> 'a kcons_scheme" where
  "uartputc_sync c s = s\<lparr>uart_tx := uart_tx s @ [ucast c]\<rparr>"

definition uartgetc :: "'a kcons_scheme \<Rightarrow> cint \<times> 'a kcons_scheme" where
  "uartgetc s = (case uart_rx s of [] \<Rightarrow> (-1, s) | c # cs \<Rightarrow> (ucast c, s\<lparr>uart_rx := cs\<rparr>))"

text \<open>
  The loop of \<^verbatim>\<open>uartwrite\<close> from byte \<open>i\<close>; the result is the byte at which it sleeps.
\<close>

function uartwrite_loop :: "nat \<Rightarrow> uchar list \<Rightarrow> nat \<Rightarrow> 'a kcons_scheme \<Rightarrow> nat option \<times> 'a kcons_scheme" where
  "uartwrite_loop me buf i s =
     (if i < length buf then
        if tx_busy s \<noteq> 0 then (Some i, sleep me ChanUart s)
        else uartwrite_loop me buf (i + 1) (s\<lparr>uart_tx := uart_tx s @ [buf ! i], tx_busy := 1\<rparr>)
      else (None, s))"
  by pat_completeness auto
termination
  by (relation "measure (\<lambda>(me, buf, i, s). length buf - i)") auto

declare uartwrite_loop.simps [simp del]

definition uartwrite :: "nat \<Rightarrow> uchar list \<Rightarrow> 'a kcons_scheme \<Rightarrow> nat option \<times> 'a kcons_scheme" where
  "uartwrite me buf s = uartwrite_loop me buf 0 s"

section \<open>Output\<close>

definition consputc :: "cint \<Rightarrow> 'a kcons_scheme \<Rightarrow> 'a kcons_scheme" where
  "consputc c s =
     (if c = BACKSPACE then uartputc_sync 8 (uartputc_sync 32 (uartputc_sync 8 s))
      else uartputc_sync c s)"

lemma consputc_fields [simp]:
  "cons (consputc c s) = cons s" "uart_rx (consputc c s) = uart_rx s" "tx_busy (consputc c s) = tx_busy s"
  "procs (consputc c s) = procs s" "mem (consputc c s) = mem s" "pipes (consputc c s) = pipes s"
  by (simp_all add: consputc_def uartputc_sync_def)

lemma fold_consputc_fields [simp]:
  "cons (fold consputc cs s) = cons s" "uart_rx (fold consputc cs s) = uart_rx s"
  by (induction cs arbitrary: s) simp_all

lemma consset_fields [simp]:
  "cons (consset f s) = f (cons s)" "uart_rx (consset f s) = uart_rx s" "procs (consset f s) = procs s"
  "mem (consset f s) = mem s"
  by (simp_all add: consset_def)

definition str_slot :: "uchar list \<Rightarrow> slot" where
  "str_slot str = \<lparr>slot_word = 1, slot_str = str\<rparr>"

definition int_slot :: "cint \<Rightarrow> slot" where
  "int_slot v = \<lparr>slot_word = scast v, slot_str = []\<rparr>"

definition state_name :: "procstate \<Rightarrow> uchar list" where
  "state_name st = cstr (case st of UNUSED \<Rightarrow> ''unused'' | USED \<Rightarrow> ''used'' | SLEEPING \<Rightarrow> ''sleep ''
     | RUNNABLE \<Rightarrow> ''runble'' | RUNNING \<Rightarrow> ''run   '' | ZOMBIE \<Rightarrow> ''zombie'')"

definition procdump_line :: "proc \<Rightarrow> cint list" where
  "procdump_line p =
     kprintf (cstr ''%d %s %s'') (\<lambda>k. [int_slot (p_pid p), str_slot (state_name (p_state p)), str_slot (p_name p)] ! k)
     @ kprintf [10] (\<lambda>_. int_slot 0)"

definition procdump :: "'a kcons_scheme \<Rightarrow> 'a kcons_scheme" where
  "procdump s =
     fold consputc (concat (map procdump_line (filter (\<lambda>p. p_state p \<noteq> UNUSED) (procs s))))
       (fold consputc (kprintf [10] (\<lambda>_. int_slot 0)) s)"

text \<open>A read or write of the console returned, or sleeps at some point.\<close>

datatype cons_out =
    CReturned cint
  | CReading uint64 cint
  | CWriting cint "uchar list" nat

function consolewrite_loop ::
  "uint64 \<Rightarrow> nat \<Rightarrow> bool \<Rightarrow> uint64 \<Rightarrow> cint \<Rightarrow> cint \<Rightarrow> 'a kcons_scheme \<Rightarrow> (cons_out \<times> 'a kcons_scheme) kres" where
  "consolewrite_loop kend me user_src src n i s =
     (if i <s n then
        let nn = (if n - i <s 32 then n - i else 32) in
        case either_copyin kend me user_src (src + scast i) (unat nn) s of
          Ret (r, buf, s1) \<Rightarrow>
            if r = -1 then Ret (CReturned i, s1)
            else (case uartwrite me buf s1 of
                (None, s2) \<Rightarrow> consolewrite_loop kend me user_src src n (i + nn) s2
              | (Some j, s2) \<Rightarrow> Ret (CWriting i buf j, s2))
        | Panic m \<Rightarrow> Panic m
        | Block c \<Rightarrow> Block c
      else Ret (CReturned i, s))"
  by pat_completeness auto
termination
proof (relation "measure (\<lambda>(kend, me, us, src, n, i, s). nat (sint n - sint i))")
  fix kend me us src and n i :: cint and s :: "'a kcons_scheme" and nn
  assume lt: "i <s n" and nn: "nn = (if n - i <s 32 then n - i else 32)"
  then have d: "sint i < sint n" by (simp add: word_sless_alt)
  have "sint i < sint (i + nn)"
  proof (cases "n - i <s 32")
    case True
    then show ?thesis using nn d by simp
  next
    case False
    then have "32 \<le> sint n - sint i" using d sint_cint_range [of i] sint_cint_range [of n]
      by (simp add: word_sless_alt sint_word_diff signed_take_bit_int_eq_self_iff not_less)
         (cases "sint n - sint i < 2 ^ 31"; simp add: signed_take_bit_31_id signed_take_bit_int_eq_self)
    then have "sint (i + 32) = sint i + 32"
      using sint_cint_range [of i] sint_cint_range [of n] by (simp add: sint_word_add signed_take_bit_31_id)
    then show ?thesis using nn False by simp
  qed
  then show "((kend, me, us, src, n, i + nn, s2), kend, me, us, src, n, i, s)
      \<in> measure (\<lambda>(kend, me, us, src, n, i, s). nat (sint n - sint i))" for s2
    using d by simp
qed simp

declare consolewrite_loop.simps [simp del]

definition consolewrite ::
  "uint64 \<Rightarrow> nat \<Rightarrow> bool \<Rightarrow> uint64 \<Rightarrow> cint \<Rightarrow> 'a kcons_scheme \<Rightarrow> (cons_out \<times> 'a kcons_scheme) kres" where
  "consolewrite kend me user_src src n s = consolewrite_loop kend me user_src src n 0 s"

definition consolewrite_resume ::
  "uint64 \<Rightarrow> nat \<Rightarrow> bool \<Rightarrow> uint64 \<Rightarrow> cint \<Rightarrow> cint \<Rightarrow> uchar list \<Rightarrow> nat \<Rightarrow> 'a kcons_scheme
     \<Rightarrow> (cons_out \<times> 'a kcons_scheme) kres" where
  "consolewrite_resume kend me user_src src n i buf j s =
     (case uartwrite_loop me buf j (sleep_return me s) of
        (None, s) \<Rightarrow> consolewrite_loop kend me user_src src n (i + of_nat (length buf)) s
      | (Some k, s) \<Rightarrow> Ret (CWriting i buf k, s))"

section \<open>Input\<close>

definition CTRL_D :: cint where "CTRL_D = 4"
definition CTRL_H :: cint where "CTRL_H = 8"
definition CTRL_P :: cint where "CTRL_P = 0x10"
definition CTRL_U :: cint where "CTRL_U = 0x15"

function consoleread_loop ::
  "uint64 \<Rightarrow> nat \<Rightarrow> bool \<Rightarrow> uint \<Rightarrow> uint64 \<Rightarrow> cint \<Rightarrow> 'a kcons_scheme \<Rightarrow> (cons_out \<times> 'a kcons_scheme) kres" where
  "consoleread_loop kend me user_dst target dst n s =
     (if 0 <s n then
        if c_r (cons s) = c_w (cons s) then
          if killed me s \<noteq> 0 then Ret (CReturned (-1), s)
          else Ret (CReading dst n, sleep me ChanCons s)
        else
          let c = ring_read (c_buf (cons s)) (c_r (cons s));
              s = consset (\<lambda>b. b\<lparr>c_r := c_r b + 1\<rparr>) s in
          if ucast c = CTRL_D then
            Ret (CReturned (target - n), if n < target then consset (\<lambda>b. b\<lparr>c_r := c_r b - 1\<rparr>) s else s)
          else (case either_copyout kend me user_dst dst [c] s of
              Ret (r, s1) \<Rightarrow>
                if r = -1 then Ret (CReturned (target - n), s1)
                else if c = 10 then Ret (CReturned (target - (n - 1)), s1)
                else consoleread_loop kend me user_dst target (dst + 1) (n - 1) s1
            | Panic m \<Rightarrow> Panic m
            | Block c \<Rightarrow> Block c)
      else Ret (CReturned (target - n), s))"
  by pat_completeness auto
termination
proof (relation "measure (\<lambda>(kend, me, ud, target, dst, n, s). nat (sint n))")
  fix kend me ud target dst and n :: cint and s s' s1 :: "'a kcons_scheme"
  assume "0 <s n"
  then have "0 < sint n" by (simp add: word_sless_alt)
  then show "((kend, me, ud, target, dst + 1, n - 1, s1), kend, me, ud, target, dst, n, s)
      \<in> measure (\<lambda>(kend, me, ud, target, dst, n, s). nat (sint n))"
    by (simp add: sint_dec)
qed simp

declare consoleread_loop.simps [simp del]

definition consoleread ::
  "uint64 \<Rightarrow> nat \<Rightarrow> bool \<Rightarrow> uint64 \<Rightarrow> cint \<Rightarrow> 'a kcons_scheme \<Rightarrow> (cons_out \<times> 'a kcons_scheme) kres" where
  "consoleread kend me user_dst dst n s = consoleread_loop kend me user_dst n dst n s"

definition consoleread_resume ::
  "uint64 \<Rightarrow> nat \<Rightarrow> bool \<Rightarrow> uint \<Rightarrow> uint64 \<Rightarrow> cint \<Rightarrow> 'a kcons_scheme \<Rightarrow> (cons_out \<times> 'a kcons_scheme) kres" where
  "consoleread_resume kend me user_dst target dst n s =
     consoleread_loop kend me user_dst target dst n (sleep_return me s)"

lemma back_less: "e \<noteq> w \<Longrightarrow> unat (e - 1 - w) < unat (e - w)" for e w :: uint
proof -
  assume "e \<noteq> w"
  then have nz: "e - w \<noteq> 0" by simp
  have eq: "e - 1 - w = e - w - 1" by simp
  have "unat (e - 1 - w) = unat (e - w) - 1" unfolding eq by (rule unat_minus_one [OF nz])
  moreover have "0 < unat (e - w)" by (rule unat_gt_0 [THEN iffD2, OF nz])
  ultimately show ?thesis by linarith
qed

text \<open>The loop of the kill-line case.\<close>

function kill_line :: "'a kcons_scheme \<Rightarrow> 'a kcons_scheme" where
  "kill_line s =
     (if c_e (cons s) \<noteq> c_w (cons s) \<and> ring_read (c_buf (cons s)) (c_e (cons s) - 1) \<noteq> 10
      then kill_line (consputc BACKSPACE (consset (\<lambda>b. b\<lparr>c_e := c_e b - 1\<rparr>) s))
      else s)"
  by pat_completeness auto
termination
  by (relation "measure (\<lambda>s. unat (c_e (cons s) - c_w (cons s)))") (auto simp: back_less)

declare kill_line.simps [simp del]

lemma kill_line_rx [simp]: "uart_rx (kill_line s) = uart_rx s"
  by (induction s rule: kill_line.induct) (subst kill_line.simps, simp)

text \<open>
  The process an interrupt finds on its CPU is running, not asleep, so that
  \<^verbatim>\<open>wakeup\<close> need not spare it.
\<close>

definition consoleintr :: "cint \<Rightarrow> 'a kcons_scheme \<Rightarrow> 'a kcons_scheme" where
  "consoleintr c s =
     (if c = CTRL_P then procdump s
      else if c = CTRL_U then kill_line s
      else if c = CTRL_H \<or> c = 0x7f then
        if c_e (cons s) \<noteq> c_w (cons s)
        then consputc BACKSPACE (consset (\<lambda>b. b\<lparr>c_e := c_e b - 1\<rparr>) s)
        else s
      else if c \<noteq> 0 \<and> unat (c_e (cons s) - c_r (cons s)) < INPUT_BUF_SIZE then
        let c = (if c = 13 then 10 else c);
            s = consputc c s;
            s = consset (\<lambda>b. b\<lparr>c_buf := ring_write (c_buf b) (c_e b) (ucast c), c_e := c_e b + 1\<rparr>) s
        in if c = 10 \<or> c = CTRL_D \<or> unat (c_e (cons s) - c_r (cons s)) = INPUT_BUF_SIZE
           then wakeup None ChanCons (consset (\<lambda>b. b\<lparr>c_w := c_e b\<rparr>) s)
           else s
      else s)"

lemma consoleintr_rx [simp]: "uart_rx (consoleintr c s) = uart_rx s"
  by (simp add: consoleintr_def procdump_def Let_def wakeup_def)

text \<open>The loop of \<^verbatim>\<open>uartintr\<close> over the received characters.\<close>

function uart_drain :: "'a kcons_scheme \<Rightarrow> 'a kcons_scheme" where
  "uart_drain s = (let (c, s') = uartgetc s in if c = -1 then s else uart_drain (consoleintr c s'))"
  by pat_completeness auto
termination
  by (relation "measure (\<lambda>s. length (uart_rx s))") (auto simp: uartgetc_def split: list.splits)

declare uart_drain.simps [simp del]

definition uartintr :: "bool \<Rightarrow> 'a kcons_scheme \<Rightarrow> 'a kcons_scheme" where
  "uartintr tx_idle s =
     uart_drain (if tx_idle then wakeup None ChanUart (s\<lparr>tx_busy := 0\<rparr>) else s)"

section \<open>The line discipline\<close>

text \<open>
  What the input side of the console promises, in terms of two lists: the characters
  that have been committed and are waiting to be read, and the line being edited.
\<close>

definition line_input :: "uchar \<Rightarrow> uchar list \<times> uchar list \<Rightarrow> uchar list \<times> uchar list" where
  "line_input c = (\<lambda>(q, l).
     if c = 0x10 \<or> c = 0 then (q, l)
     else if c = 0x15 then (q, [])
     else if c = 8 \<or> c = 0x7f then (q, butlast l)
     else if length q + length l < 128 then
       let c = (if c = 13 then 10 else c) in
       if c = 10 \<or> c = 4 \<or> length q + length l + 1 = 128 then (q @ l @ [c], []) else (q, l @ [c])
     else (q, l))"

definition cons_abs :: "'a kcons_scheme \<Rightarrow> uchar list \<times> uchar list" where
  "cons_abs s = (let b = cons s in (ring_items (c_buf b) (c_r b) (c_w b), ring_items (c_buf b) (c_w b) (c_e b)))"

definition cons_ok :: "'a kcons_scheme \<Rightarrow> bool" where
  "cons_ok s \<longleftrightarrow> (let b = cons s in length (c_buf b) = 128
     \<and> unat (c_w b - c_r b) + unat (c_e b - c_w b) \<le> 128
     \<and> 10 \<notin> set (ring_items (c_buf b) (c_w b) (c_e b)))"

lemmas cons_defs = cons_abs_def cons_ok_def Let_def

lemma cons_abs_cong: "cons s = cons s' \<Longrightarrow> cons_abs s = cons_abs s'"
  and cons_ok_cong: "cons s = cons s' \<Longrightarrow> cons_ok s = cons_ok s'"
  by (simp_all add: cons_defs)

text \<open>Erasing the last character of the line.\<close>

lemma erase_char:
  assumes ok: "cons_ok s" and ne: "c_e (cons s) \<noteq> c_w (cons s)"
    and t: "cons t = (cons s)\<lparr>c_e := c_e (cons s) - 1\<rparr>"
  shows "cons_ok t \<and> cons_abs t = (fst (cons_abs s), butlast (snd (cons_abs s)))
    \<and> ring_read (c_buf (cons s)) (c_e (cons s) - 1) \<noteq> 10"
proof -
  let ?b = "cons s"
  have it: "ring_items (c_buf ?b) (c_w ?b) (c_e ?b)
      = ring_items (c_buf ?b) (c_w ?b) (c_e ?b - 1) @ [ring_read (c_buf ?b) (c_e ?b - 1)]"
    by (rule ring_unput) (use ne in auto)
  have "10 \<notin> set (ring_items (c_buf ?b) (c_w ?b) (c_e ?b))" using ok by (simp add: cons_defs)
  then have nl: "10 \<notin> set (ring_items (c_buf ?b) (c_w ?b) (c_e ?b - 1))" "ring_read (c_buf ?b) (c_e ?b - 1) \<noteq> 10"
    unfolding it by auto
  moreover have "butlast (snd (cons_abs s)) = ring_items (c_buf ?b) (c_w ?b) (c_e ?b - 1)"
    by (simp add: cons_defs it)
  ultimately show ?thesis using ok back_less [OF ne] t by (simp add: cons_defs)
qed

lemma kill_line_ok: "cons_ok s \<Longrightarrow> cons_ok (kill_line s) \<and> cons_abs (kill_line s) = (fst (cons_abs s), [])"
proof (induction s rule: kill_line.induct)
  case (1 s)
  let ?t = "consputc BACKSPACE (consset (\<lambda>b. b\<lparr>c_e := c_e b - 1\<rparr>) s)"
  show ?case
  proof (cases "c_e (cons s) = c_w (cons s)")
    case True
    then have "snd (cons_abs s) = []" by (simp add: cons_defs)
    then show ?thesis using True 1(2) by (subst (1 2) kill_line.simps) (simp add: prod_eq_iff)
  next
    case False
    have e: "cons_ok ?t" "cons_abs ?t = (fst (cons_abs s), butlast (snd (cons_abs s)))"
      "ring_read (c_buf (cons s)) (c_e (cons s) - 1) \<noteq> 10"
      using erase_char [OF 1(2) False, of ?t] by simp_all
    have "kill_line s = kill_line ?t" using False e(3) by (subst kill_line.simps) simp
    then show ?thesis using 1(1) False e by simp
  qed
qed

text \<open>Storing a character at the end of the line, before it may be committed.\<close>

lemma store_char:
  assumes ok: "cons_ok s" and room: "unat (c_w (cons s) - c_r (cons s)) + unat (c_e (cons s) - c_w (cons s)) < 128"
    and t: "cons t = (cons s)\<lparr>c_buf := ring_write (c_buf (cons s)) (c_e (cons s)) x, c_e := c_e (cons s) + 1\<rparr>"
  shows "cons_abs t = (fst (cons_abs s), snd (cons_abs s) @ [x])" "length (c_buf (cons t)) = 128"
    "unat (c_e (cons t) - c_w (cons t)) = Suc (unat (c_e (cons s) - c_w (cons s)))"
    "c_w (cons t) = c_w (cons s)" "c_r (cons t) = c_r (cons s)"
proof -
  let ?b = "cons s"
  have len: "length (c_buf ?b) = 128" using ok by (simp add: cons_defs)
  have rb: "ring_buf (c_buf ?b)" using len by (simp add: ring_buf_def dvd_def)
  have lt: "unat (c_e ?b - c_w ?b) < length (c_buf ?b)" using room len by simp
  have put: "ring_items (c_buf (cons t)) (c_w ?b) (c_e ?b + 1) = ring_items (c_buf ?b) (c_w ?b) (c_e ?b) @ [x]"
    using ring_put [OF rb lt] by (simp add: t)
  have sp: "c_e ?b - c_r ?b = (c_w ?b - c_r ?b) + (c_e ?b - c_w ?b)" by simp
  have er: "unat (c_e ?b - c_r ?b) = unat (c_w ?b - c_r ?b) + unat (c_e ?b - c_w ?b)"
    unfolding sp by (rule unat_add_lt) (use room in simp)
  have old: "ring_items (c_buf (cons t)) (c_r ?b) (c_w ?b) = ring_items (c_buf ?b) (c_r ?b) (c_w ?b)"
  proof -
    have "unat (c_e ?b - c_r ?b) < length (c_buf ?b)" using er room len by simp
    then have "ring_read (ring_write (c_buf ?b) (c_e ?b) x) (c_r ?b + of_nat k) = ring_read (c_buf ?b) (c_r ?b + of_nat k)"
      if "k < unat (c_w ?b - c_r ?b)" for k using ring_read_write [OF rb] that er by simp
    then show ?thesis by (simp add: ring_items_def t)
  qed
  show "cons_abs t = (fst (cons_abs s), snd (cons_abs s) @ [x])"
    using put old by (simp add: cons_defs t)
  show "unat (c_e (cons t) - c_w (cons t)) = Suc (unat (c_e (cons s) - c_w (cons s)))"
    using ring_inc [of "c_e ?b" "c_w ?b"] lt len by (simp add: t)
  show "length (c_buf (cons t)) = 128" "c_w (cons t) = c_w (cons s)" "c_r (cons t) = c_r (cons s)"
    using len by (simp_all add: t)
qed

lemma commit_line:
  assumes "cons_abs t = (q, l)" and "length (c_buf (cons t)) = 128" and "length q + length l \<le> 128"
    and u: "cons u = (cons t)\<lparr>c_w := c_e (cons t)\<rparr>"
  shows "cons_ok u \<and> cons_abs u = (q @ l, [])"
proof -
  let ?b = "cons t"
  have q: "q = ring_items (c_buf ?b) (c_r ?b) (c_w ?b)" and l: "l = ring_items (c_buf ?b) (c_w ?b) (c_e ?b)"
    using assms(1) by (simp_all add: cons_defs)
  have s: "unat (c_w ?b - c_r ?b) + unat (c_e ?b - c_w ?b) \<le> 128" using assms(3) by (simp add: q l)
  have "ring_items (c_buf ?b) (c_r ?b) (c_e ?b) = q @ l" unfolding q l by (rule ring_split) (use s in simp)
  moreover have "unat (c_e ?b - c_r ?b) = length (ring_items (c_buf ?b) (c_r ?b) (c_e ?b))" by simp
  ultimately show ?thesis using assms(2,3) u by (simp add: cons_defs)
qed

lemma ucast_char_inj: "(ucast (c::uchar) :: cint) = ucast d \<longleftrightarrow> c = d"
  by (metis ucast_down_up)

lemma ucast_key [simp]:
  "(ucast (c::uchar) :: cint) = 0 \<longleftrightarrow> c = 0" "(ucast c :: cint) = 4 \<longleftrightarrow> c = 4" "(ucast c :: cint) = 8 \<longleftrightarrow> c = 8"
  "(ucast c :: cint) = 10 \<longleftrightarrow> c = 10" "(ucast c :: cint) = 13 \<longleftrightarrow> c = 13" "(ucast c :: cint) = 16 \<longleftrightarrow> c = 16"
  "(ucast c :: cint) = 21 \<longleftrightarrow> c = 21" "(ucast c :: cint) = 127 \<longleftrightarrow> c = 127"
  using ucast_char_inj [of c 0] ucast_char_inj [of c 4] ucast_char_inj [of c 8] ucast_char_inj [of c 10]
    ucast_char_inj [of c 13] ucast_char_inj [of c 16] ucast_char_inj [of c 21] ucast_char_inj [of c 127] by simp_all

text \<open>
  C16: the console's line discipline.  From the raw keystrokes \<^verbatim>\<open>consoleintr\<close> builds what the
  abstract editor \<open>line_input\<close> builds: backspace and delete remove the last character of the line
  being edited and nothing that was committed, control-U removes the whole line, carriage return
  counts as newline, and a newline, a control-D or a full buffer commits the line.  When the buffer
  is full, further characters are dropped.  All this holds for any position of the wrapping indices.
\<close>

theorem console_line_discipline:
  assumes ok: "cons_ok s"
  shows "cons_ok (consoleintr (ucast c) s) \<and> cons_abs (consoleintr (ucast c) s) = line_input c (cons_abs s)"
proof -
  obtain q l where ql: "cons_abs s = (q, l)" by (cases "cons_abs s")
  let ?b = "cons s"
  have room: "unat (c_w ?b - c_r ?b) + unat (c_e ?b - c_w ?b) = length q + length l"
    using ql by (auto simp: cons_defs)
  have sp: "c_e ?b - c_r ?b = (c_w ?b - c_r ?b) + (c_e ?b - c_w ?b)" by simp
  have "unat (c_w ?b - c_r ?b) + unat (c_e ?b - c_w ?b) \<le> 128" using ok by (simp add: cons_defs)
  then have er: "unat (c_e ?b - c_r ?b) = length q + length l"
    unfolding sp by (subst unat_add_lt) (use room in simp_all)
  consider "c = 0x10 \<or> c = 0" | "c = 0x15" | "c = 8 \<or> c = 0x7f"
    | "c \<notin> {0x10, 0, 0x15, 8, 0x7f}" "\<not> length q + length l < 128"
    | "c \<notin> {0x10, 0, 0x15, 8, 0x7f}" "length q + length l < 128" by blast
  then show ?thesis
  proof cases
    case 1
    have "cons (procdump s) = cons s" by (simp add: procdump_def)
    then have same: "cons (consoleintr (ucast c) s) = cons s" using 1
      by (auto simp: consoleintr_def CTRL_P_def CTRL_U_def CTRL_H_def)
    have "line_input c (cons_abs s) = cons_abs s" using 1 ql by (auto simp: line_input_def)
    then show ?thesis using ok cons_ok_cong [OF same] cons_abs_cong [OF same] by simp
  next
    case 2
    then show ?thesis using kill_line_ok [OF ok] ql
      by (simp add: consoleintr_def CTRL_P_def CTRL_U_def line_input_def)
  next
    case 3
    show ?thesis
    proof (cases "c_e ?b = c_w ?b")
      case True
      then have "l = []" using ql by (simp add: cons_defs)
      then show ?thesis using 3 True ok ql
        by (auto simp: consoleintr_def CTRL_P_def CTRL_U_def CTRL_H_def line_input_def)
    next
      case False
      let ?t = "consputc BACKSPACE (consset (\<lambda>b. b\<lparr>c_e := c_e b - 1\<rparr>) s)"
      have "consoleintr (ucast c) s = ?t" using 3 False
        by (auto simp: consoleintr_def CTRL_P_def CTRL_U_def CTRL_H_def)
      then show ?thesis using erase_char [OF ok False, of ?t] 3 ql by (auto simp: line_input_def)
    qed
  next
    case 4
    then have "consoleintr (ucast c) s = s"
      using er by (simp add: consoleintr_def CTRL_P_def CTRL_U_def CTRL_H_def INPUT_BUF_SIZE_def)
    then show ?thesis using 4 ok ql by (simp add: line_input_def)
  next
    case 5
    define k :: uchar where "k = (if c = 13 then 10 else c)"
    define t where "t = consset (\<lambda>b. b\<lparr>c_buf := ring_write (c_buf b) (c_e b) k, c_e := c_e b + 1\<rparr>) (consputc (ucast k) s)"
    have "cons t = ?b\<lparr>c_buf := ring_write (c_buf ?b) (c_e ?b) k, c_e := c_e ?b + 1\<rparr>" by (simp add: t_def)
    note st = store_char [OF ok _ this]
    have abs: "cons_abs t = (q, l @ [k])" using st(1) room 5(2) ql by simp
    have rm: "unat (c_w ?b - c_r ?b) + unat (c_e ?b - c_w ?b) < 128" using room 5(2) by simp
    have er': "unat (c_e (cons t) - c_r (cons t)) = length q + length l + 1"
      using ring_inc [of "c_e ?b" "c_r ?b"] er 5(2) by (simp add: t_def)
    have go: "consoleintr (ucast c) s =
        (if k = 10 \<or> k = 4 \<or> length q + length l + 1 = 128
         then wakeup None ChanCons (consset (\<lambda>b. b\<lparr>c_w := c_e b\<rparr>) t) else t)"
    proof -
      have kk: "(if (ucast c :: cint) = 13 then 10 else ucast c) = (ucast k :: cint)" by (simp add: k_def)
      have dn: "(ucast (ucast k :: cint) :: uchar) = k" by (rule ucast_down_up)
      show ?thesis using 5 er er' unfolding consoleintr_def Let_def kk dn t_def [symmetric]
        by (simp add: CTRL_P_def CTRL_U_def CTRL_H_def CTRL_D_def INPUT_BUF_SIZE_def)
    qed
    let ?u = "wakeup None ChanCons (consset (\<lambda>b. b\<lparr>c_w := c_e b\<rparr>) t)"
    have spec: "line_input c (cons_abs s) =
        (if k = 10 \<or> k = 4 \<or> length q + length l + 1 = 128 then (q @ l @ [k], []) else (q, l @ [k]))"
      using 5 ql by (simp add: line_input_def k_def Let_def)
    show ?thesis
    proof (cases "k = 10 \<or> k = 4 \<or> length q + length l + 1 = 128")
      case True
      have u: "cons ?u = (cons t)\<lparr>c_w := c_e (cons t)\<rparr>" by (simp add: wakeup_def)
      show ?thesis using commit_line [OF abs st(2) [OF rm] _ u] 5(2) go spec True by simp
    next
      case False
      have "cons_ok t" using abs st(2-5) [OF rm] ok ql room 5(2) False
        by (simp add: cons_defs)
      then show ?thesis using go spec False abs by simp
    qed
  qed
qed

section \<open>Reading a line\<close>

text \<open>
  What a read of up to \<open>n\<close> bytes takes from the committed characters: the bytes
  delivered, the characters left, and whether it has to wait for more.  \<open>fresh\<close> says that
  nothing has been delivered by this call before.
\<close>

fun line_read :: "nat \<Rightarrow> bool \<Rightarrow> uchar list \<Rightarrow> uchar list \<times> uchar list \<times> bool" where
  "line_read 0 fresh q = ([], q, False)"
| "line_read (Suc n) fresh [] = ([], [], True)"
| "line_read (Suc n) fresh (c # q) =
     (if c = 4 then ([], if fresh then q else c # q, False)
      else if c = 10 then ([c], q, False)
      else let (d, r, b) = line_read n False q in (c # d, r, b))"

lemma cons_frame [simp]: "cons (sleep me c s) = cons s" "cons (sleep_return me s) = cons s"
  by (simp_all add: sleep_def sleep_return_def pset_def)

lemma only_kmem_cons: "only_kmem s s' \<Longrightarrow> cons s' = cons s"
  by (auto simp: only_kmem_def)

lemma consset_procs [simp]: "killed me (consset f s) = killed me s"
  by (simp add: killed_def)

lemma take_char:
  assumes "c_r (cons s) \<noteq> c_w (cons s)"
  shows "cons_abs s = (ring_read (c_buf (cons s)) (c_r (cons s)) #
      fst (cons_abs (consset (\<lambda>b. b\<lparr>c_r := c_r b + 1\<rparr>) s)), snd (cons_abs (consset (\<lambda>b. b\<lparr>c_r := c_r b + 1\<rparr>) s)))"
  using ring_get [OF assms] by (simp add: cons_defs)

lemma consoleread_loop_ok:
  assumes "T < 2 ^ 31" and "N \<le> T" and "space_wf (mem s) (p_pagetable (pget me s))"
    and "\<forall>k < N. writable (mem s) (p_pagetable (pget me s)) (dst + of_nat k)"
    and "cons_abs s = (q, l)" and "line_read N (N = T) q = (d, r, wait)" and "me < length (procs s)"
  shows "\<exists>s'. consoleread_loop kend me True (of_nat T) dst (of_nat N) s =
      Ret (if wait then if killed me s \<noteq> 0 then CReturned (-1) else CReading (dst + of_nat (length d)) (of_nat (N - length d))
           else CReturned (of_nat (T - N + length d)), s')
    \<and> cons_abs s' = (r, l) \<and> length d \<le> N
    \<and> (\<forall>k < length d. ubyte s' me (dst + of_nat k) = d ! k)
    \<and> p_pagetable (pget me s') = p_pagetable (pget me s)
    \<and> (\<forall>y. (\<forall>k < N. y \<noteq> dst + of_nat k) \<longrightarrow> ubyte s' me y = ubyte s me y)"
  using assms(2-7)
proof (induction N arbitrary: dst s q d)
  case 0
  then show ?case by (simp add: consoleread_loop.simps)
next
  case (Suc N)
  have N: "(0::cint) <s of_nat (Suc N)" using of_nat_sless [of 0 "Suc N"] Suc.prems(1) assms(1) by simp
  let ?root = "p_pagetable (pget me s)"
  note step = consoleread_loop.simps [of kend me True "of_nat T" dst "of_nat (Suc N)" s]
  show ?case
  proof (cases "c_r (cons s) = c_w (cons s)")
    case True
    then have "q = []" using Suc.prems(4) by (auto simp: cons_defs)
    then have d: "d = []" "r = []" "wait" using Suc.prems(5) by simp_all
    have "p_pagetable (pget me (sleep me ChanCons s)) = ?root" using Suc.prems(6) by (simp add: sleep_def)
    then show ?thesis using step N True d Suc.prems(4) \<open>q = []\<close>
      cons_abs_cong [of "sleep me ChanCons s" s] by (auto simp: ubyte_def)
  next
    case False
    define c where "c = ring_read (c_buf (cons s)) (c_r (cons s))"
    define t where "t = consset (\<lambda>b. b\<lparr>c_r := c_r b + 1\<rparr>) s"
    have t: "mem t = mem s" "procs t = procs s" "killed me t = killed me s" by (simp_all add: t_def)
    obtain q' where q': "q = c # q'" "cons_abs t = (q', l)"
      using take_char [OF False] Suc.prems(4) by (auto simp: c_def t_def prod_eq_iff)
    have sub: "(of_nat T :: uint) - of_nat (Suc N) = of_nat (T - Suc N)" "(of_nat (Suc N) :: cint) - 1 = of_nat N"
      using Suc.prems(1) by (simp_all add: of_nat_diff)
    consider "c = 4" | "c \<noteq> 4" by blast
    then show ?thesis
    proof cases
      case 1
      have lt: "(of_nat (Suc N) :: uint) < of_nat T \<longleftrightarrow> Suc N \<noteq> T"
        using Suc.prems(1) assms(1) of_nat_lt_pow [of "Suc N", where ?'a = 32] of_nat_lt_pow [of T, where ?'a = 32]
        by (simp add: word_less_nat_alt) linarith
      define s' where "s' = (if Suc N \<noteq> T then consset (\<lambda>b. b\<lparr>c_r := c_r b - 1\<rparr>) t else t)"
      have run: "consoleread_loop kend me True (of_nat T) dst (of_nat (Suc N)) s = Ret (CReturned (of_nat (T - Suc N)), s')"
        using step N False 1 lt sub(1) unfolding Let_def c_def [symmetric] t_def [symmetric] s'_def
        by (simp add: CTRL_D_def del: of_nat_Suc)
      have d: "d = []" "\<not> wait" "r = (if Suc N = T then q' else q)" using Suc.prems(5) q'(1) 1 by auto
      have "cons_abs s' = (r, l)"
        using d(3) q' Suc.prems(4) cons_abs_cong [of s' s] by (auto simp: s'_def t_def consset_def)
      moreover have "mem s' = mem s" "procs s' = procs s" by (simp_all add: s'_def t_def)
      ultimately show ?thesis using run d by (auto simp: ubyte_def)
    next
      case 2
      have wr: "writable (mem t) ?root dst" "space_wf (mem t) ?root"
        using Suc.prems(2) Suc.prems(3) [rule_format, of 0] by (simp_all add: t)
      obtain u where u: "copyout kend (p_sz (pget me t)) ?root ?root dst [c] t = Ret (0, u)" "only_kmem t u"
        "space_wf (mem u) ?root" "\<And>y. umem (mem u) ?root y = (if y = dst then Some c else umem (mem t) ?root y)"
        "\<And>y. writable (mem u) ?root y = writable (mem t) ?root y"
        by (rule copyout_byte [OF wr(2,1), where kend = kend and psz = "p_sz (pget me t)" and ppt = ?root and c = c]) blast
      have pu: "procs u = procs s" "cons u = cons t" using only_kmem_kproc(1) [OF u(2)] only_kmem_cons [OF u(2)] t by simp_all
      have abs: "cons_abs u = (q', l)" using cons_abs_cong [OF pu(2)] q'(2) by simp
      have ec: "either_copyout kend me True dst [c] t = Ret (0, u)"
        using u(1) t by (simp add: either_copyout_def Let_def)
      have ub: "ubyte u me y = (if y = dst then c else ubyte s me y)" for y by (simp add: ubyte_def pu u(4) t)
      show ?thesis
      proof (cases "c = 10")
        case True
        then have d: "d = [c]" "\<not> wait" "r = q'" using Suc.prems(5) q'(1) by auto
        have "consoleread_loop kend me True (of_nat T) dst (of_nat (Suc N)) s = Ret (CReturned (of_nat T - of_nat N), u)"
          using step N False 2 True ec sub(2) unfolding Let_def c_def [symmetric] t_def [symmetric]
          by (simp add: CTRL_D_def del: of_nat_Suc)
        moreover have "(of_nat T - of_nat N :: uint) = of_nat (T - Suc N + length d)" using Suc.prems(1) d(1)
          by (simp add: of_nat_diff flip: of_nat_Suc) (metis Suc_diff_Suc Suc_le_lessD of_nat_Suc of_nat_diff less_imp_le)
        ultimately show ?thesis using d abs ub pu(1) by (auto simp: Suc_le_eq)
      next
        case nl: False
        obtain d' where d': "line_read N (N = T) q' = (d', r, wait)" "d = c # d'"
          using Suc.prems(1,5) q'(1) 2 nl by (auto split: prod.splits)
        have nx: "consoleread_loop kend me True (of_nat T) dst (of_nat (Suc N)) s
            = consoleread_loop kend me True (of_nat T) (dst + 1) (of_nat N) u"
          using step N False 2 nl ec sub(2) unfolding Let_def c_def [symmetric] t_def [symmetric]
          by (simp add: CTRL_D_def del: of_nat_Suc)
        have pre: "N \<le> T" "space_wf (mem u) (p_pagetable (pget me u))" "me < length (procs u)"
          "\<forall>k < N. writable (mem u) (p_pagetable (pget me u)) (dst + 1 + of_nat k)"
          using Suc.prems(1,6) u(3) Suc.prems(3) [rule_format, of "Suc _"] by (simp_all add: pu(1) u(5) t algebra_simps)
        obtain s' where s': "consoleread_loop kend me True (of_nat T) (dst + 1) (of_nat N) u =
            Ret (if wait then if killed me u \<noteq> 0 then CReturned (-1) else CReading (dst + 1 + of_nat (length d')) (of_nat (N - length d'))
                 else CReturned (of_nat (T - N + length d')), s')"
          "cons_abs s' = (r, l)" "length d' \<le> N" "\<forall>k < length d'. ubyte s' me (dst + 1 + of_nat k) = d' ! k"
          "p_pagetable (pget me s') = p_pagetable (pget me u)"
          "\<forall>y. (\<forall>k < N. y \<noteq> dst + 1 + of_nat k) \<longrightarrow> ubyte s' me y = ubyte u me y"
          using Suc.IH [OF pre(1,2,4) abs d'(1) pre(3)] by blast
        have ku: "killed me u = killed me s" using pu(1) by (simp add: killed_def)
        have ar: "T - N + length d' = T - Suc N + length d" "Suc N - length d = N - length d'"
          "dst + 1 + of_nat (length d') = dst + of_nat (length d)" using Suc.prems(1) d'(2) by simp_all
        have run: "consoleread_loop kend me True (of_nat T) dst (of_nat (Suc N)) s =
            Ret (if wait then if killed me s \<noteq> 0 then CReturned (-1) else CReading (dst + of_nat (length d)) (of_nat (Suc N - length d))
                 else CReturned (of_nat (T - Suc N + length d)), s')"
          unfolding nx s'(1) ku ar ..
        have ne: "dst \<noteq> dst + 1 + of_nat k" if "k < N" for k
          using that Suc.prems(1) assms(1) of_nat_lt_pow [of "Suc k", where ?'a = 64]
          by (auto simp: add.assoc simp flip: of_nat_Suc)
        have sh: "dst + of_nat (Suc k) = dst + 1 + of_nat k" for k by simp
        have bytes: "\<forall>k < length d. ubyte s' me (dst + of_nat k) = d ! k"
        proof (intro allI impI)
          fix k
          assume k: "k < length d"
          show "ubyte s' me (dst + of_nat k) = d ! k"
          proof (cases k)
            case 0
            then show ?thesis using s'(6) ne ub d'(2) by simp
          next
            case (Suc k')
            then show ?thesis using s'(4) k d'(2) unfolding Suc sh by simp
          qed
        qed
        have rest: "ubyte s' me y = ubyte s me y" if y: "\<forall>k < Suc N. y \<noteq> dst + of_nat k" for y
        proof -
          have "y \<noteq> dst" using y [rule_format, of 0] by simp
          moreover have "\<forall>k < N. y \<noteq> dst + 1 + of_nat k" using y [rule_format, of "Suc _"] unfolding sh by simp
          ultimately show ?thesis using s'(6) ub by simp
        qed
        have "length d \<le> Suc N" using s'(3) d'(2) by simp
        moreover have "p_pagetable (pget me s') = ?root" using s'(5) pu(1) by simp
        ultimately show ?thesis using run s'(2) bytes rest by blast
      qed
    qed
  qed
qed

text \<open>
  C17: a read from the console delivers at most one line.  When the committed characters
  suffice, \<^verbatim>\<open>consoleread\<close> with a writable user buffer returns the number of bytes that
  \<open>line_read\<close> takes from them and puts exactly these in the buffer: it stops after a
  newline and before a control-D, which it consumes only when it is at the start, so that the caller
  sees an end of file as a count of 0.  Nothing else of the process's memory changes.
\<close>

theorem consoleread_line:
  assumes "N < 2 ^ 31" and "space_wf (mem s) (p_pagetable (pget me s))"
    and "\<forall>k < N. writable (mem s) (p_pagetable (pget me s)) (dst + of_nat k)" and "me < length (procs s)"
    and "cons_abs s = (q, l)" and "line_read N True q = (d, r, False)"
  shows "\<exists>s'. consoleread kend me True dst (of_nat N) s = Ret (CReturned (of_nat (length d)), s')
    \<and> cons_abs s' = (r, l) \<and> (\<forall>k < length d. ubyte s' me (dst + of_nat k) = d ! k)
    \<and> (\<forall>y. (\<forall>k < N. y \<noteq> dst + of_nat k) \<longrightarrow> ubyte s' me y = ubyte s me y)"
  using consoleread_loop_ok [OF assms(1) order.refl assms(2,3,5) _ assms(4), of d r False kend] assms(6)
  by (auto simp: consoleread_def)

definition cons_demo :: kcons where
  "cons_demo = kpipe.extend pipe_demo
     \<lparr>cons = \<lparr>c_buf = [104, 105, 10, 120] @ replicate 124 0, c_r = 0, c_w = 3, c_e = 4\<rparr>,
      uart_tx = [], uart_rx = [], tx_busy = 0\<rparr>"

lemma cons_demo_fields [simp]:
  "mem cons_demo = one_page_mem" "p_pagetable (pget 0 cons_demo) = 0x87000000" "0 < length (procs cons_demo)"
proof -
  have "procs init_table \<noteq> []" by (simp add: init_table_def)
  then show "mem cons_demo = one_page_mem" "p_pagetable (pget 0 cons_demo) = 0x87000000" "0 < length (procs cons_demo)"
    by (simp_all add: cons_demo_def kpipe.extend_def pipe_demo_def kshm.extend_def)
qed

lemma cons_demo_abs: "cons_abs cons_demo = ([104, 105, 10], [120])"
  by (simp add: cons_defs cons_demo_def kpipe.extend_def ring_items_def ring_read_def upt_rec)

theorem console_line_discipline_witness:
  "cons_ok cons_demo \<and> cons_abs (consoleintr (ucast (8::uchar)) cons_demo) = ([104, 105, 10], [])
   \<and> cons_abs (consoleintr (ucast (13::uchar)) cons_demo) = ([104, 105, 10, 120, 10], [])"
proof -
  have ok: "cons_ok cons_demo"
    using cons_demo_abs by (simp add: cons_defs cons_demo_def kpipe.extend_def)
  show ?thesis using ok console_line_discipline [OF ok, of 8] console_line_discipline [OF ok, of 13]
    by (simp add: cons_demo_abs line_input_def)
qed

theorem consoleread_line_witness:
  "\<exists>s'. consoleread KERNBASE 0 True 0 (of_nat 10) cons_demo = Ret (CReturned 3, s') \<and> cons_abs s' = ([], [120])"
proof -
  have l: "line_read 10 True [104, 105, 10] = ([104, 105, 10], [], False)"
    using line_read.simps(3) [of 9 True 104 "[105, 10]"] line_read.simps(3) [of 8 False 105 "[10]"]
      line_read.simps(3) [of 7 False 10 "[]"] by simp
  have wf: "space_wf (mem cons_demo) (p_pagetable (pget 0 cons_demo))" using one_page_space by simp
  have wr: "\<forall>k < 10. writable (mem cons_demo) (p_pagetable (pget 0 cons_demo)) (0 + of_nat k)"
    using one_page_writable by simp
  show ?thesis using consoleread_line [OF _ wf wr cons_demo_fields(3) cons_demo_abs l, of KERNBASE] by auto
qed

end
