(* ===== verification/Sleeplock.thy ===== *)
theory Sleeplock
  imports ProcInv
begin

text \<open>
  Sleep locks, \<^verbatim>\<open>kernel/sleeplock.c\<close>.  The spin lock inside a sleep lock makes each
  routine one step; \<^verbatim>\<open>acquiresleep\<close> ends a step when it has to sleep and tries again
  when it is woken.
\<close>

section \<open>Locks\<close>

record sleeplock =
  slk_locked :: uint
  slk_pid :: cint

definition initsleeplock :: "sleeplock \<Rightarrow> sleeplock" where
  "initsleeplock lk = lk\<lparr>slk_locked := 0, slk_pid := 0\<rparr>"

text \<open>Up to the return or the call of \<^verbatim>\<open>sleep\<close>, and from the return of \<^verbatim>\<open>sleep\<close> on.\<close>

definition acquiresleep ::
  "nat \<Rightarrow> chan \<Rightarrow> sleeplock \<Rightarrow> 'a kproc_scheme \<Rightarrow> unit segment \<times> sleeplock \<times> 'a kproc_scheme" where
  "acquiresleep me c lk s =
     (if slk_locked lk \<noteq> 0 then (Sleeps, lk, sleep me c s)
      else (Done (), lk\<lparr>slk_locked := 1, slk_pid := p_pid (pget me s)\<rparr>, s))"

definition acquiresleep_resume ::
  "nat \<Rightarrow> chan \<Rightarrow> sleeplock \<Rightarrow> 'a kproc_scheme \<Rightarrow> unit segment \<times> sleeplock \<times> 'a kproc_scheme" where
  "acquiresleep_resume me c lk s = acquiresleep me c lk (sleep_return me s)"

definition releasesleep :: "nat \<Rightarrow> chan \<Rightarrow> sleeplock \<Rightarrow> 'a kproc_scheme \<Rightarrow> sleeplock \<times> 'a kproc_scheme" where
  "releasesleep me c lk s = (lk\<lparr>slk_locked := 0, slk_pid := 0\<rparr>, wakeup (Some me) c s)"

definition holdingsleep :: "nat \<Rightarrow> sleeplock \<Rightarrow> 'a kproc_scheme \<Rightarrow> bool" where
  "holdingsleep me lk s \<longleftrightarrow> slk_locked lk \<noteq> 0 \<and> slk_pid lk = p_pid (pget me s)"

section \<open>Exclusion and wake-ups\<close>

text \<open>
  Processes use a lock with channel \<open>c\<close>; \<open>H\<close> lists those that hold it.  The other steps are
  the scheduler's and \<^verbatim>\<open>kill\<close>, which may wake a sleeper early.
\<close>

type_synonym slstate = "kproc \<times> sleeplock \<times> nat list"

inductive sleep_step :: "chan \<Rightarrow> slstate \<Rightarrow> slstate \<Rightarrow> bool" for c where
  acquired: "me < NPROC \<Longrightarrow> p_state (pget me s) = RUNNING \<Longrightarrow> acquiresleep me c lk s = (Done (), lk', s') \<Longrightarrow>
    sleep_step c (s, lk, H) (s', lk', me # H)"
| blocked: "me < NPROC \<Longrightarrow> p_state (pget me s) = RUNNING \<Longrightarrow> acquiresleep me c lk s = (Sleeps, lk', s') \<Longrightarrow>
    sleep_step c (s, lk, H) (s', lk', H)"
| resumed: "me < NPROC \<Longrightarrow> p_state (pget me s) = RUNNING \<Longrightarrow> p_chan (pget me s) = c \<Longrightarrow>
    acquiresleep_resume me c lk s = (Done (), lk', s') \<Longrightarrow> sleep_step c (s, lk, H) (s', lk', me # H)"
| reblocked: "me < NPROC \<Longrightarrow> p_state (pget me s) = RUNNING \<Longrightarrow> p_chan (pget me s) = c \<Longrightarrow>
    acquiresleep_resume me c lk s = (Sleeps, lk', s') \<Longrightarrow> sleep_step c (s, lk, H) (s', lk', H)"
| released: "me < NPROC \<Longrightarrow> p_state (pget me s) = RUNNING \<Longrightarrow> me \<in> set H \<Longrightarrow>
    releasesleep me c lk s = (lk', s') \<Longrightarrow> sleep_step c (s, lk, H) (s', lk', remove1 me H)"
| scheduled: "i < NPROC \<Longrightarrow> schedule i s = (True, s') \<Longrightarrow> sleep_step c (s, lk, H) (s', lk, H)"
| yielded: "me < NPROC \<Longrightarrow> p_state (pget me s) = RUNNING \<Longrightarrow> sleep_step c (s, lk, H) (yield me s, lk, H)"
| killed: "kkill pid s = (r, s') \<Longrightarrow> sleep_step c (s, lk, H) (s', lk, H)"

definition sleep_inv :: "chan \<Rightarrow> slstate \<Rightarrow> bool" where
  "sleep_inv c = (\<lambda>(s, lk, H). length (procs s) = NPROC \<and> (if slk_locked lk = 0 then H = [] else \<exists>h. H = [h])
     \<and> (\<forall>i < NPROC. p_state (pget i s) = SLEEPING \<longrightarrow> p_chan (pget i s) = c \<longrightarrow> slk_locked lk \<noteq> 0))"

lemma sleep_step_inv: "sleep_step c x y \<Longrightarrow> sleep_inv c x \<Longrightarrow> sleep_inv c y"
proof (induction rule: sleep_step.induct)
  case (acquired me s lk lk' s' H)
  then show ?case by (auto simp: sleep_inv_def acquiresleep_def split: if_splits)
next
  case (blocked me s lk lk' s' H)
  then show ?case by (auto simp: sleep_inv_def acquiresleep_def sleep_def split: if_splits)
next
  case (resumed me s lk lk' s' H)
  then show ?case
    by (auto simp: sleep_inv_def acquiresleep_resume_def acquiresleep_def sleep_return_def split: if_splits)
next
  case (reblocked me s lk lk' s' H)
  then show ?case
    by (auto simp: sleep_inv_def acquiresleep_resume_def acquiresleep_def sleep_return_def sleep_def split: if_splits)
next
  case (released me s lk lk' s' H)
  then show ?case
    by (auto simp: sleep_inv_def releasesleep_def wakeup_def wake_one_def split: if_splits)
next
  case (scheduled i s s' lk H)
  then show ?case by (auto simp: sleep_inv_def schedule_def nth_list_update_if split: if_splits)
next
  case (yielded me s lk H)
  then show ?case by (auto simp: sleep_inv_def yield_def nth_list_update_if split: if_splits)
next
  case (killed pid s r s' lk H)
  then show ?case by (auto simp: sleep_inv_def kkill_def nth_list_update_if split: if_splits option.splits)
qed

text \<open>
  C18: sleep locks exclude and lose no wake-up.  However processes interleave, at most one of
  them holds the lock, and while the lock is free no process sleeps on it: whoever waited has
  been made runnable by the release and will try again.
\<close>

theorem sleeplock_safe:
  assumes "length (procs s) = NPROC" and "\<forall>i < NPROC. p_state (pget i s) \<noteq> SLEEPING"
    and "(sleep_step c)\<^sup>*\<^sup>* (s, initsleeplock lk, []) (s', lk', H)"
  shows "length H \<le> 1 \<and> (slk_locked lk' = 0 \<longrightarrow> H = [] \<and>
     (\<forall>i < NPROC. p_state (pget i s') = SLEEPING \<longrightarrow> p_chan (pget i s') \<noteq> c))"
proof -
  have "sleep_inv c (s, initsleeplock lk, [])" using assms(1,2) by (simp add: sleep_inv_def initsleeplock_def)
  with assms(3) have "sleep_inv c (s', lk', H)"
    by (induction rule: rtranclp_induct) (auto dest: sleep_step_inv)
  then show ?thesis by (auto simp: sleep_inv_def split: if_splits)
qed

theorem sleeplock_safe_witness:
  "\<exists>s' lk' H. (sleep_step (ChanBufLock 3))\<^sup>*\<^sup>* (init_table, initsleeplock \<lparr>slk_locked = 5, slk_pid = 5\<rparr>, []) (s', lk', H)
     \<and> H = [0] \<and> slk_locked lk' = 1 \<and> length H \<le> 1"
proof -
  let ?lk = "\<lparr>slk_locked = 5, slk_pid = 5\<rparr>" and ?c = "ChanBufLock 3"
  define s1 where "s1 = snd (schedule 0 init_table)"
  have n: "0 < NPROC" "procs init_table \<noteq> []" "length (procs init_table) = NPROC"
    by (simp_all add: NPROC_def init_table_def)
  have r: "schedule 0 init_table = (True, s1)" "p_state (pget 0 s1) = RUNNING"
    using init_table_nth [of 0] n by (simp_all add: s1_def schedule_def)
  define lk' where "lk' = (initsleeplock ?lk)\<lparr>slk_locked := 1, slk_pid := p_pid (pget 0 s1)\<rparr>"
  have a: "acquiresleep 0 ?c (initsleeplock ?lk) s1 = (Done (), lk', s1)"
    by (simp add: acquiresleep_def initsleeplock_def lk'_def)
  have run: "(sleep_step ?c)\<^sup>*\<^sup>* (init_table, initsleeplock ?lk, []) (s1, lk', [0])"
    using sleep_step.scheduled [OF n(1) r(1)] sleep_step.acquired [OF n(1) r(2) a]
    by (meson rtranclp.rtrancl_into_rtrancl rtranclp.rtrancl_refl)
  have z: "\<forall>i < NPROC. p_state (pget i init_table) \<noteq> SLEEPING"
    by (simp add: init_table_nth unused_proc_def)
  have "slk_locked lk' = 1" by (simp add: lk'_def)
  then show ?thesis using sleeplock_safe [OF n(3) z run] run by blast
qed

end
