(* ===== verification/Bio.thy ===== *)
theory Bio
  imports Console Sleeplock
begin

text \<open>
  The buffer cache, \<^verbatim>\<open>kernel/bio.c\<close>, over the disk.  A \<^verbatim>\<open>struct buf *\<close> is an
  index into \<open>bufs\<close>; the doubly linked list through \<^verbatim>\<open>prev\<close> and \<^verbatim>\<open>next\<close> is the list
  \<open>lru\<close> of the indices from \<^verbatim>\<open>head.next\<close> to \<^verbatim>\<open>head.prev\<close>.  The disk gives each block;
  \<open>dwrites\<close> records the writes it has received, in order.  The operations of the file
  system run here without interleaving: one that would have to sleep gives \<open>Block\<close>.
  The second half proves that the cache refines a store of blocks with pin counts.
\<close>

section \<open>Buffers\<close>

definition BSIZE :: nat where "BSIZE = 1024"

record buf =
  b_valid :: cint
  b_dev :: uint
  b_blockno :: uint
  b_lock :: sleeplock
  b_refcnt :: uint
  b_data :: "uchar list"

record kbio = kcons +
  bufs :: "buf list"
  lru :: "nat list"
  disk :: "uint \<Rightarrow> uchar list"
  dwrites :: "(uint \<times> uchar list) list"

definition bufset :: "nat \<Rightarrow> (buf \<Rightarrow> buf) \<Rightarrow> 'a kbio_scheme \<Rightarrow> 'a kbio_scheme" where
  "bufset i f s = s\<lparr>bufs := (bufs s)[i := f (bufs s ! i)]\<rparr>"

text \<open>
  The contract of \<^verbatim>\<open>virtio_disk_rw\<close>: a transfer between a locked buffer and the disk, whose
  caller sleeps until it is done.  The theory \<open>Virtio\<close> proves it of the driver.
\<close>

definition disk_rw :: "nat \<Rightarrow> bool \<Rightarrow> 'a kbio_scheme \<Rightarrow> 'a kbio_scheme" where
  "disk_rw i wr s =
     (let b = bufs s ! i in
      if wr then s\<lparr>disk := (disk s)(b_blockno b := b_data b), dwrites := dwrites s @ [(b_blockno b, b_data b)]\<rparr>
      else bufset i (\<lambda>b. b\<lparr>b_data := disk s (b_blockno b)\<rparr>) s)"

fun binit_loop :: "nat list \<Rightarrow> 'a kbio_scheme \<Rightarrow> 'a kbio_scheme" where
  "binit_loop [] s = s"
| "binit_loop (i # is) s =
     binit_loop is (bufset i (\<lambda>b. b\<lparr>b_lock := initsleeplock (b_lock b)\<rparr>) (s\<lparr>lru := i # lru s\<rparr>))"

definition binit :: "'a kbio_scheme \<Rightarrow> 'a kbio_scheme" where
  "binit s = binit_loop [0..<NBUF] (s\<lparr>lru := []\<rparr>)"

text \<open>\<^verbatim>\<open>acquiresleep\<close> on a buffer's lock.\<close>

definition block :: "nat \<Rightarrow> nat \<Rightarrow> 'a kbio_scheme \<Rightarrow> 'a kbio_scheme kres" where
  "block me i s =
     (case acquiresleep me (ChanBufLock i) (b_lock (bufs s ! i)) s of
        (Done _, lk, s) \<Rightarrow> Ret (bufset i (\<lambda>b. b\<lparr>b_lock := lk\<rparr>) s)
      | (Sleeps, lk, s) \<Rightarrow> Block (ChanBufLock i))"

definition bget :: "nat \<Rightarrow> uint \<Rightarrow> uint \<Rightarrow> 'a kbio_scheme \<Rightarrow> (nat \<times> 'a kbio_scheme) kres" where
  "bget me dev blockno s =
     (case find (\<lambda>i. b_dev (bufs s ! i) = dev \<and> b_blockno (bufs s ! i) = blockno) (lru s) of
        Some i \<Rightarrow>
          kbind (block me i (bufset i (\<lambda>b. b\<lparr>b_refcnt := b_refcnt b + 1\<rparr>) s)) (\<lambda>s. Ret (i, s))
      | None \<Rightarrow>
          case find (\<lambda>i. b_refcnt (bufs s ! i) = 0) (rev (lru s)) of
            Some i \<Rightarrow>
              kbind (block me i (bufset i (\<lambda>b. b\<lparr>b_dev := dev, b_blockno := blockno, b_valid := 0, b_refcnt := 1\<rparr>) s))
                (\<lambda>s. Ret (i, s))
          | None \<Rightarrow> Panic ''bget: no buffers'')"

definition bread :: "nat \<Rightarrow> uint \<Rightarrow> uint \<Rightarrow> 'a kbio_scheme \<Rightarrow> (nat \<times> 'a kbio_scheme) kres" where
  "bread me dev blockno s =
     kbind (bget me dev blockno s) (\<lambda>(i, s).
     if b_valid (bufs s ! i) = 0
     then Ret (i, bufset i (\<lambda>b. b\<lparr>b_valid := 1\<rparr>) (disk_rw i False s))
     else Ret (i, s))"

definition bwrite :: "nat \<Rightarrow> nat \<Rightarrow> 'a kbio_scheme \<Rightarrow> 'a kbio_scheme kres" where
  "bwrite me i s =
     (if \<not> holdingsleep me (b_lock (bufs s ! i)) s then Panic ''bwrite''
      else Ret (disk_rw i True s))"

definition brelse :: "nat \<Rightarrow> nat \<Rightarrow> 'a kbio_scheme \<Rightarrow> 'a kbio_scheme kres" where
  "brelse me i s =
     (if \<not> holdingsleep me (b_lock (bufs s ! i)) s then Panic ''brelse''
      else let (lk, s) = releasesleep me (ChanBufLock i) (b_lock (bufs s ! i)) s;
               s = bufset i (\<lambda>b. b\<lparr>b_lock := lk\<rparr>) s;
               s = bufset i (\<lambda>b. b\<lparr>b_refcnt := b_refcnt b - 1\<rparr>) s
           in Ret (if b_refcnt (bufs s ! i) = 0 then s\<lparr>lru := i # remove1 i (lru s)\<rparr> else s))"

definition bpin :: "nat \<Rightarrow> 'a kbio_scheme \<Rightarrow> 'a kbio_scheme" where
  "bpin i s = bufset i (\<lambda>b. b\<lparr>b_refcnt := b_refcnt b + 1\<rparr>) s"

definition bunpin :: "nat \<Rightarrow> 'a kbio_scheme \<Rightarrow> 'a kbio_scheme" where
  "bunpin i s = bufset i (\<lambda>b. b\<lparr>b_refcnt := b_refcnt b - 1\<rparr>) s"

text \<open>An assignment to \<^verbatim>\<open>b->data\<close>.\<close>

definition bdata :: "nat \<Rightarrow> (uchar list \<Rightarrow> uchar list) \<Rightarrow> 'a kbio_scheme \<Rightarrow> 'a kbio_scheme" where
  "bdata i f s = bufset i (\<lambda>b. b\<lparr>b_data := f (b_data b)\<rparr>) s"

section \<open>A store of blocks with pin counts\<close>

text \<open>
  What the cache promises about the blocks of the root device: the current content of each block, how
  many users it has, whether it is locked, and what is on the disk.
\<close>

record acache =
  a_view :: "uint \<Rightarrow> uchar list"
  a_refs :: "uint \<Rightarrow> nat"
  a_held :: "uint \<Rightarrow> bool"
  a_disk :: "uint \<Rightarrow> uchar list"
  a_writes :: "(uint \<times> uchar list) list"

definition aread :: "uint \<Rightarrow> acache \<Rightarrow> acache" where
  "aread b A = A\<lparr>a_refs := (a_refs A)(b := a_refs A b + 1), a_held := (a_held A)(b := True)\<rparr>"

definition arelse :: "uint \<Rightarrow> acache \<Rightarrow> acache" where
  "arelse b A = A\<lparr>a_refs := (a_refs A)(b := a_refs A b - 1), a_held := (a_held A)(b := False)\<rparr>"

definition awrite :: "uint \<Rightarrow> acache \<Rightarrow> acache" where
  "awrite b A = A\<lparr>a_disk := (a_disk A)(b := a_view A b), a_writes := a_writes A @ [(b, a_view A b)]\<rparr>"

definition adata :: "uint \<Rightarrow> (uchar list \<Rightarrow> uchar list) \<Rightarrow> acache \<Rightarrow> acache" where
  "adata b f A = A\<lparr>a_view := (a_view A)(b := f (a_view A b))\<rparr>"

definition apin :: "uint \<Rightarrow> acache \<Rightarrow> acache" where
  "apin b A = A\<lparr>a_refs := (a_refs A)(b := a_refs A b + 1)\<rparr>"

definition aunpin :: "uint \<Rightarrow> acache \<Rightarrow> acache" where
  "aunpin b A = A\<lparr>a_refs := (a_refs A)(b := a_refs A b - 1)\<rparr>"

section \<open>The cache's invariant and abstraction\<close>

definition buf_slot :: "'a kbio_scheme \<Rightarrow> uint \<Rightarrow> nat option" where
  "buf_slot s b = scan (\<lambda>x. b_dev x = ROOTDEV \<and> b_blockno x = b) (bufs s)"

definition cache_abs :: "'a kbio_scheme \<Rightarrow> acache" where
  "cache_abs s = \<lparr>
     a_view = (\<lambda>b. case buf_slot s b of None \<Rightarrow> disk s b
                   | Some i \<Rightarrow> if b_valid (bufs s ! i) \<noteq> 0 then b_data (bufs s ! i) else disk s b),
     a_refs = (\<lambda>b. case buf_slot s b of None \<Rightarrow> 0 | Some i \<Rightarrow> unat (b_refcnt (bufs s ! i))),
     a_held = (\<lambda>b. case buf_slot s b of None \<Rightarrow> False | Some i \<Rightarrow> slk_locked (b_lock (bufs s ! i)) \<noteq> 0),
     a_disk = disk s, a_writes = dwrites s\<rparr>"

text \<open>
  The invariant while process \<open>me\<close> alone uses the cache.  No block is cached twice; a buffer
  nobody uses agrees with the disk, so that it may be recycled.
\<close>

definition buf_inv :: "cint \<Rightarrow> (uint \<Rightarrow> uchar list) \<Rightarrow> buf \<Rightarrow> bool" where
  "buf_inv pid d x \<longleftrightarrow>
     (b_refcnt x \<noteq> 0 \<longrightarrow> b_dev x = ROOTDEV \<and> b_valid x \<noteq> 0)
     \<and> (b_refcnt x = 0 \<longrightarrow> b_valid x \<noteq> 0 \<longrightarrow> b_dev x = ROOTDEV \<longrightarrow> b_data x = d (b_blockno x))
     \<and> (slk_locked (b_lock x) \<noteq> 0 \<longrightarrow> slk_pid (b_lock x) = pid \<and> b_refcnt x \<noteq> 0)"

definition cache_inv :: "nat \<Rightarrow> 'a kbio_scheme \<Rightarrow> bool" where
  "cache_inv me s \<longleftrightarrow> length (bufs s) = NBUF \<and> distinct (lru s) \<and> set (lru s) = {..<NBUF}
     \<and> (\<forall>i < NBUF. \<forall>j < NBUF. b_dev (bufs s ! i) = ROOTDEV \<longrightarrow> b_dev (bufs s ! j) = ROOTDEV \<longrightarrow>
          b_blockno (bufs s ! i) = b_blockno (bufs s ! j) \<longrightarrow> i = j)
     \<and> (\<forall>i < NBUF. buf_inv (p_pid (pget me s)) (disk s) (bufs s ! i))"

lemma cache_invD:
  assumes "cache_inv me s"
  shows "length (bufs s) = NBUF" "distinct (lru s)" "set (lru s) = {..<NBUF}"
    and "\<And>i j. i < NBUF \<Longrightarrow> j < NBUF \<Longrightarrow> b_dev (bufs s ! i) = ROOTDEV \<Longrightarrow> b_dev (bufs s ! j) = ROOTDEV \<Longrightarrow>
          b_blockno (bufs s ! i) = b_blockno (bufs s ! j) \<Longrightarrow> i = j"
    and "\<And>i. i < NBUF \<Longrightarrow> buf_inv (p_pid (pget me s)) (disk s) (bufs s ! i)"
  using assms unfolding cache_inv_def by blast+

text \<open>\<open>only_bio s s'\<close>: nothing but the cache, the disk and the scheduling states changed.\<close>

definition bio_frame :: "'a kbio_scheme \<Rightarrow> 'a kbio_scheme" where
  "bio_frame s = s\<lparr>bufs := [], lru := [], disk := (\<lambda>_. []), dwrites := [], procs := []\<rparr>"

definition only_bio :: "'a kbio_scheme \<Rightarrow> 'a kbio_scheme \<Rightarrow> bool" where
  "only_bio s s' \<longleftrightarrow> bio_frame s' = bio_frame s \<and> map p_pid (procs s') = map p_pid (procs s)"

lemma buf_slot_iff:
  assumes "cache_inv me s"
  shows "buf_slot s b = Some i \<longleftrightarrow> i < NBUF \<and> b_dev (bufs s ! i) = ROOTDEV \<and> b_blockno (bufs s ! i) = b"
proof
  assume "buf_slot s b = Some i"
  then show "i < NBUF \<and> b_dev (bufs s ! i) = ROOTDEV \<and> b_blockno (bufs s ! i) = b"
    using scan_SomeD [of _ "bufs s" i] cache_invD(1) [OF assms] by (auto simp: buf_slot_def)
next
  assume a: "i < NBUF \<and> b_dev (bufs s ! i) = ROOTDEV \<and> b_blockno (bufs s ! i) = b"
  show "buf_slot s b = Some i" unfolding buf_slot_def
  proof (rule scan_unique)
    show "j = i" if "j < length (bufs s)" "b_dev (bufs s ! j) = ROOTDEV \<and> b_blockno (bufs s ! j) = b" for j
      using cache_invD(4) [OF assms, of j i] that a cache_invD(1) [OF assms] by simp
  qed (use a cache_invD(1) [OF assms] in simp_all)
qed

lemma buf_slot_other:
  assumes "cache_inv me s" and "buf_slot s b = Some i" and "c \<noteq> b"
  shows "buf_slot s c \<noteq> Some i"
  using assms buf_slot_iff [OF assms(1), of b i] buf_slot_iff [OF assms(1), of c i] by simp

lemma buf_slot_None:
  "cache_inv me s \<Longrightarrow> buf_slot s b = None \<longleftrightarrow> (\<forall>i < NBUF. \<not> (b_dev (bufs s ! i) = ROOTDEV \<and> b_blockno (bufs s ! i) = b))"
  by (simp add: buf_slot_def scan_None_iff cache_invD(1))

text \<open>Replacing the buffer at index \<open>i\<close> by one that caches block \<open>b\<close>.\<close>

lemma bufset_fields [simp]:
  "bufs (bufset i f s) = (bufs s)[i := f (bufs s ! i)]" "lru (bufset i f s) = lru s" "disk (bufset i f s) = disk s"
  "dwrites (bufset i f s) = dwrites s" "procs (bufset i f s) = procs s"
  by (simp_all add: bufset_def)

lemma replace_inv:
  assumes inv: "cache_inv me s" and i: "i < NBUF" and x: "b_dev x = ROOTDEV" "b_blockno x = b"
    and bi: "buf_inv (p_pid (pget me s)) (disk s) x" and free: "buf_slot s b \<in> {None, Some i}"
    and t: "bufs t = (bufs s)[i := x]" "lru t = lru s" "disk t = disk s" "p_pid (pget me t) = p_pid (pget me s)"
  shows "cache_inv me t"
    and "buf_slot t c = (if c = b then Some i else if buf_slot s c = Some i then None else buf_slot s c)"
proof -
  note I = cache_invD [OF inv]
  have tn: "bufs t ! j = (if j = i then x else bufs s ! j)" if "j < NBUF" for j
    using that I(1) by (simp add: t nth_list_update_if)
  have uniq: "j = i" if "j < NBUF" "b_dev (bufs s ! j) = ROOTDEV" "b_blockno (bufs s ! j) = b" for j
    using that free buf_slot_iff [OF inv, of b] by (metis insertE option.distinct(1) option.inject singletonD)
  have "j = k" if jk: "j < NBUF" "k < NBUF" "b_dev (bufs t ! j) = ROOTDEV" "b_dev (bufs t ! k) = ROOTDEV"
    "b_blockno (bufs t ! j) = b_blockno (bufs t ! k)" for j k
  proof (cases "j = i"; cases "k = i")
    assume "j = i" "k \<noteq> i"
    then show ?thesis using jk x uniq [of k] by (simp add: tn)
  next
    assume "j \<noteq> i" "k = i"
    then show ?thesis using jk x uniq [of j] by (simp add: tn)
  next
    assume "j \<noteq> i" "k \<noteq> i"
    then show ?thesis using jk I(4) [OF jk(1,2)] by (simp only: tn if_False)
  qed simp
  moreover have "buf_inv (p_pid (pget me t)) (disk t) (bufs t ! j)" if "j < NBUF" for j
    using that bi I(5) by (simp add: tn t(3,4))
  ultimately show it: "cache_inv me t" using I(1-3) t unfolding cache_inv_def by simp
  show "buf_slot t c = (if c = b then Some i else if buf_slot s c = Some i then None else buf_slot s c)"
  proof (cases "c = b")
    case True
    then show ?thesis using buf_slot_iff [OF it, of b i] i x tn [OF i] by simp
  next
    case False
    have iff: "buf_slot t c = Some j \<longleftrightarrow> buf_slot s c = Some j \<and> j \<noteq> i" for j
      using buf_slot_iff [OF it, of c j] buf_slot_iff [OF inv, of c j] tn [of j] x False
      by (cases "j < NBUF"; cases "j = i"; simp)
    show ?thesis
    proof (cases "buf_slot s c")
      case None
      then have "buf_slot t c = None" using iff by (cases "buf_slot t c") auto
      then show ?thesis using False None by simp
    next
      case (Some k)
      show ?thesis
      proof (cases "k = i")
        case True
        have "buf_slot t c \<noteq> Some j" for j using iff [of j] Some True by simp
        then have "buf_slot t c = None" by (cases "buf_slot t c") auto
        then show ?thesis using False Some True by simp
      next
        case ne: False
        then show ?thesis using False Some iff [of k] by simp
      qed
    qed
  qed
qed

lemma replace_abs:
  assumes "cache_inv me s" and "i < NBUF" and "b_dev x = ROOTDEV" "b_blockno x = b"
    and "buf_inv (p_pid (pget me s)) (disk s) x" and "buf_slot s b \<in> {None, Some i}"
    and t: "bufs t = (bufs s)[i := x]" "lru t = lru s" "disk t = disk s" "p_pid (pget me t) = p_pid (pget me s)"
    and w: "dwrites t = dwrites s"
    and clean: "\<forall>c. c \<noteq> b \<longrightarrow> buf_slot s c = Some i \<longrightarrow> b_refcnt (bufs s ! i) = 0"
  shows "cache_abs t = (cache_abs s)\<lparr>
     a_view := (a_view (cache_abs s))(b := if b_valid x \<noteq> 0 then b_data x else disk s b),
     a_refs := (a_refs (cache_abs s))(b := unat (b_refcnt x)),
     a_held := (a_held (cache_abs s))(b := slk_locked (b_lock x) \<noteq> 0)\<rparr>"
proof -
  note I = cache_invD [OF assms(1)]
  have i: "i < length (bufs s)" using assms(2) I(1) by simp
  note sl = replace_inv(2) [OF assms(1-6) t]
  have gone: "b_refcnt (bufs s ! i) = 0" "slk_locked (b_lock (bufs s ! i)) = 0"
    "b_valid (bufs s ! i) \<noteq> 0 \<Longrightarrow> b_data (bufs s ! i) = disk s c"
    if c: "c \<noteq> b" "buf_slot s c = Some i" for c
    using clean c I(5) [OF assms(2)] buf_slot_iff [OF assms(1), of c i] c(2) by (auto simp: buf_inv_def)
  have other: "bufs t ! j = bufs s ! j" if "buf_slot s c = Some j" "j \<noteq> i" for c j
    using that buf_slot_iff [OF assms(1), of c j] I(1) by (simp add: t)
  have "a_view (cache_abs t) c = ((a_view (cache_abs s))(b := if b_valid x \<noteq> 0 then b_data x else disk s b)) c
      \<and> a_refs (cache_abs t) c = ((a_refs (cache_abs s))(b := unat (b_refcnt x))) c
      \<and> a_held (cache_abs t) c = ((a_held (cache_abs s))(b := slk_locked (b_lock x) \<noteq> 0)) c" for c
  proof (cases "c = b")
    case True
    then show ?thesis using sl [of c] i by (simp add: cache_abs_def t)
  next
    case ne: False
    show ?thesis
    proof (cases "buf_slot s c")
      case None
      then show ?thesis using sl [of c] ne by (simp add: cache_abs_def t)
    next
      case (Some k)
      show ?thesis
      proof (cases "k = i")
        case True
        then have c: "buf_slot s c = Some i" "buf_slot t c = None" using Some sl [of c] ne by simp_all
        then show ?thesis using ne gone [OF ne c(1)] by (simp add: cache_abs_def t)
      next
        case False
        then have "buf_slot t c = Some k" "bufs t ! k = bufs s ! k" using Some sl [of c] ne other [OF Some] by simp_all
        then show ?thesis using ne Some by (simp add: cache_abs_def t(3))
      qed
    qed
  qed
  then show ?thesis by (simp add: cache_abs_def t w fun_eq_iff)
qed

section \<open>Each operation refines its abstract counterpart\<close>

lemma only_bio_refl [simp]: "only_bio s s"
  by (simp add: only_bio_def)

lemma only_bio_trans: "only_bio s t \<Longrightarrow> only_bio t u \<Longrightarrow> only_bio s u"
  by (simp add: only_bio_def)

lemma only_bio_bufset [simp]: "only_bio s (bufset i f t) = only_bio s t"
  by (simp add: only_bio_def bio_frame_def bufset_def)

lemma only_bio_pid: "only_bio s t \<Longrightarrow> me < length (procs s) \<Longrightarrow> p_pid (pget me t) = p_pid (pget me s)"
proof -
  assume o: "only_bio s t" and me: "me < length (procs s)"
  then have eq: "map p_pid (procs t) = map p_pid (procs s)" by (simp add: only_bio_def)
  then have "length (procs t) = length (procs s)" by (rule map_eq_imp_length_eq)
  then show ?thesis using me arg_cong [OF eq, of "\<lambda>l. l ! me"] by simp
qed

lemma find_in: "find P xs = Some x \<Longrightarrow> x \<in> set xs \<and> P x"
  by (auto simp: find_Some_iff)

text \<open>The block is cached, or some buffer can be recycled.\<close>

definition room_for :: "uint \<Rightarrow> acache \<Rightarrow> bool" where
  "room_for b A \<longleftrightarrow> 0 < a_refs A b \<or> card {c. 0 < a_refs A c} < NBUF"

lemma refs_card:
  assumes inv: "cache_inv me s" and all: "\<forall>i < NBUF. b_refcnt (bufs s ! i) \<noteq> 0"
  shows "NBUF \<le> card {c. 0 < a_refs (cache_abs s) c}" "finite {c. 0 < a_refs (cache_abs s) c}"
proof -
  note I = cache_invD [OF inv]
  have dev: "b_dev (bufs s ! i) = ROOTDEV" if "i < NBUF" for i using all I(5) [OF that] that by (auto simp: buf_inv_def)
  have inj: "inj_on (\<lambda>i. b_blockno (bufs s ! i)) {..<NBUF}"
    using I(4) dev by (auto simp: inj_on_def)
  have sub: "(\<lambda>i. b_blockno (bufs s ! i)) ` {..<NBUF} \<subseteq> {c. 0 < a_refs (cache_abs s) c}"
  proof (rule image_subsetI)
    fix i
    assume "i \<in> {..<NBUF}"
    then have "buf_slot s (b_blockno (bufs s ! i)) = Some i" using buf_slot_iff [OF inv] dev by simp
    then show "b_blockno (bufs s ! i) \<in> {c. 0 < a_refs (cache_abs s) c}"
      using all \<open>i \<in> {..<NBUF}\<close> by (simp add: cache_abs_def unat_gt_0)
  qed
  show fin: "finite {c. 0 < a_refs (cache_abs s) c}" by (rule finite)
  show "NBUF \<le> card {c. 0 < a_refs (cache_abs s) c}"
    using card_mono [OF fin sub] card_image [OF inj] by simp
qed

lemma bget_index:
  assumes inv: "cache_inv me s" and room: "room_for b (cache_abs s)"
  obtains (hit) i where "find (\<lambda>i. b_dev (bufs s ! i) = ROOTDEV \<and> b_blockno (bufs s ! i) = b) (lru s) = Some i"
      "buf_slot s b = Some i"
  | (miss) i where "find (\<lambda>i. b_dev (bufs s ! i) = ROOTDEV \<and> b_blockno (bufs s ! i) = b) (lru s) = None"
      "find (\<lambda>i. b_refcnt (bufs s ! i) = 0) (rev (lru s)) = Some i" "buf_slot s b = None" "i < NBUF"
      "b_refcnt (bufs s ! i) = 0"
proof -
  note I = cache_invD [OF inv]
  let ?P = "\<lambda>i. b_dev (bufs s ! i) = ROOTDEV \<and> b_blockno (bufs s ! i) = b"
  show thesis
  proof (cases "find ?P (lru s)")
    case (Some i)
    then have "i < NBUF \<and> ?P i" using find_in I(3) by fastforce
    then show ?thesis using hit [OF Some] buf_slot_iff [OF inv, of b i] by blast
  next
    case nf: None
    then have no: "buf_slot s b = None" using buf_slot_None [OF inv, of b] I(3) by (auto simp: find_None_iff)
    show ?thesis
    proof (cases "find (\<lambda>i. b_refcnt (bufs s ! i) = 0) (rev (lru s))")
      case None
      then have "\<forall>i < NBUF. b_refcnt (bufs s ! i) \<noteq> 0" using I(3) by (auto simp: find_None_iff)
      then have "NBUF \<le> card {c. 0 < a_refs (cache_abs s) c}" by (rule refs_card [OF inv])
      moreover have "a_refs (cache_abs s) b = 0" using no by (simp add: cache_abs_def)
      ultimately show ?thesis using room by (simp add: room_for_def)
    next
      case (Some i)
      then have "i < NBUF" "b_refcnt (bufs s ! i) = 0" using find_in I(3) by fastforce+
      then show ?thesis using miss [OF nf Some no] by blast
    qed
  qed
qed

lemma bufset_bufset: "i < length (bufs s) \<Longrightarrow> bufset i f (bufset i g s) = bufset i (\<lambda>x. f (g x)) s"
  by (simp add: bufset_def)

lemma bufset_cong: "f (bufs s ! i) = g (bufs s ! i) \<Longrightarrow> bufset i f s = bufset i g s"
  by (simp add: bufset_def)

definition locked_by :: "cint \<Rightarrow> sleeplock \<Rightarrow> sleeplock" where
  "locked_by pid lk = lk\<lparr>slk_locked := 1, slk_pid := pid\<rparr>"

lemma block_free:
  "i < length (bufs s) \<Longrightarrow> slk_locked (b_lock (bufs s ! i)) = 0 \<Longrightarrow>
   block me i s = Ret (bufset i (\<lambda>b. b\<lparr>b_lock := locked_by (p_pid (pget me s)) (b_lock b)\<rparr>) s)"
  by (simp add: block_def acquiresleep_def locked_by_def bufset_def)

definition taken :: "cint \<Rightarrow> (uint \<Rightarrow> uchar list) \<Rightarrow> uint \<Rightarrow> buf \<Rightarrow> buf" where
  "taken pid d b x = x\<lparr>b_dev := ROOTDEV, b_blockno := b, b_valid := (if b_valid x = 0 then 1 else b_valid x),
     b_refcnt := b_refcnt x + 1, b_lock := locked_by pid (b_lock x),
     b_data := (if b_valid x = 0 then d b else b_data x)\<rparr>"

lemma bread_hit:
  assumes f: "find (\<lambda>i. b_dev (bufs s ! i) = ROOTDEV \<and> b_blockno (bufs s ! i) = b) (lru s) = Some i"
    and i: "i < length (bufs s)" and l: "slk_locked (b_lock (bufs s ! i)) = 0"
  shows "bread me ROOTDEV b s = Ret (i, bufset i (taken (p_pid (pget me s)) (disk s) b) s)"
proof -
  have x: "b_dev (bufs s ! i) = ROOTDEV" "b_blockno (bufs s ! i) = b" using find_in [OF f] by simp_all
  have g: "bget me ROOTDEV b s = Ret (i, bufset i (\<lambda>x. x\<lparr>b_refcnt := b_refcnt x + 1,
      b_lock := locked_by (p_pid (pget me s)) (b_lock x)\<rparr>) s)"
    using f i l by (simp add: bget_def block_free bufset_bufset)
  show ?thesis
  proof (cases "b_valid (bufs s ! i) = 0")
    case True
    then show ?thesis using g i x
      by (simp add: bread_def disk_rw_def bufset_bufset) (rule bufset_cong, rule buf.equality, simp_all add: taken_def)
  next
    case False
    then show ?thesis using g i x
      by (simp add: bread_def) (rule bufset_cong, rule buf.equality, simp_all add: taken_def)
  qed
qed

lemma bread_miss:
  assumes f: "find (\<lambda>i. b_dev (bufs s ! i) = ROOTDEV \<and> b_blockno (bufs s ! i) = b) (lru s) = None"
    and v: "find (\<lambda>i. b_refcnt (bufs s ! i) = 0) (rev (lru s)) = Some i"
    and i: "i < length (bufs s)" and l: "slk_locked (b_lock (bufs s ! i)) = 0"
  shows "bread me ROOTDEV b s =
    Ret (i, bufset i (\<lambda>x. taken (p_pid (pget me s)) (disk s) b (x\<lparr>b_valid := 0\<rparr>)) s)"
proof -
  have z: "b_refcnt (bufs s ! i) = 0" using find_in [OF v] by simp
  have "bget me ROOTDEV b s = Ret (i, bufset i (\<lambda>x. x\<lparr>b_dev := ROOTDEV, b_blockno := b, b_valid := 0, b_refcnt := 1,
      b_lock := locked_by (p_pid (pget me s)) (b_lock x)\<rparr>) s)"
    using f v i l by (simp add: bget_def block_free bufset_bufset)
  then show ?thesis using i z
    by (simp add: bread_def disk_rw_def bufset_bufset) (rule bufset_cong, rule buf.equality, simp_all add: taken_def)
qed

lemma bread_ok:
  assumes inv: "cache_inv me s" and free: "\<not> a_held (cache_abs s) b" and room: "room_for b (cache_abs s)"
    and small: "a_refs (cache_abs s) b < 2 ^ 32 - 1"
  obtains i s' where "bread me ROOTDEV b s = Ret (i, s')" and "cache_inv me s'" and "buf_slot s' b = Some i"
    and "cache_abs s' = aread b (cache_abs s)" and "b_data (bufs s' ! i) = a_view (cache_abs s) b"
    and "only_bio s s'" and "procs s' = procs s"
    and "\<And>c. 0 < a_refs (cache_abs s) c \<Longrightarrow> buf_slot s' c = buf_slot s c"
proof -
  note I = cache_invD [OF inv] and result = that
  let ?pid = "p_pid (pget me s)"
  have fin: thesis
    if run: "bread me ROOTDEV b s = Ret (i, bufset i (\<lambda>_. x) s)" and i: "i < NBUF"
      and x: "x = taken ?pid (disk s) b y" and sl: "buf_slot s b \<in> {None, Some i}"
      and rc: "unat (b_refcnt y) = a_refs (cache_abs s) b" "\<forall>c. c \<noteq> b \<longrightarrow> buf_slot s c = Some i \<longrightarrow> b_refcnt (bufs s ! i) = 0"
      and dt: "b_valid y \<noteq> 0 \<Longrightarrow> b_data y = a_view (cache_abs s) b" "b_valid y = 0 \<Longrightarrow> disk s b = a_view (cache_abs s) b"
    for i x y
  proof -
    define s' where "s' = bufset i (\<lambda>_. x) s"
    have il: "i < length (bufs s)" using i I(1) by simp
    have rc1: "unat (b_refcnt x) = a_refs (cache_abs s) b + 1"
      using rc(1) small x by (simp add: taken_def unat_word_ariths)
    then have rn: "b_refcnt x \<noteq> 0" by auto
    have xf: "b_dev x = ROOTDEV" "b_blockno x = b" "b_valid x \<noteq> 0" "b_data x = a_view (cache_abs s) b"
      "slk_locked (b_lock x) = 1" "slk_pid (b_lock x) = ?pid" using dt by (simp_all add: x taken_def locked_by_def)
    then have bi: "buf_inv ?pid (disk s) x" using rn by (simp add: buf_inv_def)
    have t: "bufs s' = (bufs s)[i := x]" "lru s' = lru s" "disk s' = disk s" "p_pid (pget me s') = ?pid" by (simp_all add: s'_def)
    have w: "dwrites s' = dwrites s" by (simp add: s'_def)
    note rep = replace_inv [OF inv i xf(1,2) bi sl t] and ab = replace_abs [OF inv i xf(1,2) bi sl t w rc(2)]
    have "cache_abs s' = aread b (cache_abs s)"
      unfolding ab using rc1 xf by (simp add: aread_def fun_upd_idem)
    moreover have "buf_slot s' c = buf_slot s c" if c: "0 < a_refs (cache_abs s) c" for c
    proof (cases "c = b")
      case True
      then have "buf_slot s b \<noteq> None" using c by (auto simp: cache_abs_def split: option.splits)
      then show ?thesis using True rep(2) [of c] sl by auto
    next
      case False
      then have "buf_slot s c \<noteq> Some i" using c rc(2) by (auto simp: cache_abs_def)
      then show ?thesis using False rep(2) [of c] by simp
    qed
    moreover have "b_data (bufs s' ! i) = a_view (cache_abs s) b" using xf il by (simp add: s'_def)
    ultimately show thesis
      using result [of i s'] rep(1) run rep(2) [of b] by (simp add: s'_def)
  qed
  from inv room show thesis
  proof (cases rule: bget_index)
    case (hit i)
    have i: "i < NBUF" "b_dev (bufs s ! i) = ROOTDEV" "b_blockno (bufs s ! i) = b" using buf_slot_iff [OF inv] hit(2) by blast+
    have l: "slk_locked (b_lock (bufs s ! i)) = 0" using free hit(2) by (simp add: cache_abs_def)
    have "\<forall>c. c \<noteq> b \<longrightarrow> buf_slot s c = Some i \<longrightarrow> b_refcnt (bufs s ! i) = 0"
      using buf_slot_other [OF inv hit(2)] by simp
    then show thesis using fin [of i _ "bufs s ! i"] bread_hit [OF hit(1) _ l, of me] i(1) I(1) hit(2)
        bufset_cong [of "\<lambda>_. taken ?pid (disk s) b (bufs s ! i)" s i "taken ?pid (disk s) b"]
      by (simp add: cache_abs_def)
  next
    case (miss i)
    let ?y = "(bufs s ! i)\<lparr>b_valid := 0\<rparr>"
    have l: "slk_locked (b_lock (bufs s ! i)) = 0" using I(5) [OF miss(4)] miss(5) by (auto simp: buf_inv_def)
    show thesis
    proof (rule fin [of i _ ?y])
      show "bread me ROOTDEV b s = Ret (i, bufset i (\<lambda>_. taken ?pid (disk s) b ?y) s)"
        using bread_miss [OF miss(1,2) _ l, of me] miss(4) I(1)
        by (simp add: bufset_cong [of "\<lambda>_. taken ?pid (disk s) b ?y" s i "\<lambda>x. taken ?pid (disk s) b (x\<lparr>b_valid := 0\<rparr>)"])
    qed (use miss(3-5) in \<open>simp_all add: cache_abs_def\<close>)
  qed
qed

text \<open>The operations on a buffer in use keep it in its slot.\<close>

lemma update_ok:
  assumes inv: "cache_inv me s" and sl: "buf_slot s b = Some i"
    and x: "b_dev x = b_dev (bufs s ! i)" "b_blockno x = b_blockno (bufs s ! i)"
    and bi: "buf_inv (p_pid (pget me s)) (disk s) x"
    and t: "bufs t = (bufs s)[i := x]" "lru t = lru s" "disk t = disk s" "p_pid (pget me t) = p_pid (pget me s)"
      "dwrites t = dwrites s"
  shows "cache_inv me t" "buf_slot t = buf_slot s"
    "cache_abs t = (cache_abs s)\<lparr>
       a_view := (a_view (cache_abs s))(b := if b_valid x \<noteq> 0 then b_data x else disk s b),
       a_refs := (a_refs (cache_abs s))(b := unat (b_refcnt x)),
       a_held := (a_held (cache_abs s))(b := slk_locked (b_lock x) \<noteq> 0)\<rparr>"
proof -
  have i: "i < NBUF" "b_dev x = ROOTDEV" "b_blockno x = b" using buf_slot_iff [OF inv, of b i] sl x by simp_all
  have s': "buf_slot s b \<in> {None, Some i}" using sl by simp
  have cl: "\<forall>c. c \<noteq> b \<longrightarrow> buf_slot s c = Some i \<longrightarrow> b_refcnt (bufs s ! i) = 0"
    using buf_slot_other [OF inv sl] by simp
  show "cache_inv me t" by (rule replace_inv(1) [OF inv i bi s' t(1-4)])
  have "buf_slot t c = buf_slot s c" for c
    using replace_inv(2) [OF inv i bi s' t(1-4), of c] buf_slot_other [OF inv sl, of c] sl by (cases "c = b") simp_all
  then show "buf_slot t = buf_slot s" by (rule ext)
  show "cache_abs t = (cache_abs s)\<lparr>
       a_view := (a_view (cache_abs s))(b := if b_valid x \<noteq> 0 then b_data x else disk s b),
       a_refs := (a_refs (cache_abs s))(b := unat (b_refcnt x)),
       a_held := (a_held (cache_abs s))(b := slk_locked (b_lock x) \<noteq> 0)\<rparr>"
    by (rule replace_abs [OF inv i bi s' t cl])
qed

text \<open>What the abstraction says about a buffer in its slot.\<close>

lemma slot_facts:
  assumes "cache_inv me s" and "buf_slot s b = Some i" and "0 < a_refs (cache_abs s) b"
  shows "b_valid (bufs s ! i) \<noteq> 0" "b_data (bufs s ! i) = a_view (cache_abs s) b" "b_refcnt (bufs s ! i) \<noteq> 0"
    "unat (b_refcnt (bufs s ! i)) = a_refs (cache_abs s) b" "b_blockno (bufs s ! i) = b" "i < length (bufs s)"
    "a_held (cache_abs s) b = (slk_locked (b_lock (bufs s ! i)) \<noteq> 0)" "b_dev (bufs s ! i) = ROOTDEV"
    "buf_inv (p_pid (pget me s)) (disk s) (bufs s ! i)"
proof -
  have i: "i < NBUF" "b_dev (bufs s ! i) = ROOTDEV" "b_blockno (bufs s ! i) = b" using buf_slot_iff [OF assms(1), of b i] assms(2) by simp_all
  show r: "b_refcnt (bufs s ! i) \<noteq> 0" using assms(2,3) by (auto simp: cache_abs_def)
  show bi: "buf_inv (p_pid (pget me s)) (disk s) (bufs s ! i)" by (rule cache_invD(5) [OF assms(1) i(1)])
  show "b_valid (bufs s ! i) \<noteq> 0" using r bi by (simp add: buf_inv_def)
  then show "b_data (bufs s ! i) = a_view (cache_abs s) b" using assms(2) by (simp add: cache_abs_def)
  show "unat (b_refcnt (bufs s ! i)) = a_refs (cache_abs s) b"
    "a_held (cache_abs s) b = (slk_locked (b_lock (bufs s ! i)) \<noteq> 0)" using assms(2) by (simp_all add: cache_abs_def)
  show "i < length (bufs s)" "b_dev (bufs s ! i) = ROOTDEV" "b_blockno (bufs s ! i) = b"
    using i cache_invD(1) [OF assms(1)] by simp_all
qed

lemma bdata_ok:
  assumes "cache_inv me s" and "buf_slot s b = Some i" and "0 < a_refs (cache_abs s) b"
  shows "cache_inv me (bdata i f s)" "buf_slot (bdata i f s) = buf_slot s"
    "cache_abs (bdata i f s) = adata b f (cache_abs s)"
proof -
  note F = slot_facts [OF assms]
  let ?x = "(bufs s ! i)\<lparr>b_data := f (b_data (bufs s ! i))\<rparr>"
  have "buf_inv (p_pid (pget me s)) (disk s) ?x" using F(3,9) by (simp add: buf_inv_def)
  note u = update_ok [OF assms(1,2) _ _ this, of "bdata i f s"]
  show "cache_inv me (bdata i f s)" "buf_slot (bdata i f s) = buf_slot s" using u(1,2) by (simp_all add: bdata_def)
  have "cache_abs (bdata i f s) = (cache_abs s)\<lparr>
       a_view := (a_view (cache_abs s))(b := f (b_data (bufs s ! i))),
       a_refs := (a_refs (cache_abs s))(b := a_refs (cache_abs s) b),
       a_held := (a_held (cache_abs s))(b := a_held (cache_abs s) b)\<rparr>"
    using u(3) F by (simp add: bdata_def)
  then show "cache_abs (bdata i f s) = adata b f (cache_abs s)" using F(2) by (simp add: adata_def)
qed

lemma bpin_ok:
  assumes "cache_inv me s" and "buf_slot s b = Some i" and "0 < a_refs (cache_abs s) b"
    and "a_refs (cache_abs s) b < 2 ^ 32 - 1"
  shows "cache_inv me (bpin i s)" "buf_slot (bpin i s) = buf_slot s" "cache_abs (bpin i s) = apin b (cache_abs s)"
proof -
  note F = slot_facts [OF assms(1-3)]
  let ?x = "(bufs s ! i)\<lparr>b_refcnt := b_refcnt (bufs s ! i) + 1\<rparr>"
  have n: "unat (b_refcnt (bufs s ! i) + 1) = a_refs (cache_abs s) b + 1"
    using F(4) assms(4) by (simp add: unat_word_ariths)
  then have "b_refcnt (bufs s ! i) + 1 \<noteq> 0" by auto
  then have "buf_inv (p_pid (pget me s)) (disk s) ?x" using F(1,8,9) by (simp add: buf_inv_def)
  note u = update_ok [OF assms(1,2) _ _ this, of "bpin i s"]
  show "cache_inv me (bpin i s)" "buf_slot (bpin i s) = buf_slot s" using u(1,2) by (simp_all add: bpin_def)
  have "cache_abs (bpin i s) = (cache_abs s)\<lparr>
       a_view := (a_view (cache_abs s))(b := a_view (cache_abs s) b),
       a_refs := (a_refs (cache_abs s))(b := a_refs (cache_abs s) b + 1),
       a_held := (a_held (cache_abs s))(b := a_held (cache_abs s) b)\<rparr>"
    using u(3) F n by (simp add: bpin_def)
  then show "cache_abs (bpin i s) = apin b (cache_abs s)" by (simp add: apin_def)
qed

lemma bunpin_ok:
  assumes "cache_inv me s" and "buf_slot s b = Some i" and "0 < a_refs (cache_abs s) b"
    and clean: "a_refs (cache_abs s) b = 1 \<longrightarrow> a_view (cache_abs s) b = a_disk (cache_abs s) b \<and> \<not> a_held (cache_abs s) b"
  shows "cache_inv me (bunpin i s)" "buf_slot (bunpin i s) = buf_slot s" "cache_abs (bunpin i s) = aunpin b (cache_abs s)"
proof -
  note F = slot_facts [OF assms(1-3)]
  let ?x = "(bufs s ! i)\<lparr>b_refcnt := b_refcnt (bufs s ! i) - 1\<rparr>"
  have n: "unat (b_refcnt (bufs s ! i) - 1) = a_refs (cache_abs s) b - 1"
    using F(3,4) by (simp add: unat_minus_one)
  then have "b_refcnt (bufs s ! i) - 1 = 0 \<Longrightarrow> a_refs (cache_abs s) b = 1" using assms(3) by simp
  then have "buf_inv (p_pid (pget me s)) (disk s) ?x"
    using F(1,2,5,7,8,9) clean by (auto simp: buf_inv_def cache_abs_def)
  note u = update_ok [OF assms(1,2) _ _ this, of "bunpin i s"]
  show "cache_inv me (bunpin i s)" "buf_slot (bunpin i s) = buf_slot s" using u(1,2) by (simp_all add: bunpin_def)
  have "cache_abs (bunpin i s) = (cache_abs s)\<lparr>
       a_view := (a_view (cache_abs s))(b := a_view (cache_abs s) b),
       a_refs := (a_refs (cache_abs s))(b := a_refs (cache_abs s) b - 1),
       a_held := (a_held (cache_abs s))(b := a_held (cache_abs s) b)\<rparr>"
    using u(3) F n by (simp add: bunpin_def)
  then show "cache_abs (bunpin i s) = aunpin b (cache_abs s)" by (simp add: aunpin_def)
qed

lemma cache_cong:
  assumes "bufs t = bufs s" and "disk t = disk s" and "dwrites t = dwrites s"
  shows "buf_slot t = buf_slot s" "cache_abs t = cache_abs s"
proof -
  show sl: "buf_slot t = buf_slot s" using assms(1) by (simp add: buf_slot_def fun_eq_iff)
  show "cache_abs t = cache_abs s" unfolding cache_abs_def sl assms ..
qed

text \<open>\<^verbatim>\<open>brelse\<close> needs the block clean when its last user lets it go.\<close>

lemma nth_beyond: "length xs \<le> n \<Longrightarrow> xs ! n = [] ! (n - length xs)"
proof (induction xs arbitrary: n)
  case (Cons x xs)
  then show ?case by (cases n) simp_all
qed simp

lemma pget_wakeup_pid [simp]: "p_pid (pget me (wakeup w c s)) = p_pid (pget me s)"
proof (cases "me < length (procs s)")
  case True
  then show ?thesis by (simp add: wakeup_def wake_one_def)
next
  case False
  then show ?thesis using nth_beyond [of "procs s" me] nth_beyond [of "procs (wakeup w c s)" me] by (simp add: wakeup_def)
qed

lemma wakeup_pids [simp]: "map p_pid (procs (wakeup w c s)) = map p_pid (procs s)"
  by (rule nth_equalityI) (simp_all add: wakeup_def wake_one_def)

lemma brelse_ok:
  assumes "cache_inv me s" and "buf_slot s b = Some i" and "0 < a_refs (cache_abs s) b" and "a_held (cache_abs s) b"
    and clean: "a_refs (cache_abs s) b = 1 \<Longrightarrow> a_view (cache_abs s) b = a_disk (cache_abs s) b"
  obtains s' where "brelse me i s = Ret s'" and "cache_inv me s'" and "buf_slot s' = buf_slot s"
    and "cache_abs s' = arelse b (cache_abs s)" and "only_bio s s'"
proof -
  note F = slot_facts [OF assms(1-3)] and I = cache_invD [OF assms(1)]
  let ?x = "(bufs s ! i)\<lparr>b_lock := (b_lock (bufs s ! i))\<lparr>slk_locked := 0, slk_pid := 0\<rparr>,
    b_refcnt := b_refcnt (bufs s ! i) - 1\<rparr>"
  let ?u = "wakeup (Some me) (ChanBufLock i) s"
  let ?t = "bufset i (\<lambda>_. ?x) ?u"
  have [simp]: "bufs ?u = bufs s" "lru ?u = lru s" "disk ?u = disk s" "dwrites ?u = dwrites s" by (simp_all add: wakeup_def)
  have n: "unat (b_refcnt (bufs s ! i) - 1) = a_refs (cache_abs s) b - 1"
    using F(3,4) by (simp add: unat_minus_one)
  then have "b_refcnt (bufs s ! i) - 1 = 0 \<Longrightarrow> a_refs (cache_abs s) b = 1" using assms(3) by simp
  then have "buf_inv (p_pid (pget me s)) (disk s) ?x"
    using F(1,2,5,8) clean by (auto simp: buf_inv_def cache_abs_def)
  note u = update_ok [OF assms(1,2) _ _ this, of ?t]
  have t: "cache_inv me ?t" "buf_slot ?t = buf_slot s" using u(1,2) by simp_all
  have "cache_abs ?t = (cache_abs s)\<lparr>
       a_view := (a_view (cache_abs s))(b := a_view (cache_abs s) b),
       a_refs := (a_refs (cache_abs s))(b := a_refs (cache_abs s) b - 1),
       a_held := (a_held (cache_abs s))(b := False)\<rparr>"
    using u(3) F n by simp
  then have ab: "cache_abs ?t = arelse b (cache_abs s)" by (simp add: arelse_def)
  define s' where "s' = (if b_refcnt ?x = 0 then ?t\<lparr>lru := i # remove1 i (lru ?t)\<rparr> else ?t)"
  have same: "bufs s' = bufs ?t" "disk s' = disk ?t" "dwrites s' = dwrites ?t" "procs s' = procs ?t" by (simp_all add: s'_def)
  have "i \<in> set (lru s)" using F(6) I(1,3) by simp
  then have "distinct (lru s')" "set (lru s') = {..<NBUF}"
    using I(2,3) by (auto simp: s'_def)
  then have inv': "cache_inv me s'" using t(1) same unfolding cache_inv_def by simp
  have run: "brelse me i s = Ret s'"
    using F(6,7,9) assms(4)
    by (simp add: brelse_def holdingsleep_def buf_inv_def releasesleep_def s'_def bufset_bufset)
      (simp add: bufset_def)
  have fr: "only_bio s s'"
  proof -
    have "bio_frame s' = bio_frame s" by (simp add: s'_def bio_frame_def bufset_def wakeup_def)
    moreover have "map p_pid (procs s') = map p_pid (procs s)" by (simp add: s'_def)
    ultimately show ?thesis by (simp add: only_bio_def)
  qed
  show thesis
    using that [OF run inv'] cache_cong [OF same(1-3)] t(2) ab fr by simp
qed

lemma bwrite_ok:
  assumes "cache_inv me s" and "buf_slot s b = Some i" and "0 < a_refs (cache_abs s) b" and "a_held (cache_abs s) b"
  obtains s' where "bwrite me i s = Ret s'" and "cache_inv me s'" and "buf_slot s' = buf_slot s"
    and "cache_abs s' = awrite b (cache_abs s)" and "only_bio s s'" and "bufs s' = bufs s" and "procs s' = procs s"
proof -
  note F = slot_facts [OF assms(1-3)] and I = cache_invD [OF assms(1)]
  let ?s = "s\<lparr>disk := (disk s)(b := b_data (bufs s ! i)), dwrites := dwrites s @ [(b, b_data (bufs s ! i))]\<rparr>"
  have run: "bwrite me i s = Ret ?s"
    using F(5,7,9) assms(4) by (simp add: bwrite_def holdingsleep_def buf_inv_def disk_rw_def Let_def)
  have sl: "buf_slot ?s = buf_slot s" by (simp add: buf_slot_def fun_eq_iff)
  have "buf_inv (p_pid (pget me s)) ((disk s)(b := b_data (bufs s ! i))) (bufs s ! j)" if j: "j < NBUF" for j
  proof (cases "j = i")
    case True
    then show ?thesis using F(3,9) by (simp add: buf_inv_def)
  next
    case False
    have "b_dev (bufs s ! j) = ROOTDEV \<Longrightarrow> b_blockno (bufs s ! j) \<noteq> b"
      using I(4) [OF j, of i] False F(5,6,8) I(1) by auto
    then show ?thesis using I(5) [OF j] by (auto simp: buf_inv_def)
  qed
  then have inv': "cache_inv me ?s" using assms(1) by (simp add: cache_inv_def)
  have "a_view (cache_abs ?s) c = a_view (cache_abs s) c" for c
    using F(1) assms(2) by (cases "c = b") (auto simp: cache_abs_def sl split: option.splits)
  moreover have "a_refs (cache_abs ?s) = a_refs (cache_abs s)" "a_held (cache_abs ?s) = a_held (cache_abs s)"
    "a_disk (cache_abs ?s) = (a_disk (cache_abs s))(b := b_data (bufs s ! i))"
    "a_writes (cache_abs ?s) = a_writes (cache_abs s) @ [(b, b_data (bufs s ! i))]"
    by (simp_all add: cache_abs_def sl cong: option.case_cong)
  ultimately have "cache_abs ?s = awrite b (cache_abs s)"
    unfolding awrite_def F(2) by (intro acache.equality) (simp_all add: fun_eq_iff)
  then show thesis using that [OF run inv' sl] by (simp add: only_bio_def bio_frame_def)
qed

section \<open>Sequences of operations\<close>

text \<open>
  A user of the cache keeps the pointer \<^verbatim>\<open>bread\<close> gave for each block it has in use:
  \<open>h\<close>.  Each operation has a condition on the abstract store under which it cannot panic, block or
  lose data.
\<close>

datatype cache_op = CRead uint | CSet uint "uchar list" | CWrite uint | CRelse uint | CPin uint | CUnpin uint

fun cache_do :: "nat \<Rightarrow> cache_op \<Rightarrow> (uint \<Rightarrow> nat) \<Rightarrow> 'a kbio_scheme \<Rightarrow> ((uint \<Rightarrow> nat) \<times> 'a kbio_scheme) kres" where
  "cache_do me (CRead b) h s = kbind (bread me ROOTDEV b s) (\<lambda>(i, s). Ret (h(b := i), s))"
| "cache_do me (CSet b d) h s = Ret (h, bdata (h b) (\<lambda>_. d) s)"
| "cache_do me (CWrite b) h s = kbind (bwrite me (h b) s) (\<lambda>s. Ret (h, s))"
| "cache_do me (CRelse b) h s = kbind (brelse me (h b) s) (\<lambda>s. Ret (h, s))"
| "cache_do me (CPin b) h s = Ret (h, bpin (h b) s)"
| "cache_do me (CUnpin b) h s = Ret (h, bunpin (h b) s)"

fun cache_run :: "nat \<Rightarrow> cache_op list \<Rightarrow> (uint \<Rightarrow> nat) \<Rightarrow> 'a kbio_scheme \<Rightarrow> ((uint \<Rightarrow> nat) \<times> 'a kbio_scheme) kres" where
  "cache_run me [] h s = Ret (h, s)"
| "cache_run me (c # cs) h s = kbind (cache_do me c h s) (\<lambda>(h, s). cache_run me cs h s)"

fun acache_do :: "cache_op \<Rightarrow> acache \<Rightarrow> acache" where
  "acache_do (CRead b) A = aread b A"
| "acache_do (CSet b d) A = adata b (\<lambda>_. d) A"
| "acache_do (CWrite b) A = awrite b A"
| "acache_do (CRelse b) A = arelse b A"
| "acache_do (CPin b) A = apin b A"
| "acache_do (CUnpin b) A = aunpin b A"

fun acache_ok :: "cache_op \<Rightarrow> acache \<Rightarrow> bool" where
  "acache_ok (CRead b) A \<longleftrightarrow> \<not> a_held A b \<and> room_for b A \<and> a_refs A b < 2 ^ 32 - 1"
| "acache_ok (CSet b d) A \<longleftrightarrow> 0 < a_refs A b \<and> a_held A b"
| "acache_ok (CWrite b) A \<longleftrightarrow> 0 < a_refs A b \<and> a_held A b"
| "acache_ok (CRelse b) A \<longleftrightarrow> 0 < a_refs A b \<and> a_held A b \<and> (a_refs A b = 1 \<longrightarrow> a_view A b = a_disk A b)"
| "acache_ok (CPin b) A \<longleftrightarrow> 0 < a_refs A b \<and> a_refs A b < 2 ^ 32 - 1"
| "acache_ok (CUnpin b) A \<longleftrightarrow> 0 < a_refs A b \<and> (a_refs A b = 1 \<longrightarrow> a_view A b = a_disk A b \<and> \<not> a_held A b)"

fun acache_oks :: "cache_op list \<Rightarrow> acache \<Rightarrow> bool" where
  "acache_oks [] A \<longleftrightarrow> True"
| "acache_oks (c # cs) A \<longleftrightarrow> acache_ok c A \<and> acache_oks cs (acache_do c A)"

definition handles :: "(uint \<Rightarrow> nat) \<Rightarrow> 'a kbio_scheme \<Rightarrow> bool" where
  "handles h s \<longleftrightarrow> (\<forall>b. 0 < a_refs (cache_abs s) b \<longrightarrow> buf_slot s b = Some (h b))"

lemma handles_sub:
  assumes "handles h s" and "buf_slot s' = buf_slot s" and "\<And>c. 0 < a_refs (cache_abs s') c \<Longrightarrow> 0 < a_refs (cache_abs s) c"
  shows "handles h s'"
  using assms by (simp add: handles_def)

lemma acache_refs [simp]:
  "a_refs (aread b A) = (a_refs A)(b := a_refs A b + 1)" "a_refs (arelse b A) = (a_refs A)(b := a_refs A b - 1)"
  "a_refs (awrite b A) = a_refs A" "a_refs (adata b f A) = a_refs A" "a_refs (apin b A) = (a_refs A)(b := a_refs A b + 1)"
  "a_refs (aunpin b A) = (a_refs A)(b := a_refs A b - 1)"
  by (simp_all add: aread_def arelse_def awrite_def adata_def apin_def aunpin_def)

lemma cache_do_ok:
  assumes "cache_inv me s" and "handles h s" and "acache_ok c (cache_abs s)"
  obtains h' s' where "cache_do me c h s = Ret (h', s')" and "cache_inv me s'" and "handles h' s'"
    and "cache_abs s' = acache_do c (cache_abs s)" and "only_bio s s'"
  using assms(3)
proof (cases c)
  case (CRead b)
  then obtain i s' where r: "bread me ROOTDEV b s = Ret (i, s')" "cache_inv me s'" "buf_slot s' b = Some i"
    "cache_abs s' = aread b (cache_abs s)" "only_bio s s'" "\<And>c. 0 < a_refs (cache_abs s) c \<Longrightarrow> buf_slot s' c = buf_slot s c"
    using bread_ok [OF assms(1), of b] assms(3) by (metis acache_ok.simps(1))
  have "handles (h(b := i)) s'" using assms(2) r(3,4,6) by (simp add: handles_def)
  then show thesis using that CRead r by simp
next
  case (CSet b d)
  then have u: "0 < a_refs (cache_abs s) b" and sl: "buf_slot s b = Some (h b)" using assms(2,3) by (simp_all add: handles_def)
  note d = bdata_ok [OF assms(1) sl u, of "\<lambda>_. d"]
  have "handles h (bdata (h b) (\<lambda>_. d) s)" by (rule handles_sub [OF assms(2) d(2)]) (simp add: d(3))
  then show thesis using that CSet d by (simp add: bdata_def)
next
  case (CWrite b)
  then have u: "0 < a_refs (cache_abs s) b" "a_held (cache_abs s) b" and sl: "buf_slot s b = Some (h b)"
    using assms(2,3) by (simp_all add: handles_def)
  obtain s' where r: "bwrite me (h b) s = Ret s'" "cache_inv me s'" "buf_slot s' = buf_slot s"
    "cache_abs s' = awrite b (cache_abs s)" "only_bio s s'" using bwrite_ok [OF assms(1) sl u] by blast
  have "handles h s'" by (rule handles_sub [OF assms(2) r(3)]) (simp add: r(4))
  then show thesis using that CWrite r by simp
next
  case (CRelse b)
  then have u: "0 < a_refs (cache_abs s) b" "a_held (cache_abs s) b" and sl: "buf_slot s b = Some (h b)"
    and cl: "a_refs (cache_abs s) b = 1 \<Longrightarrow> a_view (cache_abs s) b = a_disk (cache_abs s) b"
    using assms(2,3) by (simp_all add: handles_def)
  obtain s' where r: "brelse me (h b) s = Ret s'" "cache_inv me s'" "buf_slot s' = buf_slot s"
    "cache_abs s' = arelse b (cache_abs s)" "only_bio s s'" using brelse_ok [OF assms(1) sl u cl] by blast
  have "handles h s'" by (rule handles_sub [OF assms(2) r(3)]) (simp add: r(4) split: if_splits)
  then show thesis using that CRelse r by simp
next
  case (CPin b)
  then have u: "0 < a_refs (cache_abs s) b" "a_refs (cache_abs s) b < 2 ^ 32 - 1" and sl: "buf_slot s b = Some (h b)"
    using assms(2,3) by (simp_all add: handles_def)
  note d = bpin_ok [OF assms(1) sl u]
  have "handles h (bpin (h b) s)" by (rule handles_sub [OF assms(2) d(2)]) (use u in \<open>simp add: d(3) split: if_splits\<close>)
  then show thesis using that CPin d by (simp add: bpin_def)
next
  case (CUnpin b)
  then have u: "0 < a_refs (cache_abs s) b" and sl: "buf_slot s b = Some (h b)"
    and cl: "a_refs (cache_abs s) b = 1 \<longrightarrow> a_view (cache_abs s) b = a_disk (cache_abs s) b \<and> \<not> a_held (cache_abs s) b"
    using assms(2,3) by (simp_all add: handles_def)
  note d = bunpin_ok [OF assms(1) sl u cl]
  have "handles h (bunpin (h b) s)" by (rule handles_sub [OF assms(2) d(2)]) (simp add: d(3) split: if_splits)
  then show thesis using that CUnpin d by (simp add: bunpin_def)
qed

lemma cache_run_ok:
  assumes "cache_inv me s" and "handles h s" and "acache_oks cs (cache_abs s)"
  obtains h' s' where "cache_run me cs h s = Ret (h', s')" and "cache_inv me s'" and "handles h' s'"
    and "cache_abs s' = fold acache_do cs (cache_abs s)" and "only_bio s s'"
  using assms
proof (induction cs arbitrary: h s thesis)
  case (Cons c cs)
  obtain h1 s1 where 1: "cache_do me c h s = Ret (h1, s1)" "cache_inv me s1" "handles h1 s1"
    "cache_abs s1 = acache_do c (cache_abs s)" "only_bio s s1"
    using cache_do_ok [OF Cons.prems(2,3), of c] Cons.prems(4) by auto
  obtain h2 s2 where 2: "cache_run me cs h1 s1 = Ret (h2, s2)" "cache_inv me s2" "handles h2 s2"
    "cache_abs s2 = fold acache_do cs (cache_abs s1)" "only_bio s1 s2"
    using Cons.IH [OF _ 1(2,3)] Cons.prems(4) 1(4) by auto
  show ?case by (rule Cons.prems(1) [of h2 s2]) (use 1 2 only_bio_trans in auto)
qed simp

text \<open>\<^verbatim>\<open>binit\<close> on zeroed buffers establishes the invariant.\<close>

lemma binit_loop_bufs:
  "bufs (binit_loop is s) = fold (\<lambda>i bs. bs[i := (bs ! i)\<lparr>b_lock := initsleeplock (b_lock (bs ! i))\<rparr>]) is (bufs s)"
  "lru (binit_loop is s) = rev is @ lru s" "disk (binit_loop is s) = disk s" "dwrites (binit_loop is s) = dwrites s"
  "procs (binit_loop is s) = procs s"
  by (induction "is" arbitrary: s) (simp_all add: bufset_def)

lemma fold_update_prefix:
  "n \<le> length xs \<Longrightarrow> fold (\<lambda>i ys. ys[i := f (ys ! i)]) [0..<n] xs = map f (take n xs) @ drop n xs"
proof (induction n)
  case (Suc n)
  then show ?case
    by (simp add: nth_append take_Suc_conv_app_nth list_update_append Cons_nth_drop_Suc [symmetric])
qed simp

definition zero_buf :: "buf \<Rightarrow> bool" where
  "zero_buf x \<longleftrightarrow> b_valid x = 0 \<and> b_dev x = 0 \<and> b_refcnt x = 0"

lemma binit_inv:
  assumes "length (bufs s) = NBUF" and "\<forall>x \<in> set (bufs s). zero_buf x"
  shows "cache_inv me (binit s)" and "cache_abs (binit s) =
    \<lparr>a_view = disk s, a_refs = (\<lambda>_. 0), a_held = (\<lambda>_. False), a_disk = disk s, a_writes = dwrites s\<rparr>"
proof -
  let ?f = "\<lambda>x. x\<lparr>b_lock := initsleeplock (b_lock x)\<rparr>"
  have b: "bufs (binit s) = map ?f (bufs s)"
    using fold_update_prefix [of NBUF "bufs s" ?f] assms(1) by (simp add: binit_def binit_loop_bufs)
  have z: "zero_buf (bufs (binit s) ! i) \<and> slk_locked (b_lock (bufs (binit s) ! i)) = 0" if "i < NBUF" for i
    using assms that by (simp add: b zero_buf_def initsleeplock_def)
  have r: "(0 :: uint) \<noteq> ROOTDEV" by (simp add: ROOTDEV_def)
  show inv: "cache_inv me (binit s)"
  proof -
    have "length (bufs (binit s)) = NBUF" using assms(1) by (simp add: b)
    moreover have "distinct (lru (binit s))" "set (lru (binit s)) = {..<NBUF}"
      by (auto simp: binit_def binit_loop_bufs)
    moreover have "b_dev (bufs (binit s) ! i) \<noteq> ROOTDEV" if "i < NBUF" for i
      using z [OF that] r by (simp add: zero_buf_def)
    moreover have "buf_inv (p_pid (pget me (binit s))) (disk (binit s)) (bufs (binit s) ! i)" if "i < NBUF" for i
      using z [OF that] by (simp add: zero_buf_def buf_inv_def)
    ultimately show ?thesis unfolding cache_inv_def by blast
  qed
  have "buf_slot (binit s) c = None" for c using buf_slot_None [OF inv, of c] z r by (auto simp: zero_buf_def)
  then show "cache_abs (binit s) =
    \<lparr>a_view = disk s, a_refs = (\<lambda>_. 0), a_held = (\<lambda>_. False), a_disk = disk s, a_writes = dwrites s\<rparr>"
    by (simp add: cache_abs_def binit_def binit_loop_bufs)
qed

section \<open>Property\<close>

text \<open>
  C3: the buffer cache behaves as a plain store of blocks.  Any sequence of \<^verbatim>\<open>bread\<close>,
  assignments to a locked buffer's data, \<^verbatim>\<open>bwrite\<close>, \<^verbatim>\<open>brelse\<close>,
  \<^verbatim>\<open>bpin\<close> and \<^verbatim>\<open>bunpin\<close> whose uses are legal for that store (lock before use, no
  more than NBUF blocks in use, nothing dirty let go) returns from every call without panicking or
  blocking, leaves the block contents, reference counts, locks, disk and order of disk writes the store
  says, and touches nothing outside the cache.
\<close>

theorem bcache_refines_store:
  assumes "cache_inv me s" and "handles h s" and "acache_oks cs (cache_abs s)"
  shows "\<exists>h' s'. cache_run me cs h s = Ret (h', s') \<and> cache_inv me s'
     \<and> cache_abs s' = fold acache_do cs (cache_abs s) \<and> only_bio s s'"
  using cache_run_ok [OF assms] by blast

definition bio_demo :: kbio where
  "bio_demo = kcons.extend cons_demo (kbio.fields
     (replicate NBUF \<lparr>b_valid = 0, b_dev = 0, b_blockno = 0, b_lock = \<lparr>slk_locked = 0, slk_pid = 0\<rparr>, b_refcnt = 0, b_data = []\<rparr>)
     [] (\<lambda>b. [ucast b]) [])"

lemma bio_demo_fields [simp]: "disk bio_demo = (\<lambda>b. [ucast b])" "dwrites bio_demo = []"
  by (simp_all add: bio_demo_def kcons.defs kbio.defs)

theorem bcache_refines_store_witness:
  "\<exists>h' s'. cache_run 0 [CRead 7, CSet 7 [1], CWrite 7, CRelse 7, CRead 7] (\<lambda>_. 0) (binit bio_demo) = Ret (h', s')
     \<and> a_view (cache_abs s') 7 = [1] \<and> dwrites s' = [(7, [1])]"
proof -
  let ?s = "binit bio_demo" and ?cs = "[CRead 7, CSet 7 [1], CWrite 7, CRelse 7, CRead 7]"
  have z: "length (bufs bio_demo) = NBUF" "\<forall>x \<in> set (bufs bio_demo). zero_buf x"
    by (simp_all add: bio_demo_def kcons.defs kbio.defs zero_buf_def)
  note b = binit_inv [OF z]
  have "handles (\<lambda>_. 0) ?s" by (simp add: handles_def b(2))
  moreover have "acache_oks ?cs (cache_abs ?s)"
    by (simp add: b(2) aread_def adata_def awrite_def arelse_def room_for_def NBUF_def MAXOPBLOCKS_def)
  ultimately obtain h' s' where r: "cache_run 0 ?cs (\<lambda>_. 0) ?s = Ret (h', s')" "cache_abs s' = fold acache_do ?cs (cache_abs ?s)"
    using bcache_refines_store [OF b(1) [of 0], of "\<lambda>_. 0" ?cs] by blast
  have "a_view (cache_abs s') 7 = [1]" "a_writes (cache_abs s') = [(7, [1])]"
    unfolding r(2) by (simp_all add: b(2) aread_def adata_def awrite_def arelse_def)
  then show ?thesis using r(1) by (auto simp: cache_abs_def)
qed

end
