(* ===== verification/Layout.thy ===== *)
theory Layout
  imports Memory
begin

text \<open>
  C objects laid out in a block's bytes: reading and writing a little-endian integer at a byte offset, the
  accesses behind a cast such as \<^verbatim>\<open>(struct logheader *) (buf->data)\<close>.
\<close>

fun le_word :: "uchar list \<Rightarrow> 'a::len word" where
  "le_word [] = 0"
| "le_word (b # bs) = ucast b OR push_bit 8 (le_word bs)"

definition le_bytes :: "nat \<Rightarrow> 'a::len word \<Rightarrow> uchar list" where
  "le_bytes n v = map (\<lambda>k. ucast (drop_bit (8 * k) v)) [0..<n]"

definition sub_bytes :: "nat \<Rightarrow> nat \<Rightarrow> uchar list \<Rightarrow> uchar list" where
  "sub_bytes i n l = take n (drop i l)"

definition put_at :: "nat \<Rightarrow> uchar list \<Rightarrow> uchar list \<Rightarrow> uchar list" where
  "put_at i bs l = take i l @ bs @ drop (i + length bs) l"

abbreviation rd32 :: "nat \<Rightarrow> uchar list \<Rightarrow> uint" where
  "rd32 i l \<equiv> le_word (sub_bytes i 4 l)"

abbreviation wr32 :: "nat \<Rightarrow> uint \<Rightarrow> uchar list \<Rightarrow> uchar list" where
  "wr32 i v l \<equiv> put_at i (le_bytes 4 v) l"

abbreviation rd16 :: "nat \<Rightarrow> uchar list \<Rightarrow> ushort" where
  "rd16 i l \<equiv> le_word (sub_bytes i 2 l)"

abbreviation wr16 :: "nat \<Rightarrow> ushort \<Rightarrow> uchar list \<Rightarrow> uchar list" where
  "wr16 i v l \<equiv> put_at i (le_bytes 2 v) l"

section \<open>Reading back what was written\<close>

lemma bit_le_word:
  "bit (le_word bs :: 'a::len word) i \<longleftrightarrow> i < LENGTH('a) \<and> i div 8 < length bs \<and> bit (bs ! (i div 8)) (i mod 8)"
proof (induction bs arbitrary: i)
  case (Cons b bs)
  show ?case
  proof (cases "i < 8")
    case True
    then show ?thesis by (auto simp: bit_simps)
  next
    case False
    then obtain j where "i = j + 8" by (metis add.commute le_add_diff_inverse not_less)
    moreover have "\<not> bit b (j + 8)" by (simp add: bit_word.rep_eq)
    moreover have "(j + 8) div 8 = Suc (j div 8)" by simp
    ultimately show ?thesis using Cons.IH [of j] by (auto simp: bit_simps)
  qed
qed simp

lemma length_le_bytes [simp]: "length (le_bytes n v) = n"
  by (simp add: le_bytes_def)

lemma le_word_le_bytes:
  assumes "LENGTH('a) \<le> 8 * n"
  shows "le_word (le_bytes n v) = (v :: 'a::len word)"
proof (rule bit_word_eqI)
  fix i
  assume i: "i < LENGTH('a)"
  then have "i div 8 < n" using assms by simp
  moreover have "8 * (i div 8) + i mod 8 = i" by simp
  ultimately show "bit (le_word (le_bytes n v) :: 'a word) i \<longleftrightarrow> bit v i"
    using i by (simp add: bit_le_word le_bytes_def bit_simps)
qed

lemma le_word_32 [simp]: "le_word (le_bytes 4 v) = (v :: uint)"
  by (rule le_word_le_bytes) simp

lemma le_word_16 [simp]: "le_word (le_bytes 2 v) = (v :: ushort)"
  by (rule le_word_le_bytes) simp

lemma length_put_at [simp]: "i + length bs \<le> length l \<Longrightarrow> length (put_at i bs l) = length l"
  by (simp add: put_at_def)

lemma sub_put_same [simp]:
  "i + length bs \<le> length l \<Longrightarrow> n = length bs \<Longrightarrow> sub_bytes i n (put_at i bs l) = bs"
  by (simp add: sub_bytes_def put_at_def)

lemma nth_put_at:
  "i + length bs \<le> length l \<Longrightarrow> k < length l \<Longrightarrow>
   put_at i bs l ! k = (if i \<le> k \<and> k < i + length bs then bs ! (k - i) else l ! k)"
  by (auto simp: put_at_def nth_append)

lemma sub_put_other [simp]:
  assumes "i + length bs \<le> length l" and "j + n \<le> i \<or> i + length bs \<le> j"
  shows "sub_bytes j n (put_at i bs l) = sub_bytes j n l"
  by (rule nth_equalityI)
    (use assms in \<open>auto simp: sub_bytes_def nth_put_at\<close>)

lemma length_sub_bytes [simp]: "length (sub_bytes i n l) = min n (length l - i)"
  by (auto simp: sub_bytes_def)

end
