(* ===== verification/Log.thy ===== *)
theory Log
  imports Bio Layout
begin

text \<open>
  The write-ahead log, \<^verbatim>\<open>kernel/log.c\<close>.  \<^verbatim>\<open>struct logheader\<close> is kept in memory as the
  fields \<open>l_n\<close> and \<open>l_block\<close> and on the disk as the bytes of block \<^verbatim>\<open>log.start\<close>.  A section under
  \<^verbatim>\<open>log.lock\<close> is one step; \<^verbatim>\<open>end_op\<close> is the locked section \<open>end_op_lock\<close>, then
  \<open>commit\<close> without the lock, then the locked section \<open>end_op_done\<close>.  The second half proves that a
  commit is atomic with respect to crashes and that the space reserved by \<^verbatim>\<open>begin_op\<close> is enough.
\<close>

section \<open>The log\<close>

record log =
  l_start :: cint
  l_outstanding :: cint
  l_committing :: cint
  l_dev :: cint
  l_n :: cint
  l_block :: "cint list"

record klog = kbio +
  log :: log

definition logset :: "(log \<Rightarrow> log) \<Rightarrow> 'a klog_scheme \<Rightarrow> 'a klog_scheme" where
  "logset f s = s\<lparr>log := f (log s)\<rparr>"

text \<open>\<^verbatim>\<open>printf\<close> of the kernel: the bytes of the formatted message go to the console.\<close>

definition printk :: "string \<Rightarrow> slot list \<Rightarrow> 'a kcons_scheme \<Rightarrow> 'a kcons_scheme" where
  "printk fmt as s = fold consputc (kprintf (cstr fmt) (\<lambda>k. as ! k)) s"

text \<open>\<^verbatim>\<open>sizeof(struct logheader)\<close>, and the header in a block's bytes.\<close>

definition LOGHEADER_SIZE :: nat where "LOGHEADER_SIZE = 4 + 4 * LOGBLOCKS"

fun get_head_blocks :: "uchar list \<Rightarrow> nat list \<Rightarrow> cint list \<Rightarrow> cint list" where
  "get_head_blocks d [] bl = bl"
| "get_head_blocks d (i # is) bl = get_head_blocks d is (bl[i := rd32 (4 + 4 * i) d])"

fun put_head_blocks :: "cint list \<Rightarrow> nat list \<Rightarrow> uchar list \<Rightarrow> uchar list" where
  "put_head_blocks bl [] d = d"
| "put_head_blocks bl (i # is) d = put_head_blocks bl is (wr32 (4 + 4 * i) (bl ! i) d)"

text \<open>The indices a loop \<^verbatim>\<open>for (i = 0; i < n; i++)\<close> visits.\<close>

definition upto_int :: "cint \<Rightarrow> nat list" where
  "upto_int n = [0..<nat (sint n)]"

definition read_head :: "nat \<Rightarrow> 'a klog_scheme \<Rightarrow> 'a klog_scheme kres" where
  "read_head me s =
     kbind (bread me (l_dev (log s)) (l_start (log s)) s) (\<lambda>(i, s).
     let d = b_data (bufs s ! i);
         s = logset (\<lambda>l. l\<lparr>l_n := rd32 0 d\<rparr>) s;
         s = logset (\<lambda>l. l\<lparr>l_block := get_head_blocks d (upto_int (l_n l)) (l_block l)\<rparr>) s
     in brelse me i s)"

definition write_head :: "nat \<Rightarrow> 'a klog_scheme \<Rightarrow> 'a klog_scheme kres" where
  "write_head me s =
     kbind (bread me (l_dev (log s)) (l_start (log s)) s) (\<lambda>(i, s).
     let l = log s;
         s = bdata i (wr32 0 (l_n l)) s;
         s = bdata i (put_head_blocks (l_block l) (upto_int (l_n l))) s
     in kbind (bwrite me i s) (brelse me i))"

fun install_loop :: "nat \<Rightarrow> bool \<Rightarrow> nat list \<Rightarrow> 'a klog_scheme \<Rightarrow> 'a klog_scheme kres" where
  "install_loop me recovering [] s = Ret s"
| "install_loop me recovering (tail # ts) s =
     (let s = (if recovering
               then printk (''recovering tail %d dst %d'' @ [CHR 0x0a]) [int_slot (of_nat tail), int_slot (l_block (log s) ! tail)] s
               else s)
      in kbind (bread me (l_dev (log s)) (l_start (log s) + of_nat tail + 1) s) (\<lambda>(lbuf, s).
         kbind (bread me (l_dev (log s)) (l_block (log s) ! tail) s) (\<lambda>(dbuf, s).
         let s = bdata dbuf (\<lambda>_. b_data (bufs s ! lbuf)) s in
         kbind (bwrite me dbuf s) (\<lambda>s.
         let s = (if recovering then s else bunpin dbuf s) in
         kbind (brelse me lbuf s) (\<lambda>s.
         kbind (brelse me dbuf s) (\<lambda>s.
         install_loop me recovering ts s))))))"

definition install_trans :: "nat \<Rightarrow> bool \<Rightarrow> 'a klog_scheme \<Rightarrow> 'a klog_scheme kres" where
  "install_trans me recovering s = install_loop me recovering (upto_int (l_n (log s))) s"

definition recover_from_log :: "nat \<Rightarrow> 'a klog_scheme \<Rightarrow> 'a klog_scheme kres" where
  "recover_from_log me s =
     kbind (read_head me s) (\<lambda>s.
     kbind (install_trans me True s) (\<lambda>s.
     write_head me (logset (\<lambda>l. l\<lparr>l_n := 0\<rparr>) s)))"

definition initlog :: "nat \<Rightarrow> cint \<Rightarrow> uint \<Rightarrow> 'a klog_scheme \<Rightarrow> 'a klog_scheme kres" where
  "initlog me dev logstart s =
     (if BSIZE \<le> LOGHEADER_SIZE then Panic ''initlog: too big logheader''
      else recover_from_log me (logset (\<lambda>l. l\<lparr>l_start := logstart, l_dev := dev\<rparr>) s))"

text \<open>One turn of the loop of \<^verbatim>\<open>begin_op\<close>: it takes its place in the transaction, or sleeps.\<close>

definition begin_op :: "nat \<Rightarrow> 'a klog_scheme \<Rightarrow> unit segment \<times> 'a klog_scheme" where
  "begin_op me s =
     (let l = log s in
      if l_committing l \<noteq> 0 then (Sleeps, sleep me ChanLog s)
      else if of_nat LOGBLOCKS <s l_n l + (l_outstanding l + 1) * of_nat MAXOPBLOCKS then (Sleeps, sleep me ChanLog s)
      else (Done (), logset (\<lambda>l. l\<lparr>l_outstanding := l_outstanding l + 1\<rparr>) s))"

definition end_op_lock :: "nat \<Rightarrow> 'a klog_scheme \<Rightarrow> (bool \<times> 'a klog_scheme) kres" where
  "end_op_lock me s =
     (let s = logset (\<lambda>l. l\<lparr>l_outstanding := l_outstanding l - 1\<rparr>) s in
      if l_committing (log s) \<noteq> 0 then Panic ''log.committing''
      else if l_outstanding (log s) = 0 then Ret (True, logset (\<lambda>l. l\<lparr>l_committing := 1\<rparr>) s)
      else Ret (False, wakeup (Some me) ChanLog s))"

fun write_log_loop :: "nat \<Rightarrow> nat list \<Rightarrow> 'a klog_scheme \<Rightarrow> 'a klog_scheme kres" where
  "write_log_loop me [] s = Ret s"
| "write_log_loop me (tail # ts) s =
     kbind (bread me (l_dev (log s)) (l_start (log s) + of_nat tail + 1) s) (\<lambda>(to, s).
     kbind (bread me (l_dev (log s)) (l_block (log s) ! tail) s) (\<lambda>(from, s).
     let s = bdata to (\<lambda>_. b_data (bufs s ! from)) s in
     kbind (bwrite me to s) (\<lambda>s.
     kbind (brelse me from s) (\<lambda>s.
     kbind (brelse me to s) (\<lambda>s.
     write_log_loop me ts s)))))"

definition write_log :: "nat \<Rightarrow> 'a klog_scheme \<Rightarrow> 'a klog_scheme kres" where
  "write_log me s = write_log_loop me (upto_int (l_n (log s))) s"

definition commit :: "nat \<Rightarrow> 'a klog_scheme \<Rightarrow> 'a klog_scheme kres" where
  "commit me s =
     (if 0 <s l_n (log s)
      then kbind (write_log me s) (\<lambda>s.
           kbind (write_head me s) (\<lambda>s.
           kbind (install_trans me False s) (\<lambda>s.
           write_head me (logset (\<lambda>l. l\<lparr>l_n := 0\<rparr>) s))))
      else Ret s)"

definition end_op_done :: "nat \<Rightarrow> 'a klog_scheme \<Rightarrow> 'a klog_scheme" where
  "end_op_done me s = wakeup (Some me) ChanLog (logset (\<lambda>l. l\<lparr>l_committing := 0\<rparr>) s)"

definition end_op :: "nat \<Rightarrow> 'a klog_scheme \<Rightarrow> 'a klog_scheme kres" where
  "end_op me s =
     kbind (end_op_lock me s) (\<lambda>(do_commit, s).
     if do_commit then kbind (commit me s) (\<lambda>s. Ret (end_op_done me s)) else Ret s)"

definition log_write :: "nat \<Rightarrow> 'a klog_scheme \<Rightarrow> 'a klog_scheme kres" where
  "log_write b s =
     (let l = log s; bno = b_blockno (bufs s ! b) in
      if of_nat LOGBLOCKS \<le>s l_n l then Panic ''too big a transaction''
      else if l_outstanding l <s 1 then Panic ''log_write outside of trans''
      else let i = (case scan (\<lambda>x. x = bno) (take (nat (sint (l_n l))) (l_block l)) of
                      Some i \<Rightarrow> i | None \<Rightarrow> nat (sint (l_n l)));
               s = logset (\<lambda>l. l\<lparr>l_block := (l_block l)[i := bno]\<rparr>) s
           in Ret (if i = nat (sint (l_n l)) then logset (\<lambda>l. l\<lparr>l_n := l_n l + 1\<rparr>) (bpin b s) else s))"

section \<open>Copying one block under the log\<close>

text \<open>Copying block \<open>src\<close> to block \<open>dst\<close>, in the cache and on the disk.\<close>

definition acopy :: "uint \<Rightarrow> uint \<Rightarrow> acache \<Rightarrow> acache" where
  "acopy src dst A = A\<lparr>a_view := (a_view A)(dst := a_view A src), a_disk := (a_disk A)(dst := a_view A src),
     a_writes := a_writes A @ [(dst, a_view A src)]\<rparr>"

lemma acopy_fields [simp]:
  "a_view (acopy x y A) = (a_view A)(y := a_view A x)" "a_disk (acopy x y A) = (a_disk A)(y := a_view A x)"
  "a_writes (acopy x y A) = a_writes A @ [(y, a_view A x)]" "a_refs (acopy x y A) = a_refs A" "a_held (acopy x y A) = a_held A"
  by (simp_all add: acopy_def)

lemma acache_fields [simp]:
  "a_view (aread b A) = a_view A" "a_view (arelse b A) = a_view A" "a_view (awrite b A) = a_view A"
  "a_view (adata b f A) = (a_view A)(b := f (a_view A b))" "a_view (apin b A) = a_view A" "a_view (aunpin b A) = a_view A"
  "a_held (aread b A) = (a_held A)(b := True)" "a_held (arelse b A) = (a_held A)(b := False)" "a_held (awrite b A) = a_held A"
  "a_held (adata b f A) = a_held A" "a_held (apin b A) = a_held A" "a_held (aunpin b A) = a_held A"
  "a_disk (aread b A) = a_disk A" "a_disk (arelse b A) = a_disk A" "a_disk (awrite b A) = (a_disk A)(b := a_view A b)"
  "a_disk (adata b f A) = a_disk A" "a_disk (apin b A) = a_disk A" "a_disk (aunpin b A) = a_disk A"
  "a_writes (aread b A) = a_writes A" "a_writes (arelse b A) = a_writes A" "a_writes (awrite b A) = a_writes A @ [(b, a_view A b)]"
  "a_writes (adata b f A) = a_writes A" "a_writes (apin b A) = a_writes A" "a_writes (aunpin b A) = a_writes A"
  by (simp_all add: aread_def arelse_def awrite_def adata_def apin_def aunpin_def)

lemma only_bio_log: "only_bio s s' \<Longrightarrow> log s' = log s"
proof -
  assume "only_bio s s'"
  then have "log (bio_frame s') = log (bio_frame s)" by (simp add: only_bio_def)
  then show ?thesis by (simp add: bio_frame_def)
qed

lemma cache_inv_logset [simp]: "cache_inv me (logset f s) = cache_inv me s"
  by (simp add: cache_inv_def logset_def)

lemma only_bio_bdata [simp]: "only_bio s (bdata i f t) = only_bio s t"
  by (simp add: bdata_def)

lemma only_bio_bunpin [simp]: "only_bio s (bunpin i t) = only_bio s t"
  by (simp add: bunpin_def)

lemma bdata_log [simp]: "log (bdata i f s) = log s"
  by (simp add: bdata_def bufset_def)

text \<open>Two buffers in hand, the state every copy of the log starts from.\<close>

lemma bread2_ok:
  assumes inv: "cache_inv me s" and nh: "\<not> a_held (cache_abs s) x" "\<not> a_held (cache_abs s) y" and xy: "x \<noteq> y"
    and rx: "room_for x (cache_abs s)" and ry: "room_for y (aread x (cache_abs s))"
    and small: "a_refs (cache_abs s) x < 2 ^ 32 - 1" "a_refs (cache_abs s) y < 2 ^ 32 - 1"
  obtains i j s1 s2 where "bread me ROOTDEV x s = Ret (i, s1)" and "bread me ROOTDEV y s1 = Ret (j, s2)"
    and "cache_inv me s2" and "cache_abs s2 = aread y (aread x (cache_abs s))" and "buf_slot s2 x = Some i" and "buf_slot s2 y = Some j"
    and "b_data (bufs s2 ! i) = a_view (cache_abs s) x" and "b_data (bufs s2 ! j) = a_view (cache_abs s) y"
    and "only_bio s s1" and "only_bio s s2"
proof -
  obtain i s1 where 1: "bread me ROOTDEV x s = Ret (i, s1)" "cache_inv me s1" "buf_slot s1 x = Some i"
    "cache_abs s1 = aread x (cache_abs s)" "only_bio s s1"
    by (rule bread_ok [OF inv nh(1) rx small(1)]) blast
  have "\<not> a_held (cache_abs s1) y" "room_for y (cache_abs s1)" "a_refs (cache_abs s1) y < 2 ^ 32 - 1"
    using nh xy ry small by (simp_all add: 1(4))
  then obtain j s2 where 2: "bread me ROOTDEV y s1 = Ret (j, s2)" "cache_inv me s2" "buf_slot s2 y = Some j"
    "cache_abs s2 = aread y (cache_abs s1)" "only_bio s1 s2"
    "b_data (bufs s2 ! j) = a_view (cache_abs s1) y" "\<And>c. 0 < a_refs (cache_abs s1) c \<Longrightarrow> buf_slot s2 c = buf_slot s1 c"
    by (rule bread_ok [OF 1(2)]) blast
  have sx: "buf_slot s2 x = Some i" using 2(7) [of x] 1(3,4) by simp
  then have "b_data (bufs s2 ! i) = a_view (cache_abs s) x"
    using slot_facts(2) [OF 2(2) sx] by (simp add: 1(4) 2(4) xy)
  then show thesis using that [OF 1(1) 2(1,2) _ sx 2(3)] 1 2 only_bio_trans [OF 1(5) 2(5)] by simp
qed

lemma copy_step:
  assumes inv: "cache_inv me s" and nh: "\<And>b. \<not> a_held (cache_abs s) b"
    and refs: "a_refs (cache_abs s) (l_block (log s) ! t) = 1" "a_refs (cache_abs s) (l_start (log s) + of_nat t + 1) = 0"
    and room: "card {c. 0 < a_refs (cache_abs s) c} < NBUF" and dev: "l_dev (log s) = ROOTDEV"
  obtains s' where "write_log_loop me (t # ts) s = write_log_loop me ts s'" and "cache_inv me s'" and "only_bio s s'"
    and "cache_abs s' = acopy (l_block (log s) ! t) (l_start (log s) + of_nat t + 1) (cache_abs s)"
proof -
  let ?A = "cache_abs s" and ?x = "l_start (log s) + of_nat t + 1" and ?y = "l_block (log s) ! t"
  have xy: "?x \<noteq> ?y" using refs by auto
  have "room_for ?x ?A" "room_for ?y (aread ?x ?A)" using room refs xy by (simp_all add: room_for_def)
  then obtain i j s1 s2 where b: "bread me ROOTDEV ?x s = Ret (i, s1)" "bread me ROOTDEV ?y s1 = Ret (j, s2)" "cache_inv me s2"
    "cache_abs s2 = aread ?y (aread ?x ?A)" "buf_slot s2 ?x = Some i" "buf_slot s2 ?y = Some j"
    "b_data (bufs s2 ! j) = a_view ?A ?y" "only_bio s s1" "only_bio s s2"
    by (rule bread2_ok [OF inv nh nh xy]) (use refs in simp_all)
  let ?s3 = "bdata i (\<lambda>_. a_view ?A ?y) s2"
  have "0 < a_refs (cache_abs s2) ?x" by (simp add: b(4) xy)
  note d = bdata_ok [OF b(3) b(5) this, of "\<lambda>_. a_view ?A ?y"]
  obtain s4 where w: "bwrite me i ?s3 = Ret s4" "cache_inv me s4" "buf_slot s4 = buf_slot s2"
    "cache_abs s4 = awrite ?x (cache_abs ?s3)" "only_bio ?s3 s4"
    by (rule bwrite_ok [OF d(1), of ?x i]) (use xy in \<open>simp_all add: d b(4,5)\<close>)
  obtain s5 where r: "brelse me j s4 = Ret s5" "cache_inv me s5" "buf_slot s5 = buf_slot s2"
    "cache_abs s5 = arelse ?y (cache_abs s4)" "only_bio s4 s5"
    by (rule brelse_ok [OF w(2), of ?y j]) (use xy refs in \<open>simp_all add: w d b(4,6)\<close>)
  obtain s6 where q: "brelse me i s5 = Ret s6" "cache_inv me s6"
    "cache_abs s6 = arelse ?x (cache_abs s5)" "only_bio s5 s6"
    by (rule brelse_ok [OF r(2), of ?x i]) (use xy refs in \<open>simp_all add: w d r b(4,5)\<close>)
  have l: "log s1 = log s" "log s2 = log s" by (rule only_bio_log, fact)+
  have "write_log_loop me (t # ts) s = write_log_loop me ts s6"
    using b w r q dev l by simp
  moreover have "only_bio s s6" using b(9) w(5) r(5) q(4) only_bio_trans by (metis only_bio_bdata)
  moreover have "cache_abs s6 = acopy ?y ?x ?A"
    by (rule acache.equality) (use refs nh xy in \<open>simp_all add: q r w d b(4) fun_eq_iff\<close>)
  ultimately show thesis using that q(2) by blast
qed

lemma fold_consputc_bio [simp]:
  "bufs (fold consputc cs s) = bufs s" "lru (fold consputc cs s) = lru s" "disk (fold consputc cs s) = disk s"
  "dwrites (fold consputc cs s) = dwrites s" "procs (fold consputc cs s) = procs s"
  by (induction cs arbitrary: s) (simp_all add: consputc_def uartputc_sync_def)

lemma fold_consputc_log [simp]: "log (fold consputc cs s) = log s"
  by (induction cs arbitrary: s) (simp_all add: consputc_def uartputc_sync_def)

lemma printk_fields [simp]:
  "bufs (printk f as s) = bufs s" "lru (printk f as s) = lru s" "disk (printk f as s) = disk s"
  "dwrites (printk f as s) = dwrites s" "procs (printk f as s) = procs s"
  by (simp_all add: printk_def)

lemma log_printk [simp]: "log (printk f as s) = log s"
  by (simp add: printk_def)

lemma install_step:
  assumes inv: "cache_inv me s" and nh: "\<And>b. \<not> a_held (cache_abs s) b"
    and refs: "a_refs (cache_abs s) (l_block (log s) ! t) = (if recovering then 0 else 1)"
      "a_refs (cache_abs s) (l_start (log s) + of_nat t + 1) = 0"
    and ne: "l_block (log s) ! t \<noteq> l_start (log s) + of_nat t + 1"
    and clean: "a_view (cache_abs s) (l_start (log s) + of_nat t + 1) = a_disk (cache_abs s) (l_start (log s) + of_nat t + 1)"
    and room: "card {c. 0 < a_refs (cache_abs s) c} + (if recovering then 1 else 0) < NBUF" and dev: "l_dev (log s) = ROOTDEV"
  obtains s' where "install_loop me recovering (t # ts) s = install_loop me recovering ts s'" and "cache_inv me s'"
    and "log s' = log s" and "cache_abs s' = (acopy (l_start (log s) + of_nat t + 1) (l_block (log s) ! t) (cache_abs s))
      \<lparr>a_refs := (a_refs (cache_abs s))(l_block (log s) ! t := 0)\<rparr>"
proof -
  let ?A = "cache_abs s" and ?x = "l_start (log s) + of_nat t + 1" and ?y = "l_block (log s) ! t"
  define s0 where "s0 = (if recovering
               then printk (''recovering tail %d dst %d'' @ [CHR 0x0a]) [int_slot (of_nat t), int_slot ?y] s
               else s)"
  have c0: "bufs s0 = bufs s" "disk s0 = disk s" "dwrites s0 = dwrites s" "lru s0 = lru s" "procs s0 = procs s" and l0: "log s0 = log s"
    by (simp_all add: s0_def)
  have A0: "cache_abs s0 = ?A" by (rule cache_cong(2) [OF c0(1-3)])
  have inv0: "cache_inv me s0" using inv by (simp add: cache_inv_def c0)
  have xy: "?x \<noteq> ?y" using ne by simp
  have rx: "room_for ?x ?A" using room by (simp add: room_for_def split: if_splits)
  have ry: "room_for ?y (aread ?x ?A)"
  proof (cases recovering)
    case True
    have "card {c. 0 < a_refs (aread ?x ?A) c} \<le> card (insert ?x {c. 0 < a_refs ?A c})" by (rule card_mono) auto
    also have "\<dots> \<le> card {c. 0 < a_refs ?A c} + 1" by (simp add: card_insert_if)
    finally show ?thesis using room True by (simp add: room_for_def)
  qed (use refs xy in \<open>simp add: room_for_def\<close>)
  obtain i j s1 s2 where b: "bread me ROOTDEV ?x s0 = Ret (i, s1)" "bread me ROOTDEV ?y s1 = Ret (j, s2)" "cache_inv me s2"
    "cache_abs s2 = aread ?y (aread ?x ?A)" "buf_slot s2 ?x = Some i" "buf_slot s2 ?y = Some j"
    "b_data (bufs s2 ! i) = a_view ?A ?x" "only_bio s0 s1" "only_bio s0 s2"
    by (rule bread2_ok [OF inv0, of ?x ?y]) (use refs nh xy rx ry in \<open>simp_all add: A0\<close>)
  define v where "v = a_view ?A ?x"
  let ?s3 = "bdata j (\<lambda>_. v) s2"
  have "0 < a_refs (cache_abs s2) ?y" by (simp add: b(4) xy)
  note d = bdata_ok [OF b(3) b(6) this, of "\<lambda>_. v"]
  obtain s4 where w: "bwrite me j ?s3 = Ret s4" "cache_inv me s4" "buf_slot s4 = buf_slot s2"
    "cache_abs s4 = awrite ?y (cache_abs ?s3)" "only_bio ?s3 s4"
    by (rule bwrite_ok [OF d(1), of ?y j]) (use xy in \<open>simp_all add: d b(4,6)\<close>)
  have A4: "cache_abs s4 = awrite ?y (adata ?y (\<lambda>_. v) (aread ?y (aread ?x ?A)))" by (simp add: w(4) d(3) b(4))
  have vx: "a_view ?A ?x = v" "a_disk ?A ?x = v" using clean by (simp_all add: v_def)
  define s5 where "s5 = (if recovering then s4 else bunpin j s4)"
  have sl: "buf_slot s4 ?y = Some j" using b(6) w(3) by simp
  have u: "cache_inv me s5 \<and> buf_slot s5 = buf_slot s2 \<and> cache_abs s5 = (if recovering then cache_abs s4 else aunpin ?y (cache_abs s4))"
  proof (cases recovering)
    case False
    have "a_refs (cache_abs s4) ?y = 2" using xy refs False by (simp add: A4)
    then show ?thesis using False bunpin_ok [OF w(2) sl] w(3) by (simp add: s5_def)
  qed (use w in \<open>simp add: s5_def\<close>)
  obtain s6 where r: "brelse me i s5 = Ret s6" "cache_inv me s6" "buf_slot s6 = buf_slot s2"
    "cache_abs s6 = arelse ?x (cache_abs s5)" "only_bio s5 s6"
    by (rule brelse_ok [of me s5 ?x i]) (use xy refs u vx in \<open>simp_all add: A4 b(5)\<close>)
  obtain s7 where q: "brelse me j s6 = Ret s7" "cache_inv me s7"
    "cache_abs s7 = arelse ?y (cache_abs s6)" "only_bio s6 s7"
    by (rule brelse_ok [OF r(2), of ?y j]) (use xy refs u in \<open>simp_all add: r A4 b(6) split: if_splits\<close>)
  have l: "log s1 = log s0" "log s2 = log s0" by (rule only_bio_log, fact)+
  have "install_loop me recovering (t # ts) s = install_loop me recovering ts s7"
    using b w r q dev l l0 vx(1) by (simp add: s0_def [symmetric] s5_def [symmetric])
  moreover have "log s7 = log s"
  proof -
    have "log s4 = log s0" using only_bio_log [OF w(5)] l by simp
    then have "log s5 = log s0" by (simp add: s5_def bunpin_def bufset_def)
    then show ?thesis using only_bio_log [OF r(5)] only_bio_log [OF q(4)] l0 by simp
  qed
  moreover have "cache_abs s7 = (acopy ?x ?y ?A)\<lparr>a_refs := (a_refs ?A)(?y := 0)\<rparr>"
    by (rule acache.equality) (use refs nh xy u vx in \<open>simp_all add: q r A4 fun_eq_iff\<close>)
  ultimately show thesis using that q(2) by blast
qed

section \<open>Sequences of disk writes\<close>

definition apply_writes :: "('b \<times> 'v) list \<Rightarrow> ('b \<Rightarrow> 'v) \<Rightarrow> 'b \<Rightarrow> 'v" where
  "apply_writes W d = fold (\<lambda>(b, v) d. d(b := v)) W d"

definition awrites :: "(uint \<times> uchar list) list \<Rightarrow> acache \<Rightarrow> acache" where
  "awrites W A = A\<lparr>a_view := apply_writes W (a_view A), a_disk := apply_writes W (a_disk A), a_writes := a_writes A @ W\<rparr>"

lemma apply_writes_simps [simp]:
  "apply_writes [] d = d" "apply_writes ((b, v) # W) d = apply_writes W (d(b := v))"
  by (simp_all add: apply_writes_def)

lemma apply_writes_append [simp]: "apply_writes (V @ W) d = apply_writes W (apply_writes V d)"
  by (simp add: apply_writes_def)

lemma apply_writes_other: "b \<notin> fst ` set W \<Longrightarrow> apply_writes W d b = d b"
  by (induction W arbitrary: d) auto

text \<open>Writes whose value depends only on the block written.\<close>

lemma apply_writes_fun:
  "apply_writes (map (\<lambda>t. (f t, V (f t))) ts) d b = (if b \<in> f ` set ts then V b else d b)"
  by (induction ts arbitrary: d) auto

lemma apply_writes_inj:
  "inj_on f (set ts) \<Longrightarrow> distinct ts \<Longrightarrow> t \<in> set ts \<Longrightarrow> apply_writes (map (\<lambda>t. (f t, V t)) ts) d (f t) = V t"
proof (induction ts arbitrary: d)
  case (Cons u ts)
  show ?case
  proof (cases "u = t")
    case True
    then have "f t \<notin> fst ` set (map (\<lambda>t. (f t, V t)) ts)" using Cons.prems by (auto simp: inj_on_def)
    then show ?thesis using True by (simp add: apply_writes_other)
  qed (use Cons in auto)
qed simp

lemma awrites_fields [simp]:
  "a_view (awrites W A) = apply_writes W (a_view A)" "a_disk (awrites W A) = apply_writes W (a_disk A)"
  "a_writes (awrites W A) = a_writes A @ W" "a_refs (awrites W A) = a_refs A" "a_held (awrites W A) = a_held A"
  by (simp_all add: awrites_def)

lemma awrites_simps [simp]: "awrites [] A = A" "awrites W (acopy x y A) = awrites ((y, a_view A x) # W) A"
  by (simp_all add: awrites_def acopy_def)

lemma unused_clean:
  assumes inv: "cache_inv me s" and "a_refs (cache_abs s) b = 0"
  shows "a_view (cache_abs s) b = a_disk (cache_abs s) b"
proof (cases "buf_slot s b")
  case None
  then show ?thesis by (simp add: cache_abs_def)
next
  case (Some i)
  then have "i < NBUF" "b_dev (bufs s ! i) = ROOTDEV" "b_blockno (bufs s ! i) = b" using buf_slot_iff [OF inv, of b i] by simp_all
  moreover have "b_refcnt (bufs s ! i) = 0" using assms(2) Some by (simp add: cache_abs_def unat_eq_zero)
  ultimately show ?thesis using cache_invD(5) [OF inv, of i] Some by (simp add: buf_inv_def cache_abs_def)
qed

lemma write_log_loop_ok:
  assumes "cache_inv me s" and "\<And>b. \<not> a_held (cache_abs s) b"
    and "\<forall>t \<in> set ts. a_refs (cache_abs s) (l_block (log s) ! t) = 1 \<and> a_refs (cache_abs s) (l_start (log s) + of_nat t + 1) = 0"
    and "card {c. 0 < a_refs (cache_abs s) c} < NBUF" and "l_dev (log s) = ROOTDEV"
  obtains s' where "write_log_loop me ts s = Ret s'" and "cache_inv me s'" and "only_bio s s'"
    and "cache_abs s' = awrites (map (\<lambda>t. (l_start (log s) + of_nat t + 1, a_view (cache_abs s) (l_block (log s) ! t))) ts) (cache_abs s)"
  using assms
proof (induction ts arbitrary: s thesis)
  case (Cons t ts)
  let ?x = "l_start (log s) + of_nat t + 1"
  obtain s1 where 1: "write_log_loop me (t # ts) s = write_log_loop me ts s1" "cache_inv me s1" "only_bio s s1"
    "cache_abs s1 = acopy (l_block (log s) ! t) ?x (cache_abs s)"
    by (rule copy_step [OF Cons.prems(2,3), of t ts]) (use Cons.prems in simp_all)
  have l: "log s1 = log s" by (rule only_bio_log [OF 1(3)])
  obtain s2 where 2: "write_log_loop me ts s1 = Ret s2" "cache_inv me s2" "only_bio s1 s2"
    "cache_abs s2 = awrites (map (\<lambda>t. (l_start (log s1) + of_nat t + 1, a_view (cache_abs s1) (l_block (log s1) ! t))) ts) (cache_abs s1)"
    by (rule Cons.IH [OF _ 1(2)]) (use Cons.prems in \<open>simp_all add: 1(4) l\<close>)
  have ne: "l_block (log s) ! u \<noteq> ?x" if "u \<in> set ts" for u using Cons.prems(4) that by auto
  show ?case
  proof (rule Cons.prems(1) [of s2])
    show "only_bio s s2" using 1(3) 2(3) by (rule only_bio_trans)
    show "cache_abs s2 = awrites (map (\<lambda>t. (l_start (log s) + of_nat t + 1, a_view (cache_abs s) (l_block (log s) ! t))) (t # ts)) (cache_abs s)"
      using ne by (simp add: 2(4) 1(4) l cong: map_cong)
  qed (use 1 2 in simp_all)
qed simp

text \<open>After an install the blocks installed are no longer pinned.\<close>

definition unpinned :: "uint set \<Rightarrow> acache \<Rightarrow> acache" where
  "unpinned B A = A\<lparr>a_refs := (\<lambda>b. if b \<in> B then 0 else a_refs A b)\<rparr>"

lemma unpinned_fields [simp]:
  "a_view (unpinned B A) = a_view A" "a_disk (unpinned B A) = a_disk A" "a_writes (unpinned B A) = a_writes A"
  "a_held (unpinned B A) = a_held A" "a_refs (unpinned B A) b = (if b \<in> B then 0 else a_refs A b)"
  by (simp_all add: unpinned_def)

lemma install_loop_ok:
  assumes "cache_inv me s" and "\<And>b. \<not> a_held (cache_abs s) b"
    and "\<forall>t \<in> set ts. a_refs (cache_abs s) (l_block (log s) ! t) = (if recovering then 0 else 1)
      \<and> a_refs (cache_abs s) (l_start (log s) + of_nat t + 1) = 0"
    and "\<forall>t \<in> set ts. \<forall>u \<in> set ts. l_block (log s) ! t \<noteq> l_start (log s) + of_nat u + 1"
    and "distinct (map (\<lambda>t. l_block (log s) ! t) ts)"
    and "card {c. 0 < a_refs (cache_abs s) c} + (if recovering then 1 else 0) < NBUF" and "l_dev (log s) = ROOTDEV"
  obtains s' where "install_loop me recovering ts s = Ret s'" and "cache_inv me s'" and "log s' = log s"
    and "cache_abs s' = unpinned ((\<lambda>t. l_block (log s) ! t) ` set ts)
      (awrites (map (\<lambda>t. (l_block (log s) ! t, a_view (cache_abs s) (l_start (log s) + of_nat t + 1))) ts) (cache_abs s))"
  using assms
proof (induction ts arbitrary: s thesis)
  case Nil
  show ?case by (rule Nil.prems(1) [of s]) (use Nil.prems in \<open>simp_all add: unpinned_def\<close>)
next
  case (Cons t ts)
  let ?x = "l_start (log s) + of_nat t + 1" and ?y = "l_block (log s) ! t" and ?A = "cache_abs s"
  obtain s1 where 1: "install_loop me recovering (t # ts) s = install_loop me recovering ts s1" "cache_inv me s1" "log s1 = log s"
    "cache_abs s1 = (acopy ?x ?y ?A)\<lparr>a_refs := (a_refs ?A)(?y := 0)\<rparr>"
    by (rule install_step [OF Cons.prems(2,3), of t recovering ts]) (use Cons.prems unused_clean [OF Cons.prems(2), of ?x] in simp_all)
  have A1: "a_refs (cache_abs s1) = (a_refs ?A)(?y := 0)" "a_view (cache_abs s1) = (a_view ?A)(?y := a_view ?A ?x)" "a_held (cache_abs s1) = a_held ?A"
    by (simp_all add: 1(4))
  have "card {c. 0 < a_refs (cache_abs s1) c} \<le> card {c. 0 < a_refs ?A c}" by (rule card_mono) (auto simp: A1 split: if_splits)
  then have r1: "card {c. 0 < a_refs (cache_abs s1) c} + (if recovering then 1 else 0) < NBUF" using Cons.prems(7) by linarith
  have r2: "\<forall>u \<in> set ts. a_refs (cache_abs s1) (l_block (log s) ! u) = (if recovering then 0 else 1)
      \<and> a_refs (cache_abs s1) (l_start (log s) + of_nat u + 1) = 0"
  proof -
    have "?y \<notin> (\<lambda>t. l_block (log s) ! t) ` set ts" using Cons.prems(6) by simp
    then have "\<forall>u \<in> set ts. l_block (log s) ! u \<noteq> ?y" by (metis imageI)
    then show ?thesis using Cons.prems(4) by (auto simp: A1)
  qed
  obtain s2 where 2: "install_loop me recovering ts s1 = Ret s2" "cache_inv me s2" "log s2 = log s1"
    "cache_abs s2 = unpinned ((\<lambda>t. l_block (log s1) ! t) ` set ts)
      (awrites (map (\<lambda>t. (l_block (log s1) ! t, a_view (cache_abs s1) (l_start (log s1) + of_nat t + 1))) ts) (cache_abs s1))"
    by (rule Cons.IH [OF _ 1(2)]) (use Cons.prems(3,5,6,8) r1 r2 in \<open>simp_all add: A1(3) 1(3)\<close>)
  show ?case
  proof (rule Cons.prems(1) [of s2])
    have m: "map (\<lambda>u. (l_block (log s) ! u, a_view (cache_abs s1) (l_start (log s) + of_nat u + 1))) ts
        = map (\<lambda>u. (l_block (log s) ! u, a_view ?A (l_start (log s) + of_nat u + 1))) ts"
      using Cons.prems(5) by (auto simp: A1)
    show "cache_abs s2 = unpinned ((\<lambda>t. l_block (log s) ! t) ` set (t # ts))
      (awrites (map (\<lambda>t. (l_block (log s) ! t, a_view ?A (l_start (log s) + of_nat t + 1))) (t # ts)) ?A)"
      unfolding 2(4) 1(3) m by (rule acache.equality) (simp_all add: 1(4) fun_eq_iff)
  qed (use 1 2 in simp_all)
qed

section \<open>The header block\<close>

definition put_head :: "cint \<Rightarrow> cint list \<Rightarrow> uchar list \<Rightarrow> uchar list" where
  "put_head n bl d = put_head_blocks bl (upto_int n) (wr32 0 n d)"

lemma put_head_blocks_length:
  "LOGHEADER_SIZE \<le> length d \<Longrightarrow> \<forall>i \<in> set is. i < LOGBLOCKS \<Longrightarrow> length (put_head_blocks bl is d) = length d"
  by (induction "is" arbitrary: d) (simp_all add: LOGHEADER_SIZE_def)

lemma put_head_blocks_n:
  "LOGHEADER_SIZE \<le> length d \<Longrightarrow> \<forall>i \<in> set is. i < LOGBLOCKS \<Longrightarrow> rd32 0 (put_head_blocks bl is d) = rd32 0 d"
  by (induction "is" arbitrary: d) (simp_all add: LOGHEADER_SIZE_def)

lemma put_head_blocks_entry:
  "LOGHEADER_SIZE \<le> length d \<Longrightarrow> \<forall>i \<in> set is. i < LOGBLOCKS \<Longrightarrow> k < LOGBLOCKS \<Longrightarrow>
   rd32 (4 + 4 * k) (put_head_blocks bl is d) = (if k \<in> set is then bl ! k else rd32 (4 + 4 * k) d)"
proof (induction "is" arbitrary: d)
  case (Cons i "is")
  have "rd32 (4 + 4 * k) (wr32 (4 + 4 * i) (bl ! i) d) = (if k = i then bl ! k else rd32 (4 + 4 * k) d)"
    using Cons.prems by (cases k i rule: linorder_cases) (simp_all add: LOGHEADER_SIZE_def)
  then show ?case using Cons by (simp add: LOGHEADER_SIZE_def)
qed simp

lemma get_head_blocks_eq:
  "n \<le> length bl \<Longrightarrow> get_head_blocks d [0..<n] bl = map (\<lambda>i. rd32 (4 + 4 * i) d) [0..<n] @ drop n bl"
proof -
  have fold: "get_head_blocks d is bl = fold (\<lambda>i bl. bl[i := rd32 (4 + 4 * i) d]) is bl" for "is" bl
    by (induction "is" arbitrary: bl) simp_all
  show "n \<le> length bl \<Longrightarrow> get_head_blocks d [0..<n] bl = map (\<lambda>i. rd32 (4 + 4 * i) d) [0..<n] @ drop n bl"
  proof (induction n)
    case (Suc n)
    then show ?case by (simp add: fold list_update_append Cons_nth_drop_Suc [symmetric])
  qed (simp add: fold)
qed

lemma write_head_ok:
  assumes inv: "cache_inv me s" and nh: "\<And>b. \<not> a_held (cache_abs s) b" and refs: "a_refs (cache_abs s) (l_start (log s)) = 0"
    and room: "card {c. 0 < a_refs (cache_abs s) c} < NBUF" and dev: "l_dev (log s) = ROOTDEV"
  obtains s' where "write_head me s = Ret s'" and "cache_inv me s'" and "log s' = log s"
    and "cache_abs s' = awrites [(l_start (log s), put_head (l_n (log s)) (l_block (log s)) (a_view (cache_abs s) (l_start (log s))))] (cache_abs s)"
proof -
  let ?b = "l_start (log s)" and ?l = "log s"
  obtain i s1 where b: "bread me ROOTDEV ?b s = Ret (i, s1)" "cache_inv me s1" "buf_slot s1 ?b = Some i"
    "cache_abs s1 = aread ?b (cache_abs s)" "only_bio s s1"
    by (rule bread_ok [OF inv nh, of ?b]) (use room refs in \<open>auto simp: room_for_def\<close>)
  have l: "log s1 = ?l" by (rule only_bio_log [OF b(5)])
  let ?s2 = "bdata i (wr32 0 (l_n ?l)) s1"
  let ?s3 = "bdata i (put_head_blocks (l_block ?l) (upto_int (l_n ?l))) ?s2"
  have "0 < a_refs (cache_abs s1) ?b" by (simp add: b(4))
  note d2 = bdata_ok [OF b(2,3) this, of "wr32 0 (l_n ?l)"]
  have "0 < a_refs (cache_abs ?s2) ?b" "buf_slot ?s2 ?b = Some i" by (simp_all add: d2 b(3,4))
  note d3 = bdata_ok [OF d2(1) this(2,1), of "put_head_blocks (l_block ?l) (upto_int (l_n ?l))"]
  obtain s4 where w: "bwrite me i ?s3 = Ret s4" "cache_inv me s4" "buf_slot s4 = buf_slot ?s3" "cache_abs s4 = awrite ?b (cache_abs ?s3)"
    "only_bio ?s3 s4"
    by (rule bwrite_ok [OF d3(1), of ?b i]) (simp_all add: d3 d2 b(3,4))
  obtain s5 where r: "brelse me i s4 = Ret s5" "cache_inv me s5" "cache_abs s5 = arelse ?b (cache_abs s4)" "only_bio s4 s5"
    by (rule brelse_ok [OF w(2), of ?b i]) (simp_all add: w d3 d2 b(3,4))
  have "write_head me s = Ret s5" using b w r dev l by (simp add: write_head_def)
  moreover have "log s5 = ?l" using only_bio_log [OF w(5)] only_bio_log [OF r(4)] l by simp
  moreover have "cache_abs s5 = awrites [(?b, put_head (l_n ?l) (l_block ?l) (a_view (cache_abs s) ?b))] (cache_abs s)"
    by (rule acache.equality) (use refs nh in \<open>simp_all add: r w d3 d2 b(4) put_head_def fun_eq_iff\<close>)
  ultimately show thesis using that r(2) by blast
qed

definition loaded :: "uchar list \<Rightarrow> log \<Rightarrow> log" where
  "loaded d l = l\<lparr>l_n := rd32 0 d, l_block := get_head_blocks d (upto_int (rd32 0 d)) (l_block l)\<rparr>"

lemma read_head_ok:
  assumes inv: "cache_inv me s" and nh: "\<And>b. \<not> a_held (cache_abs s) b" and refs: "a_refs (cache_abs s) (l_start (log s)) = 0"
    and room: "card {c. 0 < a_refs (cache_abs s) c} < NBUF" and dev: "l_dev (log s) = ROOTDEV"
  obtains s' where "read_head me s = Ret s'" and "cache_inv me s'" and "log s' = loaded (a_view (cache_abs s) (l_start (log s))) (log s)"
    and "cache_abs s' = cache_abs s"
proof -
  let ?b = "l_start (log s)" and ?v = "a_view (cache_abs s) (l_start (log s))"
  obtain i s1 where b: "bread me ROOTDEV ?b s = Ret (i, s1)" "cache_inv me s1" "buf_slot s1 ?b = Some i"
    "cache_abs s1 = aread ?b (cache_abs s)" "only_bio s s1" "b_data (bufs s1 ! i) = ?v"
    by (rule bread_ok [OF inv nh, of ?b]) (use room refs in \<open>auto simp: room_for_def\<close>)
  have l: "log s1 = log s" by (rule only_bio_log [OF b(5)])
  define s2 where "s2 = logset (\<lambda>_. loaded ?v (log s)) s1"
  have c: "bufs s2 = bufs s1" "disk s2 = disk s1" "dwrites s2 = dwrites s1" by (simp_all add: s2_def logset_def)
  have sl: "buf_slot s2 ?b = Some i" and A2: "cache_abs s2 = aread ?b (cache_abs s)" using b(3,4) cache_cong [OF c] by simp_all
  have "cache_inv me s2" using b(2) by (simp add: s2_def)
  then obtain s3 where r: "brelse me i s2 = Ret s3" "cache_inv me s3" "cache_abs s3 = arelse ?b (cache_abs s2)" "only_bio s2 s3"
    by (rule brelse_ok [of me s2 ?b i])
      (use unused_clean [OF inv refs] sl in \<open>simp_all add: A2\<close>)
  have "read_head me s = Ret s3" using b r dev l by (simp add: read_head_def logset_def loaded_def s2_def)
  moreover have "log s3 = loaded ?v (log s)" using only_bio_log [OF r(4)] by (simp add: s2_def logset_def)
  moreover have "cache_abs s3 = cache_abs s"
    by (rule acache.equality) (use refs nh in \<open>simp_all add: r A2 fun_eq_iff\<close>)
  ultimately show thesis using that r(2) by blast
qed

section \<open>Commit\<close>

lemma NBUF_pos: "0 < NBUF"
  by (simp add: NBUF_def MAXOPBLOCKS_def)

definition log_blocks :: "log \<Rightarrow> cint list" where
  "log_blocks l = take (nat (sint (l_n l))) (l_block l)"

definition log_area :: "uint \<Rightarrow> uint set" where
  "log_area st = (\<lambda>t. st + of_nat t) ` {0..LOGBLOCKS}"

text \<open>
  No operation is outstanding: nothing is locked, and the blocks of the transaction are the only ones in
  use, pinned once each.
\<close>

definition log_ok :: "log \<Rightarrow> bool" where
  "log_ok l \<longleftrightarrow> l_dev l = ROOTDEV \<and> 0 \<le> sint (l_n l) \<and> sint (l_n l) \<le> int LOGBLOCKS \<and> length (l_block l) = LOGBLOCKS
     \<and> distinct (log_blocks l) \<and> set (log_blocks l) \<inter> log_area (l_start l) = {}"

definition log_quiet :: "nat \<Rightarrow> 'a klog_scheme \<Rightarrow> bool" where
  "log_quiet me s \<longleftrightarrow> cache_inv me s \<and> log_ok (log s) \<and> (\<forall>b. \<not> a_held (cache_abs s) b)
     \<and> (\<forall>b. a_refs (cache_abs s) b = (if b \<in> set (log_blocks (log s)) then 1 else 0))"

definition commit_writes :: "log \<Rightarrow> (uint \<Rightarrow> uchar list) \<Rightarrow> (uint \<times> uchar list) list" where
  "commit_writes l v =
     (let N = nat (sint (l_n l)); H = put_head (l_n l) (l_block l) (v (l_start l))
      in if 0 <s l_n l
         then map (\<lambda>t. (l_start l + of_nat t + 1, v (l_block l ! t))) [0..<N] @ [(l_start l, H)]
           @ map (\<lambda>t. (l_block l ! t, v (l_block l ! t))) [0..<N] @ [(l_start l, put_head 0 (l_block l) H)]
         else [])"

lemma log_block_inj:
  assumes "t \<le> LOGBLOCKS" and "u \<le> LOGBLOCKS" and "st + of_nat t = (st :: uint) + of_nat u"
  shows "t = u"
proof -
  have "unat (of_nat t :: uint) = unat (of_nat u :: uint)" using assms(3) by simp
  then show ?thesis using assms(1,2) by (simp add: unat_of_nat LOGBLOCKS_def MAXOPBLOCKS_def)
qed

lemma log_area_mem: "t < LOGBLOCKS \<Longrightarrow> st + of_nat t + 1 \<in> log_area st" "st \<in> log_area st"
proof -
  show "st \<in> log_area st" by (auto simp: log_area_def intro!: image_eqI [of _ _ 0])
  assume "t < LOGBLOCKS"
  then show "st + of_nat t + 1 \<in> log_area st"
    by (auto simp: log_area_def add.assoc intro!: image_eqI [of _ _ "t + 1"])
qed

lemma log_okD:
  assumes "log_ok l"
  defines "N \<equiv> nat (sint (l_n l))"
  shows "N \<le> LOGBLOCKS" "log_blocks l = map (\<lambda>t. l_block l ! t) [0..<N]" "distinct (map (\<lambda>t. l_block l ! t) [0..<N])"
    "\<And>t. t < N \<Longrightarrow> l_block l ! t \<in> set (log_blocks l)"
    "\<And>b. b \<in> set (log_blocks l) \<Longrightarrow> b \<notin> log_area (l_start l)"
    "l_dev l = ROOTDEV" "0 <s l_n l \<longleftrightarrow> 0 < N" "length (l_block l) = LOGBLOCKS"
proof -
  show N: "N \<le> LOGBLOCKS" "l_dev l = ROOTDEV" "length (l_block l) = LOGBLOCKS" using assms by (auto simp: log_ok_def)
  show eq: "log_blocks l = map (\<lambda>t. l_block l ! t) [0..<N]"
    unfolding log_blocks_def N_def [symmetric] using N by (intro nth_equalityI) simp_all
  then show "distinct (map (\<lambda>t. l_block l ! t) [0..<N])" using assms(1) by (simp add: log_ok_def)
  show "\<And>t. t < N \<Longrightarrow> l_block l ! t \<in> set (log_blocks l)" by (simp add: eq)
  show "\<And>b. b \<in> set (log_blocks l) \<Longrightarrow> b \<notin> log_area (l_start l)" using assms(1) by (auto simp: log_ok_def)
  show "0 <s l_n l \<longleftrightarrow> 0 < N" by (simp add: word_sless_alt N_def)
qed

lemma card_pinned: "log_quiet me s \<Longrightarrow> card {c. 0 < a_refs (cache_abs s) c} = nat (sint (l_n (log s)))"
proof -
  assume q: "log_quiet me s"
  then have "{c. 0 < a_refs (cache_abs s) c} = set (log_blocks (log s))" by (simp add: log_quiet_def)
  moreover have l: "log_ok (log s)" using q by (simp add: log_quiet_def)
  moreover have "distinct (log_blocks (log s))" using l by (simp add: log_ok_def)
  moreover have "length (log_blocks (log s)) = nat (sint (l_n (log s)))" using log_okD(2) [OF l] by simp
  ultimately show ?thesis by (simp add: distinct_card)
qed

lemma commit_ok:
  assumes q: "log_quiet me s" and few: "nat (sint (l_n (log s))) < NBUF"
  obtains s' where "commit me s = Ret s'" and "cache_inv me s'" and "log s' = (log s)\<lparr>l_n := 0\<rparr>"
    and "cache_abs s' = unpinned (set (log_blocks (log s))) (awrites (commit_writes (log s) (a_view (cache_abs s))) (cache_abs s))"
proof (cases "0 <s l_n (log s)")
  case True
  let ?l = "log s" and ?N = "nat (sint (l_n (log s)))" and ?A = "cache_abs s"
  let ?st = "l_start ?l" and ?v = "a_view (cache_abs s)"
  have l: "log_ok ?l" and inv: "cache_inv me s" and nh: "\<And>b. \<not> a_held ?A b"
    and refs: "\<And>b. a_refs ?A b = (if b \<in> set (log_blocks ?l) then 1 else 0)" using q by (simp_all add: log_quiet_def)
  note L = log_okD [OF l]
  have area: "a_refs ?A b = 0" if "b \<in> log_area ?st" for b using refs L(5) that by auto
  have one: "a_refs ?A (l_block ?l ! t) = 1" if "t < ?N" for t using refs L(4) [OF that] by simp
  have zero: "a_refs ?A (?st + of_nat t + 1) = 0" if "t < ?N" for t by (rule area, rule log_area_mem) (use that L(1) in simp)
  have card: "card {c. 0 < a_refs ?A c} < NBUF" using card_pinned [OF q] few by simp
  let ?W1 = "map (\<lambda>t. (?st + of_nat t + 1, ?v (l_block ?l ! t))) [0..<?N]"
  let ?H = "put_head (l_n ?l) (l_block ?l) (?v ?st)"
  let ?W3 = "map (\<lambda>t. (l_block ?l ! t, ?v (l_block ?l ! t))) [0..<?N]"
  obtain s1 where 1: "write_log me s = Ret s1" "cache_inv me s1" "only_bio s s1" "cache_abs s1 = awrites ?W1 ?A"
    unfolding write_log_def upto_int_def
    by (rule write_log_loop_ok [OF inv nh, of "[0..<?N]"]) (use one zero card L(6) in simp_all)
  have l1: "log s1 = ?l" by (rule only_bio_log [OF 1(3)])
  have past: "?st + of_nat t + 1 \<noteq> ?st" if "t < ?N" for t
    using log_block_inj [of "t + 1" 0 ?st] that L(1) by (auto simp: ac_simps)
  then have st1: "apply_writes ?W1 ?v ?st = ?v ?st" by (intro apply_writes_other) auto
  obtain s2 where 2: "write_head me s1 = Ret s2" "cache_inv me s2" "log s2 = ?l" "cache_abs s2 = awrites [(?st, ?H)] (awrites ?W1 ?A)"
    by (rule write_head_ok [OF 1(2)]) (use nh area log_area_mem(2) card L(6) in \<open>simp_all add: 1(4) l1 st1\<close>)
  have inj: "inj_on (\<lambda>t. ?st + of_nat t + 1) (set [0..<?N])"
  proof (rule inj_onI)
    fix t u
    assume "t \<in> set [0..<?N]" "u \<in> set [0..<?N]" "?st + of_nat t + 1 = ?st + of_nat u + 1"
    then show "t = u" using log_block_inj [of t u ?st] L(1) by simp
  qed
  have v2: "a_view (cache_abs s2) (?st + of_nat t + 1) = ?v (l_block ?l ! t)" if "t < ?N" for t
    using apply_writes_inj [OF inj, of t "\<lambda>t. ?v (l_block ?l ! t)"] that past [OF that] by (simp add: 2(4))
  have ne: "l_block ?l ! t \<noteq> ?st + of_nat u + 1" if "t < ?N" "u < ?N" for t u
    using L(5) [OF L(4) [OF that(1)]] log_area_mem(1) [of u ?st] that(2) L(1) by auto
  obtain s3 where 3: "install_trans me False s2 = Ret s3" "cache_inv me s3" "log s3 = ?l"
    "cache_abs s3 = unpinned (set (log_blocks ?l)) (awrites (map (\<lambda>t. (l_block ?l ! t, a_view (cache_abs s2) (?st + of_nat t + 1))) [0..<?N]) (cache_abs s2))"
    unfolding install_trans_def upto_int_def 2(3)
    by (rule install_loop_ok [OF 2(2), of "[0..<?N]" False]) (use nh one zero ne card L in \<open>simp_all add: 2(3,4)\<close>)
  have m: "map (\<lambda>t. (l_block ?l ! t, a_view (cache_abs s2) (?st + of_nat t + 1))) [0..<?N] = ?W3" using v2 by simp
  note A3 = 3(4) [unfolded m]
  define s4 where "s4 = logset (\<lambda>l. l\<lparr>l_n := 0\<rparr>) s3"
  have c4: "bufs s4 = bufs s3" "disk s4 = disk s3" "dwrites s4 = dwrites s3" by (simp_all add: s4_def logset_def)
  have inv4: "cache_inv me s4" using 3(2) by (simp add: s4_def)
  have l4: "log s4 = ?l\<lparr>l_n := 0\<rparr>" using 3(3) by (simp add: s4_def logset_def)
  have home: "?st \<notin> (\<lambda>t. l_block ?l ! t) ` {0..<?N}" using L(4,5) log_area_mem(2) [of ?st] by fastforce
  then have st3: "a_view (cache_abs s4) ?st = ?H"
    unfolding cache_cong(2) [OF c4] A3 by (simp add: 2(4)) (subst apply_writes_other, auto)
  have none: "a_refs (cache_abs s4) b = 0" for b
    unfolding cache_cong(2) [OF c4] A3 by (simp add: 2(4) refs)
  obtain s5 where 5: "write_head me s4 = Ret s5" "cache_inv me s5" "log s5 = log s4"
    "cache_abs s5 = awrites [(?st, put_head 0 (l_block ?l) ?H)] (cache_abs s4)"
    by (rule write_head_ok [OF inv4])
      (use nh none L(6) st3 NBUF_pos in \<open>simp_all add: l4 cache_cong(2) [OF c4] A3 2(4)\<close>)
  have run: "commit me s = Ret s5" using True 1(1) 2(1) 3(1) 5(1) by (simp add: commit_def s4_def)
  have "cache_abs s5 = unpinned (set (log_blocks ?l)) (awrites (commit_writes ?l ?v) ?A)"
    unfolding 5(4) cache_cong(2) [OF c4] A3 2(4) using True
    by (intro acache.equality) (simp_all add: commit_writes_def Let_def fun_eq_iff)
  then show thesis using that [OF run 5(2)] 5(3) l4 by simp
next
  case False
  then have z: "log_blocks (log s) = []" "l_n (log s) = 0"
    using q by (auto simp: log_quiet_def log_ok_def log_blocks_def word_sless_alt sint_eq_0_iff)
  have inv: "cache_inv me s" using q by (simp add: log_quiet_def)
  have "unpinned {} A = A" for A by (simp add: unpinned_def)
  then show thesis
    by (intro that [of s]) (use inv False z in \<open>simp_all add: commit_def commit_writes_def\<close>)
qed

lemma commit_writes_view:
  assumes l: "log_ok l" and b: "b \<notin> log_area (l_start l)"
  shows "apply_writes (commit_writes l v) v b = v b"
proof (cases "0 <s l_n l")
  case True
  let ?N = "nat (sint (l_n l))" and ?f = "\<lambda>t. l_block l ! t"
  let ?W1 = "map (\<lambda>t. (l_start l + of_nat t + 1, v (?f t))) [0..<?N]" and ?H = "put_head (l_n l) (l_block l) (v (l_start l))"
  have ne: "b \<noteq> l_start l" using b log_area_mem(2) by blast
  have "fst ` set ?W1 \<subseteq> log_area (l_start l)" using log_area_mem(1) [of _ "l_start l"] log_okD(1) [OF l] by auto
  then have "b \<notin> fst ` set ?W1" using b by blast
  then have "apply_writes ?W1 v b = v b" by (rule apply_writes_other)
  then show ?thesis
    using ne True apply_writes_fun [of ?f v "[0..<?N]" "(apply_writes ?W1 v)(l_start l := ?H)" b]
    by (simp add: commit_writes_def Let_def)
qed (simp add: commit_writes_def Let_def)

section \<open>Recovery\<close>

text \<open>A machine that has just booted: an unused cache over the disk.\<close>

definition booted :: "nat \<Rightarrow> (uint \<Rightarrow> uchar list) \<Rightarrow> 'a klog_scheme \<Rightarrow> bool" where
  "booted me d r \<longleftrightarrow> cache_inv me r \<and> disk r = d \<and> (\<forall>b. a_refs (cache_abs r) b = 0) \<and> (\<forall>b. \<not> a_held (cache_abs r) b)
     \<and> length (l_block (log r)) = LOGBLOCKS"

text \<open>The header of the disk \<open>d\<close>: a number of entries that fits, naming distinct home blocks.\<close>

definition head_n :: "uchar list \<Rightarrow> nat" where
  "head_n h = nat (sint (rd32 0 h))"

definition head_blocks :: "uchar list \<Rightarrow> uint list" where
  "head_blocks h = map (\<lambda>i. rd32 (4 + 4 * i) h) [0..<head_n h]"

definition head_ok :: "uint \<Rightarrow> uchar list \<Rightarrow> bool" where
  "head_ok st h \<longleftrightarrow> head_n h \<le> LOGBLOCKS \<and> distinct (head_blocks h) \<and> set (head_blocks h) \<inter> log_area st = {}"

definition recovered :: "uint \<Rightarrow> (uint \<Rightarrow> uchar list) \<Rightarrow> uint \<Rightarrow> uchar list" where
  "recovered st d = apply_writes (map (\<lambda>t. (head_blocks (d st) ! t, d (st + of_nat t + 1))) [0..<head_n (d st)]) d"

lemma initlog_ok:
  assumes bt: "booted me d r" and h: "head_ok st (d st)"
  obtains r' where "initlog me ROOTDEV st r = Ret r'" and "cache_inv me r'" and "l_n (log r') = 0" and "l_start (log r') = st"
    and "\<And>b. b \<noteq> st \<Longrightarrow> disk r' b = recovered st d b" and "rd32 0 (disk r' st) = rd32 0 (put_head 0 [] (d st))"
    and "\<forall>b. a_refs (cache_abs r') b = 0"
proof -
  let ?N = "head_n (d st)"
  define s where "s = logset (\<lambda>l. l\<lparr>l_start := st, l_dev := ROOTDEV\<rparr>) r"
  have c: "bufs s = bufs r" "disk s = disk r" "dwrites s = dwrites r" by (simp_all add: s_def logset_def)
  have inv: "cache_inv me s" using bt by (simp add: booted_def s_def)
  have ls: "l_start (log s) = st" "l_dev (log s) = ROOTDEV" "length (l_block (log s)) = LOGBLOCKS"
    using bt by (simp_all add: s_def logset_def booted_def)
  have A: "a_refs (cache_abs s) b = 0" "\<not> a_held (cache_abs s) b" for b using bt by (simp_all add: booted_def cache_cong(2) [OF c])
  have v: "a_view (cache_abs s) = d" "a_disk (cache_abs s) = d"
    using unused_clean [OF inv A(1)] bt by (auto simp: cache_abs_def booted_def c(2))
  obtain s1 where 1: "read_head me s = Ret s1" "cache_inv me s1" "log s1 = loaded (d st) (log s)" "cache_abs s1 = cache_abs s"
    by (rule read_head_ok [OF inv A(2)]) (use A ls NBUF_pos v in simp_all)
  have bl: "l_block (log s1) ! t = head_blocks (d st) ! t" if "t < ?N" for t
    using h ls(3) that by (simp add: 1(3) loaded_def upto_int_def head_n_def [symmetric] get_head_blocks_eq head_ok_def nth_append head_blocks_def)
  have l1: "l_start (log s1) = st" "l_dev (log s1) = ROOTDEV" "nat (sint (l_n (log s1))) = ?N"
    using ls by (simp_all add: 1(3) loaded_def head_n_def)
  have lh: "length (head_blocks (d st)) = ?N" by (simp add: head_blocks_def)
  have m: "map (\<lambda>t. l_block (log s1) ! t) [0..<?N] = head_blocks (d st)"
    by (rule nth_equalityI) (use bl lh in simp_all)
  have ne: "l_block (log s1) ! t \<noteq> st + of_nat u + 1" if "t < ?N" "u < ?N" for t u
  proof -
    have "head_blocks (d st) ! t \<in> set (head_blocks (d st))" using that(1) lh by simp
    then have "head_blocks (d st) ! t \<notin> log_area st" using h unfolding head_ok_def by blast
    then show ?thesis using bl [OF that(1)] log_area_mem(1) [of u st] that(2) h by (auto simp: head_ok_def)
  qed
  let ?W = "map (\<lambda>t. (head_blocks (d st) ! t, d (st + of_nat t + 1))) [0..<?N]"
  obtain s2 where 2: "install_trans me True s1 = Ret s2" "cache_inv me s2" "log s2 = log s1"
    "cache_abs s2 = unpinned ((\<lambda>t. l_block (log s1) ! t) ` set [0..<?N])
      (awrites (map (\<lambda>t. (l_block (log s1) ! t, a_view (cache_abs s1) (l_start (log s1) + of_nat t + 1))) [0..<?N]) (cache_abs s1))"
    unfolding install_trans_def upto_int_def l1(3)
    by (rule install_loop_ok [OF 1(2), of "[0..<?N]" True])
      (use A ne h m l1(2) in \<open>simp_all add: 1(4) l1 head_ok_def NBUF_def MAXOPBLOCKS_def\<close>)
  have "map (\<lambda>t. (l_block (log s1) ! t, a_view (cache_abs s1) (l_start (log s1) + of_nat t + 1))) [0..<?N] = ?W"
    using bl by (simp add: 1(4) v l1)
  note inst = 2(4) [unfolded this]
  have A2: "a_view (cache_abs s2) = recovered st d" "a_disk (cache_abs s2) = recovered st d"
    "a_refs (cache_abs s2) b = 0" "\<not> a_held (cache_abs s2) b" for b
    using A by (simp_all add: inst 1(4) v recovered_def)
  define s3 where "s3 = logset (\<lambda>l. l\<lparr>l_n := 0\<rparr>) s2"
  have c3: "bufs s3 = bufs s2" "disk s3 = disk s2" "dwrites s3 = dwrites s2" by (simp_all add: s3_def logset_def)
  have inv3: "cache_inv me s3" using 2(2) by (simp add: s3_def)
  have l3: "log s3 = (log s1)\<lparr>l_n := 0\<rparr>" using 2(3) by (simp add: s3_def logset_def)
  obtain s4 where 4: "write_head me s3 = Ret s4" "cache_inv me s4" "log s4 = log s3"
    "cache_abs s4 = awrites [(st, put_head 0 (l_block (log s1)) (recovered st d st))] (cache_abs s3)"
    by (rule write_head_ok [OF inv3]) (use A2 l1 NBUF_pos in \<open>simp_all add: l3 cache_cong(2) [OF c3]\<close>)
  have "initlog me ROOTDEV st r = Ret s4"
    using 1(1) 2(1) 4(1) by (simp add: initlog_def recover_from_log_def s_def [symmetric] s3_def [symmetric] BSIZE_def
        LOGHEADER_SIZE_def LOGBLOCKS_def MAXOPBLOCKS_def)
  moreover have dk: "disk s4 = (recovered st d)(st := put_head 0 (l_block (log s1)) (recovered st d st))"
  proof -
    have "a_disk (cache_abs s4) = (recovered st d)(st := put_head 0 (l_block (log s1)) (recovered st d st))"
      by (simp add: 4(4) cache_cong(2) [OF c3] A2)
    then show ?thesis by (simp add: cache_abs_def)
  qed
  moreover have "recovered st d st = d st"
    unfolding recovered_def
  proof (rule apply_writes_other)
    have "fst ` set ?W = set (map (\<lambda>t. head_blocks (d st) ! t) [0..<?N])" by (simp add: image_image)
    also have "map (\<lambda>t. head_blocks (d st) ! t) [0..<?N] = head_blocks (d st)" by (simp add: lh [symmetric] map_nth)
    finally show "st \<notin> fst ` set ?W" using h log_area_mem(2) [of st] unfolding head_ok_def by blast
  qed
  moreover have "rd32 0 (put_head 0 bl d) = rd32 0 (put_head 0 [] d)" for bl d by (simp add: put_head_def upto_int_def)
  ultimately show thesis
    using that [of s4] 4(2,3) l3 l1 A2(3) by (simp add: 4(4) cache_cong(2) [OF c3])
qed

lemma head_put_head:
  assumes "LOGHEADER_SIZE \<le> length d" and "0 \<le> sint n" and "sint n \<le> int LOGBLOCKS"
  shows "head_n (put_head n bl d) = nat (sint n)" and "head_blocks (put_head n bl d) = map (\<lambda>t. bl ! t) [0..<nat (sint n)]"
proof -
  let ?d = "wr32 0 n d"
  have len: "LOGHEADER_SIZE \<le> length ?d" using assms(1) by (simp add: LOGHEADER_SIZE_def)
  have ix: "\<forall>i \<in> set [0..<nat (sint n)]. i < LOGBLOCKS" using assms(3) by auto
  have "rd32 0 ?d = n" using assms(1) by (simp add: LOGHEADER_SIZE_def)
  then show n: "head_n (put_head n bl d) = nat (sint n)"
    using put_head_blocks_n [OF len ix] by (simp add: head_n_def put_head_def upto_int_def)
  have "rd32 (4 + 4 * t) (put_head n bl d) = bl ! t" if "t < nat (sint n)" for t
    using put_head_blocks_entry [OF len ix, of t bl] that ix by (simp add: put_head_def upto_int_def)
  then show "head_blocks (put_head n bl d) = map (\<lambda>t. bl ! t) [0..<nat (sint n)]" by (simp add: head_blocks_def n)
qed

lemma length_put_head:
  assumes "LOGHEADER_SIZE \<le> length d" and "sint n \<le> int LOGBLOCKS"
  shows "length (put_head n bl d) = length d"
proof -
  have "\<forall>i \<in> set [0..<nat (sint n)]. i < LOGBLOCKS" using assms(2) by auto
  then show ?thesis
    using put_head_blocks_length [of "wr32 0 n d" "[0..<nat (sint n)]" bl] assms(1)
    by (simp add: put_head_def upto_int_def LOGHEADER_SIZE_def)
qed

lemma recovered_empty: "head_n (d st) = 0 \<Longrightarrow> recovered st d = d" "head_n (d st) = 0 \<Longrightarrow> head_ok st (d st)"
  by (simp_all add: recovered_def head_ok_def head_blocks_def)

text \<open>
  The disk after the first \<open>k\<close> of the writes of a commit: a valid log whose recovery gives the old
  contents while the header is not written, and the new ones from then on.
\<close>

lemma crash_point:
  assumes q: "log_quiet me s" and h0: "head_n (disk s (l_start (log s))) = 0" and len: "LOGHEADER_SIZE \<le> length (disk s (l_start (log s)))"
    and k: "k \<le> length (commit_writes (log s) (a_view (cache_abs s)))"
  defines "d \<equiv> apply_writes (take k (commit_writes (log s) (a_view (cache_abs s)))) (disk s)"
  shows "head_ok (l_start (log s)) (d (l_start (log s))) \<and> (\<forall>b. b \<notin> log_area (l_start (log s)) \<longrightarrow>
    recovered (l_start (log s)) d b = (if k \<le> nat (sint (l_n (log s))) then disk s b else a_view (cache_abs s) b))"
proof (cases "0 <s l_n (log s)")
  case True
  let ?l = "log s" and ?N = "nat (sint (l_n (log s)))" and ?st = "l_start (log s)" and ?v = "a_view (cache_abs s)"
  let ?W1 = "map (\<lambda>t. (?st + of_nat t + 1, ?v (l_block ?l ! t))) [0..<?N]"
  let ?H = "put_head (l_n ?l) (l_block ?l) (?v ?st)"
  let ?W3 = "map (\<lambda>t. (l_block ?l ! t, ?v (l_block ?l ! t))) [0..<?N]"
  have l: "log_ok ?l" and inv: "cache_inv me s"
    and refs: "\<And>b. a_refs (cache_abs s) b = (if b \<in> set (log_blocks ?l) then 1 else 0)" using q by (simp_all add: log_quiet_def)
  note L = log_okD [OF l]
  have W: "commit_writes ?l ?v = ?W1 @ [(?st, ?H)] @ ?W3 @ [(?st, put_head 0 (l_block ?l) ?H)]"
    using True by (simp add: commit_writes_def Let_def)
  have cl: "?v b = disk s b" if "b \<notin> set (log_blocks ?l)" for b
    using unused_clean [OF inv, of b] refs that by (simp add: cache_abs_def)
  have vst: "?v ?st = disk s ?st" using cl L(5) log_area_mem(2) by blast
  have n: "0 \<le> sint (l_n ?l)" "sint (l_n ?l) \<le> int LOGBLOCKS" using l by (simp_all add: log_ok_def)
  note H = head_put_head [OF len n, of "l_block ?l", folded vst]
  have hH: "head_ok ?st ?H" using L l H by (simp add: head_ok_def log_ok_def)
  have w1: "fst ` set ?W1 \<subseteq> log_area ?st - {?st}"
  proof -
    have "?st + of_nat t + 1 \<in> log_area ?st - {?st}" if "t < ?N" for t
      using log_area_mem(1) [of t ?st] log_block_inj [of "t + 1" 0 ?st] that L(1) by (auto simp: ac_simps)
    then show ?thesis by auto
  qed
  have w3: "fst ` set ?W3 \<inter> log_area ?st = {}" using L(4,5) by fastforce
  show ?thesis
  proof (cases "k \<le> ?N")
    case le: True
    then have d: "d = apply_writes (take k ?W1) (disk s)" by (simp add: d_def W)
    have sub: "fst ` set (take k ?W1) \<subseteq> log_area ?st - {?st}" using w1 set_take_subset [of k ?W1] by blast
    then have st: "d ?st = disk s ?st" unfolding d by (intro apply_writes_other) blast
    have "d b = disk s b" if "b \<notin> log_area ?st" for b unfolding d by (rule apply_writes_other) (use sub that in blast)
    then show ?thesis using le recovered_empty [of d ?st] h0 st by simp
  next
    case gt: False
    let ?d1 = "apply_writes ?W1 (disk s)"
    have d1: "?d1 b = disk s b" if "b \<notin> log_area ?st" for b by (rule apply_writes_other) (use w1 that in blast)
    have inj: "inj_on (\<lambda>t. ?st + of_nat t + 1) (set [0..<?N])"
      using log_block_inj [of _ _ ?st] L(1) by (auto simp: inj_on_def)
    have lg: "?d1 (?st + of_nat t + 1) = ?v (l_block ?l ! t)" if "t < ?N" for t
      using apply_writes_inj [OF inj, of t "\<lambda>t. ?v (l_block ?l ! t)"] that by simp
    show ?thesis
    proof (cases "k = 2 * ?N + 2")
      case True
      then have d: "d = (apply_writes ?W3 (?d1(?st := ?H)))(?st := put_head 0 (l_block ?l) ?H)" by (simp add: d_def W)
      have "LOGHEADER_SIZE \<le> length ?H" using len n length_put_head [of "?v ?st" "l_n ?l"] vst by simp
      then have "head_n (d ?st) = 0" using head_put_head(1) [of ?H 0 "l_block ?l"] by (simp add: d)
      moreover have "d b = ?v b" if "b \<notin> log_area ?st" for b
      proof -
        have "b \<noteq> ?st" using that log_area_mem(2) by blast
        then have "d b = (if b \<in> (\<lambda>t. l_block ?l ! t) ` set [0..<?N] then ?v b else ?d1 b)"
          using apply_writes_fun [of "\<lambda>t. l_block ?l ! t" ?v "[0..<?N]" "?d1(?st := ?H)" b] by (simp add: d)
        then show ?thesis using d1 [OF that] cl [of b] L(2) by simp
      qed
      ultimately show ?thesis using recovered_empty [of d ?st] gt by simp
    next
      case False
      define W3' where "W3' = take (k - ?N - 1) ?W3"
      have "k - ?N - 1 \<le> ?N" using k False gt by (simp add: W)
      then have d: "d = apply_writes W3' (?d1(?st := ?H))" using gt by (simp add: d_def W W3'_def take_Cons')
      have sub: "set W3' \<subseteq> set ?W3" by (simp add: W3'_def set_take_subset del: set_map)
      then have st: "d ?st = ?H" using w3 log_area_mem(2) [of ?st] unfolding d by (subst apply_writes_other) auto
      have dl: "d (?st + of_nat t + 1) = ?v (l_block ?l ! t)" if t: "t < ?N" for t
      proof -
        have a: "?st + of_nat t + 1 \<in> log_area ?st" using log_area_mem(1) t L(1) by simp
        have "?st + of_nat t + 1 \<noteq> ?st" using log_block_inj [of "t + 1" 0 ?st] t L(1) by (auto simp: ac_simps)
        moreover have "?st + of_nat t + 1 \<notin> fst ` set W3'" using w3 sub a by blast
        ultimately show ?thesis using lg [OF t] unfolding d by (simp add: apply_writes_other)
      qed
      have out: "d b = ?v b" if "b \<notin> log_area ?st" "b \<notin> set (log_blocks ?l)" for b
      proof -
        have "b \<noteq> ?st" using that log_area_mem(2) by blast
        moreover have "b \<notin> fst ` set W3'" using sub that(2) L(4) by fastforce
        ultimately show ?thesis using d1 [OF that(1)] cl [OF that(2)] unfolding d by (simp add: apply_writes_other)
      qed
      have m: "map (\<lambda>t. (head_blocks (d ?st) ! t, d (?st + of_nat t + 1))) [0..<head_n (d ?st)] = ?W3"
        using dl H by (simp add: st)
      have "recovered ?st d b = ?v b" if "b \<notin> log_area ?st" for b
        using apply_writes_fun [of "\<lambda>t. l_block ?l ! t" ?v "[0..<?N]" d b] out [OF that] L(2)
        unfolding recovered_def m by (simp split: if_splits)
      then show ?thesis using gt hH st by simp
    qed
  qed
next
  case False
  then have "commit_writes (log s) (a_view (cache_abs s)) = []" by (simp add: commit_writes_def Let_def)
  then show ?thesis using k recovered_empty h0 by (simp add: d_def)
qed

section \<open>The log during a transaction\<close>

text \<open>A logged block has one pin, a locked one has one more user.\<close>

definition log_inv :: "nat \<Rightarrow> 'a klog_scheme \<Rightarrow> bool" where
  "log_inv me s \<longleftrightarrow> cache_inv me s \<and> log_ok (log s)
     \<and> (\<forall>b. a_refs (cache_abs s) b = of_bool (b \<in> set (log_blocks (log s))) + of_bool (a_held (cache_abs s) b))"

lemma log_quiet_inv: "log_quiet me s \<longleftrightarrow> log_inv me s \<and> (\<forall>b. \<not> a_held (cache_abs s) b)"
  by (auto simp: log_quiet_def log_inv_def)

lemma log_invD:
  assumes "log_inv me s"
  shows "cache_inv me s" "log_ok (log s)"
    "a_refs (cache_abs s) b = of_bool (b \<in> set (log_blocks (log s))) + of_bool (a_held (cache_abs s) b)"
  using assms by (simp_all add: log_inv_def)

lemma log_bread:
  assumes inv: "log_inv me s" and nh: "\<not> a_held (cache_abs s) b" and room: "room_for b (cache_abs s)"
  obtains i s' where "bread me ROOTDEV b s = Ret (i, s')" and "log_inv me s'" and "log s' = log s" and "buf_slot s' b = Some i"
    and "cache_abs s' = aread b (cache_abs s)" and "b_data (bufs s' ! i) = a_view (cache_abs s) b" and "only_bio s s'"
    and "\<And>c. 0 < a_refs (cache_abs s) c \<Longrightarrow> buf_slot s' c = buf_slot s c"
proof -
  note I = log_invD [OF inv]
  have "a_refs (cache_abs s) b < 2 ^ 32 - 1" using I(3) [of b] by simp
  then obtain i s' where r: "bread me ROOTDEV b s = Ret (i, s')" "cache_inv me s'" "buf_slot s' b = Some i"
    "cache_abs s' = aread b (cache_abs s)" "b_data (bufs s' ! i) = a_view (cache_abs s) b" "only_bio s s'"
    "\<And>c. 0 < a_refs (cache_abs s) c \<Longrightarrow> buf_slot s' c = buf_slot s c"
    by (rule bread_ok [OF I(1) nh room]) blast
  have l: "log s' = log s" by (rule only_bio_log [OF r(6)])
  have "log_inv me s'" using r(2) I(2,3) nh by (auto simp: log_inv_def l r(4))
  then show thesis using that r l by blast
qed

lemma log_bdata:
  assumes inv: "log_inv me s" and h: "a_held (cache_abs s) b" and sl: "buf_slot s b = Some i"
  shows "log_inv me (bdata i f s)" "buf_slot (bdata i f s) = buf_slot s" "cache_abs (bdata i f s) = adata b f (cache_abs s)"
proof -
  note I = log_invD [OF inv]
  have "0 < a_refs (cache_abs s) b" using I(3) [of b] h by simp
  note d = bdata_ok [OF I(1) sl this, of f]
  show "buf_slot (bdata i f s) = buf_slot s" "cache_abs (bdata i f s) = adata b f (cache_abs s)" by (rule d)+
  show "log_inv me (bdata i f s)" using d I(2,3) by (simp add: log_inv_def)
qed

lemma log_brelse:
  assumes inv: "log_inv me s" and h: "a_held (cache_abs s) b" and sl: "buf_slot s b = Some i"
    and cl: "b \<in> set (log_blocks (log s)) \<or> a_view (cache_abs s) b = a_disk (cache_abs s) b"
  obtains s' where "brelse me i s = Ret s'" and "log_inv me s'" and "log s' = log s" and "buf_slot s' = buf_slot s"
    and "cache_abs s' = arelse b (cache_abs s)" and "only_bio s s'"
proof -
  note I = log_invD [OF inv]
  have "0 < a_refs (cache_abs s) b" "a_refs (cache_abs s) b = 1 \<longrightarrow> a_view (cache_abs s) b = a_disk (cache_abs s) b"
    using I(3) [of b] h cl by auto
  then obtain s' where r: "brelse me i s = Ret s'" "cache_inv me s'" "buf_slot s' = buf_slot s"
    "cache_abs s' = arelse b (cache_abs s)" "only_bio s s'"
    using brelse_ok [OF I(1) sl _ h] by blast
  have l: "log s' = log s" by (rule only_bio_log [OF r(5)])
  have "log_inv me s'" using r(2) I(2,3) h by (auto simp: log_inv_def l r(4))
  then show thesis using that r l by blast
qed

definition logged :: "uint \<Rightarrow> uint list \<Rightarrow> uint list" where
  "logged b bs = (if b \<in> set bs then bs else bs @ [b])"

lemma scan_eq_Some: "b \<in> set bs \<Longrightarrow> \<exists>i. scan (\<lambda>x. x = b) bs = Some i \<and> i < length bs \<and> bs ! i = b"
proof (cases "scan (\<lambda>x. x = b) bs")
  case None
  then show "b \<in> set bs \<Longrightarrow> ?thesis" by (auto simp: scan_None_iff in_set_conv_nth)
next
  case (Some i)
  then show ?thesis using scan_SomeD [OF Some] by auto
qed

lemma log_write_ok:
  assumes inv: "log_inv me s" and h: "a_held (cache_abs s) b" and sl: "buf_slot s b = Some i"
    and n: "sint (l_n (log s)) < int LOGBLOCKS" and o: "1 \<le> sint (l_outstanding (log s))" and home: "b \<notin> log_area (l_start (log s))"
  obtains s' where "log_write i s = Ret s'" and "log_inv me s'" and "buf_slot s' = buf_slot s"
    and "a_view (cache_abs s') = a_view (cache_abs s)" and "a_held (cache_abs s') = a_held (cache_abs s)"
    and "a_disk (cache_abs s') = a_disk (cache_abs s)" and "a_writes (cache_abs s') = a_writes (cache_abs s)"
    and "log_blocks (log s') = logged b (log_blocks (log s))" and "l_outstanding (log s') = l_outstanding (log s)"
    and "l_start (log s') = l_start (log s)" and "l_committing (log s') = l_committing (log s)"
    and "sint (l_n (log s')) = int (length (logged b (log_blocks (log s))))"
proof -
  note I = log_invD [OF inv] and L = log_okD [OF log_invD(2) [OF inv]]
  let ?l = "log s" and ?N = "nat (sint (l_n (log s)))" and ?bs = "log_blocks (log s)"
  have u: "0 < a_refs (cache_abs s) b" using I(3) [of b] h by simp
  have bno: "b_blockno (bufs s ! i) = b" using slot_facts(5) [OF I(1) sl u] .
  have len: "length ?bs = ?N" using L(2) by simp
  have n0: "0 \<le> sint (l_n ?l)" using I(2) by (simp add: log_ok_def)
  have go: "\<not> of_nat LOGBLOCKS \<le>s l_n ?l" "\<not> l_outstanding ?l <s 1"
    using n o by (simp_all add: word_sle_eq word_sless_alt LOGBLOCKS_def MAXOPBLOCKS_def)
  show thesis
  proof (cases "b \<in> set ?bs")
    case True
    then obtain k where k: "scan (\<lambda>x. x = b) ?bs = Some k" "k < ?N" "?bs ! k = b" using scan_eq_Some len by metis
    have "(l_block ?l)[k := b] = l_block ?l" using k(2,3) by (auto simp: log_blocks_def)
    then have run: "log_write i s = Ret s"
      using go k by (simp add: log_write_def Let_def bno log_blocks_def [symmetric] logset_def)
    show thesis by (rule that [OF run inv]) (use True len n0 in \<open>simp_all add: logged_def\<close>)
  next
    case False
    then have k: "scan (\<lambda>x. x = b) ?bs = None" by (auto simp: scan_None_iff)
    define s' where "s' = logset (\<lambda>l. l\<lparr>l_n := l_n l + 1\<rparr>) (bpin i (logset (\<lambda>l. l\<lparr>l_block := (l_block l)[?N := b]\<rparr>) s))"
    have run: "log_write i s = Ret s'"
      using go k by (simp add: log_write_def Let_def bno log_blocks_def [symmetric] s'_def)
    have "a_refs (cache_abs s) b < 2 ^ 32 - 1" using I(3) [of b] by simp
    note p = bpin_ok [OF I(1) sl u this]
    have c: "bufs s' = bufs (bpin i s)" "disk s' = disk (bpin i s)" "dwrites s' = dwrites (bpin i s)" "lru s' = lru (bpin i s)"
      "procs s' = procs (bpin i s)" by (simp_all add: s'_def logset_def bpin_def bufset_def)
    have ci: "cache_inv me s'" using p(1) unfolding cache_inv_def c by simp
    have l': "log s' = ?l\<lparr>l_block := (l_block ?l)[?N := b], l_n := l_n ?l + 1\<rparr>" by (simp add: s'_def logset_def bpin_def bufset_def)
    have n': "sint (l_n ?l + 1) = sint (l_n ?l) + 1"
      by (rule sint_inc_less [of _ "of_nat LOGBLOCKS"]) (use n in \<open>simp add: LOGBLOCKS_def MAXOPBLOCKS_def\<close>)
    have N': "nat (sint (l_n ?l + 1)) = Suc ?N" using n' n0 by simp
    have NL: "?N < LOGBLOCKS" using n n0 by simp
    have bl: "log_blocks (log s') = ?bs @ [b]"
      using NL L(8) unfolding log_blocks_def l' by (simp add: N' take_Suc_conv_app_nth)
    have "log_ok (log s')"
      using I(2) False home bl n n0 n' unfolding log_ok_def by (simp add: l')
    moreover have "a_refs (cache_abs s') c = of_bool (c \<in> set (log_blocks (log s'))) + of_bool (a_held (cache_abs s') c)" for c
      using I(3) [of c] I(3) [of b] False by (auto simp: cache_cong(2) [OF c(1-3)] p(3) bl)
    ultimately have "log_inv me s'" using ci by (simp add: log_inv_def)
    then show thesis
      by (rule that [OF run])
        (use False bl n' n0 len in \<open>simp_all add: cache_cong [OF c(1-3)] p(2,3) l' logged_def\<close>)
  qed
qed

section \<open>Space in the log\<close>

text \<open>What returns keeps the log, whatever the state of the cache.\<close>

lemma log_bufset [simp]: "log (bufset i f s) = log s"
  by (simp add: bufset_def)

lemma log_wakeup [simp]: "log (wakeup w c s) = log s"
  by (simp add: wakeup_def)

lemma log_sleep [simp]: "log (sleep me c s) = log s"
  by (simp add: sleep_def pset_def)

lemma log_logset [simp]: "log (logset f s) = f (log s)"
  by (simp add: logset_def)

lemma block_log: "block me i s = Ret s' \<Longrightarrow> log s' = log s"
  by (auto simp: block_def acquiresleep_def split: if_splits)

lemma bget_log: "bget me d b s = Ret (i, s') \<Longrightarrow> log s' = log s"
  by (auto simp: bget_def kbind_eq_Ret_iff dest!: block_log split: option.splits)

lemma bread_log: "bread me d b s = Ret (i, s') \<Longrightarrow> log s' = log s"
  by (auto simp: bread_def kbind_eq_Ret_iff disk_rw_def dest!: bget_log split: if_splits)

lemma bwrite_log: "bwrite me i s = Ret s' \<Longrightarrow> log s' = log s"
  by (auto simp: bwrite_def disk_rw_def Let_def split: if_splits)

lemma brelse_log: "brelse me i s = Ret s' \<Longrightarrow> log s' = log s"
  by (auto simp: brelse_def releasesleep_def Let_def split: if_splits)

lemma write_head_log: "write_head me s = Ret s' \<Longrightarrow> log s' = log s"
  by (auto simp: write_head_def kbind_eq_Ret_iff Let_def dest!: bread_log bwrite_log brelse_log)

lemma write_log_loop_log: "write_log_loop me ts s = Ret s' \<Longrightarrow> log s' = log s"
  by (induction ts arbitrary: s) (auto simp: kbind_eq_Ret_iff Let_def dest!: bread_log bwrite_log brelse_log)

lemma install_loop_log: "install_loop me r ts s = Ret s' \<Longrightarrow> log s' = log s"
  by (induction ts arbitrary: s)
    (auto simp: kbind_eq_Ret_iff Let_def bunpin_def split: if_splits dest!: bread_log bwrite_log brelse_log)

lemma commit_log:
  assumes "commit me s = Ret s'" and "0 \<le> sint (l_n (log s))"
  shows "log s' = (log s)\<lparr>l_n := 0\<rparr>"
proof (cases "0 <s l_n (log s)")
  case True
  then show ?thesis
    using assms(1) by (auto simp: commit_def kbind_eq_Ret_iff write_log_def install_trans_def
        dest!: write_log_loop_log install_loop_log write_head_log)
next
  case False
  then have "l_n (log s) = 0" using assms(2) by (simp add: word_sless_alt sint_eq_0_iff)
  then show ?thesis using assms(1) False by (simp add: commit_def)
qed

text \<open>
  The system calls as the log sees them.  \<open>B p\<close> is how many more blocks the operation of process
  \<open>p\<close> may write: an operation writes at most MAXOPBLOCKS.  Between the calls the rest of the kernel does
  anything that leaves the log alone.
\<close>

inductive log_step :: "klog \<times> (nat \<rightharpoonup> nat) \<Rightarrow> klog \<times> (nat \<rightharpoonup> nat) \<Rightarrow> bool" where
  op_begin: "begin_op p s = (Done (), s') \<Longrightarrow> B p = None \<Longrightarrow> log_step (s, B) (s', B(p \<mapsto> MAXOPBLOCKS))"
| op_wait: "begin_op p s = (Sleeps, s') \<Longrightarrow> log_step (s, B) (s', B)"
| op_write: "B p = Some (Suc k) \<Longrightarrow> log_write b s = Ret s' \<Longrightarrow> log_step (s, B) (s', B(p \<mapsto> k))"
| op_end: "B p = Some k \<Longrightarrow> end_op_lock p s = Ret (c, s') \<Longrightarrow> log_step (s, B) (s', B(p := None))"
| op_commit: "l_committing (log s) \<noteq> 0 \<Longrightarrow> commit p s = Ret s' \<Longrightarrow> log_step (s, B) (end_op_done p s', B)"
| op_other: "log s' = log s \<Longrightarrow> log_step (s, B) (s', B)"

definition budget :: "(nat \<rightharpoonup> nat) \<Rightarrow> nat" where
  "budget B = (\<Sum>p\<in>dom B. the (B p))"

definition log_space :: "klog \<times> (nat \<rightharpoonup> nat) \<Rightarrow> bool" where
  "log_space = (\<lambda>(s, B). finite (dom B) \<and> sint (l_outstanding (log s)) = int (card (dom B))
     \<and> 0 \<le> sint (l_n (log s)) \<and> sint (l_n (log s)) + int (budget B) \<le> int LOGBLOCKS
     \<and> length (l_block (log s)) = LOGBLOCKS \<and> card (dom B) * MAXOPBLOCKS \<le> LOGBLOCKS
     \<and> (\<forall>k \<in> ran B. k \<le> MAXOPBLOCKS) \<and> (l_committing (log s) \<noteq> 0 \<longrightarrow> dom B = {}))"

lemma budget_upd:
  assumes "finite (dom B)"
  shows "budget (B(p \<mapsto> k)) + (case B p of None \<Rightarrow> 0 | Some j \<Rightarrow> j) = budget B + k"
    and "budget (B(p := None)) + (case B p of None \<Rightarrow> 0 | Some j \<Rightarrow> j) = budget B"
proof -
  have "(\<Sum>q\<in>dom B - {p}. the ((B(p := x)) q)) = (\<Sum>q\<in>dom B - {p}. the (B q))" for x
    by (rule sum.cong) auto
  moreover have "(\<Sum>q\<in>dom B. the (B q)) = (\<Sum>q\<in>dom B - {p}. the (B q)) + (case B p of None \<Rightarrow> 0 | Some j \<Rightarrow> j)"
  proof (cases "B p")
    case None
    then have "dom B - {p} = dom B" by auto
    then show ?thesis using None by simp
  next
    case (Some j)
    then show ?thesis using sum.remove [OF assms, of p "\<lambda>q. the (B q)"] by (auto simp: domI)
  qed
  ultimately show "budget (B(p \<mapsto> k)) + (case B p of None \<Rightarrow> 0 | Some j \<Rightarrow> j) = budget B + k"
    and "budget (B(p := None)) + (case B p of None \<Rightarrow> 0 | Some j \<Rightarrow> j) = budget B"
    using assms by (simp_all add: budget_def sum.insert_remove)
qed

lemma card_dom_upd:
  "finite (dom B) \<Longrightarrow> B p = None \<Longrightarrow> card (dom (B(p \<mapsto> k))) = card (dom B) + 1"
  "finite (dom B) \<Longrightarrow> B p = Some j \<Longrightarrow> card (dom (B(p := None))) + 1 = card (dom B)"
  "B p = Some j \<Longrightarrow> dom (B(p \<mapsto> k)) = dom B"
proof -
  show "finite (dom B) \<Longrightarrow> B p = None \<Longrightarrow> card (dom (B(p \<mapsto> k))) = card (dom B) + 1" by (simp add: card_insert_if domIff)
  show "finite (dom B) \<Longrightarrow> B p = Some j \<Longrightarrow> card (dom (B(p := None))) + 1 = card (dom B)"
    using card_Suc_Diff1 [of "dom B" p] by (auto simp: domI)
  show "B p = Some j \<Longrightarrow> dom (B(p \<mapsto> k)) = dom B" by auto
qed

lemma begin_op_fits:
  assumes "log_space (s, B)" and "begin_op p s = (Done (), s')" and "B p = None"
  shows "log_space (s', B(p \<mapsto> MAXOPBLOCKS))"
proof -
  let ?l = "log s" and ?c = "card (dom B)"
  have I: "finite (dom B)" "sint (l_outstanding ?l) = int ?c" "0 \<le> sint (l_n ?l)" "sint (l_n ?l) + int (budget B) \<le> 30"
    "length (l_block ?l) = LOGBLOCKS" "?c * 10 \<le> 30" "l_committing ?l \<noteq> 0 \<longrightarrow> dom B = {}"
    using assms(1) by (simp_all add: log_space_def LOGBLOCKS_def MAXOPBLOCKS_def)
  have s': "s' = logset (\<lambda>l. l\<lparr>l_outstanding := l_outstanding l + 1\<rparr>) s" and nc: "l_committing ?l = 0"
    and fit: "\<not> of_nat LOGBLOCKS <s l_n ?l + (l_outstanding ?l + 1) * of_nat MAXOPBLOCKS"
    using assms(2) by (auto simp: begin_op_def Let_def split: if_splits)
  have o: "sint (l_outstanding ?l + 1) = int ?c + 1"
    by (subst sint_inc_less [of _ 100]) (use I in simp_all)
  have n: "l_n ?l = word_of_int (sint (l_n ?l))" by simp
  have "word_of_int (sint (l_outstanding ?l + 1)) = l_outstanding ?l + 1" by simp
  note w = this [unfolded o, symmetric]
  have e: "l_n ?l + (l_outstanding ?l + 1) * of_nat MAXOPBLOCKS = word_of_int (sint (l_n ?l) + (int ?c + 1) * 10)"
    unfolding w by (simp add: MAXOPBLOCKS_def)
  have small: "sint (word_of_int x :: cint) = x" if "0 \<le> x" "x < 100" for x
    using that by (simp add: sint_sbintrunc' signed_take_bit_int_eq_self)
  have sum: "sint (l_n ?l + (l_outstanding ?l + 1) * of_nat MAXOPBLOCKS) = sint (l_n ?l) + (int ?c + 1) * 10"
    unfolding e by (rule small) (use I in simp_all)
  have le: "sint (l_n ?l) + (int ?c + 1) * 10 \<le> 30"
    using fit unfolding word_sless_alt sum by (simp add: LOGBLOCKS_def MAXOPBLOCKS_def)
  have rn: "k \<le> 10" if "k \<in> ran B" for k using assms(1) that by (simp add: log_space_def MAXOPBLOCKS_def)
  have "budget B \<le> ?c * 10"
    unfolding budget_def using sum_bounded_above [of "dom B" "\<lambda>p. the (B p)" 10] rn by (force simp: ran_def)
  moreover have "\<forall>k \<in> ran (B(p \<mapsto> MAXOPBLOCKS)). k \<le> 10"
    using rn by (auto simp: ran_def MAXOPBLOCKS_def split: if_splits)
  ultimately show ?thesis
    unfolding log_space_def s' using I o nc le budget_upd(1) [OF I(1), of p MAXOPBLOCKS] card_dom_upd(1) [OF I(1) assms(3)] assms(3)
    by (simp add: LOGBLOCKS_def MAXOPBLOCKS_def)
qed

lemma log_write_fits:
  assumes "log_space (s, B)" and "B p = Some (Suc k)"
  shows "\<exists>s'. log_write b s = Ret s'"
    and "log_write b s = Ret s' \<Longrightarrow> log_space (s', B(p \<mapsto> k))"
proof -
  let ?l = "log s"
  have I: "finite (dom B)" "sint (l_outstanding ?l) = int (card (dom B))" "0 \<le> sint (l_n ?l)" "sint (l_n ?l) + int (budget B) \<le> 30"
    "length (l_block ?l) = LOGBLOCKS" "l_committing ?l \<noteq> 0 \<longrightarrow> dom B = {}"
    using assms(1) by (simp_all add: log_space_def LOGBLOCKS_def MAXOPBLOCKS_def)
  have pd: "p \<in> dom B" using assms(2) by (simp add: domI)
  then have "card (dom B) \<noteq> 0" using I(1) by auto
  then have o: "\<not> l_outstanding ?l <s 1" using I(2) by (simp add: word_sless_alt)
  have bud: "budget (B(p \<mapsto> k)) + 1 = budget B" using budget_upd(1) [OF I(1), of p k] assms(2) by simp
  then have n: "\<not> of_nat LOGBLOCKS \<le>s l_n ?l" using I(4) by (simp add: word_sle_eq LOGBLOCKS_def MAXOPBLOCKS_def)
  show "\<exists>s'. log_write b s = Ret s'" using o n by (simp add: log_write_def Let_def)
  have inc: "sint (l_n ?l + 1) = sint (l_n ?l) + 1" by (rule sint_inc_less [of _ 100]) (use I bud in simp)
  assume run: "log_write b s = Ret s'"
  have l': "l_outstanding (log s') = l_outstanding ?l" "l_committing (log s') = l_committing ?l" "length (l_block (log s')) = LOGBLOCKS"
    "l_n (log s') = l_n ?l \<or> l_n (log s') = l_n ?l + 1"
    using run I(5) o n by (auto simp: log_write_def Let_def bpin_def split: if_splits)
  have "k' \<le> MAXOPBLOCKS" if "k' \<in> ran (B(p \<mapsto> k))" for k'
  proof -
    have "Suc k \<in> ran B" using assms(2) by (rule ranI)
    then show ?thesis using that assms(1) by (auto simp: log_space_def ran_def split: if_splits)
  qed
  moreover have "sint (l_n (log s')) + int (budget (B(p \<mapsto> k))) \<le> int LOGBLOCKS" "0 \<le> sint (l_n (log s'))"
    using l'(4) inc bud I(3,4) by (auto simp: LOGBLOCKS_def MAXOPBLOCKS_def)
  moreover have "card (dom B) * MAXOPBLOCKS \<le> LOGBLOCKS" using assms(1) by (simp add: log_space_def)
  moreover have "finite (dom (B(p \<mapsto> k)))" using I(1) by simp
  ultimately show "log_space (s', B(p \<mapsto> k))"
    unfolding log_space_def prod.case card_dom_upd(3) [of B p "Suc k" k, OF assms(2)] using l' I(2,6) by simp
qed

lemma end_op_fits:
  assumes "log_space (s, B)" and "B p = Some k"
  shows "\<exists>c s'. end_op_lock p s = Ret (c, s')"
    and "end_op_lock p s = Ret (c, s') \<Longrightarrow> log_space (s', B(p := None))"
proof -
  let ?l = "log s"
  have I: "finite (dom B)" "sint (l_outstanding ?l) = int (card (dom B))" "0 \<le> sint (l_n ?l)" "sint (l_n ?l) + int (budget B) \<le> 30"
    "length (l_block ?l) = LOGBLOCKS" "l_committing ?l \<noteq> 0 \<longrightarrow> dom B = {}" "card (dom B) * MAXOPBLOCKS \<le> LOGBLOCKS"
    using assms(1) by (simp_all add: log_space_def LOGBLOCKS_def MAXOPBLOCKS_def)
  have nc: "l_committing ?l = 0" using I(6) assms(2) by auto
  then show "\<exists>c s'. end_op_lock p s = Ret (c, s')" by (auto simp: end_op_lock_def Let_def)
  note cd = card_dom_upd(2) [OF I(1) assms(2)]
  have o: "sint (l_outstanding ?l - 1) = int (card (dom (B(p := None))))"
    by (subst sint_dec) (use I(2) cd in simp_all)
  assume run: "end_op_lock p s = Ret (c, s')"
  have l': "l_outstanding (log s') = l_outstanding ?l - 1" "l_n (log s') = l_n ?l" "l_block (log s') = l_block ?l"
    and c': "l_committing (log s') \<noteq> 0 \<Longrightarrow> l_outstanding ?l - 1 = 0"
    using run nc by (auto simp: end_op_lock_def Let_def split: if_splits)
  have "dom (B(p := None)) = {}" if "l_committing (log s') \<noteq> 0"
  proof -
    have "card (dom (B(p := None))) = 0" using o c' [OF that] by simp
    moreover have "finite (dom (B(p := None)))" using I(1) by simp
    ultimately show ?thesis using card_0_eq by blast
  qed
  moreover have "\<forall>k \<in> ran (B(p := None)). k \<le> MAXOPBLOCKS"
    using assms(1) by (auto simp: log_space_def ran_def split: if_splits)
  moreover have "sint (l_n (log s')) + int (budget (B(p := None))) \<le> int LOGBLOCKS"
    using I(4) budget_upd(2) [OF I(1), of p] l'(2) assms(2) by (simp add: LOGBLOCKS_def MAXOPBLOCKS_def)
  moreover have "card (dom (B(p := None))) * MAXOPBLOCKS \<le> LOGBLOCKS" using I(7) cd by (simp add: MAXOPBLOCKS_def)
  moreover have "finite (dom (B(p := None)))" using I(1) by simp
  ultimately show "log_space (s', B(p := None))"
    unfolding log_space_def prod.case using l' I(3,5) o by simp
qed

lemma log_step_space: "log_step x y \<Longrightarrow> log_space x \<Longrightarrow> log_space y"
proof (induction rule: log_step.induct)
  case (op_begin p s s' B)
  then show ?case using begin_op_fits by blast
next
  case (op_wait p s s' B)
  then have "log s' = log s" by (auto simp: begin_op_def Let_def split: if_splits)
  then show ?case using op_wait.prems by (simp add: log_space_def)
next
  case (op_write B p k b s s')
  then show ?case using log_write_fits(2) by blast
next
  case (op_end B p k s c s')
  then show ?case using end_op_fits(2) by blast
next
  case (op_commit s p s' B)
  then have e: "dom B = {}" and n: "0 \<le> sint (l_n (log s))" by (simp_all add: log_space_def)
  have "log s' = (log s)\<lparr>l_n := 0\<rparr>" by (rule commit_log [OF op_commit.hyps(2) n])
  moreover have "budget B = 0" using e by (simp add: budget_def)
  ultimately show ?case using op_commit.prems e by (simp add: log_space_def end_op_done_def)
next
  case (op_other s' s B)
  then show ?case by (simp add: log_space_def)
qed

lemma log_steps_space: "log_step\<^sup>*\<^sup>* x y \<Longrightarrow> log_space x \<Longrightarrow> log_space y"
  by (induction rule: rtranclp_induct) (blast intro: log_step_space)+

section \<open>A full log\<close>

lemma bread_full:
  assumes inv: "cache_inv me s" and used: "\<forall>i < NBUF. b_refcnt (bufs s ! i) \<noteq> 0" and no: "buf_slot s b = None"
  shows "bread me ROOTDEV b s = Panic ''bget: no buffers''"
proof -
  note I = cache_invD [OF inv]
  have "find (\<lambda>i. b_dev (bufs s ! i) = ROOTDEV \<and> b_blockno (bufs s ! i) = b) (lru s) = None"
    using no buf_slot_None [OF inv, of b] I(3) by (auto simp: find_None_iff)
  moreover have "find (\<lambda>i. b_refcnt (bufs s ! i) = 0) (rev (lru s)) = None" using used I(3) by (auto simp: find_None_iff)
  ultimately show ?thesis by (simp add: bread_def bget_def)
qed

lemma all_pinned:
  assumes inv: "cache_inv me s" and full: "NBUF \<le> card {c. 0 < a_refs (cache_abs s) c}" and i: "i < NBUF"
  obtains b where "buf_slot s b = Some i" and "0 < a_refs (cache_abs s) b"
proof -
  let ?P = "{c. 0 < a_refs (cache_abs s) c}" and ?f = "\<lambda>b. the (buf_slot s b)"
  have sl: "buf_slot s b = Some (?f b)" if "b \<in> ?P" for b
    using that by (cases "buf_slot s b") (simp_all add: cache_abs_def)
  have "inj_on ?f ?P"
  proof (rule inj_onI)
    fix b c
    assume "b \<in> ?P" "c \<in> ?P" "?f b = ?f c"
    then show "b = c" using buf_slot_other [OF inv, of b "?f b" c] sl by metis
  qed
  then have "card (?f ` ?P) = card ?P" by (rule card_image)
  moreover have "?f ` ?P \<subseteq> {..<NBUF}" using buf_slot_iff [OF inv] sl by blast
  ultimately have "?f ` ?P = {..<NBUF}" using full card_mono [of "{..<NBUF}" "?f ` ?P"] by (intro card_subset_eq) simp_all
  then obtain b where b: "b \<in> ?P" "?f b = i" using i by (metis imageE lessThan_iff)
  show thesis by (rule that [of b]) (use sl [OF b(1)] b in simp_all)
qed

lemma commit_full:
  assumes q: "log_quiet me s" and n: "sint (l_n (log s)) = int LOGBLOCKS"
  shows "commit me s = Panic ''bget: no buffers''"
proof -
  have inv: "cache_inv me s" and l: "log_ok (log s)"
    and refs: "\<And>b. a_refs (cache_abs s) b = (if b \<in> set (log_blocks (log s)) then 1 else 0)" using q by (simp_all add: log_quiet_def)
  note L = log_okD [OF l]
  let ?b = "l_start (log s) + of_nat 0 + 1"
  have full: "NBUF \<le> card {c. 0 < a_refs (cache_abs s) c}" using card_pinned [OF q] n by (simp add: NBUF_def LOGBLOCKS_def)
  have used: "\<forall>i < NBUF. b_refcnt (bufs s ! i) \<noteq> 0"
  proof (intro allI impI)
    fix i
    assume "i < NBUF"
    then obtain b where "buf_slot s b = Some i" "0 < a_refs (cache_abs s) b" using all_pinned [OF inv full] by blast
    then show "b_refcnt (bufs s ! i) \<noteq> 0" using slot_facts(3) [OF inv] by blast
  qed
  have "?b \<in> log_area (l_start (log s))" by (rule log_area_mem) (simp add: LOGBLOCKS_def MAXOPBLOCKS_def)
  then have z: "a_refs (cache_abs s) ?b = 0" using refs L(5) by auto
  have "buf_slot s ?b = None"
  proof (cases "buf_slot s ?b")
    case (Some i)
    then have "b_refcnt (bufs s ! i) \<noteq> 0" using used buf_slot_iff [OF inv, of ?b i] by simp
    then show ?thesis using z Some by (simp add: cache_abs_def unat_eq_zero)
  qed
  then have "bread me ROOTDEV ?b s = Panic ''bget: no buffers''" by (rule bread_full [OF inv used])
  moreover have "upto_int (l_n (log s)) = 0 # [1..<LOGBLOCKS]"
    using n by (simp add: upto_int_def upt_conv_Cons LOGBLOCKS_def MAXOPBLOCKS_def)
  moreover have "0 <s l_n (log s)" using n by (simp add: word_sless_alt LOGBLOCKS_def MAXOPBLOCKS_def)
  ultimately show ?thesis using L(6) by (simp add: commit_def write_log_def)
qed

section \<open>Concrete states\<close>

definition home_buf :: "nat \<Rightarrow> buf" where
  "home_buf i = \<lparr>b_valid = 1, b_dev = ROOTDEV, b_blockno = 100 + of_nat i, b_lock = \<lparr>slk_locked = 0, slk_pid = 0\<rparr>, b_refcnt = 1, b_data = [1]\<rparr>"

definition empty_buf :: buf where
  "empty_buf = \<lparr>b_valid = 0, b_dev = 0, b_blockno = 0, b_lock = \<lparr>slk_locked = 0, slk_pid = 0\<rparr>, b_refcnt = 0, b_data = []\<rparr>"

text \<open>\<open>n\<close> blocks are logged, of a log that starts at block 2, over a disk of zeros.\<close>

definition log_demo :: "nat \<Rightarrow> klog" where
  "log_demo n = kbio.extend (kcons.extend cons_demo (kbio.fields
     (map (\<lambda>i. if i < n then home_buf i else empty_buf) [0..<NBUF]) [0..<NBUF] (\<lambda>b. replicate BSIZE 0) []))
     (klog.fields \<lparr>l_start = 2, l_outstanding = 0, l_committing = 0, l_dev = ROOTDEV, l_n = of_nat n,
        l_block = map (\<lambda>i. 100 + of_nat i) [0..<LOGBLOCKS]\<rparr>)"

lemma log_demo_fields [simp]:
  "bufs (log_demo n) = map (\<lambda>i. if i < n then home_buf i else empty_buf) [0..<NBUF]" "lru (log_demo n) = [0..<NBUF]"
  "disk (log_demo n) = (\<lambda>b. replicate BSIZE 0)" "dwrites (log_demo n) = []"
  "log (log_demo n) = \<lparr>l_start = 2, l_outstanding = 0, l_committing = 0, l_dev = ROOTDEV, l_n = of_nat n,
        l_block = map (\<lambda>i. 100 + of_nat i) [0..<LOGBLOCKS]\<rparr>"
  by (simp_all add: log_demo_def kbio.defs kcons.defs klog.defs)

lemma home_inj: "i < LOGBLOCKS \<Longrightarrow> j < LOGBLOCKS \<Longrightarrow> (100 :: uint) + of_nat i = 100 + of_nat j \<longleftrightarrow> i = j"
  using log_block_inj [of i j 100] by auto

lemma log_demo_quiet:
  assumes n: "n \<le> LOGBLOCKS"
  shows "log_quiet me (log_demo n)" and "i < n \<Longrightarrow> a_view (cache_abs (log_demo n)) (100 + of_nat i) = [1]"
proof -
  have nb: "NBUF = LOGBLOCKS" by (simp add: NBUF_def LOGBLOCKS_def)
  have r: "(0 :: uint) \<noteq> ROOTDEV" by (simp add: ROOTDEV_def)
  have inv: "cache_inv me (log_demo n)"
    using home_inj r by (auto simp: cache_inv_def buf_inv_def home_buf_def empty_buf_def nb atLeast0LessThan split: if_splits)
  have slot: "buf_slot (log_demo n) (100 + of_nat i) = Some i" if "i < n" for i
    using buf_slot_iff [OF inv, of "100 + of_nat i" i] that n by (simp add: nb home_buf_def)
  have none: "buf_slot (log_demo n) b = None" if "b \<notin> (\<lambda>i. 100 + of_nat i) ` {0..<n}" for b
    using buf_slot_None [OF inv, of b] that r by (auto simp: home_buf_def empty_buf_def)
  have N: "nat (sint (of_nat n :: cint)) = n"
    using n by (simp add: sint_of_nat_small LOGBLOCKS_def MAXOPBLOCKS_def)
  have lb: "log_blocks (log (log_demo n)) = map (\<lambda>i. 100 + of_nat i) [0..<n]"
    using n by (simp add: log_blocks_def N take_map)
  have "(100 :: uint) + of_nat i \<noteq> 2 + of_nat t" if "i < n" "t \<le> LOGBLOCKS" for i t
  proof
    assume e: "(100 :: uint) + of_nat i = 2 + of_nat t"
    have "of_nat (100 + i) = (100 :: uint) + of_nat i" "of_nat (2 + t) = (2 :: uint) + of_nat t" by simp_all
    then have "unat (of_nat (100 + i) :: uint) = unat (of_nat (2 + t) :: uint)" by (simp only: e)
    then have "(100 + i) mod 2 ^ 32 = (2 + t) mod 2 ^ 32" by (simp only: unat_of_nat) simp
    then show False using that n by (simp add: LOGBLOCKS_def MAXOPBLOCKS_def)
  qed
  then have "set (log_blocks (log (log_demo n))) \<inter> log_area 2 = {}" unfolding lb log_area_def by fastforce
  moreover have "distinct (log_blocks (log (log_demo n)))"
    unfolding lb distinct_map using home_inj n by (auto simp: inj_on_def)
  ultimately have ok: "log_ok (log (log_demo n))"
    using n unfolding log_ok_def by (simp add: sint_of_nat_small LOGBLOCKS_def MAXOPBLOCKS_def)
  have "a_refs (cache_abs (log_demo n)) b = (if b \<in> set (log_blocks (log (log_demo n))) then 1 else 0) \<and> \<not> a_held (cache_abs (log_demo n)) b" for b
  proof (cases "b \<in> (\<lambda>i. 100 + of_nat i) ` {0..<n}")
    case True
    then obtain i where "b = 100 + of_nat i" "i < n" by auto
    then show ?thesis using slot [of i] n unfolding lb by (simp add: cache_abs_def nb home_buf_def)
  next
    case False
    then show ?thesis using none [OF False] unfolding lb by (simp add: cache_abs_def)
  qed
  then show "log_quiet me (log_demo n)" using inv ok by (simp add: log_quiet_def)
  show "i < n \<Longrightarrow> a_view (cache_abs (log_demo n)) (100 + of_nat i) = [1]"
    using slot [of i] n by (simp add: cache_abs_def nb home_buf_def)
qed

text \<open>A machine booted on the disk \<open>d\<close>.\<close>

definition boot_demo :: "(uint \<Rightarrow> uchar list) \<Rightarrow> klog" where
  "boot_demo d = binit ((log_demo 0)\<lparr>disk := d\<rparr>)"

lemma binit_loop_log: "log (binit_loop is s) = log s"
  by (induction "is" arbitrary: s) simp_all

lemma boot_demo_booted: "booted me d (boot_demo d)"
proof -
  have z: "length (bufs ((log_demo 0)\<lparr>disk := d\<rparr>)) = NBUF" "\<forall>x \<in> set (bufs ((log_demo 0)\<lparr>disk := d\<rparr>)). zero_buf x"
    by (simp_all add: zero_buf_def empty_buf_def)
  note b = binit_inv [OF z]
  have "disk (boot_demo d) = d" by (simp add: boot_demo_def binit_def binit_loop_bufs)
  moreover have "length (l_block (log (boot_demo d))) = LOGBLOCKS" by (simp add: boot_demo_def binit_def binit_loop_log)
  ultimately show ?thesis using b by (simp add: booted_def boot_demo_def)
qed

section \<open>Properties\<close>

text \<open>
  C1: a commit is atomic with respect to crashes.  When no operation is outstanding and the log does not pin
  every buffer, \<^verbatim>\<open>commit\<close> returns with every home block on the disk holding its new content.
  Wherever the machine stops among the disk writes \<open>commit\<close> issues, \<^verbatim>\<open>initlog\<close> on the next
  boot returns with every block outside the log holding its old content, if the header had not been written
  yet, and every one its new content otherwise.
\<close>

theorem commit_crash_atomic:
  fixes s :: klog
  assumes "log_quiet me s" and "nat (sint (l_n (log s))) < NBUF"
    and "head_n (disk s (l_start (log s))) = 0" and "LOGHEADER_SIZE \<le> length (disk s (l_start (log s)))"
  shows "\<exists>s' W. commit me s = Ret s' \<and> dwrites s' = dwrites s @ W
     \<and> (\<forall>b. b \<notin> log_area (l_start (log s)) \<longrightarrow> disk s' b = a_view (cache_abs s) b)
     \<and> (\<forall>k r. k \<le> length W \<longrightarrow> booted me (apply_writes (take k W) (disk s)) r \<longrightarrow>
          (\<exists>r'. initlog me ROOTDEV (l_start (log s)) (r :: klog) = Ret r'
             \<and> (\<forall>b. b \<notin> log_area (l_start (log s)) \<longrightarrow>
                   disk r' b = (if k \<le> nat (sint (l_n (log s))) then disk s b else a_view (cache_abs s) b))))"
proof -
  let ?W = "commit_writes (log s) (a_view (cache_abs s))" and ?st = "l_start (log s)" and ?N = "nat (sint (l_n (log s)))"
  obtain s' where c: "commit me s = Ret s'" "cache_inv me s'"
    "cache_abs s' = unpinned (set (log_blocks (log s))) (awrites ?W (cache_abs s))"
    using commit_ok [OF assms(1,2)] by blast
  have dw: "dwrites s' = dwrites s @ ?W" using arg_cong [OF c(3), of a_writes] by (simp add: cache_abs_def)
  have dk: "disk s' = apply_writes ?W (disk s)" using arg_cong [OF c(3), of a_disk] by (simp add: cache_abs_def)
  have boot: "\<exists>r'. initlog me ROOTDEV ?st r = Ret r' \<and> (\<forall>b. b \<notin> log_area ?st \<longrightarrow>
      disk r' b = (if k \<le> ?N then disk s b else a_view (cache_abs s) b))"
    if k: "k \<le> length ?W" and r: "booted me (apply_writes (take k ?W) (disk s)) r" for k and r :: klog
  proof -
    note p = crash_point [OF assms(1,3,4) k]
    have h: "head_ok ?st (apply_writes (take k ?W) (disk s) ?st)" using p ..
    obtain r' where i: "initlog me ROOTDEV ?st r = Ret r'"
      "\<And>b. b \<noteq> ?st \<Longrightarrow> disk r' b = recovered ?st (apply_writes (take k ?W) (disk s)) b"
      by (rule initlog_ok [OF r h]) (rule that)
    have "disk r' b = (if k \<le> ?N then disk s b else a_view (cache_abs s) b)" if b: "b \<notin> log_area ?st" for b
    proof -
      have "b \<noteq> ?st" using b log_area_mem(2) [of ?st] by blast
      then show ?thesis using i(2) p b by simp
    qed
    then show ?thesis using i(1) by blast
  qed
  have new: "disk s' b = a_view (cache_abs s) b" if b: "b \<notin> log_area ?st" for b
  proof -
    have z: "a_refs (cache_abs s') b = 0" using assms(1) by (simp add: c(3) log_quiet_def)
    have "apply_writes ?W (a_view (cache_abs s)) b = a_view (cache_abs s) b"
      by (rule commit_writes_view) (use assms(1) b in \<open>simp_all add: log_quiet_def\<close>)
    moreover have "a_disk (cache_abs s) = disk s" by (simp add: cache_abs_def)
    ultimately show ?thesis using unused_clean [OF c(2) z] by (simp add: c(3) dk)
  qed
  show ?thesis using c(1) dw new boot by blast
qed

theorem commit_crash_atomic_witness:
  "\<exists>s' W. commit 0 (log_demo 1) = Ret s' \<and> dwrites s' = W \<and> disk s' 100 = [1]
     \<and> (2 \<le> length W \<longrightarrow> (\<exists>r'. initlog 0 ROOTDEV 2 (boot_demo (apply_writes (take 2 W) (disk (log_demo 1)))) = Ret r' \<and> disk r' 100 = [1]))
     \<and> (\<exists>r'. initlog 0 ROOTDEV 2 (boot_demo (disk (log_demo 1))) = Ret r' \<and> disk r' 100 = replicate BSIZE 0)"
proof -
  let ?s = "log_demo 1"
  have n: "(1 :: nat) \<le> LOGBLOCKS" by (simp add: LOGBLOCKS_def MAXOPBLOCKS_def)
  note q = log_demo_quiet [OF n]
  have l: "log_ok (log ?s)" using q(1) by (simp add: log_quiet_def)
  have st: "l_start (log ?s) = 2" "nat (sint (l_n (log ?s))) = 1" by simp_all
  have "replicate 4 0 = [0, 0, 0, 0 :: uchar]" by (simp add: numeral_eq_Suc)
  then have "take 4 (replicate BSIZE 0) = [0, 0, 0, 0 :: uchar]" by (simp add: BSIZE_def take_replicate min_def)
  then have z: "head_n (disk ?s (l_start (log ?s))) = 0" by (simp add: head_n_def sub_bytes_def)
  have len: "LOGHEADER_SIZE \<le> length (disk ?s (l_start (log ?s)))"
    by (simp add: LOGHEADER_SIZE_def LOGBLOCKS_def MAXOPBLOCKS_def BSIZE_def)
  have few: "nat (sint (l_n (log ?s))) < NBUF" unfolding st(2) by (simp add: NBUF_def MAXOPBLOCKS_def)
  have "l_block (log ?s) ! 0 = 100" using n by simp
  then have out: "(100 :: uint) \<notin> log_area 2"
    using log_okD(5) [OF l log_okD(4) [OF l, of 0]] unfolding st by simp
  have v: "a_view (cache_abs ?s) 100 = [1]" using q(2) [of 0] by simp
  from commit_crash_atomic [OF q(1) [of 0] few z len] obtain s' W where c: "commit 0 ?s = Ret s'" "dwrites s' = dwrites ?s @ W"
    "\<forall>b. b \<notin> log_area 2 \<longrightarrow> disk s' b = a_view (cache_abs ?s) b"
    "\<forall>k r. k \<le> length W \<longrightarrow> booted 0 (apply_writes (take k W) (disk ?s)) (r :: klog) \<longrightarrow>
      (\<exists>r'. initlog 0 ROOTDEV 2 r = Ret r' \<and> (\<forall>b. b \<notin> log_area 2 \<longrightarrow>
         disk r' b = (if k \<le> 1 then disk ?s b else a_view (cache_abs ?s) b)))"
    unfolding st by (elim exE conjE) (rule that)
  have "\<exists>r'. initlog 0 ROOTDEV 2 (boot_demo (apply_writes (take 2 W) (disk ?s))) = Ret r' \<and> disk r' 100 = [1]" if "2 \<le> length W"
    using c(4) [rule_format, OF that boot_demo_booted] out v by auto
  moreover have "\<exists>r'. initlog 0 ROOTDEV 2 (boot_demo (disk ?s)) = Ret r' \<and> disk r' 100 = disk ?s 100"
    using c(4) [rule_format, of 0, OF _ boot_demo_booted] out by auto
  moreover have "disk s' 100 = [1]" using c(3) out v by simp
  ultimately show ?thesis using c(1,2) by auto
qed



text \<open>
  C4: a full log cannot be committed.  LOGBLOCKS equals NBUF, so when a transaction has logged LOGBLOCKS
  blocks, which the reservation of \<^verbatim>\<open>begin_op\<close> allows, all buffers are pinned and \<^verbatim>\<open>commit\<close>
  panics on its first \<^verbatim>\<open>bread\<close> of a log block.
\<close>

theorem commit_full_log_panics:
  assumes "log_quiet me s" and "sint (l_n (log s)) = int LOGBLOCKS"
  shows "commit me s = Panic ''bget: no buffers''"
  using commit_full [OF assms] .

theorem commit_full_log_panics_witness: "commit 0 (log_demo LOGBLOCKS) = Panic ''bget: no buffers''"
  by (rule commit_full_log_panics [OF log_demo_quiet(1)])
    (simp_all add: sint_of_nat_small LOGBLOCKS_def MAXOPBLOCKS_def)

text \<open>
  C7: no operation waits for ever on a log that is idle.  The end of a commit makes every process that sleeps
  in \<^verbatim>\<open>begin_op\<close> runnable, and the next call of \<^verbatim>\<open>begin_op\<close>, by any process, gets in
  without sleeping.
\<close>

theorem begin_op_after_commit:
  assumes "commit p s = Ret s'" and "0 \<le> sint (l_n (log s))" and "l_outstanding (log s) = 0"
  shows "(\<exists>t. begin_op q (end_op_done p s') = (Done (), t))
     \<and> (\<forall>i < length (procs s'). i \<noteq> p \<longrightarrow> p_state (pget i s') = SLEEPING \<longrightarrow> p_chan (pget i s') = ChanLog \<longrightarrow>
          p_state (pget i (end_op_done p s')) = RUNNABLE)"
proof -
  have "log s' = (log s)\<lparr>l_n := 0\<rparr>" by (rule commit_log [OF assms(1,2)])
  then have "\<exists>t. begin_op q (end_op_done p s') = (Done (), t)"
    using assms(3) by (simp add: begin_op_def end_op_done_def Let_def word_sless_alt LOGBLOCKS_def MAXOPBLOCKS_def)
  moreover have "p_state (pget i (end_op_done p s')) = RUNNABLE"
    if "i < length (procs s')" "i \<noteq> p" "p_state (pget i s') = SLEEPING" "p_chan (pget i s') = ChanLog" for i
    using that by (simp add: end_op_done_def wakeup_def wake_one_def logset_def)
  ultimately show ?thesis by blast
qed

theorem begin_op_after_commit_witness:
  "\<exists>s'. commit 0 (log_demo 0) = Ret s' \<and> (\<exists>t. begin_op 7 (end_op_done 0 s') = (Done (), t))"
proof -
  have c: "commit 0 (log_demo 0) = Ret (log_demo 0)" by (simp add: commit_def)
  then show ?thesis using begin_op_after_commit [OF c, of 7] by simp
qed

end
