(* ===== verification/Txn.thy ===== *)
theory Txn
  imports Log
begin

text \<open>
  What the file system's code relies on between \<^verbatim>\<open>begin_op\<close> and \<^verbatim>\<open>end_op\<close>: reading, and
  changing under the log, one block at a time.  \<open>in_op me k H s\<close> says that process \<open>me\<close> holds the buffers of
  the blocks \<open>H\<close> and that the log and the cache have room for \<open>k\<close> more.
\<close>

abbreviation view :: "'a kbio_scheme \<Rightarrow> uint \<Rightarrow> uchar list" where
  "view s \<equiv> a_view (cache_abs s)"

definition in_op :: "nat \<Rightarrow> nat \<Rightarrow> uint set \<Rightarrow> 'a klog_scheme \<Rightarrow> bool" where
  "in_op me k H s \<longleftrightarrow> log_inv me s \<and> (\<forall>b. a_held (cache_abs s) b \<longleftrightarrow> b \<in> H) \<and> 1 \<le> sint (l_outstanding (log s))
     \<and> sint (l_n (log s)) + int k + int (card H) + 1 \<le> int NBUF"

text \<open>\<open>same_op s s'\<close>: only the cache, the list of logged blocks and scheduling states differ.\<close>

definition op_frame :: "'a klog_scheme \<Rightarrow> 'a klog_scheme" where
  "op_frame s = logset (\<lambda>l. l\<lparr>l_n := 0, l_block := []\<rparr>) (bio_frame s)"

definition same_op :: "'a klog_scheme \<Rightarrow> 'a klog_scheme \<Rightarrow> bool" where
  "same_op s s' \<longleftrightarrow> op_frame s' = op_frame s \<and> map p_pid (procs s') = map p_pid (procs s)"

lemma same_op_refl [simp]: "same_op s s"
  by (simp add: same_op_def)

lemma same_op_trans: "same_op s t \<Longrightarrow> same_op t u \<Longrightarrow> same_op s u"
  by (simp add: same_op_def)

lemma same_op_bio: "only_bio s s' \<Longrightarrow> same_op s s'"
  by (simp add: same_op_def only_bio_def op_frame_def)

lemma same_op_bdata [simp]: "same_op s (bdata i f t) = same_op s t"
  by (simp add: same_op_def op_frame_def bio_frame_def bdata_def bufset_def logset_def)

lemma same_op_log:
  assumes "same_op s s'"
  shows "l_start (log s') = l_start (log s)" "l_outstanding (log s') = l_outstanding (log s)"
    "l_committing (log s') = l_committing (log s)" "l_dev (log s') = l_dev (log s)"
proof -
  have "log (op_frame s') = log (op_frame s)" using assms by (simp add: same_op_def)
  then have eq: "(log s')\<lparr>l_n := 0, l_block := []\<rparr> = (log s)\<lparr>l_n := 0, l_block := []\<rparr>"
    by (simp add: op_frame_def bio_frame_def logset_def)
  show "l_start (log s') = l_start (log s)" "l_outstanding (log s') = l_outstanding (log s)"
    "l_committing (log s') = l_committing (log s)" "l_dev (log s') = l_dev (log s)"
    using arg_cong [OF eq, of l_start] arg_cong [OF eq, of l_outstanding] arg_cong [OF eq, of l_committing]
      arg_cong [OF eq, of l_dev] by simp_all
qed

lemma same_op_log_write: "log_write i s = Ret s' \<Longrightarrow> same_op s s'"
  by (auto simp: log_write_def Let_def same_op_def op_frame_def bio_frame_def bpin_def bufset_def logset_def split: if_splits)

lemma in_opD:
  assumes "in_op me k H s"
  shows "log_inv me s" "a_held (cache_abs s) b \<longleftrightarrow> b \<in> H" "1 \<le> sint (l_outstanding (log s))"
    "sint (l_n (log s)) + int k + int (card H) + 1 \<le> int NBUF"
  using assms by (simp_all add: in_op_def)

lemma in_op_room:
  assumes "in_op me k H s"
  shows "room_for b (cache_abs s)"
proof -
  let ?l = "log s"
  note L = log_okD [OF log_invD(2) [OF in_opD(1) [OF assms]]]
  have "{c. 0 < a_refs (cache_abs s) c} = set (log_blocks ?l) \<union> H"
    using log_invD(3) [OF in_opD(1) [OF assms]] in_opD(2) [OF assms] by (auto simp: of_bool_def split: if_splits)
  then have "card {c. 0 < a_refs (cache_abs s) c} \<le> card (set (log_blocks ?l)) + card H" by (simp add: card_Un_le)
  also have "card (set (log_blocks ?l)) \<le> nat (sint (l_n ?l))" using card_length [of "log_blocks ?l"] L(2) by simp
  finally have "card {c. 0 < a_refs (cache_abs s) c} \<le> nat (sint (l_n ?l)) + card H" by simp
  moreover have "0 \<le> sint (l_n ?l)" using log_invD(2) [OF in_opD(1) [OF assms]] by (simp add: log_ok_def)
  ultimately have "card {c. 0 < a_refs (cache_abs s) c} < NBUF" using in_opD(4) [OF assms] by linarith
  then show ?thesis by (simp add: room_for_def)
qed

text \<open>Taking a buffer, and giving it back unchanged or logged.\<close>

lemma op_bread:
  assumes op: "in_op me (Suc k) H s" and b: "b \<notin> H"
  obtains i s' where "bread me ROOTDEV b s = Ret (i, s')" and "in_op me k (insert b H) s'" and "buf_slot s' b = Some i"
    and "view s' = view s" and "b_data (bufs s' ! i) = view s b" and "same_op s s'" and "log s' = log s"
    and "a_disk (cache_abs s') = a_disk (cache_abs s)" and "\<And>c. c \<in> H \<Longrightarrow> buf_slot s' c = buf_slot s c"
    and "only_bio s s'"
proof -
  note O = in_opD [OF op]
  obtain i s' where r: "bread me ROOTDEV b s = Ret (i, s')" "log_inv me s'" "log s' = log s" "buf_slot s' b = Some i"
    "cache_abs s' = aread b (cache_abs s)" "b_data (bufs s' ! i) = view s b" "only_bio s s'"
    "\<And>c. 0 < a_refs (cache_abs s) c \<Longrightarrow> buf_slot s' c = buf_slot s c"
    by (rule log_bread [OF O(1) _ in_op_room [OF op], of b]) (use O(2) b in blast)+
  have "card (insert b H) \<le> Suc (card H)" by (simp add: card_insert_le_m1 card_insert_if)
  then have "in_op me k (insert b H) s'"
    using r(2) O(2-4) unfolding in_op_def by (auto simp: r(3,5))
  moreover have "buf_slot s' c = buf_slot s c" if "c \<in> H" for c
    using r(8) [of c] log_invD(3) [OF O(1), of c] O(2) that by simp
  ultimately show thesis
    by (intro that [OF r(1)]) (use r same_op_bio in simp_all)
qed

lemma op_brelse:
  assumes op: "in_op me k (insert b H) s" and b: "b \<notin> H" and sl: "buf_slot s b = Some i"
    and cl: "b \<in> set (log_blocks (log s)) \<or> view s b = a_disk (cache_abs s) b"
  obtains s' where "brelse me i s = Ret s'" and "in_op me (Suc k) H s'" and "buf_slot s' = buf_slot s"
    and "view s' = view s" and "same_op s s'" and "log s' = log s" and "a_disk (cache_abs s') = a_disk (cache_abs s)"
    and "only_bio s s'"
proof -
  note O = in_opD [OF op]
  have h: "a_held (cache_abs s) b" using O(2) by simp
  obtain s' where r: "brelse me i s = Ret s'" "log_inv me s'" "log s' = log s" "buf_slot s' = buf_slot s"
    "cache_abs s' = arelse b (cache_abs s)" "only_bio s s'"
    using log_brelse [OF O(1) h sl cl] by blast
  have "card (insert b H) = Suc (card H)" using b by simp
  then have "in_op me (Suc k) H s'"
    using r(2) O(2-4) b unfolding in_op_def by (auto simp: r(3,5))
  then show thesis
    by (intro that [OF r(1)]) (use r same_op_bio in simp_all)
qed

lemma op_bdata:
  assumes op: "in_op me k H s" and b: "b \<in> H" and sl: "buf_slot s b = Some i"
  shows "in_op me k H (bdata i f s)" "buf_slot (bdata i f s) = buf_slot s" "view (bdata i f s) = (view s)(b := f (view s b))"
    "a_disk (cache_abs (bdata i f s)) = a_disk (cache_abs s)"
proof -
  note O = in_opD [OF op]
  have h: "a_held (cache_abs s) b" using O(2) b by simp
  note d = log_bdata [OF O(1) h sl, of f]
  show "buf_slot (bdata i f s) = buf_slot s" "view (bdata i f s) = (view s)(b := f (view s b))"
    "a_disk (cache_abs (bdata i f s)) = a_disk (cache_abs s)" using d by simp_all
  show "in_op me k H (bdata i f s)" using d(1) O(2-4) unfolding in_op_def by (simp add: d(3))
qed

lemma op_log_write:
  assumes op: "in_op me (Suc k) H s" and b: "b \<in> H" and sl: "buf_slot s b = Some i" and home: "b \<notin> log_area (l_start (log s))"
  obtains s' where "log_write i s = Ret s'" and "in_op me k H s'" and "buf_slot s' = buf_slot s" and "view s' = view s"
    and "b \<in> set (log_blocks (log s'))" and "same_op s s'" and "a_disk (cache_abs s') = a_disk (cache_abs s)"
    and "log_blocks (log s') = logged b (log_blocks (log s))"
proof -
  note O = in_opD [OF op] and L = log_okD [OF log_invD(2) [OF in_opD(1) [OF op]]]
  have h: "a_held (cache_abs s) b" using O(2) b by simp
  have n: "sint (l_n (log s)) < int LOGBLOCKS" using O(4) by (simp add: NBUF_def LOGBLOCKS_def)
  have n0: "0 \<le> sint (l_n (log s))" using log_invD(2) [OF O(1)] by (simp add: log_ok_def)
  obtain s' where w: "log_write i s = Ret s'" "log_inv me s'" "buf_slot s' = buf_slot s" "view s' = view s"
    "a_held (cache_abs s') = a_held (cache_abs s)" "a_disk (cache_abs s') = a_disk (cache_abs s)"
    "log_blocks (log s') = logged b (log_blocks (log s))" "l_outstanding (log s') = l_outstanding (log s)"
    "sint (l_n (log s')) = int (length (logged b (log_blocks (log s))))"
    by (rule log_write_ok [OF O(1) h sl n O(3) home]) blast
  have "sint (l_n (log s')) \<le> sint (l_n (log s)) + 1"
    using w(9) n0 by (simp add: L(2) logged_def)
  then have "in_op me k H s'" using w(2) O(2-4) unfolding in_op_def by (simp add: w(5,8))
  moreover have "b \<in> set (log_blocks (log s'))" by (simp add: w(7) logged_def)
  ultimately show thesis
    by (intro that [OF w(1)]) (use w same_op_log_write [OF w(1)] in simp_all)
qed

text \<open>The idiom of every update: read a block, change it, log it, release it.\<close>

lemma op_finish:
  assumes op: "in_op me (Suc k) (insert b H) s" and b: "b \<notin> H" and sl: "buf_slot s b = Some i" and home: "b \<notin> log_area (l_start (log s))"
  obtains s' where "kbind (log_write i (bdata i f s)) (brelse me i) = Ret s'" and "in_op me (Suc k) H s'"
    and "view s' = (view s)(b := f (view s b))" and "same_op s s'" and "buf_slot s' = buf_slot s"
    and "a_disk (cache_abs s') = a_disk (cache_abs s)" and "set (log_blocks (log s')) = insert b (set (log_blocks (log s)))"
proof -
  note d = op_bdata [OF op insertI1 sl, of f]
  obtain s1 where w: "log_write i (bdata i f s) = Ret s1" "in_op me k (insert b H) s1" "buf_slot s1 = buf_slot (bdata i f s)"
    "view s1 = view (bdata i f s)" "b \<in> set (log_blocks (log s1))" "same_op (bdata i f s) s1"
    "a_disk (cache_abs s1) = a_disk (cache_abs (bdata i f s))" "log_blocks (log s1) = logged b (log_blocks (log (bdata i f s)))"
    by (rule op_log_write [OF d(1) insertI1]) (use d(2) sl home in simp_all)
  have "buf_slot s1 b = Some i" using w(3) d(2) sl by simp
  then obtain s2 where r: "brelse me i s1 = Ret s2" "in_op me (Suc k) H s2" "buf_slot s2 = buf_slot s1" "view s2 = view s1" "same_op s1 s2"
    "log s2 = log s1" "a_disk (cache_abs s2) = a_disk (cache_abs s1)"
    by (rule op_brelse [OF w(2) b]) (use w(5) in simp_all)
  have "same_op s (bdata i f s)" by simp
  then have "same_op s s2" using w(6) r(5) same_op_trans by blast
  moreover have "set (log_blocks (log s2)) = insert b (set (log_blocks (log s)))" using r(6) w(8) by (auto simp: logged_def)
  ultimately show thesis by (intro that [of s2]) (use w r d in simp_all)
qed

lemma op_modify:
  assumes op: "in_op me (Suc (Suc k)) H s" and b: "b \<notin> H" and home: "b \<notin> log_area (l_start (log s))"
  obtains s' where "kbind (bread me ROOTDEV b s) (\<lambda>(i, s). kbind (log_write i (bdata i f s)) (brelse me i)) = Ret s'"
    and "in_op me (Suc k) H s'" and "view s' = (view s)(b := f (view s b))" and "same_op s s'"
    and "\<And>c. c \<in> H \<Longrightarrow> buf_slot s' c = buf_slot s c"
    and "a_disk (cache_abs s') = a_disk (cache_abs s)" and "set (log_blocks (log s')) = insert b (set (log_blocks (log s)))"
proof -
  obtain i s1 where r: "bread me ROOTDEV b s = Ret (i, s1)" "in_op me (Suc k) (insert b H) s1" "buf_slot s1 b = Some i"
    "view s1 = view s" "same_op s s1" "log s1 = log s" "a_disk (cache_abs s1) = a_disk (cache_abs s)"
    "\<And>c. c \<in> H \<Longrightarrow> buf_slot s1 c = buf_slot s c"
    by (rule op_bread [OF op b]) blast
  have home1: "b \<notin> log_area (l_start (log s1))" using home r(6) by simp
  obtain s2 where w: "kbind (log_write i (bdata i f s1)) (brelse me i) = Ret s2" "in_op me (Suc k) H s2"
    "view s2 = (view s1)(b := f (view s1 b))" "same_op s1 s2" "buf_slot s2 = buf_slot s1"
    "a_disk (cache_abs s2) = a_disk (cache_abs s1)" "set (log_blocks (log s2)) = insert b (set (log_blocks (log s1)))"
    by (rule op_finish [OF r(2) b r(3) home1, of f]) blast
  show thesis
    by (rule that [of s2]) (use r w same_op_trans [OF r(5) w(4)] in simp_all)
qed

text \<open>Reading one block: nothing changes.\<close>

lemma op_peek:
  assumes op: "in_op me (Suc k) H s" and b: "b \<notin> H" and cl: "b \<in> set (log_blocks (log s)) \<or> view s b = a_disk (cache_abs s) b"
  obtains i s1 s2 where "bread me ROOTDEV b s = Ret (i, s1)" and "b_data (bufs s1 ! i) = view s b" and "brelse me i s1 = Ret s2"
    and "in_op me (Suc k) H s2" and "view s2 = view s" and "only_bio s s1" and "only_bio s s2" and "log s2 = log s"
    and "a_disk (cache_abs s2) = a_disk (cache_abs s)" and "\<And>c. c \<in> H \<Longrightarrow> buf_slot s2 c = buf_slot s c"
proof -
  obtain i s1 where r: "bread me ROOTDEV b s = Ret (i, s1)" "in_op me k (insert b H) s1" "buf_slot s1 b = Some i"
    "view s1 = view s" "b_data (bufs s1 ! i) = view s b" "log s1 = log s" "a_disk (cache_abs s1) = a_disk (cache_abs s)"
    "\<And>c. c \<in> H \<Longrightarrow> buf_slot s1 c = buf_slot s c" "only_bio s s1"
    by (rule op_bread [OF op b]) blast
  obtain s2 where q: "brelse me i s1 = Ret s2" "in_op me (Suc k) H s2" "buf_slot s2 = buf_slot s1" "view s2 = view s1"
    "log s2 = log s1" "a_disk (cache_abs s2) = a_disk (cache_abs s1)" "only_bio s1 s2"
    by (rule op_brelse [OF r(2) b r(3)]) (use cl r in auto)
  show thesis
    by (rule that [OF r(1,5) q(1,2)]) (use r q only_bio_trans [OF r(9) q(7)] in simp_all)
qed

lemma op_clean:
  assumes "in_op me k H s" and "b \<notin> H"
  shows "b \<in> set (log_blocks (log s)) \<or> view s b = a_disk (cache_abs s) b"
proof (cases "b \<in> set (log_blocks (log s))")
  case False
  note I = log_invD [OF in_opD(1) [OF assms(1)]]
  have "a_refs (cache_abs s) b = 0" using I(3) [of b] False assms in_opD(2) [OF assms(1)] by simp
  then show ?thesis using unused_clean [OF I(1)] by blast
qed simp

section \<open>Whole transactions\<close>

text \<open>No operation is active and the log is empty.\<close>

definition log_idle :: "nat \<Rightarrow> 'a klog_scheme \<Rightarrow> bool" where
  "log_idle me s \<longleftrightarrow> log_quiet me s \<and> l_n (log s) = 0 \<and> l_outstanding (log s) = 0 \<and> l_committing (log s) = 0"

definition begin_now :: "nat \<Rightarrow> 'a klog_scheme \<Rightarrow> 'a klog_scheme kres" where
  "begin_now me s = (case begin_op me s of (Done _, s) \<Rightarrow> Ret s | (Sleeps, s) \<Rightarrow> Block ChanLog)"

lemma begin_ok:
  assumes "log_idle me s"
  obtains s' where "begin_now me s = Ret s'" and "in_op me 29 {} s'" and "cache_abs s' = cache_abs s"
    and "log s' = (log s)\<lparr>l_outstanding := 1\<rparr>" and "same_op (logset (\<lambda>l. l\<lparr>l_outstanding := 1\<rparr>) s) s'"
proof -
  have q: "log_quiet me s" and l: "l_n (log s) = 0" "l_outstanding (log s) = 0" "l_committing (log s) = 0"
    using assms by (simp_all add: log_idle_def)
  let ?s = "logset (\<lambda>l. l\<lparr>l_outstanding := 1\<rparr>) s"
  have run: "begin_now me s = Ret ?s"
    using l by (simp add: begin_now_def begin_op_def Let_def word_sless_alt LOGBLOCKS_def MAXOPBLOCKS_def logset_def)
  have A: "cache_abs ?s = cache_abs s" by (rule cache_cong) (simp_all add: logset_def)
  have "log_ok (log ?s)" using q by (simp add: log_quiet_def log_ok_def log_blocks_def)
  then have "log_inv me ?s" using q by (simp add: log_quiet_inv log_inv_def A log_blocks_def)
  then have "in_op me 29 {} ?s"
    using q l by (simp add: in_op_def A log_quiet_def NBUF_def MAXOPBLOCKS_def)
  then show thesis using that [OF run] A by simp
qed

lemma end_op_ok:
  assumes op: "in_op me k {} s" and l: "l_outstanding (log s) = 1" "l_committing (log s) = 0"
  obtains s' where "end_op me s = Ret s'" and "log_idle me s'" and "\<And>b. b \<notin> log_area (l_start (log s)) \<Longrightarrow> view s' b = view s b"
    and "\<And>b. b \<notin> log_area (l_start (log s)) \<Longrightarrow> disk s' b = view s b" and "l_start (log s') = l_start (log s)"
    and "log s' = (log s)\<lparr>l_n := 0, l_outstanding := 0\<rparr>"
proof -
  note O = in_opD [OF op]
  define s1 where "s1 = logset (\<lambda>l. l\<lparr>l_outstanding := 0, l_committing := 1\<rparr>) s"
  have A1: "cache_abs s1 = cache_abs s" by (rule cache_cong) (simp_all add: s1_def logset_def)
  have k: "end_op_lock me s = Ret (True, s1)" using l by (simp add: end_op_lock_def Let_def s1_def logset_def)
  have ok: "log_ok (log s1)" using log_invD(2) [OF O(1)] by (simp add: s1_def log_ok_def log_blocks_def)
  have lb: "log_blocks (log s1) = log_blocks (log s)" and inv1: "cache_inv me s1"
    using log_invD(1) [OF O(1)] by (simp_all add: s1_def log_blocks_def)
  then have q: "log_quiet me s1" using ok log_invD(3) [OF O(1)] O(2) by (simp add: log_quiet_def A1)
  have "nat (sint (l_n (log s1))) < NBUF" using O(4) NBUF_pos by (simp add: s1_def)
  then obtain s2 where c: "commit me s1 = Ret s2" "cache_inv me s2" "log s2 = (log s1)\<lparr>l_n := 0\<rparr>"
    "cache_abs s2 = unpinned (set (log_blocks (log s1))) (awrites (commit_writes (log s1) (a_view (cache_abs s1))) (cache_abs s1))"
    by (rule commit_ok [OF q])
  let ?s = "end_op_done me s2"
  have run: "end_op me s = Ret ?s" by (simp add: end_op_def k c(1))
  have A: "cache_abs ?s = cache_abs s2" by (rule cache_cong) (simp_all add: end_op_done_def logset_def wakeup_def)
  have inv: "cache_inv me ?s" using c(2) unfolding cache_inv_def by (simp add: end_op_done_def) (simp add: wakeup_def logset_def)
  have l': "log ?s = (log s)\<lparr>l_n := 0, l_outstanding := 0\<rparr>" using l by (simp add: end_op_done_def c(3) s1_def)
  have z: "a_refs (cache_abs ?s) b = 0" for b using q by (simp add: A c(4) log_quiet_def)
  have "log_quiet me ?s"
    using inv z q ok unfolding log_quiet_def by (simp add: A c(4) l' log_ok_def log_blocks_def s1_def)
  then have "log_idle me ?s" using l by (simp add: log_idle_def l')
  moreover have v: "view ?s b = view s b" if "b \<notin> log_area (l_start (log s))" for b
    using commit_writes_view [OF ok, of b] that by (simp add: A c(4) A1) (simp add: s1_def)
  moreover have "disk ?s b = view s b" if "b \<notin> log_area (l_start (log s))" for b
    using unused_clean [OF inv z, of b] v [OF that] by (simp add: cache_abs_def)
  ultimately show thesis using that [OF run] l' by simp
qed

section \<open>What the log never touches\<close>

text \<open>A view \<open>g\<close> of the state in which the cache, the log, the console and being woken up do not show.\<close>

definition unlogged :: "('a klog_scheme \<Rightarrow> 'b) \<Rightarrow> bool" where
  "unlogged g \<longleftrightarrow> (\<forall>s f. g (bufs_update f s) = g s) \<and> (\<forall>s f. g (lru_update f s) = g s) \<and> (\<forall>s f. g (disk_update f s) = g s)
     \<and> (\<forall>s f. g (dwrites_update f s) = g s) \<and> (\<forall>s w c. g (wakeup w c s) = g s) \<and> (\<forall>s f. g (log_update f s) = g s)
     \<and> (\<forall>s f. g (uart_tx_update f s) = g s)"

lemma unloggedD:
  assumes "unlogged g"
  shows "g (bufs_update f s) = g s" "g (lru_update f1 s) = g s" "g (disk_update f2 s) = g s" "g (dwrites_update f3 s) = g s"
    "g (wakeup w c s) = g s" "g (log_update f5 s) = g s" "g (uart_tx_update f6 s) = g s"
  using assms by (simp_all add: unlogged_def)

lemma unlogged_steps:
  assumes "unlogged g"
  shows "g (bufset i f s) = g s" "g (wakeup w c s) = g s" "g (logset h s) = g s" "g (printk fm as s) = g s"
    "g (bdata i k s) = g s" "g (bpin i s) = g s" "g (bunpin i s) = g s"
proof -
  note u = unloggedD [OF assms]
  show "g (bufset i f s) = g s" "g (wakeup w c s) = g s" "g (logset h s) = g s"
    "g (bdata i k s) = g s" "g (bpin i s) = g s" "g (bunpin i s) = g s"
    by (simp_all add: u bufset_def logset_def bdata_def bpin_def bunpin_def)
  have "g (consputc c s) = g s" for c s by (simp add: u consputc_def uartputc_sync_def)
  then have "g (fold consputc cs s) = g s" for cs by (induction cs arbitrary: s) simp_all
  then show "g (printk fm as s) = g s" by (simp add: printk_def)
qed

lemma unlogged_bread:
  assumes "unlogged g" and "bread me d b s = Ret (i, s')"
  shows "g s' = g s"
proof -
  note u = unloggedD [OF assms(1)] unlogged_steps [OF assms(1)]
  have bl: "block me i s = Ret s' \<Longrightarrow> g s' = g s" for i s s'
    by (auto simp: block_def acquiresleep_def u split: if_splits)
  have "bget me d b s = Ret (i, s') \<Longrightarrow> g s' = g s" for i s'
    by (auto simp: bget_def kbind_eq_Ret_iff u dest!: bl split: option.splits)
  then show ?thesis using assms(2)
    by (auto simp: bread_def kbind_eq_Ret_iff disk_rw_def u split: if_splits)
qed

lemma unlogged_bwrite:
  assumes u: "unlogged g"
  shows "bwrite me i s = Ret s' \<Longrightarrow> g s' = g s"
  by (auto simp: bwrite_def disk_rw_def Let_def unloggedD [OF u] split: if_splits)

lemma unlogged_brelse:
  assumes u: "unlogged g"
  shows "brelse me i s = Ret s' \<Longrightarrow> g s' = g s"
  by (auto simp: brelse_def releasesleep_def Let_def unloggedD [OF u] unlogged_steps [OF u] split: if_splits)

lemma unlogged_log_write:
  assumes u: "unlogged g"
  shows "log_write i s = Ret s' \<Longrightarrow> g s' = g s"
  by (auto simp: log_write_def Let_def unloggedD [OF u] unlogged_steps [OF u] split: if_splits)

lemma unlogged_write_head:
  assumes u: "unlogged g"
  shows "write_head me s = Ret s' \<Longrightarrow> g s' = g s"
  by (auto simp: write_head_def kbind_eq_Ret_iff Let_def unlogged_steps [OF u]
      dest!: unlogged_bread [OF u] unlogged_bwrite [OF u] unlogged_brelse [OF u])

lemma unlogged_write_log:
  assumes u: "unlogged g"
  shows "write_log_loop me ts s = Ret s' \<Longrightarrow> g s' = g s"
  by (induction ts arbitrary: s)
    (auto simp: kbind_eq_Ret_iff Let_def unlogged_steps [OF u] dest!: unlogged_bread [OF u] unlogged_bwrite [OF u] unlogged_brelse [OF u])

lemma unlogged_install:
  assumes u: "unlogged g"
  shows "install_loop me r ts s = Ret s' \<Longrightarrow> g s' = g s"
  by (induction ts arbitrary: s)
    (auto simp: kbind_eq_Ret_iff Let_def unlogged_steps [OF u] split: if_splits dest!: unlogged_bread [OF u] unlogged_bwrite [OF u] unlogged_brelse [OF u])

lemma unlogged_commit:
  assumes u: "unlogged g"
  shows "commit me s = Ret s' \<Longrightarrow> g s' = g s"
  by (auto simp: commit_def kbind_eq_Ret_iff write_log_def install_trans_def unlogged_steps [OF u] split: if_splits
      dest!: unlogged_write_log [OF u] unlogged_install [OF u] unlogged_write_head [OF u])

lemma unlogged_end_op:
  assumes u: "unlogged g"
  shows "end_op me s = Ret s' \<Longrightarrow> g s' = g s"
  by (auto simp: end_op_def end_op_lock_def end_op_done_def kbind_eq_Ret_iff Let_def unlogged_steps [OF u] split: if_splits
      dest!: unlogged_commit [OF u])

lemma unlogged_begin:
  assumes u: "unlogged g"
  shows "begin_now me s = Ret s' \<Longrightarrow> g s' = g s"
  by (auto simp: begin_now_def begin_op_def Let_def unlogged_steps [OF u] split: if_splits)

end
