(* ===== verification/FsBlock.thy ===== *)
theory FsBlock
  imports Txn
begin

text \<open>
  The block layer of \<^verbatim>\<open>kernel/fs.c\<close>: the superblock, and the allocation of disk blocks through
  the free bit map.
\<close>

section \<open>Disk layout\<close>

record superblock =
  sb_magic :: uint
  sb_size :: uint
  sb_nblocks :: uint
  sb_ninodes :: uint
  sb_nlog :: uint
  sb_logstart :: uint
  sb_inodestart :: uint
  sb_bmapstart :: uint

definition FSMAGIC :: uint where "FSMAGIC = 0x10203040"
definition ROOTINO :: uint where "ROOTINO = 1"
definition NDIRECT :: nat where "NDIRECT = 12"
definition NINDIRECT :: nat where "NINDIRECT = BSIZE div 4"
definition MAXFILE :: nat where "MAXFILE = NDIRECT + NINDIRECT"
definition BPB :: nat where "BPB = BSIZE * 8"
definition DINODE_SIZE :: nat where "DINODE_SIZE = 64"
definition IPB :: nat where "IPB = BSIZE div DINODE_SIZE"
definition DIRSIZ :: nat where "DIRSIZ = 14"
definition DIRENT_SIZE :: nat where "DIRENT_SIZE = 16"

definition IBLOCK :: "uint \<Rightarrow> superblock \<Rightarrow> uint" where
  "IBLOCK i sb = i div of_nat IPB + sb_inodestart sb"

definition BBLOCK :: "uint \<Rightarrow> superblock \<Rightarrow> uint" where
  "BBLOCK b sb = b div of_nat BPB + sb_bmapstart sb"

lemmas fs_const = NDIRECT_def NINDIRECT_def MAXFILE_def BPB_def DINODE_SIZE_def IPB_def DIRSIZ_def DIRENT_SIZE_def BSIZE_def

section \<open>The in-memory inodes and the superblock\<close>

record inode =
  i_dev :: uint
  i_inum :: uint
  i_ref :: cint
  i_lock :: sleeplock
  i_valid :: cint
  i_type :: ushort
  i_major :: ushort
  i_minor :: ushort
  i_nlink :: ushort
  i_size :: uint
  i_addrs :: "uint list"

record kfs = klog +
  sb :: superblock
  itable :: "inode list"

definition get_superblock :: "uchar list \<Rightarrow> superblock" where
  "get_superblock d = \<lparr>sb_magic = rd32 0 d, sb_size = rd32 4 d, sb_nblocks = rd32 8 d, sb_ninodes = rd32 12 d,
     sb_nlog = rd32 16 d, sb_logstart = rd32 20 d, sb_inodestart = rd32 24 d, sb_bmapstart = rd32 28 d\<rparr>"

definition readsb :: "nat \<Rightarrow> uint \<Rightarrow> 'a kfs_scheme \<Rightarrow> 'a kfs_scheme kres" where
  "readsb me dev s =
     kbind (bread me dev 1 s) (\<lambda>(bp, s).
     brelse me bp (s\<lparr>sb := get_superblock (b_data (bufs s ! bp))\<rparr>))"

definition bzero :: "nat \<Rightarrow> uint \<Rightarrow> uint \<Rightarrow> 'a klog_scheme \<Rightarrow> 'a klog_scheme kres" where
  "bzero me dev bno s =
     kbind (bread me dev bno s) (\<lambda>(bp, s).
     let s = bdata bp (\<lambda>_. replicate BSIZE 0) s in
     kbind (log_write bp s) (brelse me bp))"

section \<open>Allocation\<close>

text \<open>Bit \<open>bi\<close> of a block of the free map.\<close>

definition bm_bit :: "nat \<Rightarrow> uchar" where
  "bm_bit bi = push_bit (bi mod 8) 1"

definition bm_used :: "uchar list \<Rightarrow> nat \<Rightarrow> bool" where
  "bm_used d bi \<longleftrightarrow> d ! (bi div 8) AND bm_bit bi \<noteq> 0"

definition bm_set :: "nat \<Rightarrow> uchar list \<Rightarrow> uchar list" where
  "bm_set bi d = d[bi div 8 := d ! (bi div 8) OR bm_bit bi]"

definition bm_clear :: "nat \<Rightarrow> uchar list \<Rightarrow> uchar list" where
  "bm_clear bi d = d[bi div 8 := d ! (bi div 8) AND NOT (bm_bit bi)]"

text \<open>The inner loop: the first free bit among those of the map block for \<open>b\<close> on.\<close>

definition balloc_bit :: "uint \<Rightarrow> nat \<Rightarrow> uchar list \<Rightarrow> nat option" where
  "balloc_bit sz b d = find (\<lambda>bi. \<not> bm_used d bi) [0..<min BPB (unat sz - b)]"

fun balloc_loop :: "nat \<Rightarrow> uint \<Rightarrow> nat list \<Rightarrow> 'a kfs_scheme \<Rightarrow> (uint \<times> 'a kfs_scheme) kres" where
  "balloc_loop me dev [] s = Ret (0, printk (''balloc: out of blocks'' @ [CHR 0x0a]) [] s)"
| "balloc_loop me dev (b # bs) s =
     kbind (bread me dev (BBLOCK (of_nat b) (sb s)) s) (\<lambda>(bp, s).
     case balloc_bit (sb_size (sb s)) b (b_data (bufs s ! bp)) of
       Some bi \<Rightarrow>
         let s = bdata bp (bm_set bi) s in
         kbind (log_write bp s) (\<lambda>s.
         kbind (brelse me bp s) (\<lambda>s.
         kbind (bzero me dev (of_nat (b + bi)) s) (\<lambda>s.
         Ret (of_nat (b + bi), s))))
     | None \<Rightarrow> kbind (brelse me bp s) (\<lambda>s. balloc_loop me dev bs s))"

text \<open>The values of \<^verbatim>\<open>b\<close> in \<^verbatim>\<open>for(b = 0; b < sb.size; b += BPB)\<close>.\<close>

definition bm_starts :: "uint \<Rightarrow> nat list" where
  "bm_starts sz = map (\<lambda>k. k * BPB) [0..<(unat sz + BPB - 1) div BPB]"

definition balloc :: "nat \<Rightarrow> uint \<Rightarrow> 'a kfs_scheme \<Rightarrow> (uint \<times> 'a kfs_scheme) kres" where
  "balloc me dev s = balloc_loop me dev (bm_starts (sb_size (sb s))) s"

definition bfree :: "nat \<Rightarrow> uint \<Rightarrow> uint \<Rightarrow> 'a kfs_scheme \<Rightarrow> 'a kfs_scheme kres" where
  "bfree me dev b s =
     kbind (bread me dev (BBLOCK b (sb s)) s) (\<lambda>(bp, s).
     let bi = unat b mod BPB in
     if \<not> bm_used (b_data (bufs s ! bp)) bi then Panic ''freeing free block''
     else kbind (log_write bp (bdata bp (bm_clear bi) s)) (brelse me bp))"

section \<open>The bit map\<close>

lemma bm_bit_test: "w AND bm_bit bi = 0 \<longleftrightarrow> \<not> bit w (bi mod 8)"
proof -
  have "w AND bm_bit bi = (if bit w (bi mod 8) then bm_bit bi else 0)"
    by (rule bit_word_eqI) (auto simp: bm_bit_def bit_simps)
  moreover have "bm_bit bi \<noteq> 0"
  proof -
    have "bit (bm_bit bi) (bi mod 8)" by (simp add: bm_bit_def bit_simps)
    then show ?thesis by auto
  qed
  ultimately show ?thesis by simp
qed

lemma bm_used_iff: "bm_used d bi \<longleftrightarrow> bit (d ! (bi div 8)) (bi mod 8)"
  by (simp add: bm_used_def bm_bit_test)

lemma bm_same_bit: "bj mod 8 = bi mod 8 \<Longrightarrow> bj div 8 = bi div 8 \<Longrightarrow> bj = (bi :: nat)"
  by (metis div_mult_mod_eq)

lemma bm_used_set: "bi < 8 * length d \<Longrightarrow> bm_used (bm_set bi d) bj \<longleftrightarrow> bj = bi \<or> bm_used d bj"
  by (auto simp: bm_used_iff bm_set_def nth_list_update bm_bit_def bit_simps dest: bm_same_bit)

lemma bm_used_clear: "bi < 8 * length d \<Longrightarrow> bm_used (bm_clear bi d) bj \<longleftrightarrow> bj \<noteq> bi \<and> bm_used d bj"
  by (auto simp: bm_used_iff bm_clear_def nth_list_update bm_bit_def bit_simps dest: bm_same_bit)

lemma length_bm [simp]: "length (bm_set bi d) = length d" "length (bm_clear bi d) = length d"
  by (simp_all add: bm_set_def bm_clear_def)

lemma BBLOCK_eq: "BBLOCK b S = of_nat (unat b div BPB) + sb_bmapstart S"
proof -
  have "b div of_nat BPB = of_nat (unat (b div of_nat BPB))" by simp
  also have "unat (b div of_nat BPB) = unat b div BPB" by (simp add: unat_div BPB_def BSIZE_def)
  finally show ?thesis by (simp only: BBLOCK_def)
qed

definition bm_index :: "uint \<Rightarrow> nat" where
  "bm_index b = unat b mod BPB"

lemma bm_index_bound: "bm_index b < BPB"
  by (simp add: bm_index_def BPB_def BSIZE_def)

definition data_block :: "superblock \<Rightarrow> uint \<Rightarrow> bool" where
  "data_block S b \<longleftrightarrow> unat (sb_size S) - unat (sb_nblocks S) \<le> unat b \<and> unat b < unat (sb_size S)"

text \<open>
  Where the parts of the disk lie: the block 0, the log and the free map are not among the data blocks,
  and the free map is outside the log.
\<close>

definition fs_layout :: "superblock \<Rightarrow> uint \<Rightarrow> bool" where
  "fs_layout S st \<longleftrightarrow> unat (sb_nblocks S) < unat (sb_size S) \<and> (\<forall>x \<in> log_area st. \<not> data_block S x)
     \<and> (\<forall>b. unat b < unat (sb_size S) \<longrightarrow> BBLOCK b S \<notin> log_area st \<and> \<not> data_block S (BBLOCK b S))"

definition block_used :: "superblock \<Rightarrow> (uint \<Rightarrow> uchar list) \<Rightarrow> uint \<Rightarrow> bool" where
  "block_used S v b \<longleftrightarrow> bm_used (v (BBLOCK b S)) (bm_index b)"

definition free_blocks :: "superblock \<Rightarrow> (uint \<Rightarrow> uchar list) \<Rightarrow> uint set" where
  "free_blocks S v = {b. unat b < unat (sb_size S) \<and> \<not> block_used S v b}"

text \<open>The free map covers the disk and marks everything but data blocks as used.\<close>

definition bitmap_ok :: "superblock \<Rightarrow> (uint \<Rightarrow> uchar list) \<Rightarrow> bool" where
  "bitmap_ok S v \<longleftrightarrow> (\<forall>b. unat b < unat (sb_size S) \<longrightarrow> length (v (BBLOCK b S)) = BSIZE)
     \<and> (\<forall>b \<in> free_blocks S v. data_block S b)"

definition mark_used :: "superblock \<Rightarrow> uint \<Rightarrow> (uint \<Rightarrow> uchar list) \<Rightarrow> uint \<Rightarrow> uchar list" where
  "mark_used S b v = v(BBLOCK b S := bm_set (bm_index b) (v (BBLOCK b S)))"

definition mark_free :: "superblock \<Rightarrow> uint \<Rightarrow> (uint \<Rightarrow> uchar list) \<Rightarrow> uint \<Rightarrow> uchar list" where
  "mark_free S b v = v(BBLOCK b S := bm_clear (bm_index b) (v (BBLOCK b S)))"

lemma same_bit:
  assumes "BBLOCK c S = BBLOCK b S" and "bm_index c = bm_index b"
  shows "c = b"
proof -
  have "unat (of_nat (unat c div BPB) :: uint) = unat (of_nat (unat b div BPB) :: uint)" using assms(1) by (simp add: BBLOCK_eq)
  moreover have "unat x div BPB < 2 ^ 32" for x :: uint
  proof -
    have "unat x < 2 ^ 32" using unsigned_less [of x] by simp
    then show ?thesis by (simp add: less_mult_imp_div_less BPB_def BSIZE_def)
  qed
  ultimately have "unat c div BPB = unat b div BPB" by (simp add: unat_of_nat)
  then have "unat c = unat b" using assms(2) unfolding bm_index_def by (metis div_mult_mod_eq)
  then show ?thesis by (simp add: word_unat_eq_iff)
qed

lemma mark_used_free:
  assumes "bitmap_ok S v" and "unat b < unat (sb_size S)"
  shows "free_blocks S (mark_used S b v) = free_blocks S v - {b}"
    and "\<forall>c. unat c < unat (sb_size S) \<longrightarrow> length (mark_used S b v (BBLOCK c S)) = BSIZE"
proof -
  have len: "length (v (BBLOCK c S)) = BSIZE" if "unat c < unat (sb_size S)" for c using assms(1) that by (simp add: bitmap_ok_def)
  have i: "bm_index b < 8 * length (v (BBLOCK b S))" using bm_index_bound [of b] len [OF assms(2)] by (simp add: BPB_def)
  have "block_used S (mark_used S b v) c \<longleftrightarrow> c = b \<or> block_used S v c" for c
  proof (cases "BBLOCK c S = BBLOCK b S")
    case True
    then show ?thesis using bm_used_set [OF i, of "bm_index c"] same_bit [OF True] by (auto simp: block_used_def mark_used_def)
  next
    case False
    then show ?thesis by (auto simp: block_used_def mark_used_def)
  qed
  then show "free_blocks S (mark_used S b v) = free_blocks S v - {b}" by (auto simp: free_blocks_def)
  show "\<forall>c. unat c < unat (sb_size S) \<longrightarrow> length (mark_used S b v (BBLOCK c S)) = BSIZE"
    using len assms(2) by (simp add: mark_used_def)
qed

lemma mark_free_free:
  assumes "bitmap_ok S v" and "unat b < unat (sb_size S)"
  shows "free_blocks S (mark_free S b v) = insert b (free_blocks S v)"
    and "\<forall>c. unat c < unat (sb_size S) \<longrightarrow> length (mark_free S b v (BBLOCK c S)) = BSIZE"
proof -
  have len: "length (v (BBLOCK c S)) = BSIZE" if "unat c < unat (sb_size S)" for c using assms(1) that by (simp add: bitmap_ok_def)
  have i: "bm_index b < 8 * length (v (BBLOCK b S))" using bm_index_bound [of b] len [OF assms(2)] by (simp add: BPB_def)
  have "block_used S (mark_free S b v) c \<longleftrightarrow> c \<noteq> b \<and> block_used S v c" for c
  proof (cases "BBLOCK c S = BBLOCK b S")
    case True
    then show ?thesis using bm_used_clear [OF i, of "bm_index c"] same_bit [OF True] by (auto simp: block_used_def mark_free_def)
  next
    case False
    then show ?thesis by (auto simp: block_used_def mark_free_def)
  qed
  then show "free_blocks S (mark_free S b v) = insert b (free_blocks S v)" using assms(2) by (auto simp: free_blocks_def)
  show "\<forall>c. unat c < unat (sb_size S) \<longrightarrow> length (mark_free S b v (BBLOCK c S)) = BSIZE"
    using len assms(2) by (simp add: mark_free_def)
qed

section \<open>Allocating and freeing a block\<close>

lemma same_op_sb:
  assumes "same_op s s'"
  shows "sb s' = sb s" "itable s' = itable s" "mem s' = mem s"
proof -
  have "sb (op_frame s') = sb (op_frame s)" "itable (op_frame s') = itable (op_frame s)" "mem (op_frame s') = mem (op_frame s)"
    using assms by (simp_all add: same_op_def)
  then show "sb s' = sb s" "itable s' = itable s" "mem s' = mem s" by (simp_all add: op_frame_def bio_frame_def logset_def)
qed

lemma bzero_ok:
  assumes "in_op me (Suc (Suc k)) H s" and "b \<notin> H" and "b \<notin> log_area (l_start (log s))"
  obtains s' where "bzero me ROOTDEV b s = Ret s'" and "in_op me (Suc k) H s'" and "view s' = (view s)(b := replicate BSIZE 0)"
    and "same_op s s'" and "\<And>c. c \<in> H \<Longrightarrow> buf_slot s' c = buf_slot s c"
proof -
  obtain s' where r: "kbind (bread me ROOTDEV b s) (\<lambda>(i, s). kbind (log_write i (bdata i (\<lambda>_. replicate BSIZE 0) s)) (brelse me i)) = Ret s'"
    "in_op me (Suc k) H s'" "view s' = (view s)(b := replicate BSIZE 0)" "same_op s s'" "\<And>c. c \<in> H \<Longrightarrow> buf_slot s' c = buf_slot s c"
    by (rule op_modify [OF assms, of "\<lambda>_. replicate BSIZE 0"]) blast
  show thesis by (rule that [of s']) (use r in \<open>simp_all add: bzero_def Let_def\<close>)
qed

lemma balloc_bit_Some:
  "balloc_bit sz b d = Some bi \<Longrightarrow> bi < BPB \<and> b + bi < unat sz \<and> \<not> bm_used d bi"
  by (auto simp: balloc_bit_def find_Some_iff)

lemma balloc_bit_None:
  "balloc_bit sz b d = None \<Longrightarrow> bi < BPB \<Longrightarrow> b + bi < unat sz \<Longrightarrow> bm_used d bi"
  by (auto simp: balloc_bit_def find_None_iff)

lemma bm_block:
  assumes "b = j * BPB" and "bi < BPB" and "b + bi < unat (sz :: uint)"
  shows "BBLOCK (of_nat (b + bi)) S = BBLOCK (of_nat b) S" "bm_index (of_nat (b + bi)) = bi" "unat (of_nat (b + bi) :: uint) = b + bi"
    "unat (of_nat b :: uint) = b"
proof -
  have "unat sz < 2 ^ 32" using unsigned_less [of sz] by simp
  then have "b + bi < 2 ^ 32" using assms(3) by simp
  then show u: "unat (of_nat (b + bi) :: uint) = b + bi" "unat (of_nat b :: uint) = b" by (simp_all only: unat_of_nat) simp_all
  have "(j * BPB + bi) div BPB = j" using assms(2) by simp
  then show "BBLOCK (of_nat (b + bi)) S = BBLOCK (of_nat b) S"
    unfolding BBLOCK_eq u using assms(1,2) by simp
  show "bm_index (of_nat (b + bi)) = bi" unfolding bm_index_def u using assms(1,2) by simp
qed

text \<open>No block in use by the caller is part of the free map or free.\<close>

definition apart_from :: "superblock \<Rightarrow> (uint \<Rightarrow> uchar list) \<Rightarrow> uint set \<Rightarrow> bool" where
  "apart_from S v H \<longleftrightarrow> H \<inter> free_blocks S v = {} \<and> (\<forall>b. unat b < unat (sb_size S) \<longrightarrow> BBLOCK b S \<notin> H)"

lemma balloc_loop_ok:
  fixes s :: "'a kfs_scheme"
  assumes "in_op me (Suc (Suc (Suc k))) H s" and "fs_layout (sb s) (l_start (log s))" and "bitmap_ok (sb s) (view s)"
    and "apart_from (sb s) (view s) H"
    and "\<forall>b \<in> set bs. b < unat (sb_size (sb s)) \<and> (\<exists>j. b = j * BPB)"
  obtains (none) s' where "balloc_loop me ROOTDEV bs s = Ret (0, printk (''balloc: out of blocks'' @ [CHR 0x0a]) [] s')"
    and "same_op s s'" and "view s' = view s" and "in_op me (Suc (Suc (Suc k))) H s'" and "\<And>c. c \<in> H \<Longrightarrow> buf_slot s' c = buf_slot s c"
    and "\<forall>b \<in> set bs. \<forall>bi < BPB. b + bi < unat (sb_size (sb s)) \<longrightarrow> block_used (sb s) (view s) (of_nat (b + bi))"
  | (some) r s' where "balloc_loop me ROOTDEV bs s = Ret (r, s')" and "r \<in> free_blocks (sb s) (view s)"
    and "same_op s s'" and "view s' = (mark_used (sb s) r (view s))(r := replicate BSIZE 0)" and "in_op me (Suc k) H s'"
    and "\<And>c. c \<in> H \<Longrightarrow> buf_slot s' c = buf_slot s c"
  using assms
proof (induction bs arbitrary: s thesis)
  case Nil
  then show ?case by simp
next
  case (Cons b bs)
  note op = Cons.prems(3) and lay = Cons.prems(4) and bm = Cons.prems(5) and ap = Cons.prems(6)
  obtain j where b: "b < unat (sb_size (sb s))" "b = j * BPB" using Cons.prems(7) by auto
  let ?B = "BBLOCK (of_nat b) (sb s)" and ?d = "view s (BBLOCK (of_nat b) (sb s))"
  have ub: "unat (of_nat b :: uint) = b" using bm_block(4) [of b j 0] b by (simp add: BPB_def BSIZE_def)
  have B: "?B \<notin> H" "?B \<notin> log_area (l_start (log s))" "\<not> data_block (sb s) ?B"
    using ap lay b(1) ub by (simp_all add: apart_from_def fs_layout_def)
  show ?case
  proof (cases "balloc_bit (sb_size (sb s)) b ?d")
    case None
    obtain i s1 s2 where p: "bread me ROOTDEV ?B s = Ret (i, s1)" "b_data (bufs s1 ! i) = ?d" "brelse me i s1 = Ret s2"
      "in_op me (Suc (Suc (Suc k))) H s2" "view s2 = view s" "only_bio s s1" "only_bio s s2"
      "\<And>c. c \<in> H \<Longrightarrow> buf_slot s2 c = buf_slot s c"
      by (rule op_peek [OF op B(1) op_clean [OF op B(1)]]) blast
    have so: "same_op s s1" "same_op s s2" using p(6,7) same_op_bio by blast+
    have run: "balloc_loop me ROOTDEV (b # bs) s = balloc_loop me ROOTDEV bs s2"
      using None p same_op_sb(1) [OF so(1)] by simp
    have sb2: "sb s2 = sb s" "l_start (log s2) = l_start (log s)" using same_op_sb(1) [OF so(2)] same_op_log(1) [OF so(2)] by simp_all
    have bt: "\<forall>b \<in> set bs. b < unat (sb_size (sb s2)) \<and> (\<exists>j. b = j * BPB)" using Cons.prems(7) sb2 by simp
    show ?thesis
    proof (rule Cons.IH [OF _ _ p(4) _ _ _ bt])
      show "fs_layout (sb s2) (l_start (log s2))" "bitmap_ok (sb s2) (view s2)" "apart_from (sb s2) (view s2) H"
        using lay bm ap by (simp_all add: sb2 p(5))
    next
      fix s'
      assume n: "balloc_loop me ROOTDEV bs s2 = Ret (0, printk (''balloc: out of blocks'' @ [CHR 0x0a]) [] s')" "same_op s2 s'"
        "view s' = view s2" "in_op me (Suc (Suc (Suc k))) H s'" "\<And>c. c \<in> H \<Longrightarrow> buf_slot s' c = buf_slot s2 c"
        "\<forall>b \<in> set bs. \<forall>bi < BPB. b + bi < unat (sb_size (sb s2)) \<longrightarrow> block_used (sb s2) (view s2) (of_nat (b + bi))"
      have "block_used (sb s) (view s) (of_nat (b + bi))" if "bi < BPB" "b + bi < unat (sb_size (sb s))" for bi
        using balloc_bit_None [OF None that] bm_block(1,2) [OF b(2) that] by (simp add: block_used_def)
      then show thesis
        by (intro Cons.prems(1) [of s']) (use n run same_op_trans [OF so(2) n(2)] sb2 p in auto)
    next
      fix r s'
      assume n: "balloc_loop me ROOTDEV bs s2 = Ret (r, s')" "r \<in> free_blocks (sb s2) (view s2)" "same_op s2 s'"
        "view s' = (mark_used (sb s2) r (view s2))(r := replicate BSIZE 0)" "in_op me (Suc k) H s'"
        "\<And>c. c \<in> H \<Longrightarrow> buf_slot s' c = buf_slot s2 c"
      show thesis
        by (rule Cons.prems(2) [of r s']) (use n run same_op_trans [OF so(2) n(3)] sb2 p in auto)
    qed
  next
    case (Some bi)
    note bi = balloc_bit_Some [OF Some]
    let ?r = "of_nat (b + bi) :: uint"
    have r: "BBLOCK ?r (sb s) = ?B" "bm_index ?r = bi" "unat ?r = b + bi" using bm_block [of b j bi "sb_size (sb s)"] b(2) bi by simp_all
    have fr: "?r \<in> free_blocks (sb s) (view s)" using bi r by (simp add: free_blocks_def block_used_def)
    then have rd: "data_block (sb s) ?r" "?r \<notin> H" using bm ap by (auto simp: bitmap_ok_def apart_from_def)
    have rl: "?r \<notin> log_area (l_start (log s))" using rd(1) lay by (auto simp: fs_layout_def)
    obtain i s1 where p: "bread me ROOTDEV ?B s = Ret (i, s1)" "in_op me (Suc (Suc k)) (insert ?B H) s1" "buf_slot s1 ?B = Some i"
      "view s1 = view s" "b_data (bufs s1 ! i) = ?d" "same_op s s1" "log s1 = log s" "\<And>c. c \<in> H \<Longrightarrow> buf_slot s1 c = buf_slot s c"
      by (rule op_bread [OF op B(1)]) blast
    have l1: "?B \<notin> log_area (l_start (log s1))" using B(2) p(7) by simp
    obtain s2 where w: "kbind (log_write i (bdata i (bm_set bi) s1)) (brelse me i) = Ret s2" "in_op me (Suc (Suc k)) H s2"
      "view s2 = (view s1)(?B := bm_set bi (view s1 ?B))" "same_op s1 s2" "buf_slot s2 = buf_slot s1"
      by (rule op_finish [OF p(2) B(1) p(3) l1, of "bm_set bi"]) blast
    have so2: "same_op s s2" using p(6) w(4) by (rule same_op_trans)
    have rl2: "?r \<notin> log_area (l_start (log s2))" using rl same_op_log(1) [OF so2] by simp
    obtain s3 where z: "bzero me ROOTDEV ?r s2 = Ret s3" "in_op me (Suc k) H s3" "view s3 = (view s2)(?r := replicate BSIZE 0)"
      "same_op s2 s3" "\<And>c. c \<in> H \<Longrightarrow> buf_slot s3 c = buf_slot s2 c"
      by (rule bzero_ok [OF w(2) rd(2) rl2]) blast
    have run: "balloc_loop me ROOTDEV (b # bs) s = Ret (?r, s3)"
      using Some p(1,5) w(1) z(1) same_op_sb(1) [OF p(6)] by (simp add: Let_def kbind_assoc [symmetric])
    have v: "view s3 = (mark_used (sb s) ?r (view s))(?r := replicate BSIZE 0)"
      using z(3) w(3) p(4) r by (simp add: mark_used_def)
    show ?thesis
      by (rule Cons.prems(2) [OF run fr _ v z(2)]) (use same_op_trans [OF so2 z(4)] z(5) w(5) p(8) in simp_all)
  qed
qed

lemma bm_starts_cover:
  assumes "unat x < unat sz"
  shows "\<exists>b \<in> set (bm_starts sz). unat x = b + unat x mod BPB"
proof -
  have pos: "0 < BPB" by (simp add: BPB_def BSIZE_def)
  have "unat x div BPB < (unat sz + BPB - 1) div BPB"
  proof -
    have "unat x + BPB \<le> unat sz + BPB - 1" using assms by simp
    then have "(unat x + BPB) div BPB \<le> (unat sz + BPB - 1) div BPB" by (rule div_le_mono)
    moreover have "(unat x + BPB) div BPB = unat x div BPB + 1" using pos div_add_self2 [of BPB "unat x"] by simp
    ultimately show ?thesis by linarith
  qed
  moreover have "unat x = unat x div BPB * BPB + unat x mod BPB" by simp
  ultimately show ?thesis unfolding bm_starts_def by (intro bexI [of _ "unat x div BPB * BPB"]) auto
qed

lemma bm_starts_ok: "\<forall>b \<in> set (bm_starts sz). b < unat sz \<and> (\<exists>j. b = j * BPB)"
proof -
  have pos: "0 < BPB" by (simp add: BPB_def BSIZE_def)
  have "k * BPB < unat sz" if "k < (unat sz + BPB - 1) div BPB" for k
  proof -
    have "Suc k \<le> (unat sz + BPB - 1) div BPB" using that by simp
    then have "Suc k * BPB \<le> unat sz + BPB - 1"
      using pos less_eq_div_iff_mult_less_eq [of BPB "Suc k" "unat sz + BPB - 1"] by simp
    then show ?thesis using pos by simp
  qed
  then show ?thesis by (auto simp: bm_starts_def)
qed

text \<open>
  \<^verbatim>\<open>balloc\<close> takes a free block, marks it used and zeroes it; it gives 0 only when no
  block is free.
\<close>

lemma balloc_ok:
  fixes s :: "'a kfs_scheme"
  assumes "in_op me (Suc (Suc (Suc k))) H s" and "fs_layout (sb s) (l_start (log s))" and "bitmap_ok (sb s) (view s)"
    and "apart_from (sb s) (view s) H"
  obtains (none) s' where "balloc me ROOTDEV s = Ret (0, printk (''balloc: out of blocks'' @ [CHR 0x0a]) [] s')"
    and "free_blocks (sb s) (view s) = {}" and "same_op s s'" and "view s' = view s" and "in_op me (Suc (Suc (Suc k))) H s'"
    and "\<And>c. c \<in> H \<Longrightarrow> buf_slot s' c = buf_slot s c"
  | (some) r s' where "balloc me ROOTDEV s = Ret (r, s')" and "r \<in> free_blocks (sb s) (view s)" and "data_block (sb s) r" and "r \<noteq> 0"
    and "same_op s s'" and "view s' = (mark_used (sb s) r (view s))(r := replicate BSIZE 0)" and "in_op me (Suc k) H s'"
    and "\<And>c. c \<in> H \<Longrightarrow> buf_slot s' c = buf_slot s c"
proof (rule balloc_loop_ok [OF assms bm_starts_ok])
  fix s'
  assume n: "balloc_loop me ROOTDEV (bm_starts (sb_size (sb s))) s = Ret (0, printk (''balloc: out of blocks'' @ [CHR 0x0a]) [] s')"
    "same_op s s'" "view s' = view s" "in_op me (Suc (Suc (Suc k))) H s'" "\<And>c. c \<in> H \<Longrightarrow> buf_slot s' c = buf_slot s c"
    and u: "\<forall>b \<in> set (bm_starts (sb_size (sb s))). \<forall>bi < BPB. b + bi < unat (sb_size (sb s)) \<longrightarrow> block_used (sb s) (view s) (of_nat (b + bi))"
  have pos: "0 < BPB" by (simp add: BPB_def BSIZE_def)
  have "block_used (sb s) (view s) x" if x: "unat x < unat (sb_size (sb s))" for x
  proof -
    obtain b where b: "b \<in> set (bm_starts (sb_size (sb s)))" "unat x = b + unat x mod BPB" using bm_starts_cover [OF x] by blast
    then have "block_used (sb s) (view s) (of_nat (unat x))" using u x pos by (metis mod_less_divisor)
    then show ?thesis by simp
  qed
  then have "free_blocks (sb s) (view s) = {}" by (auto simp: free_blocks_def)
  then show thesis by (rule none [OF n(1) [folded balloc_def] _ n(2-5)])
next
  fix r s'
  assume n: "balloc_loop me ROOTDEV (bm_starts (sb_size (sb s))) s = Ret (r, s')" "r \<in> free_blocks (sb s) (view s)"
    "same_op s s'" "view s' = (mark_used (sb s) r (view s))(r := replicate BSIZE 0)" "in_op me (Suc k) H s'"
    "\<And>c. c \<in> H \<Longrightarrow> buf_slot s' c = buf_slot s c"
  have d: "data_block (sb s) r" using n(2) assms(3) by (simp add: bitmap_ok_def)
  then have "r \<noteq> 0" using assms(2) by (auto simp: data_block_def fs_layout_def)
  then show thesis by (rule some [OF n(1) [folded balloc_def] n(2) d _ n(3-6)])
qed

lemma bfree_ok:
  fixes s :: "'a kfs_scheme"
  assumes op: "in_op me (Suc (Suc k)) H s" and lay: "fs_layout (sb s) (l_start (log s))"
    and b: "unat b < unat (sb_size (sb s))" "BBLOCK b (sb s) \<notin> H" "block_used (sb s) (view s) b"
  obtains s' where "bfree me ROOTDEV b s = Ret s'" and "view s' = mark_free (sb s) b (view s)" and "in_op me (Suc k) H s'"
    and "same_op s s'" and "\<And>c. c \<in> H \<Longrightarrow> buf_slot s' c = buf_slot s c"
proof -
  let ?B = "BBLOCK b (sb s)"
  have home: "?B \<notin> log_area (l_start (log s))" using lay b(1) by (simp add: fs_layout_def)
  obtain i s1 where p: "bread me ROOTDEV ?B s = Ret (i, s1)" "in_op me (Suc k) (insert ?B H) s1" "buf_slot s1 ?B = Some i"
      "view s1 = view s" "b_data (bufs s1 ! i) = view s ?B" "same_op s s1" "log s1 = log s" "\<And>c. c \<in> H \<Longrightarrow> buf_slot s1 c = buf_slot s c"
    by (rule op_bread [OF op b(2)]) blast
  have l1: "?B \<notin> log_area (l_start (log s1))" using home p(7) by simp
  obtain s2 where w: "kbind (log_write i (bdata i (bm_clear (bm_index b)) s1)) (brelse me i) = Ret s2" "in_op me (Suc k) H s2"
      "view s2 = (view s1)(?B := bm_clear (bm_index b) (view s1 ?B))" "same_op s1 s2" "buf_slot s2 = buf_slot s1"
    by (rule op_finish [OF p(2) b(2) p(3) l1, of "bm_clear (bm_index b)"]) blast
  have "bfree me ROOTDEV b s = Ret s2"
    using p(1,5) w(1) b(3) by (simp add: bfree_def Let_def block_used_def bm_index_def)
  then show thesis
    by (rule that) (use w p same_op_trans [OF p(6) w(4)] in \<open>simp_all add: mark_free_def\<close>)
qed

text \<open>Freeing a block that is free is caught.\<close>

lemma bfree_free:
  fixes s :: "'a kfs_scheme"
  assumes op: "in_op me (Suc k) H s" and b: "BBLOCK b (sb s) \<notin> H" "\<not> block_used (sb s) (view s) b"
  shows "bfree me ROOTDEV b s = Panic ''freeing free block''"
proof -
  obtain i s1 where p: "bread me ROOTDEV (BBLOCK b (sb s)) s = Ret (i, s1)" "b_data (bufs s1 ! i) = view s (BBLOCK b (sb s))"
    by (rule op_bread [OF op b(1)]) blast
  then show ?thesis using b(2) by (simp add: bfree_def Let_def block_used_def bm_index_def)
qed

section \<open>Blocks as a pool of resources\<close>

lemma unlogged_sb [simp]: "unlogged sb" "unlogged itable" "unlogged mem" "unlogged freelist"
  by (simp_all add: unlogged_def wakeup_def)

lemma sb_printk [simp]: "sb (printk f as s) = sb s"
  by (rule unlogged_steps(4) [OF unlogged_sb(1)])

text \<open>One allocation, one release, each in a transaction of its own.\<close>

definition balloc_txn :: "nat \<Rightarrow> 'a kfs_scheme \<Rightarrow> (uint \<times> 'a kfs_scheme) kres" where
  "balloc_txn me s = kbind (begin_now me s) (\<lambda>s. kbind (balloc me ROOTDEV s) (\<lambda>(b, s). kbind (end_op me s) (\<lambda>s. Ret (b, s))))"

definition bfree_txn :: "nat \<Rightarrow> uint \<Rightarrow> 'a kfs_scheme \<Rightarrow> 'a kfs_scheme kres" where
  "bfree_txn me b s = kbind (begin_now me s) (\<lambda>s. kbind (bfree me ROOTDEV b s) (end_op me))"

definition blocks_inv :: "nat \<Rightarrow> superblock \<Rightarrow> 'a kfs_scheme \<Rightarrow> bool" where
  "blocks_inv me S s \<longleftrightarrow> log_idle me s \<and> sb s = S \<and> fs_layout S (l_start (log s)) \<and> bitmap_ok S (view s)"

lemma in_op_begin:
  assumes "blocks_inv me S s"
  obtains s1 where "begin_now me s = Ret s1" and "in_op me 29 {} s1" and "view s1 = view s" and "sb s1 = S"
    and "l_start (log s1) = l_start (log s)" and "l_outstanding (log s1) = 1" and "l_committing (log s1) = 0"
proof -
  have i: "log_idle me s" and S: "sb s = S" using assms by (simp_all add: blocks_inv_def)
  obtain s1 where b: "begin_now me s = Ret s1" "in_op me 29 {} s1" "cache_abs s1 = cache_abs s"
    "log s1 = (log s)\<lparr>l_outstanding := 1\<rparr>" by (rule begin_ok [OF i])
  have "sb s1 = sb s" by (rule unlogged_begin [OF _ b(1)]) simp
  then show thesis using that [OF b(1,2)] b S i by (simp add: log_idle_def)
qed

text \<open>A transaction that ends with the free map \<open>w\<close> outside the log.\<close>

lemma end_op_blocks:
  assumes lay: "fs_layout S st" and op: "in_op me k {} s" "sb s = S" "l_start (log s) = st" "l_outstanding (log s) = 1" "l_committing (log s) = 0"
    and bm: "bitmap_ok S (view s)"
  obtains s' where "end_op me s = Ret s'" and "blocks_inv me S s'" and "free_blocks S (view s') = free_blocks S (view s)"
    and "\<And>b. data_block S b \<Longrightarrow> view s' b = view s b" and "\<And>b. data_block S b \<Longrightarrow> disk s' b = view s b"
proof -
  obtain s' where e: "end_op me s = Ret s'" "log_idle me s'" "\<And>b. b \<notin> log_area (l_start (log s)) \<Longrightarrow> view s' b = view s b"
    "\<And>b. b \<notin> log_area (l_start (log s)) \<Longrightarrow> disk s' b = view s b" "l_start (log s') = l_start (log s)"
    by (rule end_op_ok [OF op(1,4,5)]) blast
  have sb': "sb s' = S" using unlogged_end_op [OF _ e(1), of sb] op(2) by simp
  have eq: "view s' (BBLOCK b S) = view s (BBLOCK b S)" if "unat b < unat (sb_size S)" for b
    by (rule e(3)) (use lay that op(3) in \<open>simp add: fs_layout_def\<close>)
  then have "free_blocks S (view s') = free_blocks S (view s)" by (auto simp: free_blocks_def block_used_def)
  moreover have "bitmap_ok S (view s')" using bm eq calculation by (simp add: bitmap_ok_def)
  moreover have "b \<notin> log_area st" if "data_block S b" for b using lay that by (auto simp: fs_layout_def)
  ultimately show thesis using that [OF e(1)] e(2-5) sb' lay op(3) by (simp add: blocks_inv_def)
qed

lemma in_op_printk [simp]: "in_op me k H (printk f as s) = in_op me k H s"
proof -
  have A: "cache_abs (printk f as s) = cache_abs s" by (rule cache_cong) simp_all
  show ?thesis by (simp add: in_op_def log_inv_def A cache_inv_def)
qed

lemma view_printk [simp]: "view (printk f as s) = view s"
  using cache_cong(2) [of "printk f as s" s] by simp

lemma balloc_txn_ok:
  assumes inv: "blocks_inv me S s"
  obtains (none) s' where "balloc_txn me s = Ret (0, s')" and "blocks_inv me S s'" and "free_blocks S (view s) = {}" and "free_blocks S (view s') = {}"
  | (some) b s' where "balloc_txn me s = Ret (b, s')" and "b \<noteq> 0" and "b \<in> free_blocks S (view s)" and "blocks_inv me S s'"
    and "free_blocks S (view s') = free_blocks S (view s) - {b}" and "view s' b = replicate BSIZE 0" and "disk s' b = replicate BSIZE 0"
    and "\<And>c. data_block S c \<Longrightarrow> c \<noteq> b \<Longrightarrow> view s' c = view s c"
proof -
  have lay: "fs_layout S (l_start (log s))" and bm: "bitmap_ok S (view s)" using inv by (simp_all add: blocks_inv_def)
  obtain s1 where s1: "begin_now me s = Ret s1" "in_op me 29 {} s1" "view s1 = view s" "sb s1 = S" "l_start (log s1) = l_start (log s)"
    "l_outstanding (log s1) = 1" "l_committing (log s1) = 0" by (rule in_op_begin [OF inv])
  have op: "in_op me (Suc (Suc (Suc 26))) {} s1" using s1(2) by (simp add: eval_nat_numeral)
  have lay1: "fs_layout (sb s1) (l_start (log s1))" and bm1: "bitmap_ok (sb s1) (view s1)" and ap: "apart_from (sb s1) (view s1) {}"
    using lay bm s1 by (simp_all add: apart_from_def)
  show thesis
  proof (rule balloc_ok [OF op lay1 bm1 ap])
    fix t
    assume n: "balloc me ROOTDEV s1 = Ret (0, printk (''balloc: out of blocks'' @ [CHR 0x0a]) [] t)" "free_blocks (sb s1) (view s1) = {}"
      "same_op s1 t" "view t = view s1" "in_op me (Suc (Suc (Suc 26))) {} t"
    let ?t = "printk (''balloc: out of blocks'' @ [CHR 0x0a]) [] t"
    have opt: "in_op me (Suc (Suc (Suc 26))) {} ?t" using n(5) by simp
    obtain s' where e: "end_op me ?t = Ret s'" "blocks_inv me S s'" "free_blocks S (view s') = free_blocks S (view ?t)"
      by (rule end_op_blocks [OF lay opt])
        (use n(3,4) s1 bm same_op_sb [OF n(3)] same_op_log [OF n(3)] in simp_all)
    show thesis
      by (rule none [of s']) (use s1(1,3,4) n(1,2,4) e in \<open>simp_all add: balloc_txn_def\<close>)
  next
    fix b t
    assume n: "balloc me ROOTDEV s1 = Ret (b, t)" "b \<in> free_blocks (sb s1) (view s1)" "data_block (sb s1) b" "b \<noteq> 0"
      "same_op s1 t" "view t = (mark_used (sb s1) b (view s1))(b := replicate BSIZE 0)" "in_op me (Suc 26) {} t"
    have b: "unat b < unat (sb_size S)" using n(3) s1(4) by (simp add: data_block_def)
    have neB: "BBLOCK c S \<noteq> b" if "unat c < unat (sb_size S)" for c using lay that n(3) s1(4) by (auto simp: fs_layout_def)
    note mu = mark_used_free [OF bm b]
    have fb: "free_blocks S (view t) = free_blocks S (mark_used S b (view s))"
      using n(6) s1(3,4) neB by (auto simp: free_blocks_def block_used_def)
    have bmt: "bitmap_ok S (view t)"
      using mu bm fb n(6) s1(3,4) neB by (simp add: bitmap_ok_def)
    obtain s' where e: "end_op me t = Ret s'" "blocks_inv me S s'" "free_blocks S (view s') = free_blocks S (view t)"
      "\<And>b. data_block S b \<Longrightarrow> view s' b = view t b" "\<And>b. data_block S b \<Longrightarrow> disk s' b = view t b"
      by (rule end_op_blocks [OF lay n(7)])
        (use s1 same_op_sb [OF n(5)] same_op_log [OF n(5)] bmt in simp_all)
    have "view s' c = view s c" if "data_block S c" "c \<noteq> b" for c
    proof -
      have "c \<noteq> BBLOCK b S" using lay b that(1) by (auto simp: fs_layout_def)
      then show ?thesis using e(4) [OF that(1)] n(6) s1(3,4) that(2) by (simp add: mark_used_def)
    qed
    then show thesis
      by (intro some [of b s']) (use s1(1,3,4) n(1-4,6) e mu fb in \<open>simp_all add: balloc_txn_def\<close>)
  qed
qed

lemma bfree_txn_ok:
  assumes inv: "blocks_inv me S s" and d: "data_block S b" and used: "b \<notin> free_blocks S (view s)"
  obtains s' where "bfree_txn me b s = Ret s'" and "blocks_inv me S s'" and "free_blocks S (view s') = insert b (free_blocks S (view s))"
proof -
  have lay: "fs_layout S (l_start (log s))" and bm: "bitmap_ok S (view s)" using inv by (simp_all add: blocks_inv_def)
  obtain s1 where s1: "begin_now me s = Ret s1" "in_op me 29 {} s1" "view s1 = view s" "sb s1 = S" "l_start (log s1) = l_start (log s)"
    "l_outstanding (log s1) = 1" "l_committing (log s1) = 0" by (rule in_op_begin [OF inv])
  have op: "in_op me (Suc (Suc 27)) {} s1" using s1(2) by (simp add: eval_nat_numeral)
  have b: "unat b < unat (sb_size S)" using d by (simp add: data_block_def)
  have u: "block_used (sb s1) (view s1) b" using used b s1 by (simp add: free_blocks_def)
  obtain t where f: "bfree me ROOTDEV b s1 = Ret t" "view t = mark_free (sb s1) b (view s1)" "in_op me (Suc 27) {} t" "same_op s1 t"
    by (rule bfree_ok [OF op, of b]) (use lay s1 b u in simp_all)
  note mf = mark_free_free [OF bm b]
  have bmt: "bitmap_ok S (view t)" using mf bm d f(2) s1(3,4) by (simp add: bitmap_ok_def)
  obtain s' where e: "end_op me t = Ret s'" "blocks_inv me S s'" "free_blocks S (view s') = free_blocks S (view t)"
    by (rule end_op_blocks [OF lay f(3)]) (use s1 same_op_sb [OF f(4)] same_op_log [OF f(4)] bmt in simp_all)
  show thesis
    by (rule that [of s']) (use s1(1,3,4) f(1,2) e mf in \<open>simp_all add: bfree_txn_def\<close>)
qed

definition alloc_block :: "nat \<Rightarrow> 'a kfs_scheme \<Rightarrow> (uint \<times> 'a kfs_scheme) option" where
  "alloc_block me s = (case balloc_txn me s of Ret (b, s') \<Rightarrow> if b = 0 then None else Some (b, s') | _ \<Rightarrow> None)"

definition free_block :: "nat \<Rightarrow> uint \<Rightarrow> 'a kfs_scheme \<Rightarrow> 'a kfs_scheme option" where
  "free_block me b s = (case bfree_txn me b s of Ret s' \<Rightarrow> Some s' | _ \<Rightarrow> None)"

interpretation blocks: pool "blocks_inv me S" "{b. data_block S b}" "\<lambda>s. free_blocks S (view s)" "alloc_block me" "free_block me"
proof
  fix s :: "'a kfs_scheme" and r s'
  assume inv: "blocks_inv me S s"
  show "free_blocks S (view s) \<subseteq> {b. data_block S b}" using inv by (auto simp: blocks_inv_def bitmap_ok_def)
  show "r \<in> free_blocks S (view s) \<and> free_blocks S (view s') = free_blocks S (view s) - {r} \<and> blocks_inv me S s'"
    if "alloc_block me s = Some (r, s')"
    using inv
  proof (cases rule: balloc_txn_ok)
    case (some b t)
    then show ?thesis using that by (simp add: alloc_block_def)
  qed (use that in \<open>simp add: alloc_block_def\<close>)
  show "free_blocks S (view s) = {}" if "alloc_block me s = None"
    using inv
  proof (cases rule: balloc_txn_ok)
    case (some b t)
    then show ?thesis using that by (simp add: alloc_block_def)
  qed simp
  show "\<exists>t. free_block me r s = Some t \<and> free_blocks S (view t) = insert r (free_blocks S (view s)) \<and> blocks_inv me S t"
    if r: "r \<in> {b. data_block S b}" "r \<notin> free_blocks S (view s)"
  proof -
    obtain t where "bfree_txn me r s = Ret t" "blocks_inv me S t" "free_blocks S (view t) = insert r (free_blocks S (view s))"
      by (rule bfree_txn_ok [OF inv, of r]) (use r in simp_all)
    then show ?thesis by (simp add: free_block_def)
  qed
qed

section \<open>Property\<close>

text \<open>
  C6: disk blocks are accounted for.  Over any sequence of transactions that each allocate a block with
  \<^verbatim>\<open>balloc\<close> or free a held one with \<^verbatim>\<open>bfree\<close>, no block is handed out twice or while free, none is
  lost, the log and the cache stay usable, and an allocation fails only when every data block is held.
\<close>

theorem block_accounting:
  assumes "blocks_inv me S s" and "pool.pool_run (alloc_block me) (free_block me) (s, []) ops (s', held)"
  shows "distinct held \<and> set held \<inter> free_blocks S (view s') = {} \<and> set held \<union> free_blocks S (view s') = free_blocks S (view s)
     \<and> blocks_inv me S s' \<and> (alloc_block me s' = None \<longrightarrow> set held = free_blocks S (view s))"
proof -
  have a: "blocks.accounted me S (s, [])" using assms(1) by (simp add: blocks.accounted_def)
  show ?thesis
    using blocks.pool_run_accounted [OF assms(2) a] blocks.alloc_exhausted [OF assms(1,2)]
    by (auto simp: blocks.accounted_def)
qed

text \<open>A file system of 50 blocks: the log from block 2, the free map in block 45, four data blocks.\<close>

definition demo_sb :: superblock where
  "demo_sb = \<lparr>sb_magic = FSMAGIC, sb_size = 50, sb_nblocks = 4, sb_ninodes = 16, sb_nlog = 31, sb_logstart = 2,
     sb_inodestart = 40, sb_bmapstart = 45\<rparr>"

definition demo_map :: "uchar list" where
  "demo_map = [255, 255, 255, 255, 255, 0x3F] @ replicate (BSIZE - 6) 0"

definition demo_disk :: "uint \<Rightarrow> uchar list" where
  "demo_disk = (\<lambda>b. if b = 45 then demo_map else replicate BSIZE 0)"

definition fs_demo :: kfs where
  "fs_demo = klog.extend (boot_demo demo_disk) (kfs.fields demo_sb [])"

lemma fs_demo_fields [simp]:
  "bufs fs_demo = bufs (boot_demo demo_disk)" "lru fs_demo = lru (boot_demo demo_disk)" "disk fs_demo = disk (boot_demo demo_disk)"
  "dwrites fs_demo = dwrites (boot_demo demo_disk)" "procs fs_demo = procs (boot_demo demo_disk)"
  "log fs_demo = log (log_demo 0)" "sb fs_demo = demo_sb"
  by (simp_all add: fs_demo_def klog.defs kfs.defs boot_demo_def binit_def binit_loop_log)

lemma fs_demo_cache: "cache_inv me fs_demo" "view fs_demo = demo_disk" "a_refs (cache_abs fs_demo) = (\<lambda>_. 0)" "a_held (cache_abs fs_demo) = (\<lambda>_. False)"
proof -
  have z: "length (bufs ((log_demo 0)\<lparr>disk := demo_disk\<rparr>)) = NBUF" "\<forall>x \<in> set (bufs ((log_demo 0)\<lparr>disk := demo_disk\<rparr>)). zero_buf x"
    by (simp_all add: zero_buf_def empty_buf_def)
  note b = binit_inv [OF z, folded boot_demo_def]
  show "cache_inv me fs_demo" using b(1) [of me] by (simp add: cache_inv_def)
  have "cache_abs fs_demo = cache_abs (boot_demo demo_disk)" by (rule cache_cong) simp_all
  then show "view fs_demo = demo_disk" "a_refs (cache_abs fs_demo) = (\<lambda>_. 0)" "a_held (cache_abs fs_demo) = (\<lambda>_. False)" by (simp_all add: b(2))
qed

lemma demo_map_used: "n < 46 \<Longrightarrow> bm_used demo_map n" "46 \<le> n \<Longrightarrow> n < 50 \<Longrightarrow> \<not> bm_used demo_map n"
proof -
  have all: "\<forall>n \<in> set [0..<46]. bm_used demo_map n" "\<forall>n \<in> set [46..<50]. \<not> bm_used demo_map n"
    by (simp_all add: upt_conv_Cons demo_map_def bm_used_def bm_bit_def nth_append BSIZE_def)
  show "n < 46 \<Longrightarrow> bm_used demo_map n" using all(1) by simp
  show "46 \<le> n \<Longrightarrow> n < 50 \<Longrightarrow> \<not> bm_used demo_map n" by (rule bspec [OF all(2)]) (simp only: set_upt atLeastLessThan_iff)
qed

lemma log_area_2: "x \<in> log_area 2 \<Longrightarrow> unat x \<le> 32"
proof -
  assume "x \<in> log_area 2"
  then obtain t where t: "x = 2 + of_nat t" "t \<le> 30" by (auto simp: log_area_def LOGBLOCKS_def MAXOPBLOCKS_def)
  have "x = of_nat (2 + t)" using t(1) by simp
  then have "unat x = (2 + t) mod 2 ^ 32" by (simp only: unat_of_nat) simp
  then show "unat x \<le> 32" using t(2) by simp
qed

lemma fs_demo_inv: "blocks_inv me demo_sb fs_demo" and fs_demo_free: "46 \<in> free_blocks demo_sb (view fs_demo)"
proof -
  have B: "BBLOCK b demo_sb = 45" if "unat b < 50" for b
    unfolding BBLOCK_eq using that by (simp add: demo_sb_def BPB_def BSIZE_def)
  have sz: "unat (sb_size demo_sb) = 50" "unat (sb_nblocks demo_sb) = 4" by (simp_all add: demo_sb_def)
  have ix: "bm_index b = unat b" if "unat b < 50" for b using that by (simp add: bm_index_def BPB_def BSIZE_def)
  have d45: "demo_disk 45 = demo_map" by (simp add: demo_disk_def)
  have "45 \<notin> log_area 2" using log_area_2 [of 45] by auto
  moreover have "\<not> data_block demo_sb x" if "x \<in> log_area 2" for x using log_area_2 [OF that] by (simp add: data_block_def sz)
  ultimately have lay: "fs_layout demo_sb 2" using B by (simp add: fs_layout_def sz data_block_def)
  have bu: "block_used demo_sb demo_disk b \<longleftrightarrow> bm_used demo_map (unat b)" if "unat b < 50" for b
    using B [OF that] ix [OF that] d45 by (simp add: block_used_def)
  have "46 \<le> unat b" if "\<not> bm_used demo_map (unat b)" for b :: uint
    using demo_map_used(1) [of "unat b"] that by (cases "unat b < 46") auto
  moreover have "length demo_map = BSIZE" by (simp add: demo_map_def BSIZE_def)
  ultimately have "bitmap_ok demo_sb demo_disk"
    using bu B d45 by (auto simp: bitmap_ok_def sz free_blocks_def data_block_def)
  moreover have "log_idle me fs_demo"
    using fs_demo_cache(1) [of me] fs_demo_cache(2-) log_demo_quiet(1) [of 0 me] by (simp add: log_idle_def log_quiet_def log_blocks_def)
  ultimately show "blocks_inv me demo_sb fs_demo" using lay by (simp add: blocks_inv_def fs_demo_cache)
  have "unat (46 :: uint) = 46" by simp
  then show "46 \<in> free_blocks demo_sb (view fs_demo)"
    using bu [of 46] demo_map_used(2) [of 46] by (simp add: fs_demo_cache free_blocks_def sz)
qed

theorem block_accounting_witness:
  "\<exists>s' b. pool.pool_run (alloc_block 0) (free_block 0) (fs_demo, []) [Alloc] (s', [b]) \<and> b \<in> free_blocks demo_sb (view fs_demo)
     \<and> b \<notin> free_blocks demo_sb (view s')"
proof -
  have "alloc_block 0 fs_demo \<noteq> None" using blocks.alloc_None [OF fs_demo_inv [of 0]] fs_demo_free by (cases "alloc_block 0 fs_demo") auto
  then obtain b s' where a: "alloc_block 0 fs_demo = Some (b, s')" by auto
  have run: "blocks.pool_run 0 (fs_demo, []) [Alloc] (s', [b])"
    by (intro blocks.pool_run.cons [OF blocks.pool_step.take [OF a]] blocks.pool_run.nil)
  show ?thesis using block_accounting [OF fs_demo_inv run] run by auto
qed

end
