(* ===== verification/Inode.thy ===== *)
theory Inode
  imports FsBlock
begin

text \<open>
  The inode layer of \<^verbatim>\<open>kernel/fs.c\<close>.  A \<^verbatim>\<open>struct inode *\<close> is an index into \<open>itable\<close>; a
  null pointer, where the code tests for one, is \<open>None\<close>.  As for the buffer cache, an operation that would
  sleep gives \<open>Block\<close>.
\<close>

section \<open>Inodes on disk\<close>

definition T_DIR :: ushort where "T_DIR = 1"
definition T_FILE :: ushort where "T_FILE = 2"
definition T_DEVICE :: ushort where "T_DEVICE = 3"

record dinode =
  di_type :: ushort
  di_major :: ushort
  di_minor :: ushort
  di_nlink :: ushort
  di_size :: uint
  di_addrs :: "uint list"

definition get_addrs :: "nat \<Rightarrow> nat \<Rightarrow> uchar list \<Rightarrow> uint list" where
  "get_addrs n pos d = map (\<lambda>k. rd32 (pos + 4 * k) d) [0..<n]"

definition put_addrs :: "nat \<Rightarrow> uint list \<Rightarrow> uchar list \<Rightarrow> uchar list" where
  "put_addrs pos as d = put_at pos (concat (map (le_bytes 4) as)) d"

text \<open>The structure at byte \<open>pos\<close> of a block.\<close>

definition get_dinode :: "nat \<Rightarrow> uchar list \<Rightarrow> dinode" where
  "get_dinode pos d = \<lparr>di_type = rd16 pos d, di_major = rd16 (pos + 2) d, di_minor = rd16 (pos + 4) d,
     di_nlink = rd16 (pos + 6) d, di_size = rd32 (pos + 8) d, di_addrs = get_addrs (NDIRECT + 1) (pos + 12) d\<rparr>"

definition put_dinode :: "nat \<Rightarrow> dinode \<Rightarrow> uchar list \<Rightarrow> uchar list" where
  "put_dinode pos x d =
     put_addrs (pos + 12) (di_addrs x) (wr32 (pos + 8) (di_size x) (wr16 (pos + 6) (di_nlink x)
       (wr16 (pos + 4) (di_minor x) (wr16 (pos + 2) (di_major x) (wr16 pos (di_type x) d)))))"

definition dinode_off :: "uint \<Rightarrow> nat" where
  "dinode_off inum = (unat inum mod IPB) * DINODE_SIZE"

section \<open>The inode table\<close>

definition iset :: "nat \<Rightarrow> (inode \<Rightarrow> inode) \<Rightarrow> 'a kfs_scheme \<Rightarrow> 'a kfs_scheme" where
  "iset ip f s = s\<lparr>itable := (itable s)[ip := f (itable s ! ip)]\<rparr>"

abbreviation inode_at :: "'a kfs_scheme \<Rightarrow> nat \<Rightarrow> inode" where
  "inode_at s ip \<equiv> itable s ! ip"

definition iinit :: "'a kfs_scheme \<Rightarrow> 'a kfs_scheme" where
  "iinit s = s\<lparr>itable := map (\<lambda>x. x\<lparr>i_lock := initsleeplock (i_lock x)\<rparr>) (itable s)\<rparr>"

definition iget :: "uint \<Rightarrow> uint \<Rightarrow> 'a kfs_scheme \<Rightarrow> (nat \<times> 'a kfs_scheme) kres" where
  "iget dev inum s =
     (case scan (\<lambda>x. 0 <s i_ref x \<and> i_dev x = dev \<and> i_inum x = inum) (itable s) of
        Some ip \<Rightarrow> Ret (ip, iset ip (\<lambda>x. x\<lparr>i_ref := i_ref x + 1\<rparr>) s)
      | None \<Rightarrow>
          case scan (\<lambda>x. i_ref x = 0) (itable s) of
            None \<Rightarrow> Panic ''iget: no inodes''
          | Some ip \<Rightarrow> Ret (ip, iset ip (\<lambda>x. x\<lparr>i_dev := dev, i_inum := inum, i_ref := 1, i_valid := 0\<rparr>) s))"

definition idup :: "nat \<Rightarrow> 'a kfs_scheme \<Rightarrow> nat \<times> 'a kfs_scheme" where
  "idup ip s = (ip, iset ip (\<lambda>x. x\<lparr>i_ref := i_ref x + 1\<rparr>) s)"

fun ialloc_loop :: "nat \<Rightarrow> uint \<Rightarrow> ushort \<Rightarrow> nat list \<Rightarrow> 'a kfs_scheme \<Rightarrow> (nat option \<times> 'a kfs_scheme) kres" where
  "ialloc_loop me dev type [] s = Ret (None, printk (''ialloc: no inodes'' @ [CHR 0x0a]) [] s)"
| "ialloc_loop me dev type (inum # is) s =
     kbind (bread me dev (IBLOCK (of_nat inum) (sb s)) s) (\<lambda>(bp, s).
     let pos = dinode_off (of_nat inum) in
     if rd16 pos (b_data (bufs s ! bp)) = 0
     then kbind (log_write bp (bdata bp (\<lambda>d. wr16 pos type (put_at pos (replicate DINODE_SIZE 0) d)) s)) (\<lambda>s.
          kbind (brelse me bp s) (\<lambda>s.
          kbind (iget dev (of_nat inum) s) (\<lambda>(ip, s). Ret (Some ip, s))))
     else kbind (brelse me bp s) (\<lambda>s. ialloc_loop me dev type is s))"

text \<open>\<^verbatim>\<open>for(inum = 1; inum < sb.ninodes; inum++)\<close>\<close>

definition ialloc :: "nat \<Rightarrow> uint \<Rightarrow> ushort \<Rightarrow> 'a kfs_scheme \<Rightarrow> (nat option \<times> 'a kfs_scheme) kres" where
  "ialloc me dev type s = ialloc_loop me dev type [1..<unat (sb_ninodes (sb s))] s"

definition inode_disk :: "inode \<Rightarrow> dinode" where
  "inode_disk x = \<lparr>di_type = i_type x, di_major = i_major x, di_minor = i_minor x, di_nlink = i_nlink x,
     di_size = i_size x, di_addrs = i_addrs x\<rparr>"

definition iupdate :: "nat \<Rightarrow> nat \<Rightarrow> 'a kfs_scheme \<Rightarrow> 'a kfs_scheme kres" where
  "iupdate me ip s =
     kbind (bread me (i_dev (inode_at s ip)) (IBLOCK (i_inum (inode_at s ip)) (sb s)) s) (\<lambda>(bp, s).
     let x = inode_at s ip;
         s = bdata bp (put_dinode (dinode_off (i_inum x)) (inode_disk x)) s
     in kbind (log_write bp s) (brelse me bp))"

definition ilock :: "nat \<Rightarrow> nat option \<Rightarrow> 'a kfs_scheme \<Rightarrow> 'a kfs_scheme kres" where
  "ilock me p s =
     (case p of None \<Rightarrow> Panic ''ilock''
      | Some ip \<Rightarrow>
          if i_ref (inode_at s ip) <s 1 then Panic ''ilock''
          else case acquiresleep me (ChanInodeLock ip) (i_lock (inode_at s ip)) s of
                 (Sleeps, _, _) \<Rightarrow> Block (ChanInodeLock ip)
               | (Done _, lk, s) \<Rightarrow>
                   let s = iset ip (\<lambda>x. x\<lparr>i_lock := lk\<rparr>) s; x = inode_at s ip in
                   if i_valid x \<noteq> 0 then Ret s
                   else kbind (bread me (i_dev x) (IBLOCK (i_inum x) (sb s)) s) (\<lambda>(bp, s).
                        let di = get_dinode (dinode_off (i_inum x)) (b_data (bufs s ! bp));
                            s = iset ip (\<lambda>x. x\<lparr>i_type := di_type di, i_major := di_major di, i_minor := di_minor di,
                                  i_nlink := di_nlink di, i_size := di_size di, i_addrs := di_addrs di\<rparr>) s
                        in kbind (brelse me bp s) (\<lambda>s.
                           let s = iset ip (\<lambda>x. x\<lparr>i_valid := 1\<rparr>) s
                           in if i_type (inode_at s ip) = 0 then Panic ''ilock: no type'' else Ret s)))"

definition iunlock :: "nat \<Rightarrow> nat option \<Rightarrow> 'a kfs_scheme \<Rightarrow> 'a kfs_scheme kres" where
  "iunlock me p s =
     (case p of None \<Rightarrow> Panic ''iunlock''
      | Some ip \<Rightarrow>
          if \<not> holdingsleep me (i_lock (inode_at s ip)) s \<or> i_ref (inode_at s ip) <s 1 then Panic ''iunlock''
          else let (lk, s) = releasesleep me (ChanInodeLock ip) (i_lock (inode_at s ip)) s
               in Ret (iset ip (\<lambda>x. x\<lparr>i_lock := lk\<rparr>) s))"

section \<open>File contents\<close>

definition bmap :: "nat \<Rightarrow> nat \<Rightarrow> uint \<Rightarrow> 'a kfs_scheme \<Rightarrow> (uint \<times> 'a kfs_scheme) kres" where
  "bmap me ip bn s =
     (if bn < of_nat NDIRECT then
        let addr = i_addrs (inode_at s ip) ! unat bn in
        if addr = 0 then
          kbind (balloc me (i_dev (inode_at s ip)) s) (\<lambda>(addr, s).
          if addr = 0 then Ret (0, s)
          else Ret (addr, iset ip (\<lambda>x. x\<lparr>i_addrs := (i_addrs x)[unat bn := addr]\<rparr>) s))
        else Ret (addr, s)
      else let bn = bn - of_nat NDIRECT in
        if bn < of_nat NINDIRECT then
          let addr = i_addrs (inode_at s ip) ! NDIRECT in
          kbind (if addr = 0 then
                   kbind (balloc me (i_dev (inode_at s ip)) s) (\<lambda>(addr, s).
                   if addr = 0 then Ret (0, s)
                   else Ret (addr, iset ip (\<lambda>x. x\<lparr>i_addrs := (i_addrs x)[NDIRECT := addr]\<rparr>) s))
                 else Ret (addr, s)) (\<lambda>(addr, s).
          if addr = 0 then Ret (0, s)
          else kbind (bread me (i_dev (inode_at s ip)) addr s) (\<lambda>(bp, s).
               let addr = rd32 (4 * unat bn) (b_data (bufs s ! bp)) in
               kbind (if addr = 0 then
                        kbind (balloc me (i_dev (inode_at s ip)) s) (\<lambda>(addr, s).
                        if addr \<noteq> 0 then kbind (log_write bp (bdata bp (wr32 (4 * unat bn) addr) s)) (\<lambda>s. Ret (addr, s))
                        else Ret (addr, s))
                      else Ret (addr, s)) (\<lambda>(addr, s).
               kbind (brelse me bp s) (\<lambda>s. Ret (addr, s)))))
        else Panic ''bmap: out of range'')"

fun itrunc_direct :: "nat \<Rightarrow> nat \<Rightarrow> nat list \<Rightarrow> 'a kfs_scheme \<Rightarrow> 'a kfs_scheme kres" where
  "itrunc_direct me ip [] s = Ret s"
| "itrunc_direct me ip (i # is) s =
     (if i_addrs (inode_at s ip) ! i \<noteq> 0
      then kbind (bfree me (i_dev (inode_at s ip)) (i_addrs (inode_at s ip) ! i) s) (\<lambda>s.
           itrunc_direct me ip is (iset ip (\<lambda>x. x\<lparr>i_addrs := (i_addrs x)[i := 0]\<rparr>) s))
      else itrunc_direct me ip is s)"

fun itrunc_indirect :: "nat \<Rightarrow> nat \<Rightarrow> nat \<Rightarrow> nat list \<Rightarrow> 'a kfs_scheme \<Rightarrow> 'a kfs_scheme kres" where
  "itrunc_indirect me ip bp [] s = Ret s"
| "itrunc_indirect me ip bp (j # js) s =
     (let a = rd32 (4 * j) (b_data (bufs s ! bp)) in
      if a \<noteq> 0 then kbind (bfree me (i_dev (inode_at s ip)) a s) (itrunc_indirect me ip bp js)
      else itrunc_indirect me ip bp js s)"

definition itrunc :: "nat \<Rightarrow> nat \<Rightarrow> 'a kfs_scheme \<Rightarrow> 'a kfs_scheme kres" where
  "itrunc me ip s =
     kbind (itrunc_direct me ip [0..<NDIRECT] s) (\<lambda>s.
     kbind (if i_addrs (inode_at s ip) ! NDIRECT \<noteq> 0 then
              kbind (bread me (i_dev (inode_at s ip)) (i_addrs (inode_at s ip) ! NDIRECT) s) (\<lambda>(bp, s).
              kbind (itrunc_indirect me ip bp [0..<NINDIRECT] s) (\<lambda>s.
              kbind (brelse me bp s) (\<lambda>s.
              kbind (bfree me (i_dev (inode_at s ip)) (i_addrs (inode_at s ip) ! NDIRECT) s) (\<lambda>s.
              Ret (iset ip (\<lambda>x. x\<lparr>i_addrs := (i_addrs x)[NDIRECT := 0]\<rparr>) s)))))
            else Ret s) (\<lambda>s.
     iupdate me ip (iset ip (\<lambda>x. x\<lparr>i_size := 0\<rparr>) s)))"

definition iput :: "nat \<Rightarrow> nat \<Rightarrow> 'a kfs_scheme \<Rightarrow> 'a kfs_scheme kres" where
  "iput me ip s =
     (let x = inode_at s ip in
      kbind (if i_ref x = 1 \<and> i_valid x \<noteq> 0 \<and> i_nlink x = 0 then
               case acquiresleep me (ChanInodeLock ip) (i_lock x) s of
                 (Sleeps, _, _) \<Rightarrow> Block (ChanInodeLock ip)
               | (Done _, lk, s) \<Rightarrow>
                   kbind (itrunc me ip (iset ip (\<lambda>x. x\<lparr>i_lock := lk\<rparr>) s)) (\<lambda>s.
                   kbind (iupdate me ip (iset ip (\<lambda>x. x\<lparr>i_type := 0\<rparr>) s)) (\<lambda>s.
                   let s = iset ip (\<lambda>x. x\<lparr>i_valid := 0\<rparr>) s;
                       (lk, s) = releasesleep me (ChanInodeLock ip) (i_lock (inode_at s ip)) s
                   in Ret (iset ip (\<lambda>x. x\<lparr>i_lock := lk\<rparr>) s)))
             else Ret s) (\<lambda>s.
      Ret (iset ip (\<lambda>x. x\<lparr>i_ref := i_ref x - 1\<rparr>) s)))"

definition iunlockput :: "nat \<Rightarrow> nat \<Rightarrow> 'a kfs_scheme \<Rightarrow> 'a kfs_scheme kres" where
  "iunlockput me ip s = kbind (iunlock me (Some ip) s) (iput me ip)"

fun ireclaim_loop :: "nat \<Rightarrow> uint \<Rightarrow> nat list \<Rightarrow> 'a kfs_scheme \<Rightarrow> 'a kfs_scheme kres" where
  "ireclaim_loop me dev [] s = Ret s"
| "ireclaim_loop me dev (inum # is) s =
     kbind (bread me dev (IBLOCK (of_nat inum) (sb s)) s) (\<lambda>(bp, s).
     let di = get_dinode (dinode_off (of_nat inum)) (b_data (bufs s ! bp)) in
     kbind (if di_type di \<noteq> 0 \<and> di_nlink di = 0
            then kbind (iget dev (of_nat inum)
                   (printk (''ireclaim: orphaned inode %d'' @ [CHR 0x0a]) [int_slot (of_nat inum)] s)) (\<lambda>(ip, s). Ret (Some ip, s))
            else Ret (None, s)) (\<lambda>(p, s).
     kbind (brelse me bp s) (\<lambda>s.
     case p of None \<Rightarrow> ireclaim_loop me dev is s
     | Some ip \<Rightarrow>
         kbind (begin_now me s) (\<lambda>s.
         kbind (ilock me p s) (\<lambda>s.
         kbind (iunlock me p s) (\<lambda>s.
         kbind (iput me ip s) (\<lambda>s.
         kbind (end_op me s) (\<lambda>s.
         ireclaim_loop me dev is s))))))))"

definition ireclaim :: "nat \<Rightarrow> uint \<Rightarrow> 'a kfs_scheme \<Rightarrow> 'a kfs_scheme kres" where
  "ireclaim me dev s = ireclaim_loop me dev [1..<unat (sb_ninodes (sb s))] s"

definition fsinit :: "nat \<Rightarrow> uint \<Rightarrow> 'a kfs_scheme \<Rightarrow> 'a kfs_scheme kres" where
  "fsinit me dev s =
     kbind (readsb me dev s) (\<lambda>s.
     if sb_magic (sb s) \<noteq> FSMAGIC then Panic ''invalid file system''
     else kbind (initlog me dev (sb_logstart (sb s)) s) (ireclaim me dev))"

record stat =
  st_dev :: cint
  st_ino :: uint
  st_type :: ushort
  st_nlink :: ushort
  st_size :: uint64

definition stati :: "nat \<Rightarrow> 'a kfs_scheme \<Rightarrow> stat" where
  "stati ip s = (let x = inode_at s ip in
     \<lparr>st_dev = i_dev x, st_ino = i_inum x, st_type = i_type x, st_nlink = i_nlink x, st_size = ucast (i_size x)\<rparr>)"

section \<open>Reading and writing\<close>

text \<open>
  Where \<^verbatim>\<open>readi\<close> puts bytes and \<^verbatim>\<open>writei\<close> takes them from.  \<^verbatim>\<open>either_copyout\<close> and
  \<^verbatim>\<open>either_copyin\<close> serve addresses in user space and in the kernel's memory.  A kernel address that points to
  a local variable of the caller, as in \<^verbatim>\<open>(uint64)&de\<close>, is an offset into the bytes \<open>l\<close> of that variable.
\<close>

type_synonym ('l, 'a) sink = "uint64 \<Rightarrow> uchar list \<Rightarrow> 'l \<times> 'a kfs_scheme \<Rightarrow> (cint \<times> 'l \<times> 'a kfs_scheme) kres"
type_synonym 'a source = "uint64 \<Rightarrow> nat \<Rightarrow> 'a kfs_scheme \<Rightarrow> (cint \<times> uchar list \<times> 'a kfs_scheme) kres"

definition addr_sink :: "uint64 \<Rightarrow> nat \<Rightarrow> bool \<Rightarrow> (unit, 'a) sink" where
  "addr_sink kend me user_dst dst bs ls =
     kbind (either_copyout kend me user_dst dst bs (snd ls)) (\<lambda>(r, s). Ret (r, (), s))"

definition local_sink :: "(uchar list, 'a) sink" where
  "local_sink dst bs ls = Ret (0, put_at (unat dst) bs (fst ls), snd ls)"

definition addr_source :: "uint64 \<Rightarrow> nat \<Rightarrow> bool \<Rightarrow> 'a source" where
  "addr_source kend me user_src src n s = either_copyin kend me user_src src n s"

definition local_source :: "uchar list \<Rightarrow> 'a source" where
  "local_source l src n s = Ret (0, sub_bytes (unat src) n l, s)"

text \<open>\<^verbatim>\<open>m = min(n - tot, BSIZE - off%BSIZE)\<close>\<close>

definition chunk :: "uint \<Rightarrow> uint \<Rightarrow> uint \<Rightarrow> uint" where
  "chunk n tot pos = min (n - tot) (of_nat BSIZE - pos mod of_nat BSIZE)"

lemma chunk_bounds:
  assumes "tot < n"
  shows "0 < unat (chunk n tot pos)" and "unat (tot + chunk n tot pos) = unat tot + unat (chunk n tot pos)"
    and "unat tot + unat (chunk n tot pos) \<le> unat n" and "unat (chunk n tot pos) \<le> BSIZE - unat pos mod BSIZE"
    and "unat (chunk n tot pos) = min (unat n - unat tot) (BSIZE - unat pos mod BSIZE)"
proof -
  have le: "tot \<le> n" using assms by simp
  have lt: "unat tot < unat n" using assms by (simp add: word_less_nat_alt)
  have d: "unat (n - tot) = unat n - unat tot" using le by (simp add: unat_sub)
  have m: "unat (pos mod of_nat BSIZE) = unat pos mod BSIZE" by (simp add: unat_mod BSIZE_def)
  have "pos mod of_nat BSIZE \<le> of_nat BSIZE" by (simp add: word_le_nat_alt m) (simp add: BSIZE_def)
  then have b: "unat (of_nat BSIZE - pos mod of_nat BSIZE) = BSIZE - unat pos mod BSIZE"
    by (simp add: unat_sub m) (simp add: BSIZE_def)
  show eq: "unat (chunk n tot pos) = min (unat n - unat tot) (BSIZE - unat pos mod BSIZE)"
    by (simp add: chunk_def min_def word_le_nat_alt d b)
  have "unat pos mod BSIZE < BSIZE" by (simp add: BSIZE_def)
  then show "0 < unat (chunk n tot pos)" using lt by (simp add: eq)
  show le2: "unat tot + unat (chunk n tot pos) \<le> unat n" using lt by (simp add: eq)
  show "unat (chunk n tot pos) \<le> BSIZE - unat pos mod BSIZE" by (simp add: eq)
  have "unat n < 2 ^ 32" using unsigned_less [of n] by simp
  then show "unat (tot + chunk n tot pos) = unat tot + unat (chunk n tot pos)" using le2 by (simp add: unat_word_ariths)
qed

lemma chunk_less: "tot < n \<Longrightarrow> unat n - unat (tot + chunk n tot pos) < unat n - unat tot"
  using chunk_bounds(1-3) [of tot n pos] by simp

function readi_loop ::
  "nat \<Rightarrow> ('l, 'a) sink \<Rightarrow> nat \<Rightarrow> uint64 \<Rightarrow> uint \<Rightarrow> uint \<Rightarrow> uint \<Rightarrow> 'l \<times> 'a kfs_scheme \<Rightarrow> (uint \<times> 'l \<times> 'a kfs_scheme) kres" where
  "readi_loop me snk ip dst pos n tot (l, s) =
     (if tot < n then
        kbind (bmap me ip (pos div of_nat BSIZE) s) (\<lambda>(addr, s).
        if addr = 0 then Ret (tot, l, s)
        else kbind (bread me (i_dev (inode_at s ip)) addr s) (\<lambda>(bp, s).
             kbind (snk dst (sub_bytes (unat (pos mod of_nat BSIZE)) (unat (chunk n tot pos)) (b_data (bufs s ! bp))) (l, s))
               (\<lambda>(r, l, s).
             kbind (brelse me bp s) (\<lambda>s.
             if r = -1 then Ret (-1, l, s)
             else readi_loop me snk ip (dst + ucast (chunk n tot pos)) (pos + chunk n tot pos) n (tot + chunk n tot pos) (l, s)))))
      else Ret (tot, l, s))"
  by pat_completeness auto
termination
  by (relation "measure (\<lambda>(me, snk, ip, dst, pos, n, tot, ls). unat n - unat tot)")
    (simp_all add: chunk_less)

declare readi_loop.simps [simp del]

definition readi ::
  "nat \<Rightarrow> ('l, 'a) sink \<Rightarrow> nat \<Rightarrow> uint64 \<Rightarrow> uint \<Rightarrow> uint \<Rightarrow> 'l \<times> 'a kfs_scheme \<Rightarrow> (uint \<times> 'l \<times> 'a kfs_scheme) kres" where
  "readi me snk ip dst pos n ls =
     (let sz = i_size (inode_at (snd ls) ip) in
      if sz < pos \<or> pos + n < pos then Ret (0, ls)
      else readi_loop me snk ip dst pos (if sz < pos + n then sz - pos else n) 0 ls)"

function writei_loop ::
  "nat \<Rightarrow> 'a source \<Rightarrow> nat \<Rightarrow> uint64 \<Rightarrow> uint \<Rightarrow> uint \<Rightarrow> uint \<Rightarrow> 'a kfs_scheme \<Rightarrow> (uint \<times> uint \<times> 'a kfs_scheme) kres" where
  "writei_loop me src ip a pos n tot s =
     (if tot < n then
        kbind (bmap me ip (pos div of_nat BSIZE) s) (\<lambda>(addr, s).
        if addr = 0 then Ret (tot, pos, s)
        else kbind (bread me (i_dev (inode_at s ip)) addr s) (\<lambda>(bp, s).
             kbind (src a (unat (chunk n tot pos)) s) (\<lambda>(r, bs, s).
             let s = bdata bp (put_at (unat (pos mod of_nat BSIZE)) bs) s in
             if r = -1 then kbind (brelse me bp s) (\<lambda>s. Ret (tot, pos, s))
             else kbind (log_write bp s) (\<lambda>s.
                  kbind (brelse me bp s) (\<lambda>s.
                  writei_loop me src ip (a + ucast (chunk n tot pos)) (pos + chunk n tot pos) n (tot + chunk n tot pos) s)))))
      else Ret (tot, pos, s))"
  by pat_completeness auto
termination
  by (relation "measure (\<lambda>(me, src, ip, a, pos, n, tot, s). unat n - unat tot)")
    (simp_all add: chunk_less)

declare writei_loop.simps [simp del]

definition writei :: "nat \<Rightarrow> 'a source \<Rightarrow> nat \<Rightarrow> uint64 \<Rightarrow> uint \<Rightarrow> uint \<Rightarrow> 'a kfs_scheme \<Rightarrow> (cint \<times> 'a kfs_scheme) kres" where
  "writei me src ip a pos n s =
     (if i_size (inode_at s ip) < pos \<or> pos + n < pos then Ret (-1, s)
      else if MAXFILE * BSIZE < unat (pos + n) then Ret (-1, s)
      else kbind (writei_loop me src ip a pos n 0 s) (\<lambda>(tot, pos, s).
           let s = (if i_size (inode_at s ip) < pos then iset ip (\<lambda>x. x\<lparr>i_size := pos\<rparr>) s else s)
           in kbind (iupdate me ip s) (\<lambda>s. Ret (tot, s))))"

section \<open>The inode on disk and in memory\<close>

lemma sub_put_inside:
  assumes "i + length bs \<le> length l" and "j + n \<le> length bs"
  shows "sub_bytes (i + j) n (put_at i bs l) = sub_bytes j n bs"
  by (rule nth_equalityI) (use assms in \<open>auto simp: sub_bytes_def nth_put_at\<close>)

lemma sub_concat_le_bytes:
  "k < length as \<Longrightarrow> sub_bytes (n * k) n (concat (map (le_bytes n) as)) = le_bytes n (as ! k)"
proof (induction as arbitrary: k)
  case (Cons a as)
  then show ?case by (cases k) (simp_all add: sub_bytes_def)
qed simp

lemma length_concat_le_bytes [simp]: "length (concat (map (le_bytes n) as)) = n * length as"
  by (induction as) simp_all

lemma get_put_addrs:
  assumes "i + 4 * length as \<le> length d"
  shows "get_addrs (length as) i (put_addrs i as d) = as"
proof (rule nth_equalityI)
  fix k
  assume "k < length (get_addrs (length as) i (put_addrs i as d))"
  then have k: "k < length as" by (simp add: get_addrs_def)
  then have "sub_bytes (i + 4 * k) 4 (put_addrs i as d) = le_bytes 4 (as ! k)"
    unfolding put_addrs_def using assms by (subst sub_put_inside) (simp_all add: sub_concat_le_bytes)
  then show "get_addrs (length as) i (put_addrs i as d) ! k = as ! k" using k by (simp add: get_addrs_def)
qed (simp add: get_addrs_def)

lemma length_put_dinode [simp]:
  "pos + 64 \<le> length d \<Longrightarrow> length (di_addrs x) = NDIRECT + 1 \<Longrightarrow> length (put_dinode pos x d) = length d"
  by (simp add: put_dinode_def put_addrs_def NDIRECT_def)

lemma get_put_dinode:
  assumes "pos + 64 \<le> length d" and "length (di_addrs x) = NDIRECT + 1"
  shows "get_dinode pos (put_dinode pos x d) = x"
proof -
  let ?d = "wr32 (pos + 8) (di_size x) (wr16 (pos + 6) (di_nlink x)
       (wr16 (pos + 4) (di_minor x) (wr16 (pos + 2) (di_major x) (wr16 pos (di_type x) d))))"
  have len: "length ?d = length d" using assms(1) by simp
  have e: "put_dinode pos x d = put_addrs (pos + 12) (di_addrs x) ?d" by (simp add: put_dinode_def)
  have a: "get_addrs (NDIRECT + 1) (pos + 12) (put_dinode pos x d) = di_addrs x"
    unfolding e using get_put_addrs [of "pos + 12" "di_addrs x" ?d] assms len by (simp add: NDIRECT_def)
  have "di_type (get_dinode pos (put_dinode pos x d)) = di_type x" "di_major (get_dinode pos (put_dinode pos x d)) = di_major x"
    "di_minor (get_dinode pos (put_dinode pos x d)) = di_minor x" "di_nlink (get_dinode pos (put_dinode pos x d)) = di_nlink x"
    "di_size (get_dinode pos (put_dinode pos x d)) = di_size x"
    unfolding get_dinode_def e put_addrs_def using assms by (simp_all add: NDIRECT_def)
  then show ?thesis using a by (simp add: get_dinode_def)
qed

lemma get_put_dinode_other:
  assumes "pos + 64 \<le> length d" and "length (di_addrs x) = NDIRECT + 1" and "q + 64 \<le> pos \<or> pos + 64 \<le> q"
  shows "get_dinode q (put_dinode pos x d) = get_dinode q d"
proof -
  have "sub_bytes i n (put_dinode pos x d) = sub_bytes i n d" if "q \<le> i" "i + n \<le> q + 64" for i n
    unfolding put_dinode_def put_addrs_def using assms that by (simp add: NDIRECT_def) (subst sub_put_other; auto)+
  then show ?thesis by (simp add: get_dinode_def get_addrs_def NDIRECT_def)
qed

end
