(* ===== verification/Dir.thy ===== *)
theory Dir
  imports Inode
begin

text \<open>
  Directories and path names, the last part of \<^verbatim>\<open>kernel/fs.c\<close>.  A C string is its list of bytes up
  to the terminating NUL; the array \<^verbatim>\<open>name[DIRSIZ]\<close> keeps its DIRSIZ bytes.
\<close>

section \<open>Directory entries\<close>

record dirent =
  de_inum :: ushort
  de_name :: "uchar list"

definition get_dirent :: "uchar list \<Rightarrow> dirent" where
  "get_dirent d = \<lparr>de_inum = rd16 0 d, de_name = sub_bytes 2 DIRSIZ d\<rparr>"

definition put_dirent :: "dirent \<Rightarrow> uchar list" where
  "put_dirent e = le_bytes 2 (de_inum e) @ de_name e"

text \<open>\<^verbatim>\<open>strncmp\<close> and \<^verbatim>\<open>strncpy\<close> on the bytes of two arrays, a missing byte being the NUL that ends the string.\<close>

fun strncmp_at :: "nat \<Rightarrow> nat \<Rightarrow> uchar list \<Rightarrow> uchar list \<Rightarrow> int" where
  "strncmp_at 0 i p q = 0"
| "strncmp_at (Suc n) i p q =
     (if str_at p i \<noteq> 0 \<and> str_at p i = str_at q i then strncmp_at n (i + 1) p q
      else uint (str_at p i) - uint (str_at q i))"

definition namecmp :: "uchar list \<Rightarrow> uchar list \<Rightarrow> int" where
  "namecmp p q = strncmp_at DIRSIZ 0 p q"

definition strncpy_name :: "uchar list \<Rightarrow> uchar list" where
  "strncpy_name p = (let c = takeWhile (\<lambda>x. x \<noteq> 0) (take DIRSIZ p) in c @ replicate (DIRSIZ - length c) 0)"

text \<open>The offsets of the loops over a directory's entries; a directory's size does not change while it is locked.\<close>

definition dir_offs :: "uint \<Rightarrow> uint list" where
  "dir_offs sz = map (\<lambda>k. of_nat (k * DIRENT_SIZE)) [0..<(unat sz + DIRENT_SIZE - 1) div DIRENT_SIZE]"

text \<open>\<^verbatim>\<open>readi(dp, 0, (uint64)&de, off, sizeof(de))\<close>, where \<open>de\<close> holds the bytes of the variable before.\<close>

definition read_dirent :: "nat \<Rightarrow> nat \<Rightarrow> uint \<Rightarrow> uchar list \<Rightarrow> 'a kfs_scheme \<Rightarrow> (uint \<times> uchar list \<times> 'a kfs_scheme) kres" where
  "read_dirent me dp pos de s = readi me local_sink dp 0 pos (of_nat DIRENT_SIZE) (de, s)"

fun dirlookup_loop :: "nat \<Rightarrow> nat \<Rightarrow> uchar list \<Rightarrow> uint list \<Rightarrow> uchar list \<Rightarrow> 'a kfs_scheme \<Rightarrow> ((nat \<times> uint) option \<times> 'a kfs_scheme) kres" where
  "dirlookup_loop me dp name [] de s = Ret (None, s)"
| "dirlookup_loop me dp name (pos # ps) de s =
     kbind (read_dirent me dp pos de s) (\<lambda>(r, de, s).
     if r \<noteq> of_nat DIRENT_SIZE then Panic ''dirlookup read''
     else let e = get_dirent de in
       if de_inum e = 0 then dirlookup_loop me dp name ps de s
       else if namecmp name (de_name e) = 0
            then kbind (iget (i_dev (inode_at s dp)) (ucast (de_inum e)) s) (\<lambda>(ip, s). Ret (Some (ip, pos), s))
            else dirlookup_loop me dp name ps de s)"

definition dirlookup :: "nat \<Rightarrow> nat \<Rightarrow> uchar list \<Rightarrow> 'a kfs_scheme \<Rightarrow> ((nat \<times> uint) option \<times> 'a kfs_scheme) kres" where
  "dirlookup me dp name s =
     (if i_type (inode_at s dp) \<noteq> T_DIR then Panic ''dirlookup not DIR''
      else dirlookup_loop me dp name (dir_offs (i_size (inode_at s dp))) (replicate DIRENT_SIZE 0) s)"

text \<open>The search for an empty entry gives the offset at which \<^verbatim>\<open>dirlink\<close> writes.\<close>

fun dirlink_loop :: "nat \<Rightarrow> nat \<Rightarrow> uint list \<Rightarrow> uint \<Rightarrow> uchar list \<Rightarrow> 'a kfs_scheme \<Rightarrow> (uint \<times> 'a kfs_scheme) kres" where
  "dirlink_loop me dp [] past de s = Ret (past, s)"
| "dirlink_loop me dp (pos # ps) past de s =
     kbind (read_dirent me dp pos de s) (\<lambda>(r, de, s).
     if r \<noteq> of_nat DIRENT_SIZE then Panic ''dirlink read''
     else if de_inum (get_dirent de) = 0 then Ret (pos, s)
     else dirlink_loop me dp ps (pos + of_nat DIRENT_SIZE) de s)"

definition dirlink :: "nat \<Rightarrow> nat \<Rightarrow> uchar list \<Rightarrow> uint \<Rightarrow> 'a kfs_scheme \<Rightarrow> (cint \<times> 'a kfs_scheme) kres" where
  "dirlink me dp name inum s =
     kbind (dirlookup me dp name s) (\<lambda>(r, s).
     case r of
       Some (ip, _) \<Rightarrow> kbind (iput me ip s) (\<lambda>s. Ret (-1, s))
     | None \<Rightarrow>
         kbind (dirlink_loop me dp (dir_offs (i_size (inode_at s dp))) 0 (replicate DIRENT_SIZE 0) s) (\<lambda>(pos, s).
         let de = put_dirent \<lparr>de_inum = ucast inum, de_name = strncpy_name name\<rparr> in
         kbind (writei me (local_source de) dp 0 pos (of_nat DIRENT_SIZE) s) (\<lambda>(r, s).
         Ret (if r \<noteq> of_nat DIRENT_SIZE then -1 else 0, s))))"

section \<open>Paths\<close>

definition SLASH :: uchar where "SLASH = 47"

definition skipelem :: "uchar list \<Rightarrow> uchar list \<Rightarrow> (uchar list \<times> uchar list) option" where
  "skipelem path name =
     (let path = dropWhile (\<lambda>c. c = SLASH) path in
      if path = [] then None
      else let s = takeWhile (\<lambda>c. c \<noteq> SLASH) path;
               path = dropWhile (\<lambda>c. c \<noteq> SLASH) path;
               name = (if DIRSIZ \<le> length s then take DIRSIZ s else s @ [0] @ drop (length s + 1) name)
           in Some (dropWhile (\<lambda>c. c = SLASH) path, name))"

lemma skipelem_shorter: "skipelem path name = Some (path', name') \<Longrightarrow> length path' < length path"
proof -
  assume a: "skipelem path name = Some (path', name')"
  let ?p = "dropWhile (\<lambda>c. c = SLASH) path"
  have ne: "?p \<noteq> []" and p': "path' = dropWhile (\<lambda>c. c = SLASH) (dropWhile (\<lambda>c. c \<noteq> SLASH) ?p)"
    using a by (auto simp: skipelem_def Let_def split: if_splits)
  obtain c q where c: "?p = c # q" "c \<noteq> SLASH" using ne hd_dropWhile [OF ne] by (cases ?p) auto
  have "length path' \<le> length (dropWhile (\<lambda>c. c \<noteq> SLASH) ?p)" unfolding p' by (rule length_dropWhile_le)
  also have "\<dots> \<le> length q" using c length_dropWhile_le [of "\<lambda>c. c \<noteq> SLASH" q] by simp
  also have "\<dots> < length ?p" using c by simp
  also have "\<dots> \<le> length path" by (rule length_dropWhile_le)
  finally show ?thesis .
qed

text \<open>One call per turn of the loop of \<^verbatim>\<open>namex\<close>, which holds a reference to \<open>ip\<close>.\<close>

function namex_loop :: "nat \<Rightarrow> bool \<Rightarrow> nat \<Rightarrow> uchar list \<Rightarrow> uchar list \<Rightarrow> 'a kfs_scheme \<Rightarrow> (nat option \<times> uchar list \<times> 'a kfs_scheme) kres" where
  "namex_loop me parent ip path name s =
     (case skipelem path name of
        None \<Rightarrow> if parent then kbind (iput me ip s) (\<lambda>s. Ret (None, name, s)) else Ret (Some ip, name, s)
      | Some (path', name') \<Rightarrow>
          kbind (ilock me (Some ip) s) (\<lambda>s.
          if i_type (inode_at s ip) \<noteq> T_DIR then kbind (iunlockput me ip s) (\<lambda>s. Ret (None, name', s))
          else if parent \<and> path' = [] then kbind (iunlock me (Some ip) s) (\<lambda>s. Ret (Some ip, name', s))
          else kbind (dirlookup me ip name' s) (\<lambda>(r, s).
               case r of
                 None \<Rightarrow> kbind (iunlockput me ip s) (\<lambda>s. Ret (None, name', s))
               | Some (nxt, _) \<Rightarrow> kbind (iunlockput me ip s) (\<lambda>s. namex_loop me parent nxt path' name' s))))"
  by pat_completeness auto
termination
  by (relation "measure (\<lambda>(me, parent, ip, path, name, s). length path)") (auto dest: skipelem_shorter)

declare namex_loop.simps [simp del]

definition namex :: "nat \<Rightarrow> uchar list \<Rightarrow> bool \<Rightarrow> uchar list \<Rightarrow> 'a kfs_scheme \<Rightarrow> (nat option \<times> uchar list \<times> 'a kfs_scheme) kres" where
  "namex me path parent name s =
     kbind (if path \<noteq> [] \<and> hd path = SLASH then iget ROOTDEV ROOTINO s
            else Ret (idup (the (p_cwd (pget me s))) s)) (\<lambda>(ip, s).
     namex_loop me parent ip path name s)"

definition namei :: "nat \<Rightarrow> uchar list \<Rightarrow> 'a kfs_scheme \<Rightarrow> (nat option \<times> 'a kfs_scheme) kres" where
  "namei me path s = kbind (namex me path False (replicate DIRSIZ 0) s) (\<lambda>(r, _, s). Ret (r, s))"

definition nameiparent :: "nat \<Rightarrow> uchar list \<Rightarrow> uchar list \<Rightarrow> 'a kfs_scheme \<Rightarrow> (nat option \<times> uchar list \<times> 'a kfs_scheme) kres" where
  "nameiparent me path name s = namex me path True name s"

section \<open>Names and paths\<close>

text \<open>The name an array of at least DIRSIZ bytes, or a string, stands for.\<close>

definition name_of :: "uchar list \<Rightarrow> uchar list" where
  "name_of p = takeWhile (\<lambda>c. c \<noteq> 0) (take DIRSIZ p)"

lemma strncmp_at_0:
  "strncmp_at n i p q = 0 \<longleftrightarrow> takeWhile (\<lambda>c. c \<noteq> 0) (take n (drop i p)) = takeWhile (\<lambda>c. c \<noteq> 0) (take n (drop i q))"
proof (induction n arbitrary: i)
  case (Suc n)
  have at: "takeWhile (\<lambda>c. c \<noteq> 0) (take (Suc n) (drop i p)) =
      (if str_at p i \<noteq> 0 then str_at p i # takeWhile (\<lambda>c. c \<noteq> 0) (take n (drop (i + 1) p)) else [])" for p
    by (cases "i < length p") (auto simp: str_at_def Cons_nth_drop_Suc [symmetric])
  have "uint x - uint y = 0 \<longleftrightarrow> x = y" for x y :: uchar by (simp add: word_uint_eq_iff)
  moreover have "uint x = 0 \<longleftrightarrow> x = 0" for x :: uchar by (simp add: uint_0_iff)
  ultimately show ?case using Suc.IH [of "i + 1"] unfolding strncmp_at.simps(2) at by auto
qed simp

lemma namecmp_eq: "namecmp p q = 0 \<longleftrightarrow> name_of p = name_of q"
  by (simp add: namecmp_def strncmp_at_0 name_of_def)

lemma length_strncpy_name [simp]: "length (strncpy_name p) = DIRSIZ"
  using length_takeWhile_le [of "\<lambda>c. c \<noteq> 0" "take DIRSIZ p"] by (simp add: strncpy_name_def Let_def)

lemma name_of_strncpy: "name_of (strncpy_name p) = name_of p"
proof -
  let ?c = "takeWhile (\<lambda>x. x \<noteq> 0) (take DIRSIZ p)"
  have "take DIRSIZ (strncpy_name p) = strncpy_name p" by simp
  then have "name_of (strncpy_name p) = takeWhile (\<lambda>x. x \<noteq> 0) (?c @ replicate (DIRSIZ - length ?c) 0)"
    by (simp only: name_of_def strncpy_name_def Let_def)
  also have "\<dots> = ?c @ takeWhile (\<lambda>x. x \<noteq> 0) (replicate (DIRSIZ - length ?c) (0 :: uchar))"
    by (rule takeWhile_append2) (rule set_takeWhileD [THEN conjunct2])
  finally show ?thesis by (simp add: name_of_def)
qed

text \<open>The elements of a path, cut at DIRSIZ bytes.\<close>

fun split_on :: "uchar \<Rightarrow> uchar list \<Rightarrow> uchar list list" where
  "split_on c [] = [[]]"
| "split_on c (x # xs) = (if x = c then [] # split_on c xs else (x # hd (split_on c xs)) # tl (split_on c xs))"

definition path_elems :: "uchar list \<Rightarrow> uchar list list" where
  "path_elems p = map (take DIRSIZ) (filter (\<lambda>e. e \<noteq> []) (split_on SLASH p))"

lemma split_on_ne [simp]: "split_on c xs \<noteq> []"
  by (cases xs) simp_all

lemma split_on_hd: "hd (split_on c xs) = takeWhile (\<lambda>x. x \<noteq> c) xs"
  by (induction xs) simp_all

lemma split_on_tl:
  "tl (split_on c xs) = (case dropWhile (\<lambda>x. x \<noteq> c) xs of [] \<Rightarrow> [] | _ # ys \<Rightarrow> split_on c ys)"
  by (induction xs) auto

lemma path_elems_slash: "path_elems (SLASH # p) = path_elems p"
  by (simp add: path_elems_def)

lemma path_elems_dropWhile: "path_elems (dropWhile (\<lambda>c. c = SLASH) p) = path_elems p"
  by (induction p) (simp_all add: path_elems_slash)

lemma path_elems_elem:
  assumes "p \<noteq> []" and "hd p \<noteq> SLASH"
  shows "path_elems p = take DIRSIZ (takeWhile (\<lambda>x. x \<noteq> SLASH) p) # path_elems (dropWhile (\<lambda>x. x \<noteq> SLASH) p)"
proof -
  obtain es where "split_on SLASH p = takeWhile (\<lambda>x. x \<noteq> SLASH) p # es"
    by (metis split_on_hd split_on_ne list.collapse)
  moreover have "takeWhile (\<lambda>x. x \<noteq> SLASH) p \<noteq> []" using assms by (cases p) simp_all
  moreover have "map (take DIRSIZ) (filter (\<lambda>e. e \<noteq> []) (tl (split_on SLASH p))) = path_elems (dropWhile (\<lambda>x. x \<noteq> SLASH) p)"
  proof (cases "dropWhile (\<lambda>x. x \<noteq> SLASH) p")
    case Nil
    show ?thesis unfolding path_elems_def split_on_tl Nil by simp
  next
    case (Cons y ys)
    then have "y = SLASH" using hd_dropWhile [of "\<lambda>x. x \<noteq> SLASH" p] by simp
    then show ?thesis unfolding path_elems_def split_on_tl Cons by simp
  qed
  ultimately show ?thesis by (simp add: path_elems_def)
qed

definition no_nul :: "uchar list \<Rightarrow> bool" where
  "no_nul p \<longleftrightarrow> 0 \<notin> set p"

lemma takeWhile_all: "\<forall>x \<in> set xs. P x \<Longrightarrow> takeWhile P (xs @ y # ys) = (if P y then xs @ y # takeWhile P ys else xs)"
  by (induction xs) auto

lemma skipelem_elems:
  assumes "no_nul path" and "length name = DIRSIZ"
  shows "case skipelem path name of
      None \<Rightarrow> path_elems path = []
    | Some (path', name') \<Rightarrow> path_elems path = name_of name' # path_elems path' \<and> length name' = DIRSIZ
        \<and> (path' = [] \<longleftrightarrow> path_elems path' = []) \<and> no_nul path'"
proof -
  let ?p = "dropWhile (\<lambda>c. c = SLASH) path"
  show ?thesis
  proof (cases "?p = []")
    case True
    then have "path_elems path = path_elems []" using path_elems_dropWhile [of path, unfolded True] by simp
    then show ?thesis using True by (simp add: skipelem_def path_elems_def)
  next
    case False
    let ?s = "takeWhile (\<lambda>c. c \<noteq> SLASH) ?p" and ?r = "dropWhile (\<lambda>c. c \<noteq> SLASH) ?p"
    let ?q = "dropWhile (\<lambda>c. c = SLASH) ?r"
    let ?n = "if DIRSIZ \<le> length ?s then take DIRSIZ ?s else ?s @ [0] @ drop (length ?s + 1) name"
    have hd: "hd ?p \<noteq> SLASH" using hd_dropWhile [OF False] by simp
    have nn: "\<forall>x \<in> set ?s. x \<noteq> 0" "no_nul ?q"
      using assms(1) by (auto simp: no_nul_def dest!: set_takeWhileD set_dropWhileD)
    have "name_of ?n = take DIRSIZ ?s"
    proof (cases "DIRSIZ \<le> length ?s")
      case True
      then show ?thesis using nn(1) by (simp add: name_of_def takeWhile_eq_all_conv) (meson in_set_takeD)
    next
      case short: False
      then have "take DIRSIZ ?n = ?s @ 0 # take (DIRSIZ - length ?s - 1) (drop (length ?s + 1) name)"
        by (cases "DIRSIZ - length ?s") simp_all
      then show ?thesis using short takeWhile_all [of ?s "\<lambda>c. c \<noteq> 0"] nn(1) by (simp add: name_of_def)
    qed
    moreover have "length ?n = DIRSIZ" using assms(2) by auto
    moreover have "path_elems path = take DIRSIZ ?s # path_elems ?q"
      using path_elems_elem [OF False hd] path_elems_dropWhile [of path] path_elems_dropWhile [of ?r] by simp
    moreover have "?q = [] \<longleftrightarrow> path_elems ?q = []"
    proof
      assume "path_elems ?q = []"
      show "?q = []"
      proof (rule ccontr)
        assume ne: "?q \<noteq> []"
        then have "hd ?q \<noteq> SLASH" using hd_dropWhile [OF ne] by simp
        then show False using path_elems_elem [OF ne] \<open>path_elems ?q = []\<close> by simp
      qed
    next
      assume e: "?q = []"
      show "path_elems ?q = []" unfolding e by (simp add: path_elems_def)
    qed
    moreover have sk: "skipelem path name = Some (?q, ?n)" using False by (simp add: skipelem_def Let_def)
    ultimately show ?thesis unfolding sk option.case prod.case using nn(2) by presburger
  qed
qed

lemma dirent_roundtrip: "length (de_name e) = DIRSIZ \<Longrightarrow> get_dirent (put_dirent e) = e"
  by (simp add: get_dirent_def put_dirent_def sub_bytes_def)

end
