(* ===== verification/File.thy ===== *)
theory File
  imports Dir
begin

text \<open>
  Open files: \<^verbatim>\<open>kernel/file.c\<close>, the creation of pipes, and the parts of \<^verbatim>\<open>kfork\<close> and \<^verbatim>\<open>kexit\<close> that
  hold on to files and drop them.  A \<^verbatim>\<open>struct file\<close> is named by its index in \<^verbatim>\<open>ftable\<close>.
\<close>

section \<open>State\<close>

datatype fdtype = FD_NONE | FD_PIPE | FD_INODE | FD_DEVICE

record ofile =
  f_type :: fdtype
  f_ref :: cint
  f_readable :: uchar
  f_writable :: uchar
  f_pipe :: uint64
  f_ip :: "nat option"
  f_off :: uint
  f_major :: ushort

text \<open>The functions whose addresses the kernel stores in \<^verbatim>\<open>devsw\<close>, and the null pointer.\<close>

datatype devfn = DevNull | DevConsoleread | DevConsolewrite

record devsw =
  dev_read :: devfn
  dev_write :: devfn

record kfile = kfs +
  ftable :: "ofile list"
  devsw_tab :: "devsw list"

definition fset :: "nat \<Rightarrow> (ofile \<Rightarrow> ofile) \<Rightarrow> 'a kfile_scheme \<Rightarrow> 'a kfile_scheme" where
  "fset f g s = s\<lparr>ftable := (ftable s)[f := g (ftable s ! f)]\<rparr>"

abbreviation file_at :: "'a kfile_scheme \<Rightarrow> nat \<Rightarrow> ofile" where
  "file_at s f \<equiv> ftable s ! f"

definition CONSOLE :: nat where "CONSOLE = 1"

text \<open>The last lines of \<^verbatim>\<open>consoleinit\<close>.\<close>

definition consoleinit_devsw :: "'a kfile_scheme \<Rightarrow> 'a kfile_scheme" where
  "consoleinit_devsw s =
     s\<lparr>devsw_tab := (devsw_tab s)[CONSOLE := \<lparr>dev_read = DevConsoleread, dev_write = DevConsolewrite\<rparr>]\<rparr>"

section \<open>Reference counts\<close>

definition filealloc :: "'a kfile_scheme \<Rightarrow> nat option \<times> 'a kfile_scheme" where
  "filealloc s =
     (case scan (\<lambda>f. f_ref f = 0) (ftable s) of
        None \<Rightarrow> (None, s)
      | Some f \<Rightarrow> (Some f, fset f (\<lambda>x. x\<lparr>f_ref := 1\<rparr>) s))"

definition filedup :: "nat \<Rightarrow> 'a kfile_scheme \<Rightarrow> 'a kfile_scheme kres" where
  "filedup f s =
     (if f_ref (file_at s f) <s 1 then Panic ''filedup''
      else Ret (fset f (\<lambda>x. x\<lparr>f_ref := f_ref x + 1\<rparr>) s))"

definition fileclose :: "uint64 \<Rightarrow> nat \<Rightarrow> nat \<Rightarrow> 'a kfile_scheme \<Rightarrow> 'a kfile_scheme kres" where
  "fileclose kend me f s =
     (if f_ref (file_at s f) <s 1 then Panic ''fileclose''
      else if 0 <s f_ref (file_at s f) - 1 then Ret (fset f (\<lambda>x. x\<lparr>f_ref := f_ref x - 1\<rparr>) s)
      else let ff = file_at s f;
               s = fset f (\<lambda>x. x\<lparr>f_ref := 0, f_type := FD_NONE\<rparr>) s
           in if f_type ff = FD_PIPE then pipeclose kend me (f_pipe ff) (f_writable ff \<noteq> 0) s
              else if f_type ff = FD_INODE \<or> f_type ff = FD_DEVICE
              then kbind (begin_now me s) (\<lambda>s. kbind (iput me (the (f_ip ff)) s) (end_op me))
              else Ret s)"

section \<open>Status, reading and writing\<close>

text \<open>The bytes of a \<^verbatim>\<open>struct stat\<close> on the stack; \<open>junk\<close> stands for the four bytes of padding before \<^verbatim>\<open>size\<close>.\<close>

definition stat_bytes :: "uchar list \<Rightarrow> stat \<Rightarrow> uchar list" where
  "stat_bytes junk st = le_bytes 4 (st_dev st) @ le_bytes 4 (st_ino st) @ le_bytes 2 (st_type st)
     @ le_bytes 2 (st_nlink st) @ junk @ le_bytes 8 (st_size st)"

definition filestat :: "uint64 \<Rightarrow> nat \<Rightarrow> uchar list \<Rightarrow> nat \<Rightarrow> uint64 \<Rightarrow> 'a kfile_scheme \<Rightarrow> (cint \<times> 'a kfile_scheme) kres" where
  "filestat kend me junk f addr s =
     (let x = file_at s f in
      if f_type x = FD_INODE \<or> f_type x = FD_DEVICE then
        kbind (ilock me (f_ip x) s) (\<lambda>s.
        let st = stati (the (f_ip x)) s in
        kbind (iunlock me (f_ip x) s) (\<lambda>s.
        let p = pget me s in
        kbind (copyout kend (p_sz p) (p_pagetable p) (p_pagetable p) addr (stat_bytes junk st) s) (\<lambda>(r, s).
        Ret (if r <s 0 then -1 else 0, s))))
      else Ret (-1, s))"

text \<open>A call is finished, or the process sleeps in the pipe or in the console.\<close>

datatype io_out = IoDone cint | IoPipe pipe_out | IoConsole cons_out

definition pipe_result :: "pipe_out \<times> 'a kfile_scheme \<Rightarrow> (io_out \<times> 'a kfile_scheme) kres" where
  "pipe_result = (\<lambda>(r, s). Ret (case r of Returned v \<Rightarrow> IoDone v | Waiting v \<Rightarrow> IoPipe r, s))"

definition cons_result :: "cons_out \<times> 'a kfile_scheme \<Rightarrow> (io_out \<times> 'a kfile_scheme) kres" where
  "cons_result = (\<lambda>(r, s). Ret (case r of CReturned v \<Rightarrow> IoDone v | _ \<Rightarrow> IoConsole r, s))"

text \<open>The call through a pointer of \<^verbatim>\<open>devsw\<close>, tested for null by its callers.\<close>

definition dev_call :: "uint64 \<Rightarrow> nat \<Rightarrow> devfn \<Rightarrow> bool \<Rightarrow> uint64 \<Rightarrow> cint \<Rightarrow> 'a kfile_scheme \<Rightarrow> (cons_out \<times> 'a kfile_scheme) kres" where
  "dev_call kend me fn user addr n s =
     (case fn of DevConsoleread \<Rightarrow> consoleread kend me user addr n s
      | DevConsolewrite \<Rightarrow> consolewrite kend me user addr n s
      | DevNull \<Rightarrow> Panic ''null'')"

definition bad_major :: "ushort \<Rightarrow> bool" where
  "bad_major m \<longleftrightarrow> m <s 0 \<or> of_nat NDEV \<le>s m"

definition fileread :: "uint64 \<Rightarrow> nat \<Rightarrow> nat \<Rightarrow> uint64 \<Rightarrow> cint \<Rightarrow> 'a kfile_scheme \<Rightarrow> (io_out \<times> 'a kfile_scheme) kres" where
  "fileread kend me f addr n s =
     (let x = file_at s f in
      if f_readable x = 0 then Ret (IoDone (-1), s)
      else case f_type x of
        FD_PIPE \<Rightarrow> kbind (piperead kend me (f_pipe x) addr n s) pipe_result
      | FD_DEVICE \<Rightarrow>
          if bad_major (f_major x) \<or> dev_read (devsw_tab s ! unat (f_major x)) = DevNull then Ret (IoDone (-1), s)
          else kbind (dev_call kend me (dev_read (devsw_tab s ! unat (f_major x))) True addr n s) cons_result
      | FD_INODE \<Rightarrow>
          kbind (ilock me (f_ip x) s) (\<lambda>s.
          kbind (readi me (addr_sink kend me True) (the (f_ip x)) addr (f_off (file_at s f)) n ((), s)) (\<lambda>(r, _, s).
          let s = (if 0 <s r then fset f (\<lambda>x. x\<lparr>f_off := f_off x + r\<rparr>) s else s) in
          kbind (iunlock me (f_ip x) s) (\<lambda>s. Ret (IoDone r, s))))
      | FD_NONE \<Rightarrow> Panic ''fileread'')"

definition FILEWRITE_MAX :: nat where
  "FILEWRITE_MAX = ((MAXOPBLOCKS - 1 - 1 - 2) div 2) * BSIZE"

lemma FILEWRITE_MAX_pos [simp]: "0 < FILEWRITE_MAX"
  by (simp add: FILEWRITE_MAX_def MAXOPBLOCKS_def BSIZE_def)

text \<open>The loop over chunks; \<open>i\<close> and the positive \<open>n\<close> are C ints with \<open>0 \<le> i \<le> n\<close>.  The result is the final \<open>i\<close>.\<close>

function filewrite_loop :: "uint64 \<Rightarrow> nat \<Rightarrow> nat \<Rightarrow> uint64 \<Rightarrow> nat \<Rightarrow> nat \<Rightarrow> 'a kfile_scheme \<Rightarrow> (nat \<times> 'a kfile_scheme) kres" where
  "filewrite_loop kend me f addr n i s =
     (if i < n then
        let n1 = min (n - i) FILEWRITE_MAX; ip = f_ip (file_at s f) in
        kbind (begin_now me s) (\<lambda>s.
        kbind (ilock me ip s) (\<lambda>s.
        kbind (writei me (addr_source kend me True) (the ip) (addr + of_nat i) (f_off (file_at s f)) (of_nat n1) s) (\<lambda>(r, s).
        let s = (if 0 <s r then fset f (\<lambda>x. x\<lparr>f_off := f_off x + r\<rparr>) s else s) in
        kbind (iunlock me ip s) (\<lambda>s.
        kbind (end_op me s) (\<lambda>s.
        if r \<noteq> of_nat n1 then Ret (i, s) else filewrite_loop kend me f addr n (i + n1) s)))))
      else Ret (i, s))"
  by pat_completeness auto
termination
  by (relation "measure (\<lambda>(kend, me, f, addr, n, i, s). n - i)") (use FILEWRITE_MAX_pos in \<open>auto simp: min_def simp del: FILEWRITE_MAX_pos\<close>)

declare filewrite_loop.simps [simp del]

definition filewrite :: "uint64 \<Rightarrow> nat \<Rightarrow> nat \<Rightarrow> uint64 \<Rightarrow> cint \<Rightarrow> 'a kfile_scheme \<Rightarrow> (io_out \<times> 'a kfile_scheme) kres" where
  "filewrite kend me f addr n s =
     (let x = file_at s f in
      if f_writable x = 0 then Ret (IoDone (-1), s)
      else case f_type x of
        FD_PIPE \<Rightarrow> kbind (pipewrite kend me (f_pipe x) addr n s) pipe_result
      | FD_DEVICE \<Rightarrow>
          if bad_major (f_major x) \<or> dev_write (devsw_tab s ! unat (f_major x)) = DevNull then Ret (IoDone (-1), s)
          else kbind (dev_call kend me (dev_write (devsw_tab s ! unat (f_major x))) True addr n s) cons_result
      | FD_INODE \<Rightarrow>
          kbind (filewrite_loop kend me f addr (nat (sint n)) 0 s) (\<lambda>(i, s).
          Ret (IoDone (if of_nat i = n then n else -1), s))
      | FD_NONE \<Rightarrow> Panic ''filewrite'')"

section \<open>Pipes\<close>

definition pipe_end :: "uint64 \<Rightarrow> uchar \<Rightarrow> uchar \<Rightarrow> ofile \<Rightarrow> ofile" where
  "pipe_end pi rd wr x = x\<lparr>f_type := FD_PIPE, f_readable := rd, f_writable := wr, f_pipe := pi\<rparr>"

text \<open>The page of a new pipe holds the junk \<^verbatim>\<open>kalloc\<close> left there, apart from the four fields set.\<close>

definition new_pipe :: pipe where
  "new_pipe = \<lparr>pi_data = replicate (unat PIPESIZE) 5, pi_nread = 0, pi_nwrite = 0, pi_readopen = 1, pi_writeopen = 1\<rparr>"

definition pipealloc :: "uint64 \<Rightarrow> nat \<Rightarrow> 'a kfile_scheme \<Rightarrow> ((nat \<times> nat) option \<times> 'a kfile_scheme) kres" where
  "pipealloc kend me s =
     (case filealloc s of
        (None, s) \<Rightarrow> Ret (None, s)
      | (Some f0, s) \<Rightarrow>
          (case filealloc s of
             (None, s) \<Rightarrow> kbind (fileclose kend me f0 s) (\<lambda>s. Ret (None, s))
           | (Some f1, s) \<Rightarrow>
               let (pi, s) = kalloc s in
               if pi = 0
               then kbind (fileclose kend me f0 s) (\<lambda>s. kbind (fileclose kend me f1 s) (\<lambda>s. Ret (None, s)))
               else Ret (Some (f0, f1), fset f1 (pipe_end pi 0 1) (fset f0 (pipe_end pi 1 0) (pipeset pi (\<lambda>_. new_pipe) s)))))"

section \<open>Files across fork and exit\<close>

fun dup_files :: "nat option list \<Rightarrow> 'a kfile_scheme \<Rightarrow> 'a kfile_scheme kres" where
  "dup_files [] s = Ret s"
| "dup_files (None # fs) s = dup_files fs s"
| "dup_files (Some f # fs) s = kbind (filedup f s) (dup_files fs)"

definition fork_dup_refs :: "nat \<Rightarrow> 'a kfile_scheme \<Rightarrow> 'a kfile_scheme kres" where
  "fork_dup_refs me s =
     kbind (dup_files (p_ofile (pget me s)) s) (\<lambda>s. Ret (snd (idup (the (p_cwd (pget me s))) s)))"

fun exit_close_files :: "uint64 \<Rightarrow> nat \<Rightarrow> nat list \<Rightarrow> 'a kfile_scheme \<Rightarrow> 'a kfile_scheme kres" where
  "exit_close_files kend me [] s = Ret s"
| "exit_close_files kend me (fd # fds) s =
     (case p_ofile (pget me s) ! fd of
        None \<Rightarrow> exit_close_files kend me fds s
      | Some f \<Rightarrow>
          kbind (fileclose kend me f s) (\<lambda>s.
          exit_close_files kend me fds (pset me (\<lambda>p. p\<lparr>p_ofile := (p_ofile p)[fd := None]\<rparr>) s)))"

definition exit_close_refs :: "uint64 \<Rightarrow> nat \<Rightarrow> 'a kfile_scheme \<Rightarrow> 'a kfile_scheme kres" where
  "exit_close_refs kend me s =
     kbind (exit_close_files kend me [0..<NOFILE] s) (\<lambda>s.
     kbind (begin_now me s) (\<lambda>s.
     kbind (iput me (the (p_cwd (pget me s))) s) (\<lambda>s.
     kbind (end_op me s) (\<lambda>s.
     Ret (pset me (\<lambda>p. p\<lparr>p_cwd := None\<rparr>) s)))))"

definition kfork_files :: "linkmap \<Rightarrow> nat \<Rightarrow> 'a kfile_scheme \<Rightarrow> (cint \<times> 'a kfile_scheme) kres" where
  "kfork_files L me s = kfork fork_dup_refs L me s"

definition kexit_files :: "uint64 \<Rightarrow> nat \<Rightarrow> cint \<Rightarrow> 'a kfile_scheme \<Rightarrow> 'a kfile_scheme kres" where
  "kexit_files kend me status s = kexit (exit_close_refs kend) me status s"

text \<open>A kernel with an empty file table over the small file system.\<close>

definition no_file :: ofile where
  "no_file = \<lparr>f_type = FD_NONE, f_ref = 0, f_readable = 0, f_writable = 0, f_pipe = 0, f_ip = None, f_off = 0, f_major = 0\<rparr>"

definition file_demo :: kfile where
  "file_demo = kfs.extend fs_demo (kfile.fields (replicate NFILE no_file) (replicate NDEV \<lparr>dev_read = DevNull, dev_write = DevNull\<rparr>))"

end
