(* ===== verification/Exec.thy ===== *)
theory Exec
  imports File
begin

text \<open>
  Arguments of system calls (\<^verbatim>\<open>fetchaddr\<close> to \<^verbatim>\<open>argstr\<close> of \<^verbatim>\<open>kernel/syscall.c\<close>) and the loading of programs,
  \<^verbatim>\<open>kernel/exec.c\<close>.  A C string that the kernel holds in a buffer is its bytes before the NUL.
\<close>

section \<open>Arguments of system calls\<close>

definition fetchaddr :: "uint64 \<Rightarrow> nat \<Rightarrow> uint64 \<Rightarrow> 'a kproc_scheme \<Rightarrow> (cint \<times> uint64 \<times> 'a kproc_scheme) kres" where
  "fetchaddr kend me addr s =
     (let p = pget me s in
      if p_sz p \<le> addr \<or> p_sz p < addr + 8 then Ret (-1, 0, s)
      else kbind (copyin kend (p_sz p) (p_pagetable p) (p_pagetable p) addr 8 s) (\<lambda>(r, bs, s).
           Ret (if r \<noteq> 0 then (-1, 0, s) else (0, le_word bs, s))))"

definition fetchstr :: "nat \<Rightarrow> uint64 \<Rightarrow> nat \<Rightarrow> 'a kproc_scheme \<Rightarrow> (cint \<times> uchar list) kres" where
  "fetchstr me addr mx s =
     kbind (copyinstr (p_pagetable (pget me s)) addr mx s) (\<lambda>(r, bs).
     let buf = takeWhile (\<lambda>c. c \<noteq> 0) bs in
     Ret (if r <s 0 then (-1, buf) else (of_nat (length buf), buf)))"

definition argraw :: "nat \<Rightarrow> nat \<Rightarrow> 'a kproc_scheme \<Rightarrow> uint64 kres" where
  "argraw me n s = (if n \<le> 5 then Ret (ld64 (mem s) (p_trapframe (pget me s) + TF_a n)) else Panic ''argraw'')"

definition argint :: "nat \<Rightarrow> nat \<Rightarrow> 'a kproc_scheme \<Rightarrow> cint kres" where
  "argint me n s = kbind (argraw me n s) (\<lambda>v. Ret (ucast v))"

definition argaddr :: "nat \<Rightarrow> nat \<Rightarrow> 'a kproc_scheme \<Rightarrow> uint64 kres" where
  "argaddr me n s = argraw me n s"

definition argstr :: "nat \<Rightarrow> nat \<Rightarrow> nat \<Rightarrow> 'a kproc_scheme \<Rightarrow> (cint \<times> uchar list) kres" where
  "argstr me n mx s = kbind (argaddr me n s) (\<lambda>addr. fetchstr me addr mx s)"

section \<open>ELF files\<close>

definition ELF_MAGIC :: uint where "ELF_MAGIC = 0x464C457F"
definition ELF_PROG_LOAD :: uint where "ELF_PROG_LOAD = 1"
definition ELFHDR_SIZE :: nat where "ELFHDR_SIZE = 64"
definition PROGHDR_SIZE :: nat where "PROGHDR_SIZE = 56"

abbreviation rd64 :: "nat \<Rightarrow> uchar list \<Rightarrow> uint64" where
  "rd64 i d \<equiv> le_word (sub_bytes i 8 d)"

record elfhdr =
  eh_magic :: uint
  eh_elf :: "uchar list"
  eh_type :: ushort
  eh_machine :: ushort
  eh_version :: uint
  eh_entry :: uint64
  eh_phoff :: uint64
  eh_shoff :: uint64
  eh_flags :: uint
  eh_ehsize :: ushort
  eh_phentsize :: ushort
  eh_phnum :: ushort
  eh_shentsize :: ushort
  eh_shnum :: ushort
  eh_shstrndx :: ushort

definition get_elfhdr :: "uchar list \<Rightarrow> elfhdr" where
  "get_elfhdr d = \<lparr>eh_magic = rd32 0 d, eh_elf = sub_bytes 4 12 d, eh_type = rd16 16 d, eh_machine = rd16 18 d,
     eh_version = rd32 20 d, eh_entry = rd64 24 d, eh_phoff = rd64 32 d, eh_shoff = rd64 40 d, eh_flags = rd32 48 d,
     eh_ehsize = rd16 52 d, eh_phentsize = rd16 54 d, eh_phnum = rd16 56 d, eh_shentsize = rd16 58 d,
     eh_shnum = rd16 60 d, eh_shstrndx = rd16 62 d\<rparr>"

record proghdr =
  ph_type :: uint
  ph_flags :: uint
  ph_off :: uint64
  ph_vaddr :: uint64
  ph_paddr :: uint64
  ph_filesz :: uint64
  ph_memsz :: uint64
  ph_align :: uint64

definition get_proghdr :: "uchar list \<Rightarrow> proghdr" where
  "get_proghdr d = \<lparr>ph_type = rd32 0 d, ph_flags = rd32 4 d, ph_off = rd64 8 d, ph_vaddr = rd64 16 d,
     ph_paddr = rd64 24 d, ph_filesz = rd64 32 d, ph_memsz = rd64 40 d, ph_align = rd64 48 d\<rparr>"

definition flags2perm :: "cint \<Rightarrow> cint" where
  "flags2perm flags =
     (let perm = (if flags AND 1 \<noteq> 0 then ucast PTE_X else 0)
      in if flags AND 2 \<noteq> 0 then perm OR ucast PTE_W else perm)"

section \<open>Loading segments\<close>

text \<open>
  The offsets \<open>i\<close> of the loop of \<^verbatim>\<open>loadseg\<close>.  The counter of the loop cannot pass \<open>2^32\<close>: no file has more
  than MAXFILE blocks, so \<^verbatim>\<open>readi\<close> falls short long before.
\<close>

definition seg_offs :: "uint \<Rightarrow> uint list" where
  "seg_offs sz = map (\<lambda>k. of_nat k * ucast PGSIZE) [0..<(unat sz + unat PGSIZE - 1) div unat PGSIZE]"

fun loadseg_loop :: "uint64 \<Rightarrow> nat \<Rightarrow> uint64 \<Rightarrow> uint64 \<Rightarrow> nat \<Rightarrow> uint \<Rightarrow> uint \<Rightarrow> uint list \<Rightarrow> 'a kfs_scheme \<Rightarrow> (cint \<times> 'a kfs_scheme) kres" where
  "loadseg_loop kend me pagetable va ip offset sz [] s = Ret (0, s)"
| "loadseg_loop kend me pagetable va ip offset sz (i # is) s =
     kbind (walkaddr pagetable (va + ucast i) s) (\<lambda>pa.
     if pa = 0 then Panic ''loadseg: address should exist''
     else let n = (if sz - i < ucast PGSIZE then sz - i else ucast PGSIZE) in
          kbind (readi me (addr_sink kend me False) ip pa (offset + i) n ((), s)) (\<lambda>(r, _, s).
          if r \<noteq> n then Ret (-1, s) else loadseg_loop kend me pagetable va ip offset sz is s))"

definition loadseg :: "uint64 \<Rightarrow> nat \<Rightarrow> uint64 \<Rightarrow> uint64 \<Rightarrow> nat \<Rightarrow> uint \<Rightarrow> uint \<Rightarrow> 'a kfs_scheme \<Rightarrow> (cint \<times> 'a kfs_scheme) kres" where
  "loadseg kend me pagetable va ip offset sz s = loadseg_loop kend me pagetable va ip offset sz (seg_offs sz) s"

text \<open>The loop over the program headers; it gives the size reached and whether the loop ended without \<^verbatim>\<open>goto bad\<close>.\<close>

fun load_segs :: "uint64 \<Rightarrow> nat \<Rightarrow> nat \<Rightarrow> uint64 \<Rightarrow> nat \<Rightarrow> uint \<Rightarrow> uint64 \<Rightarrow> 'a kfs_scheme \<Rightarrow> (bool \<times> uint64 \<times> 'a kfs_scheme) kres" where
  "load_segs kend me ip pagetable 0 pos sz s = Ret (True, sz, s)"
| "load_segs kend me ip pagetable (Suc n) pos sz s =
     kbind (readi me local_sink ip 0 pos (of_nat PROGHDR_SIZE) (replicate PROGHDR_SIZE 0, s)) (\<lambda>(r, b, s).
     let ph = get_proghdr b in
     if r \<noteq> of_nat PROGHDR_SIZE then Ret (False, sz, s)
     else if ph_type ph \<noteq> ELF_PROG_LOAD then load_segs kend me ip pagetable n (pos + of_nat PROGHDR_SIZE) sz s
     else if ph_memsz ph < ph_filesz ph \<or> ph_vaddr ph + ph_memsz ph < ph_vaddr ph \<or> ph_vaddr ph mod PGSIZE \<noteq> 0
     then Ret (False, sz, s)
     else kbind (uvmalloc kend pagetable sz (ph_vaddr ph + ph_memsz ph) (flags2perm (ph_flags ph)) s) (\<lambda>(sz1, s).
          if sz1 = 0 then Ret (False, sz, s)
          else kbind (loadseg kend me pagetable (ph_vaddr ph) ip (ucast (ph_off ph)) (ucast (ph_filesz ph)) s) (\<lambda>(r, s).
               if r <s 0 then Ret (False, sz1, s)
               else load_segs kend me ip pagetable n (pos + of_nat PROGHDR_SIZE) sz1 s)))"

section \<open>The new stack\<close>

fun push_args :: "uint64 \<Rightarrow> nat \<Rightarrow> uint64 \<Rightarrow> uint64 \<Rightarrow> uchar list list \<Rightarrow> uint64 \<Rightarrow> uint64 list \<Rightarrow> 'a kproc_scheme
    \<Rightarrow> ((uint64 \<times> uint64 list) option \<times> 'a kproc_scheme) kres" where
  "push_args kend me pagetable stackbase [] sp ustack s = Ret (Some (sp, ustack), s)"
| "push_args kend me pagetable stackbase (arg # args) sp ustack s =
     (if MAXARG \<le> length ustack then Ret (None, s)
      else let sp = sp - of_nat (length arg + 1); sp = sp - sp mod 16; p = pget me s in
        if sp < stackbase then Ret (None, s)
        else kbind (copyout kend (p_sz p) (p_pagetable p) pagetable sp (arg @ [0]) s) (\<lambda>(r, s).
             if r <s 0 then Ret (None, s)
             else push_args kend me pagetable stackbase args sp (ustack @ [sp]) s))"

definition last_elem :: "uchar list \<Rightarrow> uchar list" where
  "last_elem path = rev (takeWhile (\<lambda>c. c \<noteq> SLASH) (rev path))"

definition exec_bad :: "uint64 \<Rightarrow> nat \<Rightarrow> uint64 \<Rightarrow> uint64 \<Rightarrow> nat option \<Rightarrow> 'a kfs_scheme \<Rightarrow> (cint \<times> 'a kfs_scheme) kres" where
  "exec_bad kend me pagetable sz ip s =
     kbind (if pagetable \<noteq> 0 then proc_freepagetable kend pagetable sz s else Ret s) (\<lambda>s.
     kbind (case ip of None \<Rightarrow> Ret s | Some i \<Rightarrow> kbind (iunlockput me i s) (end_op me)) (\<lambda>s. Ret (-1, s)))"

text \<open>From saving the program's name to the release of the old address space.\<close>

definition exec_commit :: "uint64 \<Rightarrow> nat \<Rightarrow> uchar list \<Rightarrow> uint64 \<Rightarrow> uint64 \<Rightarrow> uint64 \<Rightarrow> uint64 \<Rightarrow> 'a kfs_scheme \<Rightarrow> 'a kfs_scheme kres" where
  "exec_commit kend me path pagetable sz start sp s =
     (let p = pget me s; tf = p_trapframe p;
          s = s\<lparr>mem := st64 (mem s) (tf + TF_a 1) sp\<rparr>;
          s = pset me (\<lambda>p. p\<lparr>p_name := copy_name (p_name p) (last_elem path)\<rparr>) s;
          s = pset me (\<lambda>p. p\<lparr>p_pagetable := pagetable, p_sz := sz\<rparr>) s;
          s = s\<lparr>mem := st64 (st64 (mem s) (tf + TF_epc) start) (tf + TF_sp) sp\<rparr>
      in proc_freepagetable kend (p_pagetable p) (p_sz p) s)"

definition exec_stack :: "uint64 \<Rightarrow> nat \<Rightarrow> uchar list \<Rightarrow> uchar list list \<Rightarrow> uint64 \<Rightarrow> uint64 \<Rightarrow> uint64 \<Rightarrow> 'a kfs_scheme \<Rightarrow> (cint \<times> 'a kfs_scheme) kres" where
  "exec_stack kend me path argv pagetable sz start s =
     (let sz = PGROUNDUP sz; room = (USERSTACK + 1) * PGSIZE in
      kbind (uvmalloc kend pagetable sz (sz + room) (ucast PTE_W) s) (\<lambda>(sz1, s).
      if sz1 = 0 then exec_bad kend me pagetable sz None s
      else kbind (uvmclear pagetable (sz1 - room) s) (\<lambda>s.
      let stackbase = sz1 - USERSTACK * PGSIZE in
      kbind (push_args kend me pagetable stackbase argv sz1 [] s) (\<lambda>(r, s).
      case r of
        None \<Rightarrow> exec_bad kend me pagetable sz1 None s
      | Some (sp, ustack) \<Rightarrow>
          let sp = sp - of_nat ((length ustack + 1) * 8); sp = sp - sp mod 16; p = pget me s in
          if sp < stackbase then exec_bad kend me pagetable sz1 None s
          else kbind (copyout kend (p_sz p) (p_pagetable p) pagetable sp (concat (map (le_bytes 8) (ustack @ [0]))) s) (\<lambda>(r, s).
               if r <s 0 then exec_bad kend me pagetable sz1 None s
               else kbind (exec_commit kend me path pagetable sz1 start sp s) (\<lambda>s. Ret (of_nat (length ustack), s)))))))"

definition kexec :: "linkmap \<Rightarrow> nat \<Rightarrow> uchar list \<Rightarrow> uchar list list \<Rightarrow> 'a kfs_scheme \<Rightarrow> (cint \<times> 'a kfs_scheme) kres" where
  "kexec L me path argv s =
     kbind (begin_now me s) (\<lambda>s.
     kbind (namei me path s) (\<lambda>(r, s).
     case r of
       None \<Rightarrow> kbind (end_op me s) (\<lambda>s. Ret (-1, s))
     | Some ip \<Rightarrow>
         kbind (ilock me (Some ip) s) (\<lambda>s.
         kbind (readi me local_sink ip 0 0 (of_nat ELFHDR_SIZE) (replicate ELFHDR_SIZE 0, s)) (\<lambda>(r, b, s).
         let elf = get_elfhdr b; kend = lm_end L in
         if r \<noteq> of_nat ELFHDR_SIZE \<or> eh_magic elf \<noteq> ELF_MAGIC then exec_bad kend me 0 0 (Some ip) s
         else kbind (proc_pagetable L (p_trapframe (pget me s)) s) (\<lambda>(pagetable, s).
              if pagetable = 0 then exec_bad kend me 0 0 (Some ip) s
              else kbind (load_segs kend me ip pagetable (unat (eh_phnum elf)) (ucast (eh_phoff elf)) 0 s) (\<lambda>(good, sz, s).
                   if \<not> good then exec_bad kend me pagetable sz (Some ip) s
                   else kbind (iunlockput me ip s) (\<lambda>s.
                        kbind (end_op me s) (exec_stack kend me path argv pagetable sz (eh_entry elf)))))))))"

end
