(* ===== verification/Sysfile.thy ===== *)
theory Sysfile
  imports Exec
begin

text \<open>
  The file system calls, \<^verbatim>\<open>kernel/sysfile.c\<close>.  A call takes its arguments from the trapframe of the process
  \<open>me\<close>.  The arrays \<^verbatim>\<open>name[DIRSIZ]\<close> on the stack start as zeros; what follows the NUL in them is never read.
\<close>

section \<open>What a system call gives\<close>

text \<open>A value for \<^verbatim>\<open>a0\<close>; a wait inside a pipe or the console; another sleep; or no return at all.\<close>

datatype sys_out = SysRet uint64 | SysIo io_out | SysSleeps | SysGone

abbreviation sys_ret :: "uint64 \<Rightarrow> 'a kfile_scheme \<Rightarrow> (sys_out \<times> 'a kfile_scheme) kres" where
  "sys_ret v s \<equiv> Ret (SysRet v, s)"

text \<open>An \<^verbatim>\<open>int\<close> as the \<^verbatim>\<open>uint64\<close> that is returned.\<close>

abbreviation sys_int :: "cint \<times> 'a kfile_scheme \<Rightarrow> (sys_out \<times> 'a kfile_scheme) kres" where
  "sys_int rs \<equiv> Ret (SysRet (scast (fst rs)), snd rs)"

definition sys_io :: "io_out \<times> 'a kfile_scheme \<Rightarrow> (sys_out \<times> 'a kfile_scheme) kres" where
  "sys_io = (\<lambda>(r, s). case r of IoDone v \<Rightarrow> sys_ret (scast v) s | _ \<Rightarrow> Ret (SysIo r, s))"

section \<open>Descriptors\<close>

definition argfd :: "nat \<Rightarrow> nat \<Rightarrow> 'a kproc_scheme \<Rightarrow> (nat \<times> nat) option kres" where
  "argfd me n s =
     kbind (argint me n s) (\<lambda>fd.
     if fd <s 0 \<or> of_nat NOFILE \<le>s fd then Ret None
     else Ret (case p_ofile (pget me s) ! unat fd of None \<Rightarrow> None | Some f \<Rightarrow> Some (unat fd, f)))"

definition set_ofile :: "nat \<Rightarrow> nat \<Rightarrow> nat option \<Rightarrow> 'a kproc_scheme \<Rightarrow> 'a kproc_scheme" where
  "set_ofile me fd f s = pset me (\<lambda>p. p\<lparr>p_ofile := (p_ofile p)[fd := f]\<rparr>) s"

definition fdalloc :: "nat \<Rightarrow> nat \<Rightarrow> 'a kproc_scheme \<Rightarrow> nat option \<times> 'a kproc_scheme" where
  "fdalloc me f s =
     (case scan (\<lambda>x. x = None) (take NOFILE (p_ofile (pget me s))) of
        None \<Rightarrow> (None, s)
      | Some fd \<Rightarrow> (Some fd, set_ofile me fd (Some f) s))"

definition sys_dup :: "nat \<Rightarrow> 'a kfile_scheme \<Rightarrow> (sys_out \<times> 'a kfile_scheme) kres" where
  "sys_dup me s =
     kbind (argfd me 0 s) (\<lambda>r.
     case r of None \<Rightarrow> sys_ret (-1) s
     | Some (_, f) \<Rightarrow>
         (case fdalloc me f s of
            (None, s) \<Rightarrow> sys_ret (-1) s
          | (Some fd, s) \<Rightarrow> kbind (filedup f s) (sys_ret (of_nat fd))))"

definition sys_read :: "uint64 \<Rightarrow> nat \<Rightarrow> 'a kfile_scheme \<Rightarrow> (sys_out \<times> 'a kfile_scheme) kres" where
  "sys_read kend me s =
     kbind (argaddr me 1 s) (\<lambda>p.
     kbind (argint me 2 s) (\<lambda>n.
     kbind (argfd me 0 s) (\<lambda>r.
     case r of None \<Rightarrow> sys_ret (-1) s
     | Some (_, f) \<Rightarrow> kbind (fileread kend me f p n s) sys_io)))"

definition sys_write :: "uint64 \<Rightarrow> nat \<Rightarrow> 'a kfile_scheme \<Rightarrow> (sys_out \<times> 'a kfile_scheme) kres" where
  "sys_write kend me s =
     kbind (argaddr me 1 s) (\<lambda>p.
     kbind (argint me 2 s) (\<lambda>n.
     kbind (argfd me 0 s) (\<lambda>r.
     case r of None \<Rightarrow> sys_ret (-1) s
     | Some (_, f) \<Rightarrow> kbind (filewrite kend me f p n s) sys_io)))"

definition sys_close :: "uint64 \<Rightarrow> nat \<Rightarrow> 'a kfile_scheme \<Rightarrow> (sys_out \<times> 'a kfile_scheme) kres" where
  "sys_close kend me s =
     kbind (argfd me 0 s) (\<lambda>r.
     case r of None \<Rightarrow> sys_ret (-1) s
     | Some (fd, f) \<Rightarrow> kbind (fileclose kend me f (set_ofile me fd None s)) (sys_ret 0))"

definition sys_fstat :: "uint64 \<Rightarrow> nat \<Rightarrow> uchar list \<Rightarrow> 'a kfile_scheme \<Rightarrow> (sys_out \<times> 'a kfile_scheme) kres" where
  "sys_fstat kend me junk s =
     kbind (argaddr me 1 s) (\<lambda>st.
     kbind (argfd me 0 s) (\<lambda>r.
     case r of None \<Rightarrow> sys_ret (-1) s
     | Some (_, f) \<Rightarrow> kbind (filestat kend me junk f st s) sys_int))"

section \<open>Links\<close>

text \<open>\<^verbatim>\<open>end_op(); return v;\<close>\<close>

definition op_ret :: "nat \<Rightarrow> uint64 \<Rightarrow> 'a kfile_scheme \<Rightarrow> (sys_out \<times> 'a kfile_scheme) kres" where
  "op_ret me v s = kbind (end_op me s) (sys_ret v)"

definition link_bad :: "nat \<Rightarrow> nat \<Rightarrow> 'a kfile_scheme \<Rightarrow> (sys_out \<times> 'a kfile_scheme) kres" where
  "link_bad me ip s =
     kbind (ilock me (Some ip) s) (\<lambda>s.
     kbind (iupdate me ip (iset ip (\<lambda>x. x\<lparr>i_nlink := i_nlink x - 1\<rparr>) s)) (\<lambda>s.
     kbind (iunlockput me ip s) (op_ret me (-1))))"

definition sys_link :: "nat \<Rightarrow> 'a kfile_scheme \<Rightarrow> (sys_out \<times> 'a kfile_scheme) kres" where
  "sys_link me s =
     kbind (argstr me 0 MAXPATH s) (\<lambda>(r0, old).
     kbind (if r0 <s 0 then Ret (-1, []) else argstr me 1 MAXPATH s) (\<lambda>(r1, new).
     if r0 <s 0 \<or> r1 <s 0 then sys_ret (-1) s
     else kbind (begin_now me s) (\<lambda>s.
     kbind (namei me old s) (\<lambda>(r, s).
     case r of None \<Rightarrow> op_ret me (-1) s
     | Some ip \<Rightarrow>
         kbind (ilock me (Some ip) s) (\<lambda>s.
         if i_type (inode_at s ip) = T_DIR then kbind (iunlockput me ip s) (op_ret me (-1))
         else kbind (iupdate me ip (iset ip (\<lambda>x. x\<lparr>i_nlink := i_nlink x + 1\<rparr>) s)) (\<lambda>s.
              kbind (iunlock me (Some ip) s) (\<lambda>s.
              kbind (nameiparent me new (replicate DIRSIZ 0) s) (\<lambda>(r, name, s).
              case r of None \<Rightarrow> link_bad me ip s
              | Some dp \<Rightarrow>
                  kbind (ilock me (Some dp) s) (\<lambda>s.
                  kbind (if i_dev (inode_at s dp) \<noteq> i_dev (inode_at s ip) then Ret (-1, s)
                         else dirlink me dp name (i_inum (inode_at s ip)) s) (\<lambda>(d, s).
                  kbind (iunlockput me dp s) (\<lambda>s.
                  if d <s 0 then link_bad me ip s
                  else kbind (iput me ip s) (op_ret me 0))))))))))))"

fun isdirempty_loop :: "nat \<Rightarrow> nat \<Rightarrow> uint list \<Rightarrow> 'a kfs_scheme \<Rightarrow> (bool \<times> 'a kfs_scheme) kres" where
  "isdirempty_loop me dp [] s = Ret (True, s)"
| "isdirempty_loop me dp (pos # ps) s =
     kbind (read_dirent me dp pos (replicate DIRENT_SIZE 0) s) (\<lambda>(r, de, s).
     if r \<noteq> of_nat DIRENT_SIZE then Panic ''isdirempty: readi''
     else if de_inum (get_dirent de) \<noteq> 0 then Ret (False, s)
     else isdirempty_loop me dp ps s)"

definition isdirempty :: "nat \<Rightarrow> nat \<Rightarrow> 'a kfs_scheme \<Rightarrow> (bool \<times> 'a kfs_scheme) kres" where
  "isdirempty me dp s = isdirempty_loop me dp (drop 2 (dir_offs (i_size (inode_at s dp)))) s"

definition DOT :: "uchar list" where "DOT = [46]"
definition DOTDOT :: "uchar list" where "DOTDOT = [46, 46]"

definition unlink_bad :: "nat \<Rightarrow> nat \<Rightarrow> 'a kfile_scheme \<Rightarrow> (sys_out \<times> 'a kfile_scheme) kres" where
  "unlink_bad me dp s = kbind (iunlockput me dp s) (op_ret me (-1))"

text \<open>From the write of the empty entry on.\<close>

definition unlink_entry :: "nat \<Rightarrow> nat \<Rightarrow> nat \<Rightarrow> uint \<Rightarrow> 'a kfile_scheme \<Rightarrow> (sys_out \<times> 'a kfile_scheme) kres" where
  "unlink_entry me dp ip pos s =
     kbind (writei me (local_source (replicate DIRENT_SIZE 0)) dp 0 pos (of_nat DIRENT_SIZE) s) (\<lambda>(r, s).
     if r \<noteq> of_nat DIRENT_SIZE then Panic ''unlink: writei''
     else kbind (if i_type (inode_at s ip) = T_DIR then iupdate me dp (iset dp (\<lambda>x. x\<lparr>i_nlink := i_nlink x - 1\<rparr>) s) else Ret s) (\<lambda>s.
          kbind (iunlockput me dp s) (\<lambda>s.
          kbind (iupdate me ip (iset ip (\<lambda>x. x\<lparr>i_nlink := i_nlink x - 1\<rparr>) s)) (\<lambda>s.
          kbind (iunlockput me ip s) (op_ret me 0)))))"

definition sys_unlink :: "nat \<Rightarrow> 'a kfile_scheme \<Rightarrow> (sys_out \<times> 'a kfile_scheme) kres" where
  "sys_unlink me s =
     kbind (argstr me 0 MAXPATH s) (\<lambda>(r, path).
     if r <s 0 then sys_ret (-1) s
     else kbind (begin_now me s) (\<lambda>s.
     kbind (nameiparent me path (replicate DIRSIZ 0) s) (\<lambda>(r, name, s).
     case r of None \<Rightarrow> op_ret me (-1) s
     | Some dp \<Rightarrow>
         kbind (ilock me (Some dp) s) (\<lambda>s.
         if namecmp name DOT = 0 \<or> namecmp name DOTDOT = 0 then unlink_bad me dp s
         else kbind (dirlookup me dp name s) (\<lambda>(r, s).
         case r of None \<Rightarrow> unlink_bad me dp s
         | Some (ip, pos) \<Rightarrow>
             kbind (ilock me (Some ip) s) (\<lambda>s.
             if i_nlink (inode_at s ip) <s 1 then Panic ''unlink: nlink < 1''
             else kbind (if i_type (inode_at s ip) = T_DIR then isdirempty me ip s else Ret (True, s)) (\<lambda>(e, s).
                  if \<not> e then kbind (iunlockput me ip s) (unlink_bad me dp)
                  else unlink_entry me dp ip pos s)))))))"

section \<open>Creating and opening\<close>

definition create_fail :: "nat \<Rightarrow> nat \<Rightarrow> nat \<Rightarrow> 'a kfs_scheme \<Rightarrow> (nat option \<times> 'a kfs_scheme) kres" where
  "create_fail me ip dp s =
     kbind (iupdate me ip (iset ip (\<lambda>x. x\<lparr>i_nlink := 0\<rparr>) s)) (\<lambda>s.
     kbind (iunlockput me ip s) (\<lambda>s.
     kbind (iunlockput me dp s) (\<lambda>s. Ret (None, s))))"

text \<open>The entries of a new directory: the second call is made only if the first succeeds.\<close>

definition link_dots :: "nat \<Rightarrow> nat \<Rightarrow> nat \<Rightarrow> 'a kfs_scheme \<Rightarrow> (cint \<times> 'a kfs_scheme) kres" where
  "link_dots me ip dp s =
     kbind (dirlink me ip DOT (i_inum (inode_at s ip)) s) (\<lambda>(r, s).
     if r <s 0 then Ret (r, s) else dirlink me ip DOTDOT (i_inum (inode_at s dp)) s)"

definition create :: "nat \<Rightarrow> uchar list \<Rightarrow> ushort \<Rightarrow> ushort \<Rightarrow> ushort \<Rightarrow> 'a kfs_scheme \<Rightarrow> (nat option \<times> 'a kfs_scheme) kres" where
  "create me path type major minor s =
     kbind (nameiparent me path (replicate DIRSIZ 0) s) (\<lambda>(r, name, s).
     case r of None \<Rightarrow> Ret (None, s)
     | Some dp \<Rightarrow>
         kbind (ilock me (Some dp) s) (\<lambda>s.
         kbind (dirlookup me dp name s) (\<lambda>(r, s).
         case r of
           Some (ip, _) \<Rightarrow>
             kbind (iunlockput me dp s) (\<lambda>s.
             kbind (ilock me (Some ip) s) (\<lambda>s.
             if type = T_FILE \<and> (i_type (inode_at s ip) = T_FILE \<or> i_type (inode_at s ip) = T_DEVICE) then Ret (Some ip, s)
             else kbind (iunlockput me ip s) (\<lambda>s. Ret (None, s))))
         | None \<Rightarrow>
             kbind (ialloc me (i_dev (inode_at s dp)) type s) (\<lambda>(r, s).
             case r of
               None \<Rightarrow> kbind (iunlockput me dp s) (\<lambda>s. Ret (None, s))
             | Some ip \<Rightarrow>
                 kbind (ilock me (Some ip) s) (\<lambda>s.
                 kbind (iupdate me ip (iset ip (\<lambda>x. x\<lparr>i_major := major, i_minor := minor, i_nlink := 1\<rparr>) s)) (\<lambda>s.
                 kbind (if type = T_DIR then link_dots me ip dp s else Ret (0, s)) (\<lambda>(d, s).
                 if d <s 0 then create_fail me ip dp s
                 else kbind (dirlink me dp name (i_inum (inode_at s ip)) s) (\<lambda>(d, s).
                 if d <s 0 then create_fail me ip dp s
                 else kbind (if type = T_DIR then iupdate me dp (iset dp (\<lambda>x. x\<lparr>i_nlink := i_nlink x + 1\<rparr>) s) else Ret s) (\<lambda>s.
                      kbind (iunlockput me dp s) (\<lambda>s. Ret (Some ip, s)))))))))))"

definition O_RDONLY :: cint where "O_RDONLY = 0"
definition O_WRONLY :: cint where "O_WRONLY = 1"
definition O_RDWR :: cint where "O_RDWR = 2"
definition O_CREATE :: cint where "O_CREATE = 0x200"
definition O_TRUNC :: cint where "O_TRUNC = 0x400"

text \<open>The first part of \<^verbatim>\<open>sys_open\<close>: the locked inode to open, or none.\<close>

definition open_inode :: "nat \<Rightarrow> uchar list \<Rightarrow> cint \<Rightarrow> 'a kfs_scheme \<Rightarrow> (nat option \<times> 'a kfs_scheme) kres" where
  "open_inode me path omode s =
     (if omode AND O_CREATE \<noteq> 0 then create me path T_FILE 0 0 s
      else kbind (namei me path s) (\<lambda>(r, s).
           case r of None \<Rightarrow> Ret (None, s)
           | Some ip \<Rightarrow>
               kbind (ilock me (Some ip) s) (\<lambda>s.
               if i_type (inode_at s ip) = T_DIR \<and> omode \<noteq> O_RDONLY
               then kbind (iunlockput me ip s) (\<lambda>s. Ret (None, s)) else Ret (Some ip, s))))"

definition open_file :: "nat \<Rightarrow> cint \<Rightarrow> inode \<Rightarrow> ofile \<Rightarrow> ofile" where
  "open_file ip omode x f =
     (if i_type x = T_DEVICE then f\<lparr>f_type := FD_DEVICE, f_major := i_major x\<rparr> else f\<lparr>f_type := FD_INODE, f_off := 0\<rparr>)
     \<lparr>f_ip := Some ip,
      f_readable := (if omode AND O_WRONLY = 0 then 1 else 0),
      f_writable := (if omode AND O_WRONLY \<noteq> 0 \<or> omode AND O_RDWR \<noteq> 0 then 1 else 0)\<rparr>"

definition sys_open :: "uint64 \<Rightarrow> nat \<Rightarrow> 'a kfile_scheme \<Rightarrow> (sys_out \<times> 'a kfile_scheme) kres" where
  "sys_open kend me s =
     kbind (argint me 1 s) (\<lambda>omode.
     kbind (argstr me 0 MAXPATH s) (\<lambda>(n, path).
     if n <s 0 then sys_ret (-1) s
     else kbind (begin_now me s) (\<lambda>s.
     kbind (open_inode me path omode s) (\<lambda>(r, s).
     case r of None \<Rightarrow> op_ret me (-1) s
     | Some ip \<Rightarrow>
         if i_type (inode_at s ip) = T_DEVICE \<and> bad_major (i_major (inode_at s ip))
         then kbind (iunlockput me ip s) (op_ret me (-1))
         else (case filealloc s of
           (None, s) \<Rightarrow> kbind (iunlockput me ip s) (op_ret me (-1))
         | (Some f, s) \<Rightarrow>
             (case fdalloc me f s of
                (None, s) \<Rightarrow> kbind (fileclose kend me f s) (\<lambda>s. kbind (iunlockput me ip s) (op_ret me (-1)))
              | (Some fd, s) \<Rightarrow>
                  let s = fset f (open_file ip omode (inode_at s ip)) s in
                  kbind (if omode AND O_TRUNC \<noteq> 0 \<and> i_type (inode_at s ip) = T_FILE then itrunc me ip s else Ret s) (\<lambda>s.
                  kbind (iunlock me (Some ip) s) (op_ret me (of_nat fd)))))))))"

definition sys_mkdir :: "nat \<Rightarrow> 'a kfile_scheme \<Rightarrow> (sys_out \<times> 'a kfile_scheme) kres" where
  "sys_mkdir me s =
     kbind (begin_now me s) (\<lambda>s.
     kbind (argstr me 0 MAXPATH s) (\<lambda>(r, path).
     kbind (if r <s 0 then Ret (None, s) else create me path T_DIR 0 0 s) (\<lambda>(ip, s).
     case ip of None \<Rightarrow> op_ret me (-1) s
     | Some ip \<Rightarrow> kbind (iunlockput me ip s) (op_ret me 0))))"

definition sys_mknod :: "nat \<Rightarrow> 'a kfile_scheme \<Rightarrow> (sys_out \<times> 'a kfile_scheme) kres" where
  "sys_mknod me s =
     kbind (begin_now me s) (\<lambda>s.
     kbind (argint me 1 s) (\<lambda>major.
     kbind (argint me 2 s) (\<lambda>minor.
     kbind (argstr me 0 MAXPATH s) (\<lambda>(r, path).
     kbind (if r <s 0 then Ret (None, s) else create me path T_DEVICE (ucast major) (ucast minor) s) (\<lambda>(ip, s).
     case ip of None \<Rightarrow> op_ret me (-1) s
     | Some ip \<Rightarrow> kbind (iunlockput me ip s) (op_ret me 0))))))"

definition sys_chdir :: "nat \<Rightarrow> 'a kfile_scheme \<Rightarrow> (sys_out \<times> 'a kfile_scheme) kres" where
  "sys_chdir me s =
     kbind (begin_now me s) (\<lambda>s.
     kbind (argstr me 0 MAXPATH s) (\<lambda>(r, path).
     kbind (if r <s 0 then Ret (None, s) else namei me path s) (\<lambda>(ip, s).
     case ip of None \<Rightarrow> op_ret me (-1) s
     | Some ip \<Rightarrow>
         kbind (ilock me (Some ip) s) (\<lambda>s.
         if i_type (inode_at s ip) \<noteq> T_DIR then kbind (iunlockput me ip s) (op_ret me (-1))
         else kbind (iunlock me (Some ip) s) (\<lambda>s.
              kbind (iput me (the (p_cwd (pget me s))) s) (\<lambda>s.
              kbind (end_op me s) (\<lambda>s.
              sys_ret 0 (pset me (\<lambda>p. p\<lparr>p_cwd := Some ip\<rparr>) s))))))))"

section \<open>Exec and pipe\<close>

text \<open>The loop that copies the arguments, one page each: the pages and strings so far, and whether it ended without \<^verbatim>\<open>goto bad\<close>.\<close>

fun exec_args :: "uint64 \<Rightarrow> nat \<Rightarrow> uint64 \<Rightarrow> nat list \<Rightarrow> (uint64 \<times> uchar list) list \<Rightarrow> 'a kproc_scheme
    \<Rightarrow> (bool \<times> (uint64 \<times> uchar list) list \<times> 'a kproc_scheme) kres" where
  "exec_args kend me uargv [] argv s = Ret (False, argv, s)"
| "exec_args kend me uargv (i # is) argv s =
     kbind (fetchaddr kend me (uargv + 8 * of_nat i) s) (\<lambda>(r, uarg, s).
     if r <s 0 then Ret (False, argv, s)
     else if uarg = 0 then Ret (True, argv, s)
     else let (pa, s) = kalloc s in
       if pa = 0 then Ret (False, argv, s)
       else kbind (copyinstr (p_pagetable (pget me s)) uarg (unat PGSIZE) s) (\<lambda>(r, bs).
            let s = s\<lparr>mem := put_bytes (mem s) pa bs\<rparr>; argv = argv @ [(pa, takeWhile (\<lambda>c. c \<noteq> 0) bs)] in
            if r <s 0 then Ret (False, argv, s) else exec_args kend me uargv is argv s))"

fun free_args :: "uint64 \<Rightarrow> uint64 list \<Rightarrow> 'a kmem_scheme \<Rightarrow> 'a kmem_scheme kres" where
  "free_args kend [] s = Ret s"
| "free_args kend (pa # pas) s = kbind (kfree kend pa s) (free_args kend pas)"

definition sys_exec :: "linkmap \<Rightarrow> nat \<Rightarrow> 'a kfile_scheme \<Rightarrow> (sys_out \<times> 'a kfile_scheme) kres" where
  "sys_exec L me s =
     kbind (argaddr me 1 s) (\<lambda>uargv.
     kbind (argstr me 0 MAXPATH s) (\<lambda>(r, path).
     if r <s 0 then sys_ret (-1) s
     else kbind (exec_args (lm_end L) me uargv [0..<MAXARG] [] s) (\<lambda>(good, argv, s).
          kbind (if good then kexec L me path (map snd argv) s else Ret (-1, s)) (\<lambda>(ret, s).
          kbind (free_args (lm_end L) (map fst argv) s) (sys_ret (scast ret))))))"

definition pipe_undo :: "uint64 \<Rightarrow> nat \<Rightarrow> nat \<Rightarrow> nat \<Rightarrow> 'a kfile_scheme \<Rightarrow> (sys_out \<times> 'a kfile_scheme) kres" where
  "pipe_undo kend me r_f w_f s =
     kbind (fileclose kend me r_f s) (\<lambda>s. kbind (fileclose kend me w_f s) (sys_ret (-1)))"

definition sys_pipe :: "uint64 \<Rightarrow> nat \<Rightarrow> 'a kfile_scheme \<Rightarrow> (sys_out \<times> 'a kfile_scheme) kres" where
  "sys_pipe kend me s =
     kbind (argaddr me 0 s) (\<lambda>fdarray.
     kbind (pipealloc kend me s) (\<lambda>(r, s).
     case r of None \<Rightarrow> sys_ret (-1) s
     | Some (r_f, w_f) \<Rightarrow>
         (case fdalloc me r_f s of
            (None, s) \<Rightarrow> pipe_undo kend me r_f w_f s
          | (Some fd0, s) \<Rightarrow>
              (case fdalloc me w_f s of
                 (None, s) \<Rightarrow> pipe_undo kend me r_f w_f (set_ofile me fd0 None s)
               | (Some fd1, s) \<Rightarrow>
                   let p = pget me s; undo = (\<lambda>s. pipe_undo kend me r_f w_f (set_ofile me fd1 None (set_ofile me fd0 None s))) in
                   kbind (copyout kend (p_sz p) (p_pagetable p) (p_pagetable p) fdarray (bytes32 (of_nat fd0)) s) (\<lambda>(r, s).
                   if r <s 0 then undo s
                   else kbind (copyout kend (p_sz p) (p_pagetable p) (p_pagetable p) (fdarray + 4) (bytes32 (of_nat fd1)) s) (\<lambda>(r, s).
                        if r <s 0 then undo s else sys_ret 0 s))))))"

end
