(* ===== verification/Sysproc.thy ===== *)
theory Sysproc
  imports Sysfile
begin

text \<open>
  The system calls on processes, signals, semaphores and shared memory, \<^verbatim>\<open>kernel/sysproc.c\<close>, and the
  dispatch of system calls, \<^verbatim>\<open>syscall\<close> of \<^verbatim>\<open>kernel/syscall.c\<close>.
\<close>

section \<open>Processes and time\<close>

definition sys_exit :: "uint64 \<Rightarrow> nat \<Rightarrow> 'a kfile_scheme \<Rightarrow> (sys_out \<times> 'a kfile_scheme) kres" where
  "sys_exit kend me s =
     kbind (argint me 0 s) (\<lambda>n. kbind (kexit_files kend me n s) (\<lambda>s. Ret (SysGone, s)))"

definition sys_getpid :: "nat \<Rightarrow> 'a kfile_scheme \<Rightarrow> (sys_out \<times> 'a kfile_scheme) kres" where
  "sys_getpid me s = sys_int (p_pid (pget me s), s)"

definition sys_fork :: "linkmap \<Rightarrow> nat \<Rightarrow> 'a kfile_scheme \<Rightarrow> (sys_out \<times> 'a kfile_scheme) kres" where
  "sys_fork L me s = kbind (kfork_files L me s) sys_int"

definition sys_segment :: "cint segment \<times> 'a kfile_scheme \<Rightarrow> (sys_out \<times> 'a kfile_scheme) kres" where
  "sys_segment = (\<lambda>(r, s). case r of Done v \<Rightarrow> sys_int (v, s) | Sleeps \<Rightarrow> Ret (SysSleeps, s))"

definition sys_wait :: "uint64 \<Rightarrow> nat \<Rightarrow> 'a kfile_scheme \<Rightarrow> (sys_out \<times> 'a kfile_scheme) kres" where
  "sys_wait kend me s = kbind (argaddr me 0 s) (\<lambda>p. kbind (kwait kend me p s) sys_segment)"

definition SBRK_EAGER :: cint where "SBRK_EAGER = 1"

definition sys_sbrk :: "uint64 \<Rightarrow> nat \<Rightarrow> 'a kfile_scheme \<Rightarrow> (sys_out \<times> 'a kfile_scheme) kres" where
  "sys_sbrk kend me s =
     kbind (argint me 0 s) (\<lambda>n.
     kbind (argint me 1 s) (\<lambda>t.
     let addr = p_sz (pget me s) in
     if t = SBRK_EAGER \<or> n <s 0
     then kbind (growproc kend me n s) (\<lambda>(r, s). if r <s 0 then sys_ret (-1) s else sys_ret addr s)
     else if addr + scast n < addr then sys_ret (-1) s
     else if TRAPFRAME < addr + scast n then sys_ret (-1) s
     else sys_ret addr (pset me (\<lambda>p. p\<lparr>p_sz := p_sz p + scast n\<rparr>) s)))"

text \<open>The loop of \<^verbatim>\<open>sys_pause\<close> up to a sleep, and its continuation; \<open>n\<close> is compared as an unsigned number.\<close>

definition pause_loop :: "nat \<Rightarrow> cint \<Rightarrow> uint \<Rightarrow> 'a kfile_scheme \<Rightarrow> sys_out \<times> 'a kfile_scheme" where
  "pause_loop me n ticks0 s =
     (if ticks s - ticks0 < n then
        if killed me s \<noteq> 0 then (SysRet (-1), s) else (SysSleeps, sleep me ChanTicks s)
      else (SysRet 0, s))"

definition pause_resume :: "nat \<Rightarrow> cint \<Rightarrow> uint \<Rightarrow> 'a kfile_scheme \<Rightarrow> sys_out \<times> 'a kfile_scheme" where
  "pause_resume me n ticks0 s = pause_loop me n ticks0 (sleep_return me s)"

definition sys_pause :: "nat \<Rightarrow> 'a kfile_scheme \<Rightarrow> (sys_out \<times> 'a kfile_scheme) kres" where
  "sys_pause me s =
     kbind (argint me 0 s) (\<lambda>n.
     let n = (if n <s 0 then 0 else n) in Ret (pause_loop me n (ticks s) s))"

definition sys_kill :: "nat \<Rightarrow> 'a kfile_scheme \<Rightarrow> (sys_out \<times> 'a kfile_scheme) kres" where
  "sys_kill me s = kbind (argint me 0 s) (\<lambda>pid. sys_int (kkill pid s))"

definition sys_uptime :: "nat \<Rightarrow> 'a kfile_scheme \<Rightarrow> (sys_out \<times> 'a kfile_scheme) kres" where
  "sys_uptime me s = sys_ret (ucast (ticks s)) s"

definition sys_trying :: "nat \<Rightarrow> 'a kfile_scheme \<Rightarrow> (sys_out \<times> 'a kfile_scheme) kres" where
  "sys_trying me s = sys_ret 10 s"

definition sys_tryint :: "nat \<Rightarrow> 'a kfile_scheme \<Rightarrow> (sys_out \<times> 'a kfile_scheme) kres" where
  "sys_tryint me s = kbind (argint me 0 s) (\<lambda>x. sys_int (x * 2, s))"

section \<open>Signals\<close>

definition nl :: string where "nl = [CHR 0x0a]"

definition sys_signal_init :: "nat \<Rightarrow> 'a kfile_scheme \<Rightarrow> (sys_out \<times> 'a kfile_scheme) kres" where
  "sys_signal_init me s =
     (let s = pset me (\<lambda>p. p\<lparr>p_signal_handlers := replicate NSIG SIG_DFL, p_pending_signals := 0\<rparr>) s
      in sys_ret 0 (printk (''[signal_init] PID %d: signal table initialised'' @ nl) [int_slot (p_pid (pget me s))] s))"

definition sig_bit :: "nat \<Rightarrow> cint" where
  "sig_bit i = push_bit i 1"

definition sys_signal_send :: "nat \<Rightarrow> 'a kfile_scheme \<Rightarrow> (sys_out \<times> 'a kfile_scheme) kres" where
  "sys_signal_send me s =
     kbind (argint me 0 s) (\<lambda>pid.
     kbind (argint me 1 s) (\<lambda>signum.
     if signum \<le>s 0 \<or> of_nat NSIG \<le>s signum then sys_ret (-1) s
     else (case scan (\<lambda>p. p_pid p = pid \<and> p_state p \<noteq> UNUSED) (procs s) of
             Some i \<Rightarrow>
               let s = pset i (\<lambda>p. p\<lparr>p_pending_signals := p_pending_signals p OR sig_bit (unat signum)\<rparr>) s
               in sys_ret 0 (printk (''[signal_send] Signal %d sent to PID %d'' @ nl) [int_slot signum, int_slot pid] s)
           | None \<Rightarrow> sys_ret (-1) (printk (''[signal_send] PID %d not found'' @ nl) [int_slot pid] s))))"

definition sys_signal_handle :: "nat \<Rightarrow> 'a kfile_scheme \<Rightarrow> (sys_out \<times> 'a kfile_scheme) kres" where
  "sys_signal_handle me s =
     kbind (argint me 0 s) (\<lambda>signum.
     kbind (argaddr me 1 s) (\<lambda>handler_addr.
     if signum \<le>s 0 \<or> of_nat NSIG \<le>s signum then sys_ret (-1) s
     else let s = pset me (\<lambda>p. p\<lparr>p_signal_handlers := (p_signal_handlers p)[unat signum := handler_addr]\<rparr>) s
          in sys_ret 0 (printk (''[signal_handle] PID %d registered handler for signal %d'' @ nl)
                          [int_slot (p_pid (pget me s)), int_slot signum] s)))"

text \<open>
  \<^verbatim>\<open>dispatch_signals\<close>.  The call \<^verbatim>\<open>handler(i)\<close> jumps, in the kernel, to an address the user chose; what runs there
  is the argument \<open>call\<close>.
\<close>

definition dispatch_one ::
  "(uint64 \<Rightarrow> cint \<Rightarrow> 'a kcons_scheme \<Rightarrow> 'a kcons_scheme kres) \<Rightarrow> nat \<Rightarrow> nat \<Rightarrow> 'a kcons_scheme \<Rightarrow> 'a kcons_scheme kres" where
  "dispatch_one call me i s =
     (if p_pending_signals (pget me s) AND sig_bit i = 0 then Ret s
      else let s = pset me (\<lambda>p. p\<lparr>p_pending_signals := p_pending_signals p AND NOT (sig_bit i)\<rparr>) s;
               handler = p_signal_handlers (pget me s) ! i;
               as = [int_slot (p_pid (pget me s)), int_slot (of_nat i)]
           in if handler = SIG_IGN then Ret (printk (''[dispatch] PID %d ignored signal %d'' @ nl) as s)
              else if handler = SIG_DFL
              then Ret (setkilled me (printk (''[dispatch] PID %d: default action for signal %d ''
                          @ [CHR 0xe2, CHR 0x80, CHR 0x94] @ '' killing'' @ nl) as s))
              else call handler (of_nat i) (printk (''[dispatch] PID %d: invoking user handler for signal %d'' @ nl) as s))"

fun dispatch_loop ::
  "(uint64 \<Rightarrow> cint \<Rightarrow> 'a kcons_scheme \<Rightarrow> 'a kcons_scheme kres) \<Rightarrow> nat \<Rightarrow> nat list \<Rightarrow> 'a kcons_scheme \<Rightarrow> 'a kcons_scheme kres" where
  "dispatch_loop call me [] s = Ret s"
| "dispatch_loop call me (i # is) s = kbind (dispatch_one call me i s) (dispatch_loop call me is)"

definition dispatch_signals ::
  "(uint64 \<Rightarrow> cint \<Rightarrow> 'a kcons_scheme \<Rightarrow> 'a kcons_scheme kres) \<Rightarrow> nat \<Rightarrow> 'a kcons_scheme \<Rightarrow> 'a kcons_scheme kres" where
  "dispatch_signals call me s = dispatch_loop call me [1..<NSIG] s"

text \<open>The shift of \<^verbatim>\<open>sys_sigmask\<close> is a \<^verbatim>\<open>sllw\<close>, which takes the low five bits of its count.\<close>

definition sys_sigmask :: "nat \<Rightarrow> 'a kfile_scheme \<Rightarrow> (sys_out \<times> 'a kfile_scheme) kres" where
  "sys_sigmask me s =
     kbind (argint me 0 s) (\<lambda>signum.
     kbind (argint me 1 s) (\<lambda>block.
     let m = sig_bit (unat signum mod 32) in
     sys_ret 0 (pset me (\<lambda>p. p\<lparr>p_sigmask := (if block \<noteq> 0 then p_sigmask p OR m else p_sigmask p AND NOT m)\<rparr>) s)))"

section \<open>Semaphores and shared memory\<close>

definition sys_semget :: "nat \<Rightarrow> 'a kfile_scheme \<Rightarrow> (sys_out \<times> 'a kfile_scheme) kres" where
  "sys_semget me s =
     kbind (argint me 0 s) (\<lambda>key. kbind (argint me 1 s) (\<lambda>initval. sys_int (sem_get key initval s)))"

definition sys_semwait :: "nat \<Rightarrow> 'a kfile_scheme \<Rightarrow> (sys_out \<times> 'a kfile_scheme) kres" where
  "sys_semwait me s = kbind (argint me 0 s) (\<lambda>sid. sys_segment (sem_wait me sid s))"

definition sys_sempost :: "nat \<Rightarrow> 'a kfile_scheme \<Rightarrow> (sys_out \<times> 'a kfile_scheme) kres" where
  "sys_sempost me s = kbind (argint me 0 s) (\<lambda>sid. sys_int (sem_post me sid s))"

definition sys_semclose :: "nat \<Rightarrow> 'a kfile_scheme \<Rightarrow> (sys_out \<times> 'a kfile_scheme) kres" where
  "sys_semclose me s = kbind (argint me 0 s) (\<lambda>sid. sys_int (sem_close me sid s))"

definition sys_shmget :: "nat \<Rightarrow> 'a kfile_scheme \<Rightarrow> (sys_out \<times> 'a kfile_scheme) kres" where
  "sys_shmget me s =
     kbind (argint me 0 s) (\<lambda>key. kbind (argint me 1 s) (\<lambda>sz. sys_int (shmem_get key sz s)))"

definition sys_shmat :: "nat \<Rightarrow> 'a kfile_scheme \<Rightarrow> (sys_out \<times> 'a kfile_scheme) kres" where
  "sys_shmat me s = kbind (argint me 0 s) (\<lambda>rid. kbind (shmem_at me rid s) (\<lambda>(v, s). sys_ret v s))"

definition sys_shmdt :: "uint64 \<Rightarrow> nat \<Rightarrow> 'a kfile_scheme \<Rightarrow> (sys_out \<times> 'a kfile_scheme) kres" where
  "sys_shmdt kend me s = kbind (argaddr me 0 s) (\<lambda>addr. kbind (shmem_dt kend me addr s) sys_int)"

section \<open>Information and scheduling\<close>

record procinfo =
  pi_pid :: cint
  pi_ppid :: cint
  pi_state :: cint
  pi_name :: "uchar list"

text \<open>The numbers of \<^verbatim>\<open>enum procstate\<close>.\<close>

fun state_num :: "procstate \<Rightarrow> cint" where
  "state_num UNUSED = 0"
| "state_num USED = 1"
| "state_num SLEEPING = 2"
| "state_num RUNNABLE = 3"
| "state_num RUNNING = 4"
| "state_num ZOMBIE = 5"

definition parent_pid :: "nat \<Rightarrow> 'a kproc_scheme \<Rightarrow> cint" where
  "parent_pid me s = (case p_parent (pget me s) of None \<Rightarrow> 0 | Some q \<Rightarrow> p_pid (pget q s))"

definition info_bytes :: "procinfo \<Rightarrow> uchar list" where
  "info_bytes x = le_bytes 4 (pi_pid x) @ le_bytes 4 (pi_ppid x) @ le_bytes 4 (pi_state x) @ pi_name x"

text \<open>\<open>junk\<close> is what the stack holds in \<^verbatim>\<open>info.name\<close> before \<^verbatim>\<open>safestrcpy\<close>.\<close>

definition sys_getprocinfo :: "uint64 \<Rightarrow> nat \<Rightarrow> uchar list \<Rightarrow> 'a kfile_scheme \<Rightarrow> (sys_out \<times> 'a kfile_scheme) kres" where
  "sys_getprocinfo kend me junk s =
     kbind (argaddr me 0 s) (\<lambda>addr.
     let p = pget me s;
         info = \<lparr>pi_pid = p_pid p, pi_ppid = parent_pid me s, pi_state = state_num (p_state p), pi_name = copy_name junk (p_name p)\<rparr>
     in kbind (copyout kend (p_sz p) (p_pagetable p) (p_pagetable p) addr (info_bytes info) s) (\<lambda>(r, s).
        if r <s 0 then sys_ret (-1) s else sys_ret 0 s))"

definition sys_getppid :: "nat \<Rightarrow> 'a kfile_scheme \<Rightarrow> (sys_out \<times> 'a kfile_scheme) kres" where
  "sys_getppid me s = sys_int (parent_pid me s, s)"

text \<open>\<^verbatim>\<open>yield\<close> gives the CPU away; \<^verbatim>\<open>sys_yield\<close> returns 0 when the process runs again.\<close>

definition sys_yield :: "nat \<Rightarrow> 'a kfile_scheme \<Rightarrow> (sys_out \<times> 'a kfile_scheme) kres" where
  "sys_yield me s = sys_ret 0 (yield me s)"

definition sys_getfreeprocs :: "nat \<Rightarrow> 'a kfile_scheme \<Rightarrow> (sys_out \<times> 'a kfile_scheme) kres" where
  "sys_getfreeprocs me s = sys_int (of_nat (length (filter (\<lambda>p. p_state p = UNUSED) (procs s))), s)"

section \<open>Calls without an implementation\<close>

definition sys_clone :: "linkmap \<Rightarrow> nat \<Rightarrow> 'a kfile_scheme \<Rightarrow> (sys_out \<times> 'a kfile_scheme) kres" where
  "sys_clone L me s = kbind (kfork_files L me s) sys_int"

definition sys_mutex_create :: "nat \<Rightarrow> 'a kfile_scheme \<Rightarrow> (sys_out \<times> 'a kfile_scheme) kres" where
  "sys_mutex_create me s = sys_ret 0 s"

definition sys_mutex_lock :: "nat \<Rightarrow> 'a kfile_scheme \<Rightarrow> (sys_out \<times> 'a kfile_scheme) kres" where
  "sys_mutex_lock me s = kbind (argint me 0 s) (\<lambda>_. sys_ret 0 s)"

definition sys_mutex_unlock :: "nat \<Rightarrow> 'a kfile_scheme \<Rightarrow> (sys_out \<times> 'a kfile_scheme) kres" where
  "sys_mutex_unlock me s = kbind (argint me 0 s) (\<lambda>_. sys_ret 0 s)"

definition sys_thread_create :: "nat \<Rightarrow> 'a kfile_scheme \<Rightarrow> (sys_out \<times> 'a kfile_scheme) kres" where
  "sys_thread_create me s = sys_ret 1 (printk (''Kernel: Executing thread_create...'' @ nl) [] s)"

definition sys_tjoin :: "nat \<Rightarrow> 'a kfile_scheme \<Rightarrow> (sys_out \<times> 'a kfile_scheme) kres" where
  "sys_tjoin me s =
     kbind (argint me 0 s) (\<lambda>tid.
     sys_ret 0 (printk (''Kernel: Executing tjoin to wait for thread %d...'' @ nl) [int_slot tid] s))"

definition sys_texit :: "nat \<Rightarrow> 'a kfile_scheme \<Rightarrow> (sys_out \<times> 'a kfile_scheme) kres" where
  "sys_texit me s = sys_ret 0 (printk (''Kernel: Executing texit...'' @ nl) [] s)"

section \<open>Dispatch\<close>

text \<open>The table \<^verbatim>\<open>syscalls\<close>, from entry 1; \<open>junk\<close> is what two of the calls find on the stack.\<close>

definition syscalls :: "linkmap \<Rightarrow> nat \<Rightarrow> uchar list \<Rightarrow> ('a kfile_scheme \<Rightarrow> (sys_out \<times> 'a kfile_scheme) kres) list" where
  "syscalls L me junk = (let kend = lm_end L in
    [sys_fork L me, sys_exit kend me, sys_wait kend me, sys_pipe kend me, sys_read kend me, sys_kill me, sys_exec L me,
     sys_fstat kend me junk, sys_chdir me, sys_dup me, sys_getpid me, sys_sbrk kend me, sys_pause me, sys_uptime me,
     sys_open kend me, sys_write kend me, sys_mknod me, sys_unlink me, sys_link me, sys_mkdir me, sys_close kend me,
     sys_trying me, sys_tryint me, sys_semget me, sys_semwait me, sys_sempost me, sys_semclose me,
     sys_getprocinfo kend me junk, sys_getppid me, sys_yield me, sys_getfreeprocs me, sys_signal_init me,
     sys_signal_send me, sys_signal_handle me, sys_clone L me, sys_mutex_create me, sys_mutex_lock me,
     sys_mutex_unlock me, sys_sigmask me, sys_shmget me, sys_shmat me, sys_shmdt kend me, sys_thread_create me,
     sys_tjoin me, sys_texit me])"

definition set_a0 :: "nat \<Rightarrow> uint64 \<Rightarrow> 'a kproc_scheme \<Rightarrow> 'a kproc_scheme" where
  "set_a0 me v s = s\<lparr>mem := st64 (mem s) (p_trapframe (pget me s) + TF_a 0) v\<rparr>"

definition syscall :: "linkmap \<Rightarrow> nat \<Rightarrow> uchar list \<Rightarrow> 'a kfile_scheme \<Rightarrow> (sys_out \<times> 'a kfile_scheme) kres" where
  "syscall L me junk s =
     (let num = (ucast (ld64 (mem s) (p_trapframe (pget me s) + TF_a 7)) :: cint) in
      if 0 <s num \<and> unat num \<le> length (syscalls L me junk :: ('a kfile_scheme \<Rightarrow> (sys_out \<times> 'a kfile_scheme) kres) list)
      then kbind ((syscalls L me junk ! (unat num - 1)) s) (\<lambda>(r, s).
           Ret (r, case r of SysRet v \<Rightarrow> set_a0 me v s | _ \<Rightarrow> s))
      else let p = pget me s;
               s = printk (''%d %s: unknown sys call %d'' @ nl) [int_slot (p_pid p), str_slot (p_name p), int_slot num] s
           in Ret (SysRet (-1), set_a0 me (-1) s))"

end
