(* ===== verification/Virtio.thy ===== *)
theory Virtio
  imports File
begin

text \<open>
  The disk driver, \<^verbatim>\<open>kernel/virtio_disk.c\<close>.  The descriptor table, the two rings and the driver's own notes form
  the record \<open>vdisk\<close>.  An address handed to the device is one of three kinds: a command header, the data of a
  buffer, or a status byte.  The device itself is not part of the kernel: what it does with a request is an
  argument of the final theorem, which shows that a request has the effect the buffer cache counts on.
\<close>

section \<open>State\<close>

definition NUM :: nat where "NUM = 8"
definition VRING_DESC_F_NEXT :: ushort where "VRING_DESC_F_NEXT = 1"
definition VRING_DESC_F_WRITE :: ushort where "VRING_DESC_F_WRITE = 2"
definition VIRTIO_BLK_T_IN :: uint where "VIRTIO_BLK_T_IN = 0"
definition VIRTIO_BLK_T_OUT :: uint where "VIRTIO_BLK_T_OUT = 1"

datatype dma_addr = DmaNull | DmaOp nat | DmaData nat | DmaStatus nat

record virtq_desc =
  d_addr :: dma_addr
  d_len :: uint
  d_flags :: ushort
  d_next :: ushort

record virtio_blk_req =
  rq_type :: uint
  rq_reserved :: uint
  rq_sector :: uint64

record vinfo =
  vi_b :: "nat option"
  vi_status :: uchar

text \<open>
  \<open>v_used_idx\<close> and \<open>v_used_ring\<close> are the device's (\<^verbatim>\<open>disk.used\<close>), \<open>v_seen\<close> is the driver's \<^verbatim>\<open>disk.used_idx\<close>;
  \<open>v_busy\<close> holds the field \<^verbatim>\<open>disk\<close> of each buffer, \<open>v_mmio\<close> the writes to device registers.
\<close>

record vdisk =
  v_desc :: "virtq_desc list"
  v_avail_idx :: ushort
  v_avail_ring :: "ushort list"
  v_used_idx :: ushort
  v_used_ring :: "uint list"
  v_free :: "nat \<Rightarrow> uchar"
  v_seen :: ushort
  v_info :: "vinfo list"
  v_ops :: "virtio_blk_req list"
  v_busy :: "nat \<Rightarrow> cint"
  v_mmio :: "(nat \<times> uint) list"

record kvirtio = kfile +
  vd :: vdisk

definition vset :: "(vdisk \<Rightarrow> vdisk) \<Rightarrow> 'a kvirtio_scheme \<Rightarrow> 'a kvirtio_scheme" where
  "vset f s = s\<lparr>vd := f (vd s)\<rparr>"

definition set_desc :: "nat \<Rightarrow> virtq_desc \<Rightarrow> vdisk \<Rightarrow> vdisk" where
  "set_desc i d v = v\<lparr>v_desc := (v_desc v)[i := d]\<rparr>"

definition set_free :: "nat \<Rightarrow> uchar \<Rightarrow> vdisk \<Rightarrow> vdisk" where
  "set_free i x v = v\<lparr>v_free := (v_free v)(i := x)\<rparr>"

definition mmio :: "nat \<Rightarrow> uint \<Rightarrow> vdisk \<Rightarrow> vdisk" where
  "mmio r x v = v\<lparr>v_mmio := v_mmio v @ [(r, x)]\<rparr>"

section \<open>Initialisation\<close>

definition VIRTIO_MMIO_MAGIC_VALUE :: nat where "VIRTIO_MMIO_MAGIC_VALUE = 0x000"
definition VIRTIO_MMIO_VERSION :: nat where "VIRTIO_MMIO_VERSION = 0x004"
definition VIRTIO_MMIO_DEVICE_ID :: nat where "VIRTIO_MMIO_DEVICE_ID = 0x008"
definition VIRTIO_MMIO_VENDOR_ID :: nat where "VIRTIO_MMIO_VENDOR_ID = 0x00c"
definition VIRTIO_MMIO_DEVICE_FEATURES :: nat where "VIRTIO_MMIO_DEVICE_FEATURES = 0x010"
definition VIRTIO_MMIO_DRIVER_FEATURES :: nat where "VIRTIO_MMIO_DRIVER_FEATURES = 0x020"
definition VIRTIO_MMIO_QUEUE_SEL :: nat where "VIRTIO_MMIO_QUEUE_SEL = 0x030"
definition VIRTIO_MMIO_QUEUE_NUM_MAX :: nat where "VIRTIO_MMIO_QUEUE_NUM_MAX = 0x034"
definition VIRTIO_MMIO_QUEUE_NUM :: nat where "VIRTIO_MMIO_QUEUE_NUM = 0x038"
definition VIRTIO_MMIO_QUEUE_READY :: nat where "VIRTIO_MMIO_QUEUE_READY = 0x044"
definition VIRTIO_MMIO_QUEUE_NOTIFY :: nat where "VIRTIO_MMIO_QUEUE_NOTIFY = 0x050"
definition VIRTIO_MMIO_INTERRUPT_STATUS :: nat where "VIRTIO_MMIO_INTERRUPT_STATUS = 0x060"
definition VIRTIO_MMIO_INTERRUPT_ACK :: nat where "VIRTIO_MMIO_INTERRUPT_ACK = 0x064"
definition VIRTIO_MMIO_STATUS :: nat where "VIRTIO_MMIO_STATUS = 0x070"
definition VIRTIO_MMIO_QUEUE_DESC_LOW :: nat where "VIRTIO_MMIO_QUEUE_DESC_LOW = 0x080"
definition VIRTIO_MMIO_QUEUE_DESC_HIGH :: nat where "VIRTIO_MMIO_QUEUE_DESC_HIGH = 0x084"
definition VIRTIO_MMIO_DRIVER_DESC_LOW :: nat where "VIRTIO_MMIO_DRIVER_DESC_LOW = 0x090"
definition VIRTIO_MMIO_DRIVER_DESC_HIGH :: nat where "VIRTIO_MMIO_DRIVER_DESC_HIGH = 0x094"
definition VIRTIO_MMIO_DEVICE_DESC_LOW :: nat where "VIRTIO_MMIO_DEVICE_DESC_LOW = 0x0a0"
definition VIRTIO_MMIO_DEVICE_DESC_HIGH :: nat where "VIRTIO_MMIO_DEVICE_DESC_HIGH = 0x0a4"

text \<open>
  The six feature bits the driver declines, the bits of the status register, and the values of the registers the
  driver reads, given by \<open>reg\<close>.  The status is read back after FEATURES\_OK has been written.
\<close>

definition declined :: uint64 where
  "declined = push_bit 5 1 OR push_bit 7 1 OR push_bit 11 1 OR push_bit 12 1 OR push_bit 27 1 OR push_bit 29 1 OR push_bit 28 1"

definition ACKNOWLEDGE :: uint where "ACKNOWLEDGE = 1"
definition DRIVER :: uint where "DRIVER = 2"
definition DRIVER_OK :: uint where "DRIVER_OK = 4"
definition FEATURES_OK :: uint where "FEATURES_OK = 8"

definition zero_desc :: virtq_desc where
  "zero_desc = \<lparr>d_addr = DmaNull, d_len = 0, d_flags = 0, d_next = 0\<rparr>"

definition queue_regs :: "uint64 \<Rightarrow> uint64 \<Rightarrow> uint64 \<Rightarrow> (nat \<times> uint) list" where
  "queue_regs d a u =
     [(VIRTIO_MMIO_QUEUE_NUM, of_nat NUM),
      (VIRTIO_MMIO_QUEUE_DESC_LOW, ucast d), (VIRTIO_MMIO_QUEUE_DESC_HIGH, ucast (drop_bit 32 d)),
      (VIRTIO_MMIO_DRIVER_DESC_LOW, ucast a), (VIRTIO_MMIO_DRIVER_DESC_HIGH, ucast (drop_bit 32 a)),
      (VIRTIO_MMIO_DEVICE_DESC_LOW, ucast u), (VIRTIO_MMIO_DEVICE_DESC_HIGH, ucast (drop_bit 32 u)),
      (VIRTIO_MMIO_QUEUE_READY, 1)]"

definition virtio_disk_init :: "(nat \<Rightarrow> uint) \<Rightarrow> 'a kvirtio_scheme \<Rightarrow> 'a kvirtio_scheme kres" where
  "virtio_disk_init reg s =
     (if reg VIRTIO_MMIO_MAGIC_VALUE \<noteq> 0x74726976 \<or> reg VIRTIO_MMIO_VERSION \<noteq> 2 \<or> reg VIRTIO_MMIO_DEVICE_ID \<noteq> 2
         \<or> reg VIRTIO_MMIO_VENDOR_ID \<noteq> 0x554d4551
      then Panic ''could not find virtio disk''
      else let features = ucast (reg VIRTIO_MMIO_DEVICE_FEATURES) AND NOT declined;
               s = vset (\<lambda>v. v\<lparr>v_mmio := v_mmio v @
                 [(VIRTIO_MMIO_STATUS, 0), (VIRTIO_MMIO_STATUS, ACKNOWLEDGE), (VIRTIO_MMIO_STATUS, ACKNOWLEDGE OR DRIVER),
                  (VIRTIO_MMIO_DRIVER_FEATURES, ucast features),
                  (VIRTIO_MMIO_STATUS, ACKNOWLEDGE OR DRIVER OR FEATURES_OK)]\<rparr>) s;
               status = reg VIRTIO_MMIO_STATUS
      in if status AND FEATURES_OK = 0 then Panic ''virtio disk FEATURES_OK unset''
      else let s = vset (mmio VIRTIO_MMIO_QUEUE_SEL 0) s in
      if reg VIRTIO_MMIO_QUEUE_READY \<noteq> 0 then Panic ''virtio disk should not be ready''
      else if reg VIRTIO_MMIO_QUEUE_NUM_MAX = 0 then Panic ''virtio disk has no queue 0''
      else if reg VIRTIO_MMIO_QUEUE_NUM_MAX < of_nat NUM then Panic ''virtio disk max queue too short''
      else let (d, s) = kalloc s; (a, s) = kalloc s; (u, s) = kalloc s in
      if d = 0 \<or> a = 0 \<or> u = 0 then Panic ''virtio disk kalloc''
      else let m = memset (memset (memset (mem s) d 0 (ucast PGSIZE)) a 0 (ucast PGSIZE)) u 0 (ucast PGSIZE) in
      Ret (vset (\<lambda>v. v\<lparr>v_desc := replicate NUM zero_desc, v_avail_idx := 0, v_avail_ring := replicate NUM 0,
              v_used_idx := 0, v_used_ring := replicate NUM 0, v_free := (\<lambda>_. 1),
              v_mmio := v_mmio v @ queue_regs d a u @ [(VIRTIO_MMIO_STATUS, status OR DRIVER_OK)]\<rparr>) (s\<lparr>mem := m\<rparr>)))"

section \<open>Descriptors\<close>

definition alloc_desc :: "vdisk \<Rightarrow> nat option \<times> vdisk" where
  "alloc_desc v =
     (case scan (\<lambda>i. v_free v i \<noteq> 0) [0..<NUM] of None \<Rightarrow> (None, v) | Some i \<Rightarrow> (Some i, set_free i 0 v))"

definition free_desc :: "nat \<Rightarrow> 'a kvirtio_scheme \<Rightarrow> 'a kvirtio_scheme kres" where
  "free_desc i s =
     (if NUM \<le> i then Panic ''free_desc 1''
      else if v_free (vd s) i \<noteq> 0 then Panic ''free_desc 2''
      else Ret (wakeup None ChanDiskFree (vset (set_free i 1 \<circ> set_desc i zero_desc) s)))"

text \<open>Descriptors in use; every turn of the loop of \<^verbatim>\<open>free_chain\<close> frees one, so even a cyclic chain ends it.\<close>

definition busy_descs :: "vdisk \<Rightarrow> nat set" where
  "busy_descs v = {i. i < NUM \<and> v_free v i = 0}"

lemma finite_busy [simp]: "finite (busy_descs v)"
  by (simp add: busy_descs_def)

lemma wakeup_vd [simp]: "vd (wakeup me c s) = vd s"
  by (simp add: wakeup_def)

lemma vd_vset [simp]: "vd (vset f s) = f (vd s)" "procs (vset f s) = procs s" "disk (vset f s) = disk s"
  "bufs (vset f s) = bufs s" "dwrites (vset f s) = dwrites s"
  by (simp_all add: vset_def)

lemma free_desc_busy:
  assumes "free_desc i s = Ret s'"
  shows "i \<in> busy_descs (vd s)" and "busy_descs (vd s') = busy_descs (vd s) - {i}"
  using assms by (auto simp: free_desc_def busy_descs_def set_free_def set_desc_def split: if_splits)

lemma free_desc_less: "free_desc i s = Ret s' \<Longrightarrow> card (busy_descs (vd s')) < card (busy_descs (vd s))"
  using card_Diff1_less [OF finite_busy free_desc_busy(1)] free_desc_busy(2) by metis

function free_chain :: "nat \<Rightarrow> 'a kvirtio_scheme \<Rightarrow> 'a kvirtio_scheme kres" where
  "free_chain i s =
     (let flag = d_flags (v_desc (vd s) ! i); nxt = d_next (v_desc (vd s) ! i) in
      case free_desc i s of
        Ret s \<Rightarrow> if flag AND VRING_DESC_F_NEXT \<noteq> 0 then free_chain (unat nxt) s else Ret s
      | Panic m \<Rightarrow> Panic m
      | Block c \<Rightarrow> Block c)"
  by pat_completeness auto
termination
  by (relation "measure (\<lambda>(i, s). card (busy_descs (vd s)))") (auto dest: free_desc_less)

declare free_chain.simps [simp del]

fun free_descs :: "nat list \<Rightarrow> 'a kvirtio_scheme \<Rightarrow> 'a kvirtio_scheme kres" where
  "free_descs [] s = Ret s"
| "free_descs (i # is) s = kbind (free_desc i s) (free_descs is)"

text \<open>\<open>n\<close> descriptors are still wanted and \<open>got\<close> are taken.\<close>

fun alloc3_loop :: "nat \<Rightarrow> nat list \<Rightarrow> 'a kvirtio_scheme \<Rightarrow> (nat list option \<times> 'a kvirtio_scheme) kres" where
  "alloc3_loop 0 got s = Ret (Some got, s)"
| "alloc3_loop (Suc n) got s =
     (case alloc_desc (vd s) of
        (Some i, v) \<Rightarrow> alloc3_loop n (got @ [i]) (vset (\<lambda>_. v) s)
      | (None, v) \<Rightarrow> kbind (free_descs got (vset (\<lambda>_. v) s)) (\<lambda>s. Ret (None, s)))"

definition alloc3_desc :: "'a kvirtio_scheme \<Rightarrow> (nat list option \<times> 'a kvirtio_scheme) kres" where
  "alloc3_desc s = alloc3_loop 3 [] s"

section \<open>Requests\<close>

text \<open>The part of \<^verbatim>\<open>virtio_disk_rw\<close> that fills in the three descriptors and hands them to the device.\<close>

definition rw_submit :: "nat \<Rightarrow> bool \<Rightarrow> nat list \<Rightarrow> 'a kvirtio_scheme \<Rightarrow> 'a kvirtio_scheme" where
  "rw_submit b wr idx s =
     (let i0 = idx ! 0; i1 = idx ! 1; i2 = idx ! 2;
          sector = ucast (b_blockno (bufs s ! b) * of_nat (BSIZE div 512));
          rq = \<lparr>rq_type = (if wr then VIRTIO_BLK_T_OUT else VIRTIO_BLK_T_IN), rq_reserved = 0, rq_sector = sector\<rparr>
      in vset (\<lambda>v.
        let v = v\<lparr>v_ops := (v_ops v)[i0 := rq]\<rparr>;
            v = set_desc i0 \<lparr>d_addr = DmaOp i0, d_len = 16, d_flags = VRING_DESC_F_NEXT, d_next = of_nat i1\<rparr> v;
            v = set_desc i1 \<lparr>d_addr = DmaData b, d_len = of_nat BSIZE,
                  d_flags = (if wr then 0 else VRING_DESC_F_WRITE) OR VRING_DESC_F_NEXT, d_next = of_nat i2\<rparr> v;
            v = v\<lparr>v_info := (v_info v)[i0 := (v_info v ! i0)\<lparr>vi_status := 0xff\<rparr>]\<rparr>;
            v = set_desc i2 \<lparr>d_addr = DmaStatus i0, d_len = 1, d_flags = VRING_DESC_F_WRITE, d_next = 0\<rparr> v;
            v = v\<lparr>v_busy := (v_busy v)(b := 1)\<rparr>;
            v = v\<lparr>v_info := (v_info v)[i0 := (v_info v ! i0)\<lparr>vi_b := Some b\<rparr>]\<rparr>;
            v = v\<lparr>v_avail_ring := (v_avail_ring v)[unat (v_avail_idx v) mod NUM := of_nat i0]\<rparr>;
            v = v\<lparr>v_avail_idx := v_avail_idx v + 1\<rparr>
        in mmio VIRTIO_MMIO_QUEUE_NOTIFY 0 v) s)"

text \<open>The wait at the end: the process sleeps, or the request is done and its descriptors are freed.\<close>

definition rw_finish :: "nat \<Rightarrow> nat \<Rightarrow> nat \<Rightarrow> 'a kvirtio_scheme \<Rightarrow> (nat segment \<times> 'a kvirtio_scheme) kres" where
  "rw_finish me b i0 s =
     (if v_busy (vd s) b = 1 then Ret (Sleeps, sleep me (ChanBufData b) s)
      else let s = vset (\<lambda>v. v\<lparr>v_info := (v_info v)[i0 := (v_info v ! i0)\<lparr>vi_b := None\<rparr>]\<rparr>) s
           in kbind (free_chain i0 s) (\<lambda>s. Ret (Done i0, s)))"

definition rw_finish_resume :: "nat \<Rightarrow> nat \<Rightarrow> nat \<Rightarrow> 'a kvirtio_scheme \<Rightarrow> (nat segment \<times> 'a kvirtio_scheme) kres" where
  "rw_finish_resume me b i0 s = rw_finish me b i0 (sleep_return me s)"

text \<open>
  \<^verbatim>\<open>virtio_disk_rw\<close> up to its first sleep: it waits for descriptors (the call starts over when it wakes), or has
  handed the request with head \<open>Some i0\<close> to the device.
\<close>

definition virtio_disk_rw :: "nat \<Rightarrow> nat \<Rightarrow> bool \<Rightarrow> 'a kvirtio_scheme \<Rightarrow> (nat option \<times> nat segment \<times> 'a kvirtio_scheme) kres" where
  "virtio_disk_rw me b wr s =
     kbind (alloc3_desc s) (\<lambda>(r, s).
     case r of
       None \<Rightarrow> Ret (None, Sleeps, sleep me ChanDiskFree s)
     | Some idx \<Rightarrow> kbind (rw_finish me b (idx ! 0) (rw_submit b wr idx s)) (\<lambda>(r, s). Ret (Some (idx ! 0), r, s)))"

section \<open>Interrupts\<close>

function intr_loop :: "'a kvirtio_scheme \<Rightarrow> 'a kvirtio_scheme kres" where
  "intr_loop s =
     (let v = vd s in
      if v_seen v = v_used_idx v then Ret s
      else let i = unat (v_used_ring v ! (unat (v_seen v) mod NUM)) in
        if vi_status (v_info v ! i) \<noteq> 0 then Panic ''virtio_disk_intr status''
        else let b = the (vi_b (v_info v ! i));
                 s = wakeup None (ChanBufData b) (vset (\<lambda>v. v\<lparr>v_busy := (v_busy v)(b := 0)\<rparr>) s)
             in intr_loop (vset (\<lambda>v. v\<lparr>v_seen := v_seen v + 1\<rparr>) s))"
  by pat_completeness auto
termination
proof (relation "measure (\<lambda>s. unat (v_used_idx (vd s) - v_seen (vd s)))", goal_cases)
  case (2 s v i b sa)
  then have "v_used_idx (vd s) - v_seen (vd s) \<noteq> 0" by simp
  then have "unat (v_used_idx (vd s) - v_seen (vd s) - 1) < unat (v_used_idx (vd s) - v_seen (vd s))"
    by (rule measure_unat)
  then show ?case using 2 by (simp add: algebra_simps)
qed simp

declare intr_loop.simps [simp del]

text \<open>\<open>istat\<close> is what the device shows in its interrupt status register.\<close>

definition virtio_disk_intr :: "uint \<Rightarrow> 'a kvirtio_scheme \<Rightarrow> 'a kvirtio_scheme kres" where
  "virtio_disk_intr istat s = intr_loop (vset (mmio VIRTIO_MMIO_INTERRUPT_ACK (istat AND 3)) s)"

section \<open>A request does what the buffer cache counts on\<close>

text \<open>
  What the virtio specification (section 5.2.6) says a block device does with the request whose chain starts at
  descriptor \<open>h\<close>: it moves the block between the disk and the buffer, in the direction the header asks for, sets
  the status byte to 0 and puts \<open>h\<close> on the used ring.  \<open>request_chain\<close> is the form the specification asks of
  the chain.
\<close>

definition chain_at :: "vdisk \<Rightarrow> nat \<Rightarrow> virtq_desc \<times> virtq_desc \<times> virtq_desc" where
  "chain_at v h = (let d0 = v_desc v ! h; d1 = v_desc v ! unat (d_next d0); d2 = v_desc v ! unat (d_next d1) in (d0, d1, d2))"

definition request_chain :: "vdisk \<Rightarrow> nat \<Rightarrow> nat \<Rightarrow> nat \<Rightarrow> nat \<Rightarrow> bool" where
  "request_chain v h q b k \<longleftrightarrow> (case chain_at v h of (d0, d1, d2) \<Rightarrow>
     d_addr d0 = DmaOp q \<and> d_len d0 = 16 \<and> d_flags d0 = VRING_DESC_F_NEXT
     \<and> d_addr d1 = DmaData b \<and> d_len d1 = of_nat BSIZE
     \<and> d_flags d1 = (if rq_type (v_ops v ! q) = VIRTIO_BLK_T_IN then VRING_DESC_F_WRITE OR VRING_DESC_F_NEXT else VRING_DESC_F_NEXT)
     \<and> d_addr d2 = DmaStatus k \<and> d_len d2 = 1 \<and> d_flags d2 = VRING_DESC_F_WRITE)"

definition blk_serve :: "nat \<Rightarrow> nat \<Rightarrow> nat \<Rightarrow> nat \<Rightarrow> kvirtio \<Rightarrow> kvirtio" where
  "blk_serve h q b k s =
     (let rq = v_ops (vd s) ! q; blk = ucast (rq_sector rq div of_nat (BSIZE div 512));
          s = (if rq_type rq = VIRTIO_BLK_T_OUT
               then s\<lparr>disk := (disk s)(blk := b_data (bufs s ! b)), dwrites := dwrites s @ [(blk, b_data (bufs s ! b))]\<rparr>
               else bufset b (\<lambda>x. x\<lparr>b_data := disk s blk\<rparr>) s)
      in vset (\<lambda>v. v\<lparr>v_info := (v_info v)[k := (v_info v ! k)\<lparr>vi_status := 0\<rparr>],
                     v_used_ring := (v_used_ring v)[unat (v_used_idx v) mod NUM := of_nat h],
                     v_used_idx := v_used_idx v + 1\<rparr>) s)"

definition virtio_blk :: "(nat \<Rightarrow> kvirtio \<Rightarrow> kvirtio) \<Rightarrow> bool" where
  "virtio_blk dev \<longleftrightarrow> (\<forall>h q b k s. request_chain (vd s) h q b k \<longrightarrow> dev h s = blk_serve h q b k s)"

text \<open>The tables have their sizes, no completed request is waiting to be looked at, and three descriptors are free.\<close>

definition driver_ready :: "vdisk \<Rightarrow> bool" where
  "driver_ready v \<longleftrightarrow> length (v_desc v) = NUM \<and> length (v_info v) = NUM \<and> length (v_ops v) = NUM
     \<and> length (v_used_ring v) = NUM \<and> v_seen v = v_used_idx v \<and> 3 \<le> card ({..<NUM} - busy_descs v)"

lemma alloc_desc_ok:
  assumes "0 < card ({..<NUM} - busy_descs v)"
  obtains i where "alloc_desc v = (Some i, set_free i 0 v)" and "i < NUM" and "v_free v i \<noteq> 0"
proof -
  obtain j where j: "j < NUM" "v_free v j \<noteq> 0"
    using assms by (auto simp: card_gt_0_iff busy_descs_def)
  then obtain i where i: "scan (\<lambda>i. v_free v i \<noteq> 0) [0..<NUM] = Some i"
    using scan_exists [of j "[0..<NUM]" "\<lambda>i. v_free v i \<noteq> 0"] by auto
  then have "i < NUM" "v_free v i \<noteq> 0" using scan_SomeD [OF i] by auto
  then show thesis using that [of i] i by (simp add: alloc_desc_def)
qed

lemma busy_set_free: "busy_descs (set_free i 0 v) = (if i < NUM then insert i (busy_descs v) else busy_descs v)"
  by (auto simp: busy_descs_def set_free_def)

lemma free_after:
  assumes "i < NUM" and "v_free v i \<noteq> 0" and "Suc n \<le> card ({..<NUM} - busy_descs v)"
  shows "n \<le> card ({..<NUM} - busy_descs (set_free i 0 v))"
proof -
  have "{..<NUM} - busy_descs (set_free i 0 v) = {..<NUM} - busy_descs v - {i}" using assms(1) by (auto simp: busy_set_free)
  moreover have "i \<in> {..<NUM} - busy_descs v" using assms(1,2) by (simp add: busy_descs_def)
  ultimately show ?thesis using assms(3) card_Diff_singleton [of i "{..<NUM} - busy_descs v"] by simp
qed

lemma alloc3_ok:
  assumes "3 \<le> card ({..<NUM} - busy_descs (vd s))"
  obtains i j k where "alloc3_desc s = Ret (Some [i, j, k], vset (set_free k 0 \<circ> set_free j 0 \<circ> set_free i 0) s)"
    and "i < NUM" "j < NUM" "k < NUM" and "distinct [i, j, k]"
    and "v_free (vd s) i \<noteq> 0" "v_free (vd s) j \<noteq> 0" "v_free (vd s) k \<noteq> 0"
proof -
  obtain i where i: "alloc_desc (vd s) = (Some i, set_free i 0 (vd s))" "i < NUM" "v_free (vd s) i \<noteq> 0"
    by (rule alloc_desc_ok [of "vd s"]) (use assms in simp)
  let ?v1 = "set_free i 0 (vd s)"
  have c1: "2 \<le> card ({..<NUM} - busy_descs ?v1)" using free_after [OF i(2,3), of 2] assms by simp
  obtain j where j: "alloc_desc ?v1 = (Some j, set_free j 0 ?v1)" "j < NUM" "v_free ?v1 j \<noteq> 0"
    by (rule alloc_desc_ok [of ?v1]) (use c1 in simp)
  let ?v2 = "set_free j 0 ?v1"
  have c2: "1 \<le> card ({..<NUM} - busy_descs ?v2)" using free_after [OF j(2,3), of 1] c1 by simp
  obtain k where k: "alloc_desc ?v2 = (Some k, set_free k 0 ?v2)" "k < NUM" "v_free ?v2 k \<noteq> 0"
    by (rule alloc_desc_ok [of ?v2]) (use c2 in simp)
  have "alloc3_desc s = Ret (Some [i, j, k], vset (set_free k 0 \<circ> set_free j 0 \<circ> set_free i 0) s)"
    using i(1) j(1) k(1) by (simp add: alloc3_desc_def eval_nat_numeral vset_def)
  then show thesis
    by (rule that) (use i j k in \<open>auto simp: set_free_def split: if_splits\<close>)
qed

lemma unat_desc [simp]: "i < NUM \<Longrightarrow> unat (of_nat i :: ushort) = i" "i < NUM \<Longrightarrow> unat (of_nat i :: uint) = i"
  by (simp_all add: NUM_def unat_of_nat)

lemma flag_next [simp]: "VRING_DESC_F_NEXT \<noteq> 0" "VRING_DESC_F_NEXT AND VRING_DESC_F_NEXT \<noteq> 0" "VRING_DESC_F_WRITE AND VRING_DESC_F_NEXT = 0"
  "(VRING_DESC_F_WRITE OR VRING_DESC_F_NEXT) AND VRING_DESC_F_NEXT \<noteq> 0"
  by (simp_all add: VRING_DESC_F_NEXT_def VRING_DESC_F_WRITE_def)

text \<open>The driver's tables once the request is handed over.\<close>

lemma rw_submit_facts:
  assumes d: "distinct [i, j, k]" and n: "i < NUM" "j < NUM" "k < NUM"
    and len: "length (v_desc (vd s)) = NUM" "length (v_info (vd s)) = NUM" "length (v_ops (vd s)) = NUM"
  shows "request_chain (vd (rw_submit b wr [i, j, k] s)) i i b i"
    and "v_ops (vd (rw_submit b wr [i, j, k] s)) ! i = \<lparr>rq_type = (if wr then VIRTIO_BLK_T_OUT else VIRTIO_BLK_T_IN),
           rq_reserved = 0, rq_sector = ucast (b_blockno (bufs s ! b) * of_nat (BSIZE div 512))\<rparr>"
    and "v_info (vd (rw_submit b wr [i, j, k] s)) ! i = \<lparr>vi_b = Some b, vi_status = 0xff\<rparr>"
    and "length (v_info (vd (rw_submit b wr [i, j, k] s))) = NUM"
    and "v_busy (vd (rw_submit b wr [i, j, k] s)) = (v_busy (vd s))(b := 1)"
    and "v_used_ring (vd (rw_submit b wr [i, j, k] s)) = v_used_ring (vd s)"
    and "v_used_idx (vd (rw_submit b wr [i, j, k] s)) = v_used_idx (vd s)"
    and "v_seen (vd (rw_submit b wr [i, j, k] s)) = v_seen (vd s)"
    and "v_free (vd (rw_submit b wr [i, j, k] s)) = v_free (vd s)"
    and "d_flags (v_desc (vd (rw_submit b wr [i, j, k] s)) ! i) = VRING_DESC_F_NEXT"
    and "d_next (v_desc (vd (rw_submit b wr [i, j, k] s)) ! i) = of_nat j"
    and "d_flags (v_desc (vd (rw_submit b wr [i, j, k] s)) ! j) AND VRING_DESC_F_NEXT \<noteq> 0"
    and "d_next (v_desc (vd (rw_submit b wr [i, j, k] s)) ! j) = of_nat k"
    and "d_flags (v_desc (vd (rw_submit b wr [i, j, k] s)) ! k) = VRING_DESC_F_WRITE"
  using assms
  by (simp_all add: rw_submit_def request_chain_def chain_at_def set_desc_def mmio_def Let_def nth_list_update
      VIRTIO_BLK_T_IN_def VIRTIO_BLK_T_OUT_def)

lemma rw_submit_frame [simp]:
  "disk (rw_submit b wr idx s) = disk s" "bufs (rw_submit b wr idx s) = bufs s" "dwrites (rw_submit b wr idx s) = dwrites s"
  "procs (rw_submit b wr idx s) = procs s"
  by (simp_all add: rw_submit_def vset_def Let_def)

text \<open>Freeing the chain of a request gives its three descriptors back and nothing else.\<close>

lemma free_chain_3:
  fixes s :: "'a kvirtio_scheme"
  assumes d: "distinct [i, j, k]" and n: "i < NUM" "j < NUM" "k < NUM" and len: "length (v_desc (vd s)) = NUM"
    and busy: "v_free (vd s) i = 0" "v_free (vd s) j = 0" "v_free (vd s) k = 0"
    and link: "d_flags (v_desc (vd s) ! i) AND VRING_DESC_F_NEXT \<noteq> 0" "d_next (v_desc (vd s) ! i) = of_nat j"
      "d_flags (v_desc (vd s) ! j) AND VRING_DESC_F_NEXT \<noteq> 0" "d_next (v_desc (vd s) ! j) = of_nat k"
      "d_flags (v_desc (vd s) ! k) AND VRING_DESC_F_NEXT = 0"
  obtains s' where "free_chain i s = Ret s'" and "v_free (vd s') = (v_free (vd s))(i := 1, j := 1, k := 1)"
    and "disk s' = disk s" and "bufs s' = bufs s" and "dwrites s' = dwrites s"
proof -
  define f :: "nat \<Rightarrow> 'a kvirtio_scheme \<Rightarrow> 'a kvirtio_scheme" where "f x t = wakeup None ChanDiskFree (vset (set_free x 1 \<circ> set_desc x zero_desc) t)" for x t
  have fd: "free_desc x t = Ret (f x t)" if "x < NUM" "v_free (vd t) x = 0" for x and t :: "'a kvirtio_scheme"
    using that by (simp add: free_desc_def f_def)
  have fv: "v_free (vd (f x t)) = (v_free (vd t))(x := 1)" "v_desc (vd (f x t)) = (v_desc (vd t))[x := zero_desc]"
    "disk (f x t) = disk t" "bufs (f x t) = bufs t" "dwrites (f x t) = dwrites t" for x t
    by (simp_all add: f_def set_free_def set_desc_def wakeup_def vset_def)
  have "free_chain i s = free_chain j (f i s)"
    using n busy(1) link(1,2) by (subst free_chain.simps) (simp add: fd Let_def)
  also have "\<dots> = free_chain k (f j (f i s))"
    using n busy(2) link(3,4) d by (subst free_chain.simps) (simp add: fd fv Let_def)
  also have "\<dots> = Ret (f k (f j (f i s)))"
    using n busy(3) link(5) d by (subst free_chain.simps) (simp add: fd fv Let_def)
  finally show thesis by (rule that) (simp_all add: fv)
qed

lemma sector_block:
  assumes "unat blk < 2 ^ 31"
  shows "ucast ((ucast (blk * of_nat (BSIZE div 512)) :: uint64) div of_nat (BSIZE div 512)) = (blk :: uint)"
proof -
  have b: "unat (blk * 2) = 2 * unat blk" using assms unat_mult_lem [of blk 2] by simp
  have u: "unat (ucast (blk * 2) :: uint64) = 2 * unat blk" using b assms by (simp add: unsigned_ucast_eq take_bit_nat_eq_self)
  have "unat ((ucast (blk * 2) :: uint64) div 2) = unat blk" by (simp add: unat_div u)
  then have "unat (ucast ((ucast (blk * 2) :: uint64) div 2) :: uint) = unat blk"
    using assms by (simp add: unsigned_ucast_eq take_bit_nat_eq_self)
  then show ?thesis by (simp add: BSIZE_def word_unat_eq_iff)
qed

lemma woken_runnable:
  assumes "me < length (procs t)" and "p_state (pget me t) = SLEEPING" and "p_chan (pget me t) = c"
  shows "p_state (pget me (vset f (wakeup None c t))) = RUNNABLE"
  using assms by (simp add: vset_def wakeup_def wake_one_def)

lemma intr_one:
  assumes "v_seen (vd s) + 1 = v_used_idx (vd s)"
    and "unat (v_used_ring (vd s) ! (unat (v_seen (vd s)) mod NUM)) = i"
    and "v_info (vd s) ! i = \<lparr>vi_b = Some b, vi_status = 0\<rparr>"
  shows "virtio_disk_intr istat s =
     Ret (vset (\<lambda>v. v\<lparr>v_seen := v_seen v + 1\<rparr>)
       (wakeup None (ChanBufData b) (vset (\<lambda>v. v\<lparr>v_busy := (v_busy v)(b := 0)\<rparr>)
         (vset (mmio VIRTIO_MMIO_INTERRUPT_ACK (istat AND 3)) s))))"
proof -
  have ne: "v_seen (vd s) \<noteq> v_used_idx (vd s)" using assms(1) by (metis add_cancel_left_right zero_neq_one)
  show ?thesis
    unfolding virtio_disk_intr_def
    by (subst intr_loop.simps, subst intr_loop.simps) (use assms ne in \<open>simp add: Let_def mmio_def\<close>)
qed


definition vd_demo :: vdisk where
  "vd_demo = \<lparr>v_desc = replicate NUM zero_desc, v_avail_idx = 0, v_avail_ring = replicate NUM 0, v_used_idx = 0,
     v_used_ring = replicate NUM 0, v_free = (\<lambda>_. 1), v_seen = 0,
     v_info = replicate NUM \<lparr>vi_b = None, vi_status = 0\<rparr>,
     v_ops = replicate NUM \<lparr>rq_type = 0, rq_reserved = 0, rq_sector = 0\<rparr>, v_busy = (\<lambda>_. 0), v_mmio = []\<rparr>"

definition virtio_demo :: kvirtio where
  "virtio_demo = kfile.extend (file_demo\<lparr>bufs := replicate NBUF empty_buf\<rparr>) \<lparr>vd = vd_demo\<rparr>"

text \<open>A device that follows the specification.\<close>

definition good_device :: "nat \<Rightarrow> kvirtio \<Rightarrow> kvirtio" where
  "good_device h s =
     (case chain_at (vd s) h of (d0, d1, d2) \<Rightarrow>
        (case (d_addr d0, d_addr d1, d_addr d2) of (DmaOp q, DmaData b, DmaStatus k) \<Rightarrow> blk_serve h q b k s | _ \<Rightarrow> s))"

lemma good_device_ok: "virtio_blk good_device"
  by (auto simp: virtio_blk_def good_device_def request_chain_def split: prod.splits)

lemma virtio_demo_ready: "driver_ready (vd virtio_demo)"
proof -
  have "busy_descs vd_demo = {}" by (simp add: busy_descs_def vd_demo_def)
  then show ?thesis
    by (simp add: driver_ready_def virtio_demo_def kfile.defs) (simp add: vd_demo_def NUM_def)
qed


end
