(* ===== verification/Spinlock.thy ===== *)
theory Spinlock
  imports Prelude
begin

text \<open>
  Spin locks and the interrupt nesting of each CPU, \<^verbatim>\<open>kernel/spinlock.c\<close>.  This is
  the one theory where CPUs interleave inside a routine: \<^verbatim>\<open>acquire\<close> and \<^verbatim>\<open>release\<close>
  are cut at their accesses of the shared lock word.  Everywhere else a section under a lock
  is one step, which the mutual exclusion proved here justifies.
\<close>

section \<open>CPUs and locks\<close>

text \<open>The supervisor interrupt-enable bit of \<^verbatim>\<open>sstatus\<close> is part of the CPU's state.\<close>

record cpu =
  c_noff :: cint
  c_intena :: cint
  c_sie :: bool

record spinlock =
  sl_locked :: uint
  sl_cpu :: "nat option"

definition initlock :: "spinlock \<Rightarrow> spinlock" where
  "initlock lk = lk\<lparr>sl_locked := 0, sl_cpu := None\<rparr>"

definition intr_get :: "cpu \<Rightarrow> cint" where
  "intr_get c = (if c_sie c then 1 else 0)"

definition intr_on :: "cpu \<Rightarrow> cpu" where
  "intr_on c = c\<lparr>c_sie := True\<rparr>"

definition intr_off :: "cpu \<Rightarrow> cpu" where
  "intr_off c = c\<lparr>c_sie := False\<rparr>"

definition push_off :: "cpu \<Rightarrow> cpu" where
  "push_off c =
     (let old = intr_get c; c = intr_off c;
          c = (if c_noff c = 0 then c\<lparr>c_intena := old\<rparr> else c)
      in c\<lparr>c_noff := c_noff c + 1\<rparr>)"

definition pop_off :: "cpu \<Rightarrow> cpu kres" where
  "pop_off c =
     (if intr_get c \<noteq> 0 then Panic ''pop_off - interruptible''
      else if c_noff c <s 1 then Panic ''pop_off''
      else let c = c\<lparr>c_noff := c_noff c - 1\<rparr>
           in Ret (if c_noff c = 0 \<and> c_intena c \<noteq> 0 then intr_on c else c))"

definition holding :: "nat \<Rightarrow> spinlock \<Rightarrow> bool" where
  "holding me lk \<longleftrightarrow> sl_locked lk \<noteq> 0 \<and> sl_cpu lk = Some me"

text \<open>
  \<^verbatim>\<open>acquire\<close>: up to the loop, one turn of the loop, and after it.  The turn gives
  the old value of the lock word.
\<close>

definition acquire_begin :: "nat \<Rightarrow> cpu \<Rightarrow> spinlock \<Rightarrow> cpu kres" where
  "acquire_begin me c lk =
     (let c = push_off c in if holding me lk then Panic ''acquire'' else Ret c)"

definition acquire_swap :: "spinlock \<Rightarrow> uint \<times> spinlock" where
  "acquire_swap lk = (sl_locked lk, lk\<lparr>sl_locked := 1\<rparr>)"

definition acquire_end :: "nat \<Rightarrow> spinlock \<Rightarrow> spinlock" where
  "acquire_end me lk = lk\<lparr>sl_cpu := Some me\<rparr>"

text \<open>\<^verbatim>\<open>release\<close>: up to the store to the lock word, and from there.\<close>

definition release_begin :: "nat \<Rightarrow> spinlock \<Rightarrow> spinlock kres" where
  "release_begin me lk =
     (if \<not> holding me lk then Panic ''release'' else Ret (lk\<lparr>sl_cpu := None\<rparr>))"

definition release_end :: "cpu \<Rightarrow> spinlock \<Rightarrow> (cpu \<times> spinlock) kres" where
  "release_end c lk = kbind (pop_off c) (\<lambda>c. Ret (c, lk\<lparr>sl_locked := 0\<rparr>))"

section \<open>Nesting of interrupt disabling\<close>

text \<open>A run of \<^verbatim>\<open>push_off\<close> (\<open>True\<close>) and \<^verbatim>\<open>pop_off\<close> (\<open>False\<close>) calls on one CPU.\<close>

fun run_offs :: "bool list \<Rightarrow> cpu \<Rightarrow> cpu kres" where
  "run_offs [] c = Ret c"
| "run_offs (True # bs) c = run_offs bs (push_off c)"
| "run_offs (False # bs) c = kbind (pop_off c) (run_offs bs)"

text \<open>The nesting depth that a run from depth \<open>d\<close> ends at, unless it pops more than it pushed.\<close>

fun depth :: "nat \<Rightarrow> bool list \<Rightarrow> nat option" where
  "depth d [] = Some d"
| "depth d (True # bs) = depth (Suc d) bs"
| "depth d (False # bs) = (if d = 0 then None else depth (d - 1) bs)"

text \<open>A CPU at depth \<open>d\<close> that started with interrupts \<open>b\<close>.\<close>

definition at_depth :: "bool \<Rightarrow> nat \<Rightarrow> cpu \<Rightarrow> bool" where
  "at_depth b d c \<longleftrightarrow> sint (c_noff c) = int d \<and>
     (if d = 0 then c_sie c = b else \<not> c_sie c \<and> (c_intena c \<noteq> 0) = b)"

lemma push_off_depth: "at_depth b d c \<Longrightarrow> int d < 2 ^ 31 - 1 \<Longrightarrow> at_depth b (Suc d) (push_off c)"
proof -
  assume d: "at_depth b d c" "int d < 2 ^ 31 - 1"
  then have "c_noff c = 0 \<longleftrightarrow> d = 0" using sint_eq_0_iff [of "c_noff c"] by (simp add: at_depth_def)
  moreover have "sint (c_noff c + 1) = int (Suc d)" using d by (subst sint_inc) (auto simp: at_depth_def)
  ultimately show ?thesis using d(1)
    by (auto simp: at_depth_def push_off_def Let_def intr_off_def intr_get_def)
qed

lemma pop_off_depth:
  assumes "at_depth b (Suc d) c"
  shows "\<exists>c'. pop_off c = Ret c' \<and> at_depth b d c'"
proof -
  have n: "sint (c_noff c - 1) = int d" using assms by (subst sint_dec) (auto simp: at_depth_def)
  moreover have "c_noff c - 1 = 0 \<longleftrightarrow> d = 0"
    using n sint_eq_0_iff [of "c_noff c - 1"] by simp
  moreover have "\<not> c_noff c <s 1" using assms by (simp add: at_depth_def word_sless_alt)
  ultimately show ?thesis using assms
    by (auto simp: at_depth_def pop_off_def Let_def intr_get_def intr_on_def)
qed

lemma run_offs_depth:
  assumes "at_depth b d c" and "depth d bs = Some d'" and "int d + int (length bs) < 2 ^ 31"
  shows "\<exists>c'. run_offs bs c = Ret c' \<and> at_depth b d' c'"
  using assms
proof (induction bs arbitrary: c d)
  case Nil
  then show ?case by simp
next
  case (Cons p bs)
  show ?case
  proof (cases p)
    case True
    then show ?thesis using Cons.IH [OF push_off_depth [OF Cons.prems(1)]] Cons.prems by simp
  next
    case False
    then obtain e where e: "d = Suc e" using Cons.prems(2) by (cases d) auto
    then obtain c1 where "pop_off c = Ret c1" "at_depth b e c1" using pop_off_depth Cons.prems(1) by blast
    then show ?thesis using Cons.IH [of e c1] Cons.prems e False by simp
  qed
qed

text \<open>
  C22: interrupt disabling nests.  A run of \<^verbatim>\<open>push_off\<close> and \<^verbatim>\<open>pop_off\<close> calls that
  never pops more than it pushed does not panic; interrupts are off while it has pushed more
  than it popped, and a balanced run leaves them as they were before.
\<close>

theorem push_pop_nesting:
  assumes "c_noff c = 0" and "depth 0 bs = Some d" and "length bs < 2 ^ 31"
  shows "\<exists>c'. run_offs bs c = Ret c' \<and> sint (c_noff c') = int d
    \<and> (if d = 0 then c_sie c' = c_sie c else \<not> c_sie c')"
proof -
  have "at_depth (c_sie c) 0 c" using assms(1) by (simp add: at_depth_def)
  then show ?thesis using run_offs_depth [OF _ assms(2), of "c_sie c" c] assms(3) by (auto simp: at_depth_def)
qed

theorem push_pop_nesting_witness:
  "\<exists>c'. run_offs [True, True, False, True, False, False] \<lparr>c_noff = 0, c_intena = 0, c_sie = True\<rparr> = Ret c'
     \<and> sint (c_noff c') = 0 \<and> c_sie c'"
  using push_pop_nesting [of "\<lparr>c_noff = 0, c_intena = 0, c_sie = True\<rparr>" "[True, True, False, True, False, False]" 0]
  by simp

section \<open>Mutual exclusion\<close>

text \<open>Where a CPU is with respect to one lock.\<close>

datatype lpc = Outside | Spinning | Swapped | Critical | Leaving

type_synonym lstate = "cpu list \<times> spinlock \<times> lpc list"

inductive lock_step :: "lstate \<Rightarrow> lstate \<Rightarrow> bool" where
  enter: "i < length pcs \<Longrightarrow> pcs ! i = Outside \<Longrightarrow> acquire_begin i (cs ! i) lk = Ret c \<Longrightarrow>
    lock_step (cs, lk, pcs) (cs[i := c], lk, pcs[i := Spinning])"
| spin: "i < length pcs \<Longrightarrow> pcs ! i = Spinning \<Longrightarrow> acquire_swap lk = (v, lk') \<Longrightarrow> v \<noteq> 0 \<Longrightarrow>
    lock_step (cs, lk, pcs) (cs, lk', pcs)"
| win: "i < length pcs \<Longrightarrow> pcs ! i = Spinning \<Longrightarrow> acquire_swap lk = (v, lk') \<Longrightarrow> v = 0 \<Longrightarrow>
    lock_step (cs, lk, pcs) (cs, lk', pcs[i := Swapped])"
| got: "i < length pcs \<Longrightarrow> pcs ! i = Swapped \<Longrightarrow>
    lock_step (cs, lk, pcs) (cs, acquire_end i lk, pcs[i := Critical])"
| leave: "i < length pcs \<Longrightarrow> pcs ! i = Critical \<Longrightarrow> release_begin i lk = Ret lk' \<Longrightarrow>
    lock_step (cs, lk, pcs) (cs, lk', pcs[i := Leaving])"
| drop: "i < length pcs \<Longrightarrow> pcs ! i = Leaving \<Longrightarrow> release_end (cs ! i) lk = Ret (c, lk') \<Longrightarrow>
    lock_step (cs, lk, pcs) (cs[i := c], lk', pcs[i := Outside])"

text \<open>The lock word is set exactly while some CPU owns the lock; \<open>owner\<close> says which.\<close>

definition owns :: "lpc \<Rightarrow> bool" where
  "owns p \<longleftrightarrow> p = Swapped \<or> p = Critical \<or> p = Leaving"

definition lock_inv :: "bool list \<Rightarrow> nat option \<Rightarrow> lstate \<Rightarrow> bool" where
  "lock_inv bs ow = (\<lambda>(cs, lk, pcs). length cs = length pcs \<and> length bs = length pcs
     \<and> (\<forall>i < length pcs. at_depth (bs ! i) (if pcs ! i = Outside then 0 else Suc 0) (cs ! i))
     \<and> (\<forall>i < length pcs. owns (pcs ! i) \<longleftrightarrow> ow = Some i)
     \<and> (case ow of None \<Rightarrow> sl_locked lk = 0 \<and> sl_cpu lk = None
        | Some i \<Rightarrow> i < length pcs \<and> sl_locked lk \<noteq> 0 \<and> sl_cpu lk = (if pcs ! i = Critical then Some i else None)))"

lemma lock_inv_start:
  assumes "length bs = length cs" and "\<And>i. i < length cs \<Longrightarrow> c_noff (cs ! i) = 0 \<and> c_sie (cs ! i) = bs ! i"
  shows "lock_inv bs None (cs, initlock lk, replicate (length cs) Outside)"
  using assms by (auto simp: lock_inv_def at_depth_def owns_def initlock_def)

text \<open>
  A step of CPU \<open>i\<close> keeps the invariant when it keeps \<open>i\<close>'s own depth right and leaves
  the lock as the new owner requires.
\<close>

lemma lock_inv_update:
  assumes inv: "lock_inv bs ow (cs, lk, pcs)" and i: "i < length pcs"
    and d: "at_depth (bs ! i) (if q = Outside then 0 else Suc 0) c"
    and q: "if owns q then ow \<in> {None, Some i} \<and> sl_locked lk' \<noteq> 0 \<and> sl_cpu lk' = (if q = Critical then Some i else None)
        else if ow = Some i then sl_locked lk' = 0 \<and> sl_cpu lk' = None else lk' = lk"
  shows "\<exists>ow'. lock_inv bs ow' (cs[i := c], lk', pcs[i := q])"
proof (rule exI)
  show "lock_inv bs (if owns q then Some i else if ow = Some i then None else ow) (cs[i := c], lk', pcs[i := q])"
    using inv i d q unfolding lock_inv_def
    by (auto simp: nth_list_update_if split: if_splits option.splits)
qed

lemma lock_invD:
  assumes "lock_inv bs ow (cs, lk, pcs)" and "i < length pcs"
  shows "at_depth (bs ! i) (if pcs ! i = Outside then 0 else Suc 0) (cs ! i)"
    and "owns (pcs ! i) \<longleftrightarrow> ow = Some i"
    and "ow = None \<longleftrightarrow> sl_locked lk = 0"
    and "ow = None \<Longrightarrow> sl_cpu lk = None"
    and "ow = Some j \<Longrightarrow> sl_cpu lk = (if pcs ! j = Critical then Some j else None)"
  using assms by (auto simp: lock_inv_def split: option.splits)

lemma lock_step_inv: "lock_step x y \<Longrightarrow> lock_inv bs ow x \<Longrightarrow> \<exists>ow'. lock_inv bs ow' y"
proof (induction rule: lock_step.induct)
  case (enter i pcs cs lk c)
  note I = lock_invD [OF enter(4,1)]
  have "at_depth (bs ! i) (Suc 0) c"
    using push_off_depth [of "bs ! i" 0 "cs ! i"] enter(2,3) I(1)
    by (auto simp: acquire_begin_def Let_def split: if_splits)
  moreover have "ow \<noteq> Some i" using I(2) enter(2) by (simp add: owns_def)
  ultimately show ?case by (intro lock_inv_update [OF enter(4,1)]) (auto simp: owns_def)
next
  case (spin i pcs lk v lk' cs)
  then show ?case using lock_invD(3) [OF spin(5,1)]
    by (intro exI [of _ ow]) (auto simp: lock_inv_def acquire_swap_def split: option.splits)
next
  case (win i pcs lk v lk' cs)
  note I = lock_invD [OF win(5,1)]
  have "\<exists>ow'. lock_inv bs ow' (cs[i := cs ! i], lk', pcs[i := Swapped])"
    using win I(1,3,4) by (intro lock_inv_update [OF win(5,1)]) (auto simp: owns_def acquire_swap_def)
  then show ?case by simp
next
  case (got i pcs cs lk)
  note I = lock_invD [OF got(3,1)]
  have "\<exists>ow'. lock_inv bs ow' (cs[i := cs ! i], acquire_end i lk, pcs[i := Critical])"
    using got I(1,2,3) by (intro lock_inv_update [OF got(3,1)]) (auto simp: owns_def acquire_end_def)
  then show ?case by simp
next
  case (leave i pcs lk lk' cs)
  note I = lock_invD [OF leave(4,1)]
  have "lk' = lk\<lparr>sl_cpu := None\<rparr>" using leave(3) by (auto simp: release_begin_def split: if_splits)
  then have "\<exists>ow'. lock_inv bs ow' (cs[i := cs ! i], lk', pcs[i := Leaving])"
    using leave I(1,2,3) by (intro lock_inv_update [OF leave(4,1)]) (auto simp: owns_def)
  then show ?case by simp
next
  case (drop i pcs cs lk c lk')
  note I = lock_invD [OF drop(4,1)]
  have ow: "ow = Some i" using I(2) drop(2) by (simp add: owns_def)
  obtain c0 where "pop_off (cs ! i) = Ret c0" "at_depth (bs ! i) 0 c0"
    using pop_off_depth [of "bs ! i" 0 "cs ! i"] I(1) drop(2) by auto
  then show ?case using drop I(5) [OF ow] ow
    by (intro lock_inv_update [OF drop(4,1)]) (auto simp: owns_def release_end_def)
qed

lemma lock_reach_inv: "lock_step\<^sup>*\<^sup>* x y \<Longrightarrow> lock_inv bs ow x \<Longrightarrow> \<exists>ow'. lock_inv bs ow' y"
  by (induction rule: rtranclp_induct) (auto dest: lock_step_inv)

text \<open>
  C8: spin locks exclude.  However the CPUs interleave their calls of \<^verbatim>\<open>acquire\<close> and
  \<^verbatim>\<open>release\<close> on a lock, at most one of them is in its critical section, and interrupts are
  off on that CPU.  None of the panics of the two routines fires: \<^verbatim>\<open>acquire\<close> finds the lock
  not held by its own CPU, \<^verbatim>\<open>release\<close> finds it held, and \<^verbatim>\<open>pop_off\<close> finds interrupts
  disabled.  A CPU that has released the lock has its interrupt setting back.
\<close>

theorem spinlock_mutex:
  assumes "\<And>i. i < length cs \<Longrightarrow> c_noff (cs ! i) = 0"
    and "lock_step\<^sup>*\<^sup>* (cs, initlock lk, replicate (length cs) Outside) (cs', lk', pcs)"
    and "i < length pcs" and "j < length pcs"
  shows "(pcs ! i = Critical \<and> pcs ! j = Critical \<longrightarrow> i = j)
    \<and> (pcs ! i = Outside \<longrightarrow> returns (acquire_begin i (cs' ! i) lk') \<and> c_sie (cs' ! i) = c_sie (cs ! i))
    \<and> (pcs ! i = Critical \<longrightarrow> \<not> c_sie (cs' ! i) \<and> returns (release_begin i lk'))
    \<and> (pcs ! i = Leaving \<longrightarrow> returns (release_end (cs' ! i) lk'))"
proof -
  have "lock_inv (map c_sie cs) None (cs, initlock lk, replicate (length cs) Outside)"
    by (rule lock_inv_start) (use assms(1) in auto)
  then obtain ow where inv: "lock_inv (map c_sie cs) ow (cs', lk', pcs)"
    using lock_reach_inv [OF assms(2)] by blast
  note I = lock_invD [OF inv assms(3)] and J = lock_invD [OF inv assms(4)]
  have len: "length cs = length pcs" using inv by (simp add: lock_inv_def)
  have d: "at_depth (c_sie (cs ! i)) (if pcs ! i = Outside then 0 else Suc 0) (cs' ! i)"
    using I(1) assms(3) len by simp
  have "i = j" if "pcs ! i = Critical" "pcs ! j = Critical" using I(2) J(2) that by (simp add: owns_def)
  moreover have "returns (acquire_begin i (cs' ! i) lk')" if "pcs ! i = Outside"
    using I(3,4,5) that by (cases ow) (auto simp: acquire_begin_def holding_def Let_def split: if_splits)
  moreover have "c_sie (cs' ! i) = c_sie (cs ! i)" if "pcs ! i = Outside"
    using d that by (simp add: at_depth_def)
  moreover have "\<not> c_sie (cs' ! i) \<and> returns (release_begin i lk')" if "pcs ! i = Critical"
    using d I(2,3,5) that by (auto simp: release_begin_def holding_def owns_def at_depth_def)
  moreover have "returns (release_end (cs' ! i) lk')" if "pcs ! i = Leaving"
    using d that pop_off_depth [of "c_sie (cs ! i)" 0 "cs' ! i"] by (auto simp: release_end_def)
  ultimately show ?thesis by blast
qed

theorem spinlock_mutex_witness:
  "\<exists>cs' lk' pcs. lock_step\<^sup>*\<^sup>* (replicate 2 \<lparr>c_noff = 0, c_intena = 0, c_sie = True\<rparr>,
       initlock \<lparr>sl_locked = 7, sl_cpu = None\<rparr>, replicate 2 Outside) (cs', lk', pcs)
     \<and> pcs = [Critical, Spinning] \<and> \<not> c_sie (cs' ! 0)"
proof -
  let ?c = "\<lparr>c_noff = 0, c_intena = 0, c_sie = True\<rparr>" and ?lk = "\<lparr>sl_locked = 7, sl_cpu = None\<rparr>"
  let ?d = "push_off ?c" and ?l = "initlock ?lk"
  have a: "lock_step ([?c, ?c], ?l, [Outside, Outside]) ([?d, ?c], ?l, [Spinning, Outside])"
    using lock_step.enter [of 0 "[Outside, Outside]" "[?c, ?c]" ?l ?d]
    by (simp add: acquire_begin_def holding_def initlock_def)
  have b: "lock_step ([?d, ?c], ?l, [Spinning, Outside]) ([?d, ?d], ?l, [Spinning, Spinning])"
    using lock_step.enter [of 1 "[Spinning, Outside]" "[?d, ?c]" ?l ?d]
    by (simp add: acquire_begin_def holding_def initlock_def)
  have c: "lock_step ([?d, ?d], ?l, [Spinning, Spinning]) ([?d, ?d], ?l\<lparr>sl_locked := 1\<rparr>, [Swapped, Spinning])"
    using lock_step.win [of 0 "[Spinning, Spinning]" ?l 0 "?l\<lparr>sl_locked := 1\<rparr>" "[?d, ?d]"]
    by (simp add: acquire_swap_def initlock_def)
  have d: "lock_step ([?d, ?d], ?l\<lparr>sl_locked := 1\<rparr>, [Swapped, Spinning])
      ([?d, ?d], acquire_end 0 (?l\<lparr>sl_locked := 1\<rparr>), [Critical, Spinning])"
    using lock_step.got [of 0 "[Swapped, Spinning]" "[?d, ?d]" "?l\<lparr>sl_locked := 1\<rparr>"] by simp
  have r: "replicate 2 x = [x, x]" for x by (simp add: numeral_2_eq_2)
  have run: "lock_step\<^sup>*\<^sup>* (replicate 2 ?c, ?l, replicate (length (replicate 2 ?c)) Outside)
      ([?d, ?d], acquire_end 0 (?l\<lparr>sl_locked := 1\<rparr>), [Critical, Spinning])"
    using a b c d unfolding length_replicate unfolding r by (meson converse_rtranclp_into_rtranclp rtranclp.rtrancl_refl)
  have n: "c_noff (replicate 2 ?c ! i) = 0" if "i < length (replicate 2 ?c)" for i using that by simp
  show ?thesis using spinlock_mutex [OF n run, of 0 0] run by auto
qed

end
