(* ===== verification/Trap.thy ===== *)
theory Trap
  imports Sysproc Virtio Spinlock
begin

text \<open>
  Traps (\<^verbatim>\<open>kernel/trap.c\<close>), the interrupt controller (\<^verbatim>\<open>kernel/plic.c\<close>), and the start of the kernel
  (\<^verbatim>\<open>kernel/start.c\<close>, \<^verbatim>\<open>kernel/main.c\<close>, \<^verbatim>\<open>userinit\<close> and \<^verbatim>\<open>forkret\<close> of \<^verbatim>\<open>kernel/proc.c\<close>) on one hart, whose control
  registers are part of the state.
\<close>

section \<open>The hart\<close>

definition SSTATUS_SPP :: uint64 where "SSTATUS_SPP = push_bit 8 1"
definition SSTATUS_SPIE :: uint64 where "SSTATUS_SPIE = push_bit 5 1"
definition SSTATUS_SIE :: uint64 where "SSTATUS_SIE = push_bit 1 1"
definition SATP_SV39 :: uint64 where "SATP_SV39 = push_bit 60 8"

definition MAKE_SATP :: "uint64 \<Rightarrow> uint64" where
  "MAKE_SATP pagetable = SATP_SV39 OR drop_bit 12 pagetable"

text \<open>\<open>plic\<close> holds what was last written to each register of the interrupt controller.\<close>

record ktrap = kvirtio +
  h_sstatus :: uint64
  h_sepc :: uint64
  h_scause :: uint64
  h_stval :: uint64
  h_stvec :: uint64
  h_satp :: uint64
  h_tp :: uint64
  h_stimecmp :: uint64
  h_time :: uint64
  plic :: "uint64 \<Rightarrow> uint"
  kernel_pagetable :: uint64
  first :: cint

text \<open>More addresses from the linker.\<close>

record traplinks = linkmap +
  lm_kernelvec :: uint64
  lm_uservec :: uint64
  lm_usertrap :: uint64

definition cpuid :: "'a ktrap_scheme \<Rightarrow> cint" where
  "cpuid s = ucast (h_tp s)"

definition intr_set :: "bool \<Rightarrow> 'a ktrap_scheme \<Rightarrow> 'a ktrap_scheme" where
  "intr_set on s = s\<lparr>h_sstatus := (if on then h_sstatus s OR SSTATUS_SIE else h_sstatus s AND NOT SSTATUS_SIE)\<rparr>"

definition trapinithart :: "'b traplinks_scheme \<Rightarrow> 'a ktrap_scheme \<Rightarrow> 'a ktrap_scheme" where
  "trapinithart L s = s\<lparr>h_stvec := lm_kernelvec L\<rparr>"

section \<open>The interrupt controller\<close>

definition UART0_IRQ :: cint where "UART0_IRQ = 10"
definition VIRTIO0_IRQ :: cint where "VIRTIO0_IRQ = 1"

definition PLIC_SENABLE :: "uint64 \<Rightarrow> uint64" where
  "PLIC_SENABLE hart = PLIC + 0x2080 + hart * 0x100"

definition PLIC_SPRIORITY :: "uint64 \<Rightarrow> uint64" where
  "PLIC_SPRIORITY hart = PLIC + 0x201000 + hart * 0x2000"

definition PLIC_SCLAIM :: "uint64 \<Rightarrow> uint64" where
  "PLIC_SCLAIM hart = PLIC + 0x201004 + hart * 0x2000"

definition plic_write :: "uint64 \<Rightarrow> uint \<Rightarrow> 'a ktrap_scheme \<Rightarrow> 'a ktrap_scheme" where
  "plic_write a v s = s\<lparr>plic := (plic s)(a := v)\<rparr>"

definition plicinit :: "'a ktrap_scheme \<Rightarrow> 'a ktrap_scheme" where
  "plicinit s = plic_write (PLIC + scast VIRTIO0_IRQ * 4) 1 (plic_write (PLIC + scast UART0_IRQ * 4) 1 s)"

definition plicinithart :: "'a ktrap_scheme \<Rightarrow> 'a ktrap_scheme" where
  "plicinithart s =
     (let hart = scast (cpuid s) in
      plic_write (PLIC_SPRIORITY hart) 0
        (plic_write (PLIC_SENABLE hart) (push_bit (unat UART0_IRQ) 1 OR push_bit (unat VIRTIO0_IRQ) 1) s))"

text \<open>The claim register is read from the device: the answer is part of what the devices show at this moment.\<close>

record devices =
  dv_claim :: "uint64 \<Rightarrow> uint"
  dv_tx_idle :: bool
  dv_istat :: uint

definition plic_claim :: "devices \<Rightarrow> 'a ktrap_scheme \<Rightarrow> cint" where
  "plic_claim dv s = dv_claim dv (PLIC_SCLAIM (scast (cpuid s)))"

definition plic_complete :: "cint \<Rightarrow> 'a ktrap_scheme \<Rightarrow> 'a ktrap_scheme" where
  "plic_complete irq s = plic_write (PLIC_SCLAIM (scast (cpuid s))) irq s"

section \<open>Interrupts\<close>

definition long_slot :: "uint64 \<Rightarrow> slot" where
  "long_slot v = \<lparr>slot_word = v, slot_str = []\<rparr>"

text \<open>\<open>me\<close> is the process the hart runs, if any: \<^verbatim>\<open>wakeup\<close> passes over it.\<close>

definition clockintr :: "nat option \<Rightarrow> 'a ktrap_scheme \<Rightarrow> 'a ktrap_scheme" where
  "clockintr me s =
     (let s = (if cpuid s = 0 then wakeup me ChanTicks (s\<lparr>ticks := ticks s + 1\<rparr>) else s)
      in s\<lparr>h_stimecmp := h_time s + 1000000\<rparr>)"

definition devintr :: "devices \<Rightarrow> nat option \<Rightarrow> 'a ktrap_scheme \<Rightarrow> (cint \<times> 'a ktrap_scheme) kres" where
  "devintr dv me s =
     (if h_scause s = 0x8000000000000009 then
        let irq = plic_claim dv s in
        kbind (if irq = UART0_IRQ then Ret (uartintr (dv_tx_idle dv) s)
               else if irq = VIRTIO0_IRQ then virtio_disk_intr (dv_istat dv) s
               else if irq \<noteq> 0 then Ret (printk (''unexpected interrupt irq=%d'' @ nl) [int_slot irq] s)
               else Ret s) (\<lambda>s.
        Ret (1, if irq \<noteq> 0 then plic_complete irq s else s))
      else if h_scause s = 0x8000000000000005 then Ret (2, clockintr me s)
      else Ret (0, s))"

section \<open>Traps from user space\<close>

text \<open>A trap returns to user space, sleeps in a system call, yields the CPU, or ends the process.\<close>

datatype trap_out = TrapReturn uint64 | TrapWaits sys_out | TrapYields | TrapGone

definition tf_set :: "nat \<Rightarrow> uint64 \<Rightarrow> uint64 \<Rightarrow> 'a kproc_scheme \<Rightarrow> 'a kproc_scheme" where
  "tf_set me fld v s = s\<lparr>mem := st64 (mem s) (p_trapframe (pget me s) + fld) v\<rparr>"

definition tf_get :: "nat \<Rightarrow> uint64 \<Rightarrow> 'a kproc_scheme \<Rightarrow> uint64" where
  "tf_get me fld s = ld64 (mem s) (p_trapframe (pget me s) + fld)"

definition prepare_return :: "'b traplinks_scheme \<Rightarrow> nat \<Rightarrow> 'a ktrap_scheme \<Rightarrow> 'a ktrap_scheme" where
  "prepare_return L me s =
     (let s = intr_set False s;
          s = s\<lparr>h_stvec := TRAMPOLINE + (lm_uservec L - lm_trampoline L)\<rparr>;
          s = tf_set me TF_kernel_satp (h_satp s) s;
          s = tf_set me TF_kernel_sp (p_kstack (pget me s) + PGSIZE) s;
          s = tf_set me TF_kernel_trap (lm_usertrap L) s;
          s = tf_set me TF_kernel_hartid (h_tp s) s;
          s = s\<lparr>h_sstatus := (h_sstatus s AND NOT SSTATUS_SPP) OR SSTATUS_SPIE\<rparr>
      in s\<lparr>h_sepc := tf_get me TF_epc s\<rparr>)"

definition usertrap_return :: "'b traplinks_scheme \<Rightarrow> nat \<Rightarrow> 'a ktrap_scheme \<Rightarrow> trap_out \<times> 'a ktrap_scheme" where
  "usertrap_return L me s = (TrapReturn (MAKE_SATP (p_pagetable (pget me s))), prepare_return L me s)"

text \<open>From the second test of \<^verbatim>\<open>killed\<close> on.\<close>

definition usertrap_end ::
  "(uint64 \<Rightarrow> cint \<Rightarrow> 'a ktrap_scheme \<Rightarrow> 'a ktrap_scheme kres) \<Rightarrow> 'b traplinks_scheme \<Rightarrow> nat \<Rightarrow> cint \<Rightarrow> 'a ktrap_scheme
     \<Rightarrow> (trap_out \<times> 'a ktrap_scheme) kres" where
  "usertrap_end call L me which_dev s =
     (if killed me s \<noteq> 0 then kbind (kexit_files (lm_end L) me (-1) s) (\<lambda>s. Ret (TrapGone, s))
      else kbind (dispatch_signals call me s) (\<lambda>s.
           if which_dev = 2 then Ret (TrapYields, yield me s) else Ret (usertrap_return L me s)))"

definition links :: "'b traplinks_scheme \<Rightarrow> linkmap" where
  "links L = linkmap.truncate L"

definition usertrap ::
  "(uint64 \<Rightarrow> cint \<Rightarrow> 'a ktrap_scheme \<Rightarrow> 'a ktrap_scheme kres) \<Rightarrow> 'b traplinks_scheme \<Rightarrow> devices \<Rightarrow> uchar list \<Rightarrow> nat
     \<Rightarrow> 'a ktrap_scheme \<Rightarrow> (trap_out \<times> 'a ktrap_scheme) kres" where
  "usertrap call L dv junk me s =
     (if h_sstatus s AND SSTATUS_SPP \<noteq> 0 then Panic ''usertrap: not from user mode''
      else let s = s\<lparr>h_stvec := lm_kernelvec L\<rparr>;
               s = tf_set me TF_epc (h_sepc s) s in
      if h_scause s = 8 then
        if killed me s \<noteq> 0 then kbind (kexit_files (lm_end L) me (-1) s) (\<lambda>s. Ret (TrapGone, s))
        else let s = intr_set True (tf_set me TF_epc (tf_get me TF_epc s + 4) s) in
             kbind (syscall (links L) me junk s) (\<lambda>(r, s).
             case r of SysRet _ \<Rightarrow> usertrap_end call L me 0 s
             | SysGone \<Rightarrow> Ret (TrapGone, s)
             | _ \<Rightarrow> Ret (TrapWaits r, s))
      else kbind (devintr dv (Some me) s) (\<lambda>(which_dev, s).
        if which_dev \<noteq> 0 then usertrap_end call L me which_dev s
        else let p = pget me s in
          kbind (if h_scause s = 15 \<or> h_scause s = 13
                 then vmfault (lm_end L) (p_sz p) (p_pagetable p) (p_pagetable p) (h_stval s) s
                 else Ret (0, s)) (\<lambda>(pa, s).
          usertrap_end call L me 0
            (if pa \<noteq> 0 then s
             else let s = printk (''usertrap(): unexpected scause 0x%lx pid=%d'' @ nl) [long_slot (h_scause s), int_slot (p_pid p)] s;
                      s = printk (''            sepc=0x%lx stval=0x%lx'' @ nl) [long_slot (h_sepc s), long_slot (h_stval s)] s
                  in setkilled me s))))"

section \<open>Traps from the kernel\<close>

text \<open>With \<^verbatim>\<open>yield\<close> of a process in between when the result says so.\<close>

definition kerneltrap :: "devices \<Rightarrow> nat option \<Rightarrow> 'a ktrap_scheme \<Rightarrow> (bool \<times> 'a ktrap_scheme) kres" where
  "kerneltrap dv me s =
     (let sepc = h_sepc s; sstatus = h_sstatus s in
      if sstatus AND SSTATUS_SPP = 0 then Panic ''kerneltrap: not from supervisor mode''
      else if h_sstatus s AND SSTATUS_SIE \<noteq> 0 then Panic ''kerneltrap: interrupts enabled''
      else kbind (devintr dv me s) (\<lambda>(which_dev, s).
        if which_dev = 0 then Panic ''kerneltrap''
        else let yields = (which_dev = 2 \<and> me \<noteq> None);
                 s = (case me of Some i \<Rightarrow> if which_dev = 2 then yield i s else s | None \<Rightarrow> s)
             in Ret (yields, s\<lparr>h_sepc := sepc, h_sstatus := sstatus\<rparr>)))"

section \<open>Starting the kernel\<close>

text \<open>The registers of machine mode that \<^verbatim>\<open>start\<close> and \<^verbatim>\<open>timerinit\<close> set.\<close>

record mregs =
  m_mstatus :: uint64
  m_mepc :: uint64
  m_satp :: uint64
  m_medeleg :: uint64
  m_mideleg :: uint64
  m_sie :: uint64
  m_pmpaddr0 :: uint64
  m_pmpcfg0 :: uint64
  m_mie :: uint64
  m_menvcfg :: uint64
  m_mcounteren :: uint64
  m_stimecmp :: uint64
  m_time :: uint64
  m_mhartid :: uint64
  m_tp :: uint64

definition timerinit :: "mregs \<Rightarrow> mregs" where
  "timerinit m = m\<lparr>m_mie := m_mie m OR push_bit 5 1, m_menvcfg := m_menvcfg m OR push_bit 63 1,
     m_mcounteren := m_mcounteren m OR 2, m_stimecmp := m_time m + 1000000\<rparr>"

definition MSTATUS_MPP_MASK :: uint64 where "MSTATUS_MPP_MASK = push_bit 11 3"
definition MSTATUS_MPP_S :: uint64 where "MSTATUS_MPP_S = push_bit 11 1"

text \<open>\<open>entry_main\<close> is the address of \<^verbatim>\<open>main\<close>, where the \<^verbatim>\<open>mret\<close> at the end goes.\<close>

definition start :: "uint64 \<Rightarrow> mregs \<Rightarrow> mregs" where
  "start entry_main m =
     (let m = m\<lparr>m_mstatus := (m_mstatus m AND NOT MSTATUS_MPP_MASK) OR MSTATUS_MPP_S, m_mepc := entry_main, m_satp := 0,
            m_medeleg := 0xffff, m_mideleg := 0xffff, m_sie := m_sie m OR push_bit 9 1 OR push_bit 5 1,
            m_pmpaddr0 := 0x3fffffffffffff, m_pmpcfg0 := 0xf\<rparr>;
          m = timerinit m
      in m\<lparr>m_tp := scast (ucast (m_mhartid m) :: cint)\<rparr>)"

definition userinit :: "linkmap \<Rightarrow> 'a kfile_scheme \<Rightarrow> 'a kfile_scheme kres" where
  "userinit L s =
     kbind (allocproc L s) (\<lambda>(r, s).
     case r of None \<Rightarrow> Panic ''kerneltrap''
     | Some i \<Rightarrow>
         kbind (namei i [SLASH] (s\<lparr>initproc := Some i\<rparr>)) (\<lambda>(ip, s).
         Ret (pset i (\<lambda>p. p\<lparr>p_cwd := ip, p_state := RUNNABLE\<rparr>) s)))"

definition kvminithart :: "'a ktrap_scheme \<Rightarrow> 'a ktrap_scheme" where
  "kvminithart s = s\<lparr>h_satp := MAKE_SATP (kernel_pagetable s)\<rparr>"

text \<open>\<^verbatim>\<open>main\<close> on hart 0 up to \<^verbatim>\<open>scheduler\<close>, and on another hart once \<^verbatim>\<open>started\<close> is set.\<close>

definition main0 :: "'b traplinks_scheme \<Rightarrow> (nat \<Rightarrow> uint) \<Rightarrow> 'a ktrap_scheme \<Rightarrow> 'a ktrap_scheme kres" where
  "main0 L reg s =
     (let s = consoleinit_devsw s;
          s = printk nl [] (printk (''xv6 kernel is booting'' @ nl) [] (printk nl [] s)) in
      kbind (kinit (lm_end L) s) (\<lambda>s.
      kbind (kvmmake (lm_etext L) (lm_trampoline L) s) (\<lambda>(kpt, s).
      let s = kvminithart (s\<lparr>kernel_pagetable := kpt\<rparr>);
          s = shmem_init (seminit (procinit s));
          s = plicinithart (plicinit (trapinithart L s));
          s = iinit (binit s) in
      kbind (virtio_disk_init reg s) (userinit (links L)))))"

definition main_other :: "'b traplinks_scheme \<Rightarrow> 'a ktrap_scheme \<Rightarrow> 'a ktrap_scheme" where
  "main_other L s =
     (let s = printk (''hart %d starting'' @ nl) [int_slot (cpuid s)] s
      in plicinithart (trapinithart L (kvminithart s)))"

text \<open>\<^verbatim>\<open>forkret\<close>: the first process starts the file system and runs \<^verbatim>\<open>/init\<close>.\<close>

definition INIT :: "uchar list" where "INIT = [47, 105, 110, 105, 116]"

definition forkret :: "'b traplinks_scheme \<Rightarrow> nat \<Rightarrow> 'a ktrap_scheme \<Rightarrow> (trap_out \<times> 'a ktrap_scheme) kres" where
  "forkret L me s =
     kbind (if first s \<noteq> 0
            then kbind (fsinit me ROOTDEV s) (\<lambda>s.
                 kbind (kexec (links L) me INIT [INIT] (s\<lparr>first := 0\<rparr>)) (\<lambda>(r, s).
                 let s = set_a0 me (scast r) s in
                 if tf_get me (TF_a 0) s = -1 then Panic ''exec'' else Ret s))
            else Ret s) (\<lambda>s.
     Ret (usertrap_return L me s))"

end
