(* ===== verification/FsFrame.thy ===== *)
theory FsFrame
  imports Sysfile
begin

text \<open>
  What the file system leaves alone.  A view \<open>g\<close> of the kernel's state is blind to the file system when the cache,
  the log, the inode table, the superblock, console output and being woken up do not show in it; then no
  operation of \<^verbatim>\<open>kernel/fs.c\<close> changes it.
\<close>

section \<open>What holds of every result\<close>

text \<open>\<open>every P r\<close>: if the routine returns, its result satisfies \<open>P\<close>.\<close>

definition every :: "('r \<Rightarrow> bool) \<Rightarrow> 'r kres \<Rightarrow> bool" where
  "every P r \<longleftrightarrow> (\<forall>x. r = Ret x \<longrightarrow> P x)"

lemma every_simps [simp]: "every P (Ret x) \<longleftrightarrow> P x" "every P (Panic m)" "every P (Block c)"
  by (simp_all add: every_def)

lemma every_kbind [simp]: "every P (kbind r f) \<longleftrightarrow> every (\<lambda>x. every P (f x)) r"
  by (cases r) simp_all

lemma everyI: "(\<And>x. r = Ret x \<Longrightarrow> P x) \<Longrightarrow> every P r"
  by (simp add: every_def)

lemma everyD: "every P r \<Longrightarrow> r = Ret x \<Longrightarrow> P x"
  by (simp add: every_def)

lemma every_mono: "every P r \<Longrightarrow> (\<And>x. P x \<Longrightarrow> Q x) \<Longrightarrow> every Q r"
  by (simp add: every_def)

section \<open>Blind views\<close>

definition fs_blind :: "('a kfs_scheme \<Rightarrow> 'b) \<Rightarrow> bool" where
  "fs_blind g \<longleftrightarrow> unlogged g \<and> (\<forall>s f. g (itable_update f s) = g s) \<and> (\<forall>s f. g (sb_update f s) = g s)"

text \<open>
  One rule per operation, in the form in which it serves in the proofs for its callers: whatever holds of all states
  that look like the one before holds of the result.
\<close>

named_theorems blind \<open>effects of the operations of the file system on a blind view\<close>

lemma fs_blindD:
  assumes "fs_blind g"
  shows "unlogged g" "g (itable_update f s) = g s" "g (sb_update h s) = g s" "g (iset ip k s) = g s"
  using assms by (simp_all add: fs_blind_def iset_def)

lemma blind_steps:
  assumes "fs_blind g"
  shows "g (bdata i k s) = g s" "g (printk fm as s) = g s" "g (wakeup w c s) = g s" "g (bufset i f s) = g s" "g (iset ip h s) = g s"
  by (simp_all add: unlogged_steps [OF fs_blindD(1) [OF assms]] fs_blindD(4) [OF assms])

lemma blind_log [blind]:
  assumes "fs_blind g" and "g s = g z"
  shows "(\<And>i s'. g s' = g z \<Longrightarrow> P (i, s')) \<Longrightarrow> every P (bread me d b s)"
    "(\<And>s'. g s' = g z \<Longrightarrow> Q s') \<Longrightarrow> every Q (brelse me i s)" "(\<And>s'. g s' = g z \<Longrightarrow> Q s') \<Longrightarrow> every Q (log_write i s)"
    "(\<And>s'. g s' = g z \<Longrightarrow> Q s') \<Longrightarrow> every Q (begin_now me s)" "(\<And>s'. g s' = g z \<Longrightarrow> Q s') \<Longrightarrow> every Q (end_op me s)"
proof -
  note u = fs_blindD(1) [OF assms(1)]
  show "(\<And>i s'. g s' = g z \<Longrightarrow> P (i, s')) \<Longrightarrow> every P (bread me d b s)"
    using unlogged_bread [OF u, of me d b s] assms(2) by (auto intro!: everyI)
  show "(\<And>s'. g s' = g z \<Longrightarrow> Q s') \<Longrightarrow> every Q (brelse me i s)" "(\<And>s'. g s' = g z \<Longrightarrow> Q s') \<Longrightarrow> every Q (log_write i s)"
    "(\<And>s'. g s' = g z \<Longrightarrow> Q s') \<Longrightarrow> every Q (begin_now me s)" "(\<And>s'. g s' = g z \<Longrightarrow> Q s') \<Longrightarrow> every Q (end_op me s)"
    using unlogged_brelse [OF u, of me i s] unlogged_log_write [OF u, of i s] unlogged_begin [OF u, of me s]
      unlogged_end_op [OF u, of me s] assms(2) by (auto intro!: everyI)
qed

text \<open>The same for an operation built from these: it is enough to show it for one property.\<close>

lemma every_view: "every (\<lambda>s'. g s' = g z) r \<Longrightarrow> (\<And>s'. g s' = g z \<Longrightarrow> Q s') \<Longrightarrow> every Q r"
  by (rule every_mono)

lemma every_view2: "every (\<lambda>(x, s'). g s' = g z) r \<Longrightarrow> (\<And>x s'. g s' = g z \<Longrightarrow> P (x, s')) \<Longrightarrow> every P r"
  by (auto simp: every_def)

lemma blind_bzero [blind]:
  assumes b: "fs_blind g" and s: "g s = g z"
  shows "(\<And>s'. g s' = g z \<Longrightarrow> Q s') \<Longrightarrow> every Q (bzero me d x s)"
  by (rule every_view [of g z]) (auto simp: bzero_def blind_steps [OF b] s intro!: blind_log [OF b])

lemma blind_balloc [blind]:
  assumes b: "fs_blind g" and s: "g s = g z"
  shows "(\<And>x s'. g s' = g z \<Longrightarrow> P (x, s')) \<Longrightarrow> every P (balloc me d s)"
proof (rule every_view2 [of g z])
  have "every (\<lambda>(x, s'). g s' = g z) (balloc_loop me d bs s)" if "g s = g z" for bs s
    using that
    by (induction bs arbitrary: s)
      (auto simp: blind_steps [OF b] split: option.splits intro!: blind_log [OF b] blind_bzero [OF b])
  then show "every (\<lambda>(x, s'). g s' = g z) (balloc me d s)" using s by (simp add: balloc_def)
qed

lemma blind_bfree [blind]:
  assumes b: "fs_blind g" and s: "g s = g z"
  shows "(\<And>s'. g s' = g z \<Longrightarrow> Q s') \<Longrightarrow> every Q (bfree me d x s)"
  by (rule every_view [of g z]) (auto simp: bfree_def Let_def blind_steps [OF b] s intro!: blind_log [OF b])

lemma blind_iget [blind]:
  assumes b: "fs_blind g" and s: "g s = g z"
  shows "(\<And>x s'. g s' = g z \<Longrightarrow> P (x, s')) \<Longrightarrow> every P (iget d n s)"
  by (rule every_view2 [of g z]) (auto simp: iget_def blind_steps [OF b] s split: option.splits)

lemma blind_ialloc [blind]:
  assumes b: "fs_blind g" and s: "g s = g z"
  shows "(\<And>x s'. g s' = g z \<Longrightarrow> P (x, s')) \<Longrightarrow> every P (ialloc me d ty s)"
proof (rule every_view2 [of g z])
  have "every (\<lambda>(x, s'). g s' = g z) (ialloc_loop me d ty ns s)" if "g s = g z" for ns s
    using that
    by (induction ns arbitrary: s)
      (auto simp: blind_steps [OF b] Let_def intro!: blind_log [OF b] blind_iget [OF b])
  then show "every (\<lambda>(x, s'). g s' = g z) (ialloc me d ty s)" using s by (simp add: ialloc_def)
qed

lemma blind_ilock [blind]:
  assumes b: "fs_blind g" and s: "g s = g z"
  shows "(\<And>s'. g s' = g z \<Longrightarrow> Q s') \<Longrightarrow> every Q (ilock me p s)" "(\<And>s'. g s' = g z \<Longrightarrow> Q s') \<Longrightarrow> every Q (iunlock me p s)"
    "(\<And>s'. g s' = g z \<Longrightarrow> Q s') \<Longrightarrow> every Q (iupdate me ip s)"
  by (auto simp: ilock_def iunlock_def iupdate_def acquiresleep_def releasesleep_def Let_def blind_steps [OF b] s
      split: option.splits intro!: blind_log [OF b])

lemma blind_bmap [blind]:
  assumes b: "fs_blind g" and s: "g s = g z"
  shows "(\<And>x s'. g s' = g z \<Longrightarrow> P (x, s')) \<Longrightarrow> every P (bmap me ip bn s)"
  by (auto simp: bmap_def Let_def blind_steps [OF b] s intro!: blind_log [OF b, where z = z] blind_balloc [OF b, where z = z])

lemma blind_itrunc [blind]:
  assumes b: "fs_blind g" and s: "g s = g z"
  shows "(\<And>s'. g s' = g z \<Longrightarrow> Q s') \<Longrightarrow> every Q (itrunc me ip s)"
proof -
  have d: "every (\<lambda>s'. g s' = g z) (itrunc_direct me ip is s)" if "g s = g z" for "is" s
    using that by (induction "is" arbitrary: s) (auto simp: blind_steps [OF b] intro!: blind_bfree [OF b])
  have i: "every (\<lambda>s'. g s' = g z) (itrunc_indirect me ip bp is s)" if "g s = g z" for bp "is" s
    using that by (induction "is" arbitrary: s) (auto simp: Let_def blind_steps [OF b] intro!: blind_bfree [OF b])
  assume Q: "\<And>s'. g s' = g z \<Longrightarrow> Q s'"
  show "every Q (itrunc me ip s)"
    by (auto simp: itrunc_def blind_steps [OF b] Q intro!: every_view [OF d [OF s]] every_view [OF i] blind_log [OF b] blind_bfree [OF b] blind_ilock [OF b])
qed

lemma blind_iput [blind]:
  assumes b: "fs_blind g" and s: "g s = g z"
  shows "(\<And>s'. g s' = g z \<Longrightarrow> Q s') \<Longrightarrow> every Q (iput me ip s)"
  by (auto simp: iput_def acquiresleep_def releasesleep_def Let_def blind_steps [OF b] s intro!: blind_itrunc [OF b] blind_ilock [OF b])

lemma blind_iunlockput [blind]:
  assumes b: "fs_blind g" and s: "g s = g z"
  shows "(\<And>s'. g s' = g z \<Longrightarrow> Q s') \<Longrightarrow> every Q (iunlockput me ip s)"
  by (auto simp: iunlockput_def s intro!: blind_iput [OF b] blind_ilock [OF b])

section \<open>Contents, directories and paths\<close>

definition blind_sink :: "('a kfs_scheme \<Rightarrow> 'b) \<Rightarrow> ('l, 'a) sink \<Rightarrow> bool" where
  "blind_sink g snk \<longleftrightarrow> (\<forall>dst bs l s. every (\<lambda>(r, l, s'). g s' = g s) (snk dst bs (l, s)))"

definition blind_source :: "('a kfs_scheme \<Rightarrow> 'b) \<Rightarrow> 'a source \<Rightarrow> bool" where
  "blind_source g src \<longleftrightarrow> (\<forall>a n s. every (\<lambda>(r, bs, s'). g s' = g s) (src a n s))"

lemma blind_local [simp]: "blind_sink g local_sink" "blind_source g (local_source bs)"
  by (simp_all add: blind_sink_def blind_source_def local_sink_def local_source_def)

lemma every_view3: "every (\<lambda>(x, y, s'). g s' = g z) r \<Longrightarrow> (\<And>x y s'. g s' = g z \<Longrightarrow> P (x, y, s')) \<Longrightarrow> every P r"
  by (auto simp: every_def)

lemma blind_sinkD:
  assumes "blind_sink g snk" and "g s = g z"
  shows "(\<And>x y s'. g s' = g z \<Longrightarrow> P (x, y, s')) \<Longrightarrow> every P (snk dst bs (l, s))"
  using assms unfolding blind_sink_def every_def by fastforce

lemma blind_sourceD:
  assumes "blind_source g src" and "g s = g z"
  shows "(\<And>x y s'. g s' = g z \<Longrightarrow> P (x, y, s')) \<Longrightarrow> every P (src a n s)"
  using assms unfolding blind_source_def every_def by fastforce

lemma blind_readi [blind]:
  assumes b: "fs_blind g" and k: "blind_sink g snk" and s: "g s = g z"
  shows "(\<And>x y s'. g s' = g z \<Longrightarrow> P (x, y, s')) \<Longrightarrow> every P (readi me snk ip dst pos n (l, s))"
proof -
  have L: "every (\<lambda>(x, y, s'). g s' = g z) (readi_loop me snk ip dst pos n tot (l, s))" if "g s = g z" for dst pos n tot l s
    using that
  proof (induction "unat n - unat tot" arbitrary: dst pos tot l s rule: less_induct)
    case less
    have IH: "every (\<lambda>(x, y, s'). g s' = g z) (readi_loop me snk ip dst' pos' n (tot + chunk n tot pos) (l', s'))"
      if "g s' = g z" "tot < n" for dst' pos' l' s'
      by (rule less(1) [OF _ that(1)]) (use that chunk_less in simp)
    show ?case
      by (subst readi_loop.simps)
        (auto simp: less(2) intro!: blind_bmap [OF b, where z = z] blind_log [OF b, where z = z] blind_sinkD [OF k, where z = z] IH)
  qed
  assume "\<And>x y s'. g s' = g z \<Longrightarrow> P (x, y, s')"
  then show ?thesis using every_view3 [OF L [OF s]] s by (auto simp: readi_def Let_def)
qed

lemma blind_writei [blind]:
  assumes b: "fs_blind g" and k: "blind_source g src" and s: "g s = g z"
  shows "(\<And>x s'. g s' = g z \<Longrightarrow> P (x, s')) \<Longrightarrow> every P (writei me src ip a pos n s)"
proof -
  have L: "every (\<lambda>(x, y, s'). g s' = g z) (writei_loop me src ip a pos n tot s)" if "g s = g z" for a pos n tot s
    using that
  proof (induction "unat n - unat tot" arbitrary: a pos tot s rule: less_induct)
    case less
    have IH: "every (\<lambda>(x, y, s'). g s' = g z) (writei_loop me src ip a' pos' n (tot + chunk n tot pos) s')"
      if "g s' = g z" "tot < n" for a' pos' s'
      by (rule less(1) [OF _ that(1)]) (use that chunk_less in simp)
    show ?case
      by (subst writei_loop.simps)
        (auto simp: less(2) Let_def blind_steps [OF b] intro!: blind_bmap [OF b, where z = z] blind_log [OF b, where z = z] blind_sourceD [OF k, where z = z] IH)
  qed
  assume "\<And>x s'. g s' = g z \<Longrightarrow> P (x, s')"
  then show ?thesis using s
    by (auto simp: writei_def Let_def blind_steps [OF b] intro!: every_view3 [OF L] blind_ilock [OF b, where z = z])
qed

lemma blind_dirlookup [blind]:
  assumes b: "fs_blind g" and s: "g s = g z"
  shows "(\<And>x s'. g s' = g z \<Longrightarrow> P (x, s')) \<Longrightarrow> every P (dirlookup me dp name s)"
proof -
  have L: "every (\<lambda>(x, s'). g s' = g z) (dirlookup_loop me dp name ps de s)" if "g s = g z" for ps de s
    using that
    by (induction ps arbitrary: de s)
      (auto simp: read_dirent_def Let_def intro!: blind_readi [OF b, where z = z] blind_iget [OF b, where z = z])
  assume "\<And>x s'. g s' = g z \<Longrightarrow> P (x, s')"
  then show ?thesis using every_view2 [OF L [OF s]] by (simp add: dirlookup_def)
qed

lemma blind_dirlink [blind]:
  assumes b: "fs_blind g" and s: "g s = g z"
  shows "(\<And>x s'. g s' = g z \<Longrightarrow> P (x, s')) \<Longrightarrow> every P (dirlink me dp name inum s)"
proof -
  have L: "every (\<lambda>(x, s'). g s' = g z) (dirlink_loop me dp ps past de s)" if "g s = g z" for ps past de s
    using that
    by (induction ps arbitrary: past de s) (auto simp: read_dirent_def intro!: blind_readi [OF b, where z = z])
  assume P: "\<And>x s'. g s' = g z \<Longrightarrow> P (x, s')"
  show ?thesis
    by (auto simp: dirlink_def Let_def s P split: option.splits
        intro!: blind_dirlookup [OF b, where z = z] blind_iput [OF b, where z = z] blind_writei [OF b, where z = z] every_view2 [OF L])
qed

lemma blind_namex [blind]:
  assumes b: "fs_blind g" and s: "g s = g z"
  shows "(\<And>x y s'. g s' = g z \<Longrightarrow> P (x, y, s')) \<Longrightarrow> every P (namex me path parent name s)"
proof -
  have L: "every (\<lambda>(x, y, s'). g s' = g z) (namex_loop me parent ip path name s)" if "g s = g z" for parent ip path name s
    using that
  proof (induction "length path" arbitrary: parent ip path name s rule: less_induct)
    case less
    show ?case
      by (subst namex_loop.simps)
        (auto simp: less(2) split: option.splits dest!: skipelem_shorter
          intro!: blind_iput [OF b, where z = z] blind_ilock [OF b, where z = z] blind_iunlockput [OF b, where z = z]
            blind_dirlookup [OF b, where z = z] less(1))
  qed
  assume P: "\<And>x y s'. g s' = g z \<Longrightarrow> P (x, y, s')"
  show ?thesis
    by (auto simp: namex_def idup_def s P blind_steps [OF b] intro!: blind_iget [OF b, where z = z] every_view3 [OF L])
qed

lemma blind_namei [blind]:
  assumes b: "fs_blind g" and s: "g s = g z"
  shows "(\<And>x s'. g s' = g z \<Longrightarrow> P (x, s')) \<Longrightarrow> every P (namei me path s)"
    "(\<And>x y s'. g s' = g z \<Longrightarrow> R (x, y, s')) \<Longrightarrow> every R (nameiparent me path name s)"
  by (auto simp: namei_def nameiparent_def s intro!: blind_namex [OF b, where z = z])

lemma blind_create [blind]:
  assumes b: "fs_blind g" and s: "g s = g z"
  shows "(\<And>x s'. g s' = g z \<Longrightarrow> P (x, s')) \<Longrightarrow> every P (create me path ty major minor s)"
  by (auto simp: create_def create_fail_def link_dots_def s blind_steps [OF b] split: option.splits
      intro!: blind_namei [OF b, where z = z] blind_ilock [OF b, where z = z] blind_dirlookup [OF b, where z = z]
        blind_iunlockput [OF b, where z = z] blind_ialloc [OF b, where z = z] blind_dirlink [OF b, where z = z])

section \<open>The process table while files are closed\<close>

text \<open>What a wakeup does not show of a process: whether it is asleep or runnable.\<close>

definition awake :: "procstate \<Rightarrow> procstate" where
  "awake st = (if st = SLEEPING then RUNNABLE else st)"

definition tab_view :: "'a kproc_scheme \<Rightarrow> (cint \<times> nat option \<times> procstate) list \<times> cint \<times> nat option" where
  "tab_view s = (map (\<lambda>p. (p_pid p, p_parent p, awake (p_state p))) (procs s), nextpid s, initproc s)"

lemma tab_view_wakeup [simp]: "tab_view (wakeup w c s) = tab_view s"
  by (auto simp: tab_view_def wakeup_def wake_one_def awake_def intro!: nth_equalityI)

lemma tab_view_updates [simp]:
  "tab_view (bufs_update f1 b) = tab_view b" "tab_view (lru_update f2 b) = tab_view b" "tab_view (disk_update f3 b) = tab_view b"
  "tab_view (dwrites_update f4 b) = tab_view b" "tab_view (log_update f5 l) = tab_view l" "tab_view (uart_tx_update f6 c) = tab_view c"
  "tab_view (itable_update f7 i) = tab_view i" "tab_view (sb_update f8 i) = tab_view i" "tab_view (fset f h x) = tab_view x"
  "tab_view (pipeset pi q y) = tab_view y"
  by (simp_all add: tab_view_def fset_def pipeset_def)

lemma tab_view_blind: "fs_blind tab_view"
  by (simp add: fs_blind_def unlogged_def)

lemma tab_view_pset:
  assumes "\<And>p. p_pid (f p) = p_pid p" and "\<And>p. p_parent (f p) = p_parent p" and "\<And>p. p_state (f p) = p_state p"
  shows "tab_view (pset i f s) = tab_view s"
  using assms by (cases "i < length (procs s)") (simp_all add: tab_view_def pset_def map_update list_update_same_conv list_update_beyond)

lemma tab_view_kfree:
  assumes "tab_view s = tab_view z"
  shows "(\<And>s'. tab_view s' = tab_view z \<Longrightarrow> Q s') \<Longrightarrow> every Q (kfree kend pa s)"
  using assms by (simp add: kfree_def Let_def tab_view_def)

lemma tab_view_fileclose:
  fixes s z :: "'a kfile_scheme"
  assumes "tab_view s = tab_view z"
  shows "(\<And>s'. tab_view s' = tab_view z \<Longrightarrow> Q s') \<Longrightarrow> every Q (fileclose kend me f s)"
  using assms
  by (auto simp: fileclose_def pipeclose_def Let_def
      intro!: blind_log [OF tab_view_blind, where z = z] blind_iput [OF tab_view_blind, where z = z] tab_view_kfree [where z = z])

lemma tab_view_neutral:
  assumes "\<And>me s. every (\<lambda>s'. tab_view s' = tab_view s) (f me s)"
  shows "table_neutral f"
  unfolding table_neutral_def
proof (intro allI impI)
  fix me s s'
  assume "f me s = Ret s'"
  then have v: "tab_view s' = tab_view s" by (rule everyD [OF assms])
  let ?F = "\<lambda>p. (p_pid p, p_parent p, awake (p_state p))"
  have m: "map ?F (procs s') = map ?F (procs s)" using v by (simp add: tab_view_def)
  then have l: "length (procs s') = length (procs s)" by (rule map_eq_imp_length_eq)
  have e: "?F (pget i s') = ?F (pget i s)" if "i < length (procs s)" for i
    using that l nth_map [of i "procs s" ?F] nth_map [of i "procs s'" ?F] unfolding m by simp
  have "alike (pget i s) (pget i s') \<and> (p_state (pget i s) \<notin> {SLEEPING, RUNNABLE} \<longrightarrow> p_state (pget i s') = p_state (pget i s))"
    if "i < length (procs s)" for i
    using e [OF that] by (auto simp: alike_def awake_def split: if_splits)
  then show "length (procs s') = length (procs s) \<and> nextpid s' = nextpid s \<and> initproc s' = initproc s \<and>
     (\<forall>i < length (procs s). alike (pget i s) (pget i s')
        \<and> (p_state (pget i s) \<notin> {SLEEPING, RUNNABLE} \<longrightarrow> p_state (pget i s') = p_state (pget i s)))"
    using v l by (simp add: tab_view_def)
qed

lemma fork_dup_neutral: "table_neutral fork_dup_refs"
proof (rule tab_view_neutral)
  fix me and s :: "'a kfile_scheme"
  have D: "every (\<lambda>s'. tab_view s' = tab_view z) (dup_files fs s)" if "tab_view s = tab_view z" for fs and s z :: "'a kfile_scheme"
    using that by (induction fs s rule: dup_files.induct) (auto simp: filedup_def)
  show "every (\<lambda>s'. tab_view s' = tab_view s) (fork_dup_refs me s)"
    by (auto simp: fork_dup_refs_def idup_def iset_def intro!: every_view [OF D [OF refl]])
qed

lemma exit_close_neutral: "table_neutral (exit_close_refs kend)"
proof (rule tab_view_neutral)
  fix me and s :: "'a kfile_scheme"
  have L: "every (\<lambda>s'. tab_view s' = tab_view z) (exit_close_files kend me fds s)" if "tab_view s = tab_view z"
    for fds and s z :: "'a kfile_scheme"
    using that
    by (induction fds arbitrary: s) (auto split: option.splits simp: tab_view_pset intro!: tab_view_fileclose [where z = z])
  show "every (\<lambda>s'. tab_view s' = tab_view s) (exit_close_refs kend me s)"
    by (auto simp: exit_close_refs_def tab_view_pset intro!: every_view [OF L [OF refl]]
        blind_log [OF tab_view_blind, where z = s] blind_iput [OF tab_view_blind, where z = s])
qed

text \<open>
  C9: whatever the interleaving of scheduling, sleeping, waking, killing, forking,
  waiting and exiting, with the files that fork shares and exit closes, no two processes in use
  share a process id, every id in use is positive, and the parent of a process is always a live
  process: children of an exited process have been handed to init, which never exits.
\<close>

theorem process_table_invariant:
  fixes s :: "'a kfile_scheme"
  assumes "ptable_inv s" and "(proc_step fork_dup_refs (exit_close_refs (lm_end L)) L)\<^sup>*\<^sup>* s s'"
  shows "(\<forall>i < NPROC. \<forall>j < NPROC. p_state (pget i s') \<noteq> UNUSED \<longrightarrow> p_state (pget j s') \<noteq> UNUSED \<longrightarrow>
           p_pid (pget i s') = p_pid (pget j s') \<longrightarrow> i = j)
    \<and> (\<forall>i < NPROC. p_state (pget i s') \<noteq> UNUSED \<longrightarrow> 0 < sint (p_pid (pget i s')))
    \<and> (\<forall>i < NPROC. \<forall>j. p_parent (pget i s') = Some j \<longrightarrow>
           j < NPROC \<and> p_state (pget j s') \<noteq> UNUSED \<and> p_state (pget j s') \<noteq> ZOMBIE)"
  by (rule process_table_general [OF assms(1) fork_dup_neutral exit_close_neutral assms(2)])

definition table_demo :: kfile where
  "table_demo = file_demo\<lparr>procs := procs init_table, nextpid := 2, initproc := Some 0\<rparr>"

lemma table_demo_inv: "ptable_inv table_demo"
proof -
  have e: "procs table_demo = procs init_table" "nextpid table_demo = nextpid init_table" "initproc table_demo = initproc init_table"
    by (simp_all add: table_demo_def) (simp_all add: init_table_def)
  show ?thesis using init_table_inv unfolding ptable_inv_def e .
qed

theorem process_table_invariant_witness:
  "let s' = sleep 0 ChanTicks (snd (schedule 0 table_demo)); L = \<lparr>lm_end = KERNBASE, lm_etext = 0, lm_trampoline = 0, lm_forkret = 0\<rparr> in
     (proc_step fork_dup_refs (exit_close_refs (lm_end L)) L)\<^sup>*\<^sup>* table_demo s'
     \<and> p_state (pget 0 s') = SLEEPING
     \<and> (\<forall>i < NPROC. p_state (pget i s') \<noteq> UNUSED \<longrightarrow> 0 < sint (p_pid (pget i s')))"
proof -
  define L :: linkmap where "L = \<lparr>lm_end = KERNBASE, lm_etext = 0, lm_trampoline = 0, lm_forkret = 0\<rparr>"
  let ?R = "proc_step fork_dup_refs (exit_close_refs (lm_end L)) L"
  define s1 where "s1 = snd (schedule 0 table_demo)"
  have z: "0 < NPROC" "procs table_demo \<noteq> []" by (simp_all add: NPROC_def init_table_def table_demo_def)
  then have r: "schedule 0 table_demo = (True, s1)" "p_state (pget 0 s1) = RUNNING" "procs s1 \<noteq> []"
    using init_table_nth [of 0] by (simp_all add: s1_def schedule_def table_demo_def)
  have "?R table_demo s1" "?R s1 (sleep 0 ChanTicks s1)"
    by (rule proc_step.run [OF z(1) r(1)], rule proc_step.sleeps [OF z(1) r(2)])
  then have steps: "?R\<^sup>*\<^sup>* table_demo (sleep 0 ChanTicks s1)"
    by (meson rtranclp.rtrancl_into_rtrancl rtranclp.rtrancl_refl)
  have "p_state (pget 0 (sleep 0 ChanTicks s1)) = SLEEPING" using r(3) by (simp add: sleep_def)
  then show ?thesis
    using process_table_invariant [OF table_demo_inv steps] steps unfolding L_def s1_def by (simp add: Let_def)
qed

end
