(* ===== verification/FileInv.thy ===== *)
theory FileInv
  imports FsFrame
begin

text \<open>
  Reference counts of open files.  The count of a \<^verbatim>\<open>struct file\<close> is the number of descriptors, in all processes,
  that refer to it; while a system call is under way the two differ by a balance \<open>E\<close>, which every routine of the
  file layer changes in a known way, and the files in \<open>X\<close> have been allocated but not filled in.
\<close>

section \<open>The invariant\<close>

definition refs :: "'a kproc_scheme \<Rightarrow> nat \<Rightarrow> int" where
  "refs s f = (\<Sum>p \<leftarrow> procs s. int (count_list (p_ofile p) (Some f)))"

definition ofile_ok :: "nat option list \<Rightarrow> bool" where
  "ofile_ok fs \<longleftrightarrow> length fs = NOFILE \<and> (\<forall>f. Some f \<in> set fs \<longrightarrow> f < NFILE)"

definition counts_ok :: "(nat \<Rightarrow> int) \<Rightarrow> nat set \<Rightarrow> 'a kfile_scheme \<Rightarrow> bool" where
  "counts_ok E X s \<longleftrightarrow> length (ftable s) = NFILE \<and> length (procs s) = NPROC \<and> (\<forall>p \<in> set (procs s). ofile_ok (p_ofile p))
     \<and> (\<forall>f < NFILE. sint (f_ref (file_at s f)) = refs s f + E f)
     \<and> (\<forall>f < NFILE. f \<notin> X \<longrightarrow> (f_ref (file_at s f) = 0 \<longleftrightarrow> f_type (file_at s f) = FD_NONE))"

text \<open>Processes that are not alive have no open files.\<close>

definition dead_closed :: "'a kproc_scheme \<Rightarrow> bool" where
  "dead_closed s \<longleftrightarrow> (\<forall>i < length (procs s). \<not> live (pget i s) \<longrightarrow> p_ofile (pget i s) = replicate NOFILE None)"

definition files_inv :: "(nat \<Rightarrow> int) \<Rightarrow> nat set \<Rightarrow> 'a kfile_scheme \<Rightarrow> bool" where
  "files_inv E X s \<longleftrightarrow> counts_ok E X s \<and> dead_closed s"

definition ofile_view :: "'a kfile_scheme \<Rightarrow> nat option list list \<times> ofile list" where
  "ofile_view s = (map p_ofile (procs s), ftable s)"

definition fview :: "'a kfile_scheme \<Rightarrow> (bool \<times> nat option list) list \<times> ofile list" where
  "fview s = (map (\<lambda>p. (live p, p_ofile p)) (procs s), ftable s)"

lemma counts_cong:
  assumes "ofile_view s' = ofile_view s"
  shows "counts_ok E X s' \<longleftrightarrow> counts_ok E X s"
proof -
  have m: "map p_ofile (procs s') = map p_ofile (procs s)" and f: "ftable s' = ftable s"
    using assms by (simp_all add: ofile_view_def)
  have "refs s' x = refs s x" for x
    using arg_cong [OF m, of "\<lambda>xs. \<Sum>fs \<leftarrow> xs. int (count_list fs (Some x))"] by (simp add: refs_def comp_def)
  moreover have "(\<forall>p \<in> set (procs s'). ofile_ok (p_ofile p)) \<longleftrightarrow> (\<forall>p \<in> set (procs s). ofile_ok (p_ofile p))"
    using arg_cong [OF m, of "\<lambda>xs. \<forall>fs \<in> set xs. ofile_ok fs"] by simp
  ultimately show ?thesis unfolding counts_ok_def f using map_eq_imp_length_eq [OF m] by simp
qed

lemma map_nthD: "map h xs = map h ys \<Longrightarrow> i < length ys \<Longrightarrow> h (xs ! i) = h (ys ! i)"
  by (metis length_map nth_map)

lemma fviewD:
  assumes "fview s' = fview s"
  shows "length (procs s') = length (procs s)" "ftable s' = ftable s"
    "i < length (procs s) \<Longrightarrow> p_ofile (pget i s') = p_ofile (pget i s)" "i < length (procs s) \<Longrightarrow> live (pget i s') = live (pget i s)"
proof -
  have m: "map (\<lambda>p. (live p, p_ofile p)) (procs s') = map (\<lambda>p. (live p, p_ofile p)) (procs s)" and f: "ftable s' = ftable s"
    using assms by (simp_all add: fview_def)
  show "length (procs s') = length (procs s)" "ftable s' = ftable s" using map_eq_imp_length_eq [OF m] f by simp_all
  show "i < length (procs s) \<Longrightarrow> p_ofile (pget i s') = p_ofile (pget i s)" "i < length (procs s) \<Longrightarrow> live (pget i s') = live (pget i s)"
    using map_nthD [OF m, of i] by simp_all
qed

lemma ofile_view_fview: "fview s' = fview s \<Longrightarrow> ofile_view s' = ofile_view s"
  using fviewD [of s' s] by (simp add: ofile_view_def list_eq_iff_nth_eq)

lemma files_inv_cong: "fview s' = fview s \<Longrightarrow> files_inv E X s' \<longleftrightarrow> files_inv E X s"
  using counts_cong [OF ofile_view_fview, of s' s E X] fviewD [of s' s] by (auto simp: files_inv_def dead_closed_def)

lemma files_inv_balance: "files_inv E X s \<Longrightarrow> (\<And>f. E f = E' f) \<Longrightarrow> X = X' \<Longrightarrow> files_inv E' X' s"
  by (simp add: files_inv_def counts_ok_def)

section \<open>Counting\<close>

lemma count_list_update:
  "i < length xs \<Longrightarrow> int (count_list (xs[i := y]) a) = int (count_list xs a) - of_bool (xs ! i = a) + of_bool (y = a)"
proof (induction xs arbitrary: i)
  case (Cons x xs)
  show ?case
  proof (cases i)
    case (Suc j)
    then show ?thesis using Cons.IH [of j] Cons.prems by simp
  qed simp
qed simp

lemma sum_list_map_update:
  fixes h :: "'a \<Rightarrow> int"
  shows "i < length xs \<Longrightarrow> (\<Sum>x \<leftarrow> xs[i := y]. h x) = (\<Sum>x \<leftarrow> xs. h x) - h (xs ! i) + h y"
  by (induction xs arbitrary: i) (auto split: nat.splits)

lemma refs_pset:
  assumes "i < length (procs s)"
  shows "refs (pset i k s) f = refs s f - int (count_list (p_ofile (pget i s)) (Some f)) + int (count_list (p_ofile (k (pget i s))) (Some f))"
  using assms by (simp add: refs_def sum_list_map_update)

lemma refs_nonneg: "0 \<le> refs s f"
  unfolding refs_def by (rule sum_list_nonneg) auto

lemma refs_le:
  assumes "counts_ok E X s"
  shows "refs s f \<le> int NPROC * int NOFILE"
proof -
  have "(\<Sum>p \<leftarrow> ps. int (count_list (p_ofile p) (Some f))) \<le> int (length ps) * int NOFILE"
    if "\<forall>p \<in> set ps. ofile_ok (p_ofile p)" for ps
    using that
  proof (induction ps)
    case (Cons p ps)
    have "int (count_list (p_ofile p) (Some f)) \<le> int NOFILE"
      using Cons.prems count_le_length [of "p_ofile p" "Some f"] by (simp add: ofile_ok_def)
    then show ?case using Cons by (simp add: algebra_simps)
  qed simp
  from this [of "procs s"] show ?thesis using assms by (simp add: counts_ok_def refs_def)
qed

lemma refs_ge:
  assumes "me < length (procs s)"
  shows "int (count_list (p_ofile (pget me s)) (Some f)) \<le> refs s f"
proof -
  have "int (count_list (p_ofile (ps ! i)) (Some f)) \<le> (\<Sum>p \<leftarrow> ps. int (count_list (p_ofile p) (Some f)))" if "i < length ps" for ps i
    using that
  proof (induction ps arbitrary: i)
    case (Cons p ps)
    have n: "0 \<le> (\<Sum>p \<leftarrow> ps. int (count_list (p_ofile p) (Some f)))" by (rule sum_list_nonneg) auto
    show ?case
    proof (cases i)
      case (Suc j)
      then show ?thesis using Cons.prems Cons.IH [of j] by simp
    qed (use n in simp)
  qed simp
  then show ?thesis using assms by (simp add: refs_def)
qed

section \<open>The file table\<close>

lemma fset_fields [simp]:
  "procs (fset f g s) = procs s" "length (ftable (fset f g s)) = length (ftable s)" "refs (fset f g s) x = refs s x"
  "dead_closed (fset f g s) = dead_closed s"
  "f < length (ftable s) \<Longrightarrow> file_at (fset f g s) f = g (file_at s f)" "x \<noteq> f \<Longrightarrow> file_at (fset f g s) x = file_at s x"
  by (simp_all add: fset_def refs_def dead_closed_def)

lemma files_invD:
  assumes "files_inv E X s"
  shows "length (ftable s) = NFILE" "length (procs s) = NPROC" "i < NPROC \<Longrightarrow> ofile_ok (p_ofile (pget i s))"
    "f < NFILE \<Longrightarrow> sint (f_ref (file_at s f)) = refs s f + E f" "dead_closed s"
    "f < NFILE \<Longrightarrow> f \<notin> X \<Longrightarrow> f_ref (file_at s f) = 0 \<longleftrightarrow> f_type (file_at s f) = FD_NONE"
  using assms by (auto simp: files_inv_def counts_ok_def)

lemma files_inv_fset:
  assumes "files_inv E X s" and "f < NFILE" and "sint (f_ref (g (file_at s f))) = sint (f_ref (file_at s f)) + d"
    and "f \<notin> Y \<Longrightarrow> f_ref (g (file_at s f)) = 0 \<longleftrightarrow> f_type (g (file_at s f)) = FD_NONE" and "X \<subseteq> insert f Y" and "E' = E(f := E f + d)"
  shows "files_inv E' Y (fset f g s)"
proof -
  note D = files_invD [OF assms(1)]
  have F: "sint (f_ref (file_at (fset f g s) x)) = refs s x + E' x
      \<and> (x \<notin> Y \<longrightarrow> (f_ref (file_at (fset f g s) x) = 0 \<longleftrightarrow> f_type (file_at (fset f g s) x) = FD_NONE))" if x: "x < NFILE" for x
  proof (cases "x = f")
    case True
    then show ?thesis using D(1) D(4) [OF x] assms(2-4,6) by simp
  next
    case False
    then have "x \<notin> X" if "x \<notin> Y" using assms(5) that by auto
    then show ?thesis using D(4) [OF x] D(6) [OF x] False assms(6) by simp
  qed
  have "\<forall>p \<in> set (procs s). ofile_ok (p_ofile p)" using assms(1) by (simp add: files_inv_def counts_ok_def)
  then show ?thesis unfolding files_inv_def counts_ok_def using F D(1,2,5) by simp
qed

lemma filealloc_counts:
  assumes "files_inv E X s" and "filealloc s = (Some f, s')"
  shows "f < NFILE \<and> files_inv (E(f := E f + 1)) (insert f X) s' \<and> procs s' = procs s \<and> f_ref (file_at s' f) = 1
    \<and> f_ref (file_at s f) = 0 \<and> (\<forall>x. x \<noteq> f \<longrightarrow> file_at s' x = file_at s x)"
proof -
  have sc: "scan (\<lambda>f. f_ref f = 0) (ftable s) = Some f" and s': "s' = fset f (\<lambda>x. x\<lparr>f_ref := 1\<rparr>) s"
    using assms(2) by (auto simp: filealloc_def split: option.splits)
  have f: "f < NFILE" "f_ref (file_at s f) = 0" using scan_SomeD [OF sc] files_invD(1) [OF assms(1)] by simp_all
  show ?thesis unfolding s' using f files_invD(1) [OF assms(1)]
    by (auto intro!: files_inv_fset [OF assms(1) f(1), where d = 1])
qed

lemma filedup_counts:
  assumes "files_inv E X s" and f: "f < NFILE" and "E f < 2 ^ 20"
  shows "every (\<lambda>s'. files_inv (E(f := E f + 1)) X s' \<and> procs s' = procs s) (filedup f s)"
proof (cases "f_ref (file_at s f) <s 1")
  case False
  then have p: "1 \<le> sint (f_ref (file_at s f))" by (simp add: word_sless_alt)
  have "refs s f \<le> 1024" using refs_le [of E X s f] assms(1) by (simp add: files_inv_def NPROC_def NOFILE_def)
  then have i: "sint (f_ref (file_at s f) + 1) = sint (f_ref (file_at s f)) + 1"
    using files_invD(4) [OF assms(1) f] assms(3) p by (intro sint_inc) simp_all
  then have "f_ref (file_at s f) + 1 \<noteq> 0" "f_ref (file_at s f) \<noteq> 0" using p by (auto simp flip: sint_eq_0_iff)
  then show ?thesis using False i files_invD(6) [OF assms(1) f]
    by (auto simp: filedup_def intro!: files_inv_fset [OF assms(1) f, where d = 1])
qed (simp add: filedup_def)

lemma fview_wakeup [simp]: "fview (wakeup w c s) = fview s"
  by (auto simp: fview_def wakeup_def wake_one_def live_def intro!: nth_equalityI)

lemma fview_updates [simp]:
  "fview (bufs_update f1 b) = fview b" "fview (lru_update f2 b) = fview b" "fview (disk_update f3 b) = fview b"
  "fview (dwrites_update f4 b) = fview b" "fview (log_update f5 b) = fview b" "fview (uart_tx_update f6 b) = fview b"
  "fview (itable_update f7 b) = fview b" "fview (sb_update f8 b) = fview b" "fview (pipeset pi q b) = fview b"
  by (simp_all add: fview_def pipeset_def)

lemma fview_blind: "fs_blind fview"
  by (simp add: fs_blind_def unlogged_def)

lemma fview_kmem: "only_kmem s s' \<Longrightarrow> fview s' = fview s"
  by (auto simp: only_kmem_def fview_def)

lemma fview_kfree:
  assumes "fview s = fview z"
  shows "(\<And>s'. fview s' = fview z \<Longrightarrow> Q s') \<Longrightarrow> every Q (kfree kend pa s)"
  using assms by (auto intro!: everyI dest!: kfree_only fview_kmem)

text \<open>Closing a file drops one reference; the last one clears the entry, and releases a pipe end or an inode.\<close>

lemma fview_fileclose:
  "every (\<lambda>s'. fview s' = fview (fset f (\<lambda>x. if 0 <s f_ref x - 1 then x\<lparr>f_ref := f_ref x - 1\<rparr> else x\<lparr>f_ref := 0, f_type := FD_NONE\<rparr>) s))
     (fileclose kend me f s)"
  by (auto simp: fileclose_def pipeclose_def Let_def fset_def fview_def [of "ftable_update _ _"]
      intro!: blind_log [OF fview_blind] blind_iput [OF fview_blind] fview_kfree)


lemma fileclose_counts:
  assumes inv: "files_inv E X s" and f: "f < NFILE" and "f \<in> X \<Longrightarrow> f_ref (file_at s f) = 1"
  shows "every (\<lambda>s'. files_inv (E(f := E f - 1)) (X - {f}) s' \<and> fview s' = (fst (fview s), ftable s')
    \<and> (\<forall>x. x \<noteq> f \<longrightarrow> file_at s' x = file_at s x)) (fileclose kend me f s)"
proof (cases "f_ref (file_at s f) <s 1")
  case False
  then have p: "1 \<le> sint (f_ref (file_at s f))" by (simp add: word_sless_alt)
  then have i: "sint (f_ref (file_at s f) - 1) = sint (f_ref (file_at s f)) - 1" by (intro sint_dec) simp
  let ?g = "\<lambda>x. if 0 <s f_ref x - 1 then x\<lparr>f_ref := f_ref x - 1\<rparr> else x\<lparr>f_ref := 0, f_type := FD_NONE\<rparr>"
  have nz: "f_ref (file_at s f) \<noteq> 0" using p by auto
  have d: "sint (f_ref (?g (file_at s f))) = sint (f_ref (file_at s f)) + (-1)" using i p by (auto simp: word_sless_alt)
  have t: "f_ref (?g (file_at s f)) = 0 \<longleftrightarrow> f_type (?g (file_at s f)) = FD_NONE" if "f \<notin> X - {f}"
  proof (cases "f \<in> X")
    case True
    then show ?thesis using assms(3) by (simp add: word_sless_alt)
  next
    case False
    then show ?thesis using files_invD(6) [OF inv f] nz by (auto simp: word_sless_alt)
  qed
  have F: "files_inv (E(f := E f - 1)) (X - {f}) (fset f ?g s)"
    by (rule files_inv_fset [where g = ?g, OF inv f d t]) auto
  show ?thesis
  proof (rule every_mono [OF fview_fileclose])
    fix s'
    assume v: "fview s' = fview (fset f ?g s)"
    show "files_inv (E(f := E f - 1)) (X - {f}) s' \<and> fview s' = (fst (fview s), ftable s')
      \<and> (\<forall>x. x \<noteq> f \<longrightarrow> file_at s' x = file_at s x)"
      using F files_inv_cong [OF v] v fviewD(2) [OF v] by (simp add: fview_def)
  qed
qed (simp add: fileclose_def)

section \<open>Descriptors\<close>

lemma set_ofile_counts:
  assumes inv: "files_inv E X s" and me: "me < NPROC" "live (pget me s)" and fd: "fd < NOFILE" and x: "\<And>f. x = Some f \<Longrightarrow> f < NFILE"
  shows "files_inv (\<lambda>f. E f + of_bool (p_ofile (pget me s) ! fd = Some f) - of_bool (x = Some f)) X (set_ofile me fd x s)"
proof -
  note D = files_invD [OF inv]
  have l: "fd < length (p_ofile (pget me s))" using D(3) [OF me(1)] fd by (simp add: ofile_ok_def)
  let ?k = "\<lambda>p. p\<lparr>p_ofile := (p_ofile p)[fd := x]\<rparr>"
  have r: "refs (set_ofile me fd x s) f = refs s f - of_bool (p_ofile (pget me s) ! fd = Some f) + of_bool (x = Some f)" for f
    using refs_pset [of me s ?k f] count_list_update [OF l, of x "Some f"] me D(2) by (simp add: set_ofile_def)
  have o: "ofile_ok (p_ofile (?k (pget me s)))"
    using D(3) [OF me(1)] x set_update_subset_insert [of "p_ofile (pget me s)" fd x] by (auto simp: ofile_ok_def)
  have "\<forall>p \<in> set (procs s). ofile_ok (p_ofile p)" using inv by (simp add: files_inv_def counts_ok_def)
  then have O: "\<forall>p \<in> set (procs (set_ofile me fd x s)). ofile_ok (p_ofile p)"
    using o set_update_subset_insert [of "procs s" me "?k (pget me s)"] by (auto simp: set_ofile_def)
  have "dead_closed (set_ofile me fd x s)"
    using D(2,5) me by (auto simp: dead_closed_def set_ofile_def nth_list_update live_def)
  moreover have "ftable (set_ofile me fd x s) = ftable s" by (simp add: set_ofile_def pset_def)
  ultimately show ?thesis using inv r O by (simp add: files_inv_def counts_ok_def set_ofile_def)
qed

lemma fdalloc_counts:
  assumes inv: "files_inv E X s" and me: "me < NPROC" "live (pget me s)" and f: "f < NFILE" and "fdalloc me f s = (Some fd, s')"
  shows "fd < NOFILE \<and> files_inv (E(f := E f - 1)) X s' \<and> s' = set_ofile me fd (Some f) s \<and> p_ofile (pget me s) ! fd = None"
proof -
  have sc: "scan (\<lambda>x. x = None) (take NOFILE (p_ofile (pget me s))) = Some fd" and s': "s' = set_ofile me fd (Some f) s"
    using assms(5) by (auto simp: fdalloc_def split: option.splits)
  have fd: "fd < NOFILE" "p_ofile (pget me s) ! fd = None" using scan_SomeD [OF sc] by simp_all
  have "files_inv (E(f := E f - 1)) X s'" unfolding s'
    by (rule files_inv_balance [OF set_ofile_counts [OF inv me fd(1)]]) (use f fd in auto)
  then show ?thesis using fd s' by simp
qed

lemma set_ofile_fields [simp]:
  "ftable (set_ofile me fd x s) = ftable s" "length (procs (set_ofile me fd x s)) = length (procs s)"
  "me < length (procs s) \<Longrightarrow> live (pget me (set_ofile me fd x s)) = live (pget me s)"
  "me < length (procs s) \<Longrightarrow> p_ofile (pget me (set_ofile me fd x s)) = (p_ofile (pget me s))[fd := x]"
  by (simp_all add: set_ofile_def live_def) (simp add: pset_def)

lemma argfd_file:
  assumes inv: "files_inv E X s" and me: "me < NPROC" and "argfd me n s = Ret (Some (fd, f))"
  shows "fd < NOFILE" "p_ofile (pget me s) ! fd = Some f" "f < NFILE"
proof -
  obtain a where "\<not> a <s 0" "\<not> of_nat NOFILE \<le>s (a::cint)" and fd: "fd = unat a" "p_ofile (pget me s) ! fd = Some f"
    using assms(3) by (auto simp: argfd_def kbind_eq_Ret_iff split: if_splits option.splits)
  then have a: "0 \<le> sint a" "sint a < 16" by (simp_all add: NOFILE_def word_sless_alt word_sle_eq)
  show l: "fd < NOFILE" using unat_sint_nonneg [OF a(1)] a(2) fd(1) unfolding NOFILE_def by linarith
  show "p_ofile (pget me s) ! fd = Some f" by fact
  then show "f < NFILE" using files_invD(3) [OF inv me] l nth_mem [of fd "p_ofile (pget me s)"] by (auto simp: ofile_ok_def)
qed


section \<open>System calls on descriptors\<close>

abbreviation files_ok :: "'a kfile_scheme \<Rightarrow> bool" where
  "files_ok \<equiv> files_inv (\<lambda>_. 0) {}"

lemma balanced: "files_inv E X s \<Longrightarrow> (\<And>f. E f = 0) \<Longrightarrow> X = {} \<Longrightarrow> files_ok s"
  by (rule files_inv_balance)

lemma sys_dup_files:
  assumes inv: "files_ok s" and me: "me < NPROC" "live (pget me s)"
  shows "every (\<lambda>(r, s'). files_ok s') (sys_dup me s)"
proof -
  have "files_ok s'" if a: "argfd me 0 s = Ret (Some (d, f))" and d: "fdalloc me f s = (Some fd, s1)" and "filedup f s1 = Ret s'" for d f fd s1 s'
  proof -
    note A = argfd_file [OF inv me(1) a]
    have "files_inv ((\<lambda>_. 0)(f := - 1)) {} s1" using fdalloc_counts [OF inv me A(3) d] by auto
    from everyD [OF filedup_counts [OF this A(3)] that(3)] show ?thesis by (auto elim!: balanced)
  qed
  then show ?thesis using inv
    by (auto simp: sys_dup_def kbind_eq_Ret_iff fdalloc_def [of me "SOME x. True"] intro!: everyI split: option.splits prod.splits)
      (auto simp: fdalloc_def split: option.splits)
qed

lemma sys_close_files:
  assumes inv: "files_ok s" and me: "me < NPROC" "live (pget me s)"
  shows "every (\<lambda>(r, s'). files_ok s') (sys_close kend me s)"
proof -
  have "files_ok s'" if a: "argfd me 0 s = Ret (Some (fd, f))" and "fileclose kend me f (set_ofile me fd None s) = Ret s'" for fd f s'
  proof -
    note A = argfd_file [OF inv me(1) a]
    have "files_inv ((\<lambda>_. 0)(f := 1)) {} (set_ofile me fd None s)"
      by (rule files_inv_balance [OF set_ofile_counts [OF inv me A(1)]]) (use A(2) in auto)
    from everyD [OF fileclose_counts [OF this A(3)] that(2)] show ?thesis by (auto elim!: balanced)
  qed
  then show ?thesis using inv by (auto simp: sys_close_def kbind_eq_Ret_iff intro!: everyI split: option.splits)
qed


text \<open>The ends of \<^verbatim>\<open>sys_open\<close>.\<close>

lemma close_tail:
  fixes s :: "'a kfile_scheme"
  assumes "files_ok s"
  shows "every (\<lambda>(r, s'). files_ok s') (op_ret me v s)" "every (\<lambda>(r, s'). files_ok s') (kbind (iunlockput me ip s) (op_ret me v))"
    "every (\<lambda>(r, s'). files_ok s') (kbind (if b then itrunc me ip s else Ret s) (\<lambda>s. kbind (iunlock me (Some ip) s) (op_ret me v)))"
proof -
  have v: "files_ok s'" if "fview s' = fview s" for s' :: "'a kfile_scheme" using assms files_inv_cong [OF that] by simp
  have e: "every (\<lambda>(r, s'). files_ok s') (op_ret me v s')" if "fview s' = fview s" for s' :: "'a kfile_scheme"
    using that by (auto simp: op_ret_def v intro!: blind_log [OF fview_blind, where z = s])
  show "every (\<lambda>(r, s'). files_ok s') (op_ret me v s)" "every (\<lambda>(r, s'). files_ok s') (kbind (iunlockput me ip s) (op_ret me v))"
    "every (\<lambda>(r, s'). files_ok s') (kbind (if b then itrunc me ip s else Ret s) (\<lambda>s. kbind (iunlock me (Some ip) s) (op_ret me v)))"
    by (auto simp: e intro!: blind_iunlockput [OF fview_blind, where z = s] blind_ilock [OF fview_blind, where z = s] blind_itrunc [OF fview_blind, where z = s])
qed

lemmas close_tails = close_tail [unfolded every_kbind]
lemma every_any: "(\<And>x. P x) \<Longrightarrow> every P r"
  by (rule everyI)

lemma filealloc_every:
  assumes "files_inv E X s" and "every P (none s)"
    and "\<And>f s'. f < NFILE \<Longrightarrow> files_inv (E(f := E f + 1)) (insert f X) s' \<Longrightarrow> procs s' = procs s \<Longrightarrow> f_ref (file_at s' f) = 1 \<Longrightarrow>
      f_ref (file_at s f) = 0 \<Longrightarrow> (\<forall>x. x \<noteq> f \<longrightarrow> file_at s' x = file_at s x) \<Longrightarrow> every P (some s' f)"
  shows "every P (case filealloc s of (r, s') \<Rightarrow> case r of None \<Rightarrow> none s' | Some f \<Rightarrow> some s' f)"
proof (cases "filealloc s")
  case (Pair r s')
  show ?thesis
  proof (cases r)
    case None
    then have "s' = s" using Pair by (auto simp: filealloc_def split: option.splits)
    then show ?thesis using assms(2) None Pair by simp
  next
    case (Some f)
    then show ?thesis using assms(3) filealloc_counts [OF assms(1), of f s'] Pair by simp
  qed
qed

lemma fdalloc_every:
  assumes "files_inv E X s" and "me < NPROC" "live (pget me s)" and "f < NFILE" and "every P (none s)"
    and "\<And>fd. fd < NOFILE \<Longrightarrow> files_inv (E(f := E f - 1)) X (set_ofile me fd (Some f) s) \<Longrightarrow> p_ofile (pget me s) ! fd = None \<Longrightarrow>
      every P (some (set_ofile me fd (Some f) s) fd)"
  shows "every P (case fdalloc me f s of (r, s') \<Rightarrow> case r of None \<Rightarrow> none s' | Some fd \<Rightarrow> some s' fd)"
proof (cases "fdalloc me f s")
  case (Pair r s')
  show ?thesis
  proof (cases r)
    case None
    then have "s' = s" using Pair by (auto simp: fdalloc_def split: option.splits)
    then show ?thesis using assms(5) None Pair by simp
  next
    case (Some fd)
    then show ?thesis using assms(6) fdalloc_counts [OF assms(1-4), of fd s'] Pair by auto
  qed
qed

lemma fileclose_every:
  assumes "files_inv E X s" and "f < NFILE" and "f \<in> X \<Longrightarrow> f_ref (file_at s f) = 1"
    and "\<And>s'. files_inv (E(f := E f - 1)) (X - {f}) s' \<Longrightarrow> (\<forall>x. x \<noteq> f \<longrightarrow> file_at s' x = file_at s x) \<Longrightarrow> Q s'"
  shows "every Q (fileclose kend me f s)"
  by (rule every_mono [OF fileclose_counts [OF assms(1-3)]]) (use assms(4) in auto)

lemma sys_open_files:
  fixes s :: "'a kfile_scheme"
  assumes inv: "files_ok s" and me: "me < NPROC" "live (pget me s)"
  shows "every (\<lambda>(r, s'). files_ok s') (sys_open kend me s)"
proof -
  have T: "every (\<lambda>(r, s'). files_ok s') (case filealloc s1 of
           (None, s) \<Rightarrow> kbind (iunlockput me ip s) (op_ret me (-1))
         | (Some f, s) \<Rightarrow>
             (case fdalloc me f s of
                (None, s) \<Rightarrow> kbind (fileclose kend me f s) (\<lambda>s. kbind (iunlockput me ip s) (op_ret me (-1)))
              | (Some fd, s) \<Rightarrow>
                  let s = fset f (open_file ip omode (inode_at s ip)) s in
                  kbind (if omode AND O_TRUNC \<noteq> 0 \<and> i_type (inode_at s ip) = T_FILE then itrunc me ip s else Ret s) (\<lambda>s.
                  kbind (iunlock me (Some ip) s) (op_ret me (of_nat fd)))))" if v: "fview s1 = fview s"  for s1 :: "'a kfile_scheme" and ip omode
  proof (rule filealloc_every)
    show i1: "files_inv (\<lambda>_. 0) {} s1" using inv files_inv_cong [OF v] by simp
    show "every (\<lambda>(r, s'). files_ok s') (kbind (iunlockput me ip s1) (op_ret me (-1)))" by (rule close_tail [OF i1])
    fix f s2
    assume f: "f < NFILE" and i2: "files_inv ((\<lambda>_. 0)(f := 0 + 1)) {f} s2" and p: "procs s2 = procs s1" "f_ref (file_at s2 f) = 1"
    have l: "live (pget me s2)" using fviewD [OF v] me files_invD(2) [OF inv] p by simp
    show "every (\<lambda>(r, s'). files_ok s') (case fdalloc me f s2 of
                (None, s) \<Rightarrow> kbind (fileclose kend me f s) (\<lambda>s. kbind (iunlockput me ip s) (op_ret me (-1)))
              | (Some fd, s) \<Rightarrow>
                  let s = fset f (open_file ip omode (inode_at s ip)) s in
                  kbind (if omode AND O_TRUNC \<noteq> 0 \<and> i_type (inode_at s ip) = T_FILE then itrunc me ip s else Ret s) (\<lambda>s.
                  kbind (iunlock me (Some ip) s) (op_ret me (of_nat fd))))"
    proof (rule fdalloc_every [OF i2 me(1) l f], goal_cases)
      case 1
      show ?case unfolding every_kbind [of _ "fileclose _ _ _ _"]
        by (rule fileclose_every [OF i2 f]) (use p in \<open>auto intro!: close_tails elim!: balanced\<close>)
    next
      case (2 fd)
      have "files_ok (fset f (open_file ip omode x) (set_ofile me fd (Some f) s2))" for x
        by (rule files_inv_fset [OF 2(2) f, where d = 0]) (use p in \<open>auto simp: open_file_def fun_eq_iff\<close>)
      then show ?case unfolding Let_def by (rule close_tail)
    qed
  qed
  have O: "every (\<lambda>(r, s'). fview s' = fview s) (open_inode me path omode s1)" if "fview s1 = fview s" for s1 :: "'a kfile_scheme" and path omode
    unfolding open_inode_def using that
    by (auto split: option.splits intro!: blind_namei [OF fview_blind, where z = s] blind_create [OF fview_blind, where z = s]
      blind_ilock [OF fview_blind, where z = s] blind_iunlockput [OF fview_blind, where z = s])
  have v: "files_ok s1" if "fview s1 = fview s" for s1 :: "'a kfile_scheme" using inv files_inv_cong [OF that] by simp
  show ?thesis unfolding sys_open_def every_kbind
  proof (rule every_any, rule every_any, goal_cases)
    case (1 omode a)
    obtain n path where a: "a = (n, path)" by (cases a)
    show ?case
    proof (cases "n <s 0")
      case False
      show ?thesis unfolding a prod.case if_not_P [OF False] every_kbind
        by (rule blind_log(4) [OF fview_blind, where z = s and s = s], rule refl, rule every_view2 [OF O], assumption, unfold prod.case)
          (auto simp del: every_kbind intro!: T close_tail v split: option.split if_split)
    qed (use inv in \<open>simp add: a\<close>)
  qed
qed


lemma fview_kalloc: "kalloc s = (pa, s') \<Longrightarrow> fview s' = fview s"
  by (rule fview_kmem [OF kalloc_only])

lemma pipealloc_files:
  fixes s :: "'a kfile_scheme"
  assumes inv: "files_ok s" and me: "me < NPROC" "live (pget me s)"
  shows "every (\<lambda>(r, s'). case r of None \<Rightarrow> files_ok s'
    | Some (f0, f1) \<Rightarrow> f0 < NFILE \<and> f1 < NFILE \<and> f0 \<noteq> f1 \<and> files_inv ((\<lambda>_. 0)(f0 := 1, f1 := 1)) {} s' \<and> live (pget me s'))
    (pipealloc kend me s)"
  unfolding pipealloc_def
proof (rule filealloc_every [OF inv], goal_cases)
  case (2 f0 s1)
  show ?case
  proof (rule filealloc_every [OF 2(2)], goal_cases)
    case 1
    show ?case unfolding every_kbind by (rule fileclose_every [OF 2(2,1)]) (use 2 in \<open>auto elim!: balanced\<close>)
  next
    case (2 f1 s2)
    have ne: "f0 \<noteq> f1" using 2(5) \<open>f_ref (file_at s1 f0) = 1\<close> by auto
    obtain pi s3 where k: "kalloc s2 = (pi, s3)" by (cases "kalloc s2")
    note v = fview_kalloc [OF k]
    have r: "f_ref (file_at s3 f0) = 1" "f_ref (file_at s3 f1) = 1"
      using fviewD(2) [OF v] 2(4,6) \<open>f_ref (file_at s1 f0) = 1\<close> ne by simp_all
    have i3: "files_inv ((\<lambda>_. 0)(f0 := 1, f1 := 1)) {f0, f1} s3"
      unfolding files_inv_cong [OF v] by (rule files_inv_balance [OF 2(2)]) (use ne in auto)
    have l: "live (pget me s3)" using fviewD(4) [OF v, of me] me files_invD(2) [OF inv] 2(3) \<open>procs s1 = procs s\<close> by simp
    have len: "length (ftable s3) = NFILE" by (rule files_invD(1) [OF i3])
    show ?case
    proof (cases "pi = 0")
      case True
      show ?thesis unfolding k Let_def prod.case if_P [OF True] every_kbind
        by (rule fileclose_every [OF i3 \<open>f0 < NFILE\<close>], rule r, rule fileclose_every, assumption)
          (use r ne 2(1) in \<open>auto simp: fun_upd_twist elim!: balanced\<close>)
    next
      case False
      define s4 where "s4 = fset f0 (pipe_end pi 1 0) (pipeset pi (\<lambda>_. new_pipe) s3)"
      have p: "files_inv ((\<lambda>_. 0)(f0 := 1, f1 := 1)) {f0, f1} (pipeset pi (\<lambda>_. new_pipe) s3)"
        using i3 files_inv_cong [of "pipeset pi (\<lambda>_. new_pipe) s3" s3] by simp
      have i4: "files_inv ((\<lambda>_. 0)(f0 := 1, f1 := 1)) {f1} s4" unfolding s4_def
        by (rule files_inv_fset [where d = 0 and X = "{f0, f1}", OF p \<open>f0 < NFILE\<close>])
          (use r in \<open>auto simp: pipe_end_def pipeset_def\<close>)
      have e: "file_at s4 f1 = file_at s3 f1" using ne by (simp add: s4_def pipeset_def)
      have i5: "files_inv ((\<lambda>_. 0)(f0 := 1, f1 := 1)) {} (fset f1 (pipe_end pi 0 1) s4)"
        by (rule files_inv_fset [where d = 0 and X = "{f1}", OF i4 2(1)]) (use e r in \<open>auto simp: pipe_end_def\<close>)
      show ?thesis using i5 2(1) \<open>f0 < NFILE\<close> ne l False by (simp add: k s4_def pipeset_def)
    qed
  qed
qed (use inv in simp)

lemma sys_pipe_files:
  fixes s :: "'a kfile_scheme"
  assumes inv: "files_ok s" and me: "me < NPROC" "live (pget me s)"
  shows "every (\<lambda>(r, s'). files_ok s') (sys_pipe kend me s)"
proof -
  have U: "every (\<lambda>(r, s'). files_ok s') (pipe_undo kend me f0 f1 s1)"
    if "files_inv ((\<lambda>_. 0)(f0 := 1, f1 := 1)) {} s1" "f0 < NFILE" "f1 < NFILE" "f0 \<noteq> f1" for f0 f1 and s1 :: "'a kfile_scheme"
    unfolding pipe_undo_def every_kbind
    by (rule fileclose_every [OF that(1,2)], simp, rule fileclose_every, assumption, rule that) (use that in \<open>auto elim!: balanced\<close>)
  have C: "every (\<lambda>(r, s'). files_ok s') (
                   kbind (copyout kend sz pt pt' fdarray b0 s3) (\<lambda>(r, s).
                   if r <s 0 then pipe_undo kend me f0 f1 (set_ofile me fd1 None (set_ofile me fd0 None s))
                   else kbind (copyout kend sz pt pt' fdarray' b1 s) (\<lambda>(r, s).
                        if r <s 0 then pipe_undo kend me f0 f1 (set_ofile me fd1 None (set_ofile me fd0 None s)) else sys_ret 0 s)))"
    if i3: "files_ok s3" and l: "live (pget me s3)" and f: "f0 < NFILE" "f1 < NFILE" "f0 \<noteq> f1" and d: "fd0 < NOFILE" "fd1 < NOFILE" "fd0 \<noteq> fd1"
      and o: "p_ofile (pget me s3) ! fd0 = Some f0" "p_ofile (pget me s3) ! fd1 = Some f1"
    for f0 f1 fd0 fd1 sz pt pt' fdarray fdarray' b0 b1 and s3 :: "'a kfile_scheme"
  proof -
    have X: "every (\<lambda>(r, s'). files_ok s') (pipe_undo kend me f0 f1 (set_ofile me fd1 None (set_ofile me fd0 None s4)))"
      if v: "fview s4 = fview s3" for s4 :: "'a kfile_scheme"
    proof (rule U [OF _ f])
      have n: "me < length (procs s3)" using files_invD(2) [OF i3] me by simp
      have i4: "files_ok s4" using i3 files_inv_cong [OF v] by simp
      have m: "live (pget me s4)" "p_ofile (pget me s4) = p_ofile (pget me s3)" "me < length (procs s4)"
        using fviewD [OF v] n l by simp_all
      have i5: "files_inv ((\<lambda>_. 0)(f0 := 1)) {} (set_ofile me fd0 None s4)"
        by (rule files_inv_balance [OF set_ofile_counts [OF i4 me(1) m(1) d(1)]]) (use o m in auto)
      show "files_inv ((\<lambda>_. 0)(f0 := 1, f1 := 1)) {} (set_ofile me fd1 None (set_ofile me fd0 None s4))"
        by (rule files_inv_balance [OF set_ofile_counts [OF i5 me(1) _ d(2)]]) (use o m d f in auto)
    qed
    have K: "(\<And>x s'. fview s' = fview s3 \<Longrightarrow> P (x, s')) \<Longrightarrow> every P (copyout kend sz pt pt' va bs s4)"
      if "fview s4 = fview s3" for P va bs and s4 :: "'a kfile_scheme"
      using that by (auto intro!: everyI dest!: copyout_only fview_kmem)
    have v: "files_ok s4" if "fview s4 = fview s3" for s4 :: "'a kfile_scheme" using i3 files_inv_cong [OF that] by simp
    show ?thesis unfolding every_kbind by (auto intro!: K X v)
  qed
  show ?thesis unfolding sys_pipe_def every_kbind
  proof (rule every_any, rule every_mono [OF pipealloc_files [OF inv me]], goal_cases)
    case (1 fdarray x)
    show ?case
    proof (cases "fst x")
      case None
      then show ?thesis using 1 by (simp add: case_prod_beta)
    next
      case (Some fs)
      obtain f0 f1 s1 where x: "x = (Some (f0, f1), s1)" using Some by (cases x, cases fs) auto
      have f: "f0 < NFILE" "f1 < NFILE" "f0 \<noteq> f1" and i1: "files_inv ((\<lambda>_. 0)(f0 := 1, f1 := 1)) {} s1" and l: "live (pget me s1)"
        using 1 by (simp_all add: x)
      have n: "me < length (procs s1)" using files_invD(2) [OF i1] me by simp
      have ol: "length (p_ofile (pget me s1)) = NOFILE" using files_invD(3) [OF i1 me(1)] by (simp add: ofile_ok_def)
      show ?thesis unfolding x prod.case option.case
      proof (rule fdalloc_every [OF i1 me(1) l f(1)], goal_cases)
        case (2 fd0)
        show ?case
        proof (rule fdalloc_every [OF 2(2) me(1) _ f(2)], goal_cases)
          case 2
          show ?case by (rule U [OF _ f], rule files_inv_balance [OF set_ofile_counts [OF \<open>files_inv _ _ (set_ofile _ _ _ _)\<close> me(1)]])
            (use n l f ol \<open>fd0 < NOFILE\<close> in auto)
        next
          case (3 fd1)
          then have "fd0 \<noteq> fd1" using n ol \<open>fd0 < NOFILE\<close> by auto
          then show ?case unfolding Let_def
            by (intro C) (use 3 \<open>fd0 < NOFILE\<close> n l f ol in \<open>auto elim!: balanced\<close>)
        qed (use n l in auto)
      qed (rule U [OF i1 f])
    qed
  qed
qed


section \<open>Fork, exit and wait\<close>

lemma files_inv_slot:
  assumes inv: "files_inv E X s" and "procs s' = (procs s)[i := q]" and i: "i < NPROC" and "ftable s' = ftable s"
    and "p_ofile q = p_ofile (pget i s)" and "\<not> live q \<Longrightarrow> p_ofile q = replicate NOFILE None"
  shows "files_inv E X s'"
proof -
  have "ofile_view s' = ofile_view s"
    using assms(2,4,5) by (simp add: ofile_view_def map_update) (metis list_update_id map_update)
  then have "counts_ok E X s'" using counts_cong [of s' s] inv by (simp add: files_inv_def)
  moreover have "dead_closed s'" using files_invD(2,5) [OF inv] assms(2,6) i by (auto simp: dead_closed_def nth_list_update_if)
  ultimately show ?thesis by (simp add: files_inv_def)
qed

lemma only_kmem_ftable: "only_kmem s s' \<Longrightarrow> ftable s' = ftable s"
  by (auto simp: only_kmem_def)

lemma pset_ftable [simp]: "ftable (pset i f s) = ftable s"
  by (simp add: pset_def)

lemma freeproc_ftable: "freeproc kend i s = Ret s' \<Longrightarrow> ftable s' = ftable s"
  by (auto simp: freeproc_def kbind_eq_Ret_iff Let_def split: if_splits dest!: kfree_only proc_freepagetable_only only_kmem_ftable)

lemma freeproc_files:
  assumes "files_inv E X s" and "i < NPROC" and "p_ofile (pget i s) = replicate NOFILE None" and "freeproc kend i s = Ret s'"
  shows "files_inv E X s'"
  by (rule files_inv_slot [OF assms(1) freeproc_procs(1) [OF assms(4)] assms(2) freeproc_ftable [OF assms(4)]])
    (use assms(3) in \<open>simp_all add: freed_def\<close>)

lemma ofile_view_pset: "(\<And>p. p_ofile (f p) = p_ofile p) \<Longrightarrow> ofile_view (pset i f s) = ofile_view s"
  by (simp add: ofile_view_def map_update) (metis list_update_id map_update)

lemma freeproc_ofile: "freeproc kend i s = Ret s' \<Longrightarrow> ofile_view s' = ofile_view s"
  by (simp add: ofile_view_def freeproc_procs(1) freeproc_ftable map_update freed_def) (metis list_update_id map_update)

lemma only_kmem_ofile: "only_kmem s s' \<Longrightarrow> ofile_view s' = ofile_view s"
  by (auto simp: only_kmem_def ofile_view_def)

lemma allocproc_ofile: "allocproc L s = Ret (r, s') \<Longrightarrow> ofile_view s' = ofile_view s"
  by (auto simp: allocproc_def allocpid_def kbind_eq_Ret_iff Let_def ofile_view_pset split: if_splits option.splits prod.splits
      dest!: freeproc_ofile kalloc_only proc_pagetable_only only_kmem_ofile) (simp_all add: ofile_view_def)

text \<open>The new process has no open files: its entry was unused.\<close>

lemma allocproc_files:
  assumes inv: "files_inv E X s" and a: "allocproc L s = Ret (r, s')"
  shows "files_inv E X s'" and "r = Some np \<Longrightarrow> np < NPROC \<and> live (pget np s') \<and> p_ofile (pget np s') = replicate NOFILE None \<and> \<not> live (pget np s)"
    and "i < NPROC \<Longrightarrow> live (pget i s) \<Longrightarrow> live (pget i s') \<and> p_ofile (pget i s') = p_ofile (pget i s)"
proof -
  note D = files_invD [OF inv]
  have v: "map p_ofile (procs s') = map p_ofile (procs s)" "ftable s' = ftable s" using allocproc_ofile [OF a] by (simp_all add: ofile_view_def)
  have o: "p_ofile (pget i s') = p_ofile (pget i s)" if "i < NPROC" for i using map_nthD [OF v(1)] that D(2) by simp
  have u: "i < NPROC" "\<not> live (pget i s)" "p_ofile (pget i s) = replicate NOFILE None"
    if "scan (\<lambda>p. p_state p = UNUSED) (procs s) = Some i" for i
    using scan_SomeD [OF that] D(2,5) by (auto simp: dead_closed_def live_def)
  have "files_inv E X s' \<and> (r = Some np \<longrightarrow> np < NPROC \<and> live (pget np s') \<and> p_ofile (pget np s') = replicate NOFILE None \<and> \<not> live (pget np s))
    \<and> (i < NPROC \<longrightarrow> live (pget i s) \<longrightarrow> live (pget i s') \<and> p_ofile (pget i s') = p_ofile (pget i s))"
    using a
  proof (cases rule: allocproc_cases)
    case full
    then show ?thesis using inv by simp
  next
    case (nomem k q)
    have "files_inv E X s'" by (rule files_inv_slot [OF inv nomem(3) u(1) [OF nomem(2)] v(2)])
      (use o [of k] u [OF nomem(2)] nomem(3) D(2) in auto)
    then show ?thesis using nomem(1,3) o [of i] u [OF nomem(2)] by (cases "i = k") auto
  next
    case (found k q)
    have "files_inv E X s'" by (rule files_inv_slot [OF inv found(3) u(1) [OF found(2)] v(2)])
      (use o [of k] u [OF found(2)] found(3) D(2) in auto)
    then show ?thesis using found(1,3,4) o [of i] o [of k] u [OF found(2)] D(2) by (auto simp: nth_list_update_if live_def)
  qed
  then show "files_inv E X s'" "r = Some np \<Longrightarrow> np < NPROC \<and> live (pget np s') \<and> p_ofile (pget np s') = replicate NOFILE None \<and> \<not> live (pget np s)"
    "i < NPROC \<Longrightarrow> live (pget i s) \<Longrightarrow> live (pget i s') \<and> p_ofile (pget i s') = p_ofile (pget i s)" by auto
qed

lemma dup_files_counts:
  assumes "files_inv E X s" and "\<forall>f. Some f \<in> set fs \<longrightarrow> f < NFILE" and "\<And>f. E f + int (length fs) < 2 ^ 20"
  shows "every (\<lambda>s'. files_inv (\<lambda>f. E f + int (count_list fs (Some f))) X s' \<and> procs s' = procs s) (dup_files fs s)"
  using assms
proof (induction fs arbitrary: E s)
  case (Cons x fs)
  show ?case
  proof (cases x)
    case None
    have "E f + int (length fs) < 2 ^ 20" for f using Cons.prems(3) [of f] by simp
    then show ?thesis using Cons.IH [OF Cons.prems(1)] Cons.prems(2) None by simp
  next
    case (Some f)
    have f: "f < NFILE" "E f < 2 ^ 20" using Cons.prems(2) Cons.prems(3) [of f] Some by auto
    have b: "(E(f := E f + 1)) x + int (length fs) < 2 ^ 20" for x using Cons.prems(3) [of x] by auto
    have e: "E g + int (count_list (x # fs) (Some g)) = (E(f := E f + 1)) g + int (count_list fs (Some g))" for g using Some by simp
    show ?thesis unfolding e unfolding Some dup_files.simps every_kbind
      by (rule every_mono [OF filedup_counts [OF Cons.prems(1) f]], rule every_mono, rule Cons.IH [where E = "E(f := E f + 1)"])
        (use Cons.prems(2) b in \<open>auto elim!: files_inv_balance\<close>)
  qed
qed simp


lemma fork_ofile_empty: "length fs = NOFILE \<Longrightarrow> fork_ofile fs (replicate NOFILE None) = fs"
  by (auto simp: fork_ofile_def intro!: nth_equalityI)

lemma count_none: "count_list (replicate n None) (Some f) = 0"
  by (simp add: count_list_0_iff)

lemma fork_child_files:
  assumes inv: "files_inv E X s" and np: "np < NPROC" "live (pget np s)" "p_ofile (pget np s) = replicate NOFILE None" and me: "me < NPROC"
  shows "files_inv (\<lambda>f. E f - int (count_list (p_ofile (pget me s)) (Some f))) X (fork_child me np s)"
  supply fork_child_fields [simp del]
proof -
  note D = files_invD [OF inv]
  define q where "q = (pget np s)\<lparr>p_sz := p_sz (pget me s), p_ofile := p_ofile (pget me s),
           p_cwd := p_cwd (pget me s), p_name := copy_name (p_name (pget np s)) (p_name (pget me s))\<rparr>"
  have o: "ofile_ok (p_ofile q)" "live q" using D(3) [OF me] np(2) by (simp_all add: q_def live_def)
  have p: "procs (fork_child me np s) = (procs s)[np := q]"
    using fork_ofile_empty [of "p_ofile (pget me s)"] D(3) [OF me] np(3) by (simp add: fork_child_def Let_def q_def ofile_ok_def)
  have t: "ftable (fork_child me np s) = ftable s" by (simp add: fork_child_def Let_def)
  have r: "refs (fork_child me np s) f = refs s f + int (count_list (p_ofile (pget me s)) (Some f))" for f
    unfolding refs_def p using np D(2) by (simp add: sum_list_map_update count_none q_def)
  have "\<forall>p \<in> set (procs s). ofile_ok (p_ofile p)" using inv by (simp add: files_inv_def counts_ok_def)
  then have "\<forall>p \<in> set (procs (fork_child me np s)). ofile_ok (p_ofile p)"
    using o set_update_subset_insert [of "procs s" np q] by (auto simp: p)
  moreover have "dead_closed (fork_child me np s)" using D(2,5) o np(1) by (auto simp: dead_closed_def p nth_list_update_if)
  ultimately show ?thesis using inv r by (simp add: files_inv_def counts_ok_def t p)
qed

lemma kfork_files_inv:
  fixes s :: "'a kfile_scheme"
  assumes inv: "files_ok s" and me: "me < NPROC" "live (pget me s)"
  shows "every (\<lambda>(r, s'). files_ok s') (kfork fork_dup_refs L me s)"
proof (rule everyI)
  fix x
  assume k: "kfork fork_dup_refs L me s = Ret x"
  obtain r s1 where a: "allocproc L s = Ret (r, s1)" using k by (auto simp: kfork_def kbind_eq_Ret_iff)
  note A = allocproc_files [OF inv a]
  show "case x of (r, s') \<Rightarrow> files_ok s'"
  proof (cases r)
    case None
    then show ?thesis using k A(1) by (auto simp: kfork_def a)
  next
    case (Some np)
    note N = A(2) [OF Some]
    have ne: "np \<noteq> me" using N me by auto
    obtain c s2 where u: "uvmcopy (lm_end L) (p_pagetable (pget me s1)) (p_pagetable (pget np s1)) (p_sz (pget me s1)) s1 = Ret (c, s2)"
      and rest: "(if c <s 0 then kbind (freeproc (lm_end L) np s2) (\<lambda>s. Ret (-1, s))
           else kbind (fork_dup_refs me s2) (\<lambda>s.
             let s = fork_child me np s;
                 pid = p_pid (pget np s);
                 s = pset np (\<lambda>q. q\<lparr>p_parent := Some me\<rparr>) s;
                 s = pset np (\<lambda>q. q\<lparr>p_state := RUNNABLE\<rparr>) s
             in Ret (pid, s))) = Ret x"
      using k Some by (auto simp: kfork_def a kbind_eq_Ret_iff)
    note v = fview_kmem [OF uvmcopy_only [OF u]]
    have i2: "files_ok s2" using A(1) files_inv_cong [OF v] by simp
    have n2: "live (pget np s2)" "p_ofile (pget np s2) = replicate NOFILE None" using fviewD [OF v] N files_invD(2) [OF A(1)] by auto
    show ?thesis
    proof (cases "c <s 0")
      case True
      then obtain s3 where "freeproc (lm_end L) np s2 = Ret s3" "x = (-1, s3)" using rest by (auto simp: kbind_eq_Ret_iff)
      then show ?thesis using freeproc_files [OF i2 _ n2(2)] N by simp
    next
      case False
      let ?E = "\<lambda>f. int (count_list (p_ofile (pget me s2)) (Some f))"
      have ok: "ofile_ok (p_ofile (pget me s2))" by (rule files_invD(3) [OF i2 me(1)])
      obtain s3 s4 where d: "dup_files (p_ofile (pget me s2)) s2 = Ret s3" and s4: "s4 = iset (the (p_cwd (pget me s3))) (\<lambda>x. x\<lparr>i_ref := i_ref x + 1\<rparr>) s3"
        and x: "snd x = pset np (\<lambda>q. q\<lparr>p_state := RUNNABLE\<rparr>) (pset np (\<lambda>q. q\<lparr>p_parent := Some me\<rparr>) (fork_child me np s4))"
        using rest False by (auto simp: fork_dup_refs_def idup_def kbind_eq_Ret_iff Let_def)
      have "files_inv (\<lambda>f. 0 + ?E f) {} s3 \<and> procs s3 = procs s2"
        by (rule everyD [OF dup_files_counts [OF i2] d]) (use ok in \<open>auto simp: ofile_ok_def NOFILE_def\<close>)
      moreover have v4: "fview s4 = fview s3" "procs s4 = procs s3" by (simp_all add: s4 iset_def)
      ultimately have i4: "files_inv ?E {} s4" and p4: "procs s4 = procs s2" using files_inv_cong [OF v4(1)] by simp_all
      have i5: "files_ok (fork_child me np s4)"
        by (rule balanced [OF fork_child_files [OF i4]]) (use N n2 me p4 in auto)
      define s6 where "s6 = pset np (\<lambda>q. q\<lparr>p_parent := Some me\<rparr>) (fork_child me np s4)"
      have n5: "live (pget np (fork_child me np s4))" "np < length (procs s4)"
        using n2 N p4 files_invD(2) [OF i2] by (simp_all add: fork_child_def Let_def live_def)
      have i6: "files_ok s6" unfolding s6_def
        by (rule files_inv_slot [OF i5, where i = np]) (use N n5 in \<open>auto simp: live_def\<close>)
      have "files_ok (snd x)" unfolding x s6_def [symmetric]
        by (rule files_inv_slot [OF i6, where i = np]) (use N n5 in \<open>auto simp: live_def s6_def\<close>)
      then show ?thesis by (simp add: case_prod_beta)
    qed
  qed
qed


lemma fview_pset: "(\<And>p. live (f p) = live p) \<Longrightarrow> (\<And>p. p_ofile (f p) = p_ofile p) \<Longrightarrow> fview (pset i f s) = fview s"
  by (simp add: fview_def map_update) (metis (no_types, lifting) list_update_id map_update)

lemma exit_close_files_inv:
  assumes "files_ok s" and me: "me < NPROC" and "live (pget me s)" and "\<forall>fd \<in> set fds. fd < NOFILE"
  shows "every (\<lambda>s'. files_ok s' \<and> live (pget me s') \<and>
     (\<forall>fd < NOFILE. p_ofile (pget me s') ! fd = (if fd \<in> set fds then None else p_ofile (pget me s) ! fd))) (exit_close_files kend me fds s)"
  using assms(1,3,4)
proof (induction fds arbitrary: s)
  case (Cons fd fds)
  note D = files_invD [OF Cons.prems(1)]
  have ol: "length (p_ofile (pget me s)) = NOFILE" using D(3) [OF me] by (simp add: ofile_ok_def)
  show ?case
  proof (cases "p_ofile (pget me s) ! fd")
    case None
    show ?thesis by (simp add: None, rule every_mono [OF Cons.IH [OF Cons.prems(1,2)]]) (use Cons.prems(3) None in auto)
  next
    case (Some f)
    have fd: "fd < NOFILE" using Cons.prems(3) by simp
    have f: "f < NFILE" using D(3) [OF me] Some nth_mem [of fd "p_ofile (pget me s)"] fd by (auto simp: ofile_ok_def)
    show ?thesis unfolding exit_close_files.simps Some option.case every_kbind
    proof (rule every_mono [OF fileclose_counts [OF Cons.prems(1) f]], simp, goal_cases)
      case (1 s1)
      then have i1: "files_inv ((\<lambda>_. 0)(f := - 1)) {} s1" and v: "map (\<lambda>p. (live p, p_ofile p)) (procs s1) = map (\<lambda>p. (live p, p_ofile p)) (procs s)"
        by (simp_all add: fview_def)
      have m: "live (pget me s1)" "p_ofile (pget me s1) = p_ofile (pget me s)" "me < length (procs s1)"
        using map_nthD [OF v, of me] D(2) me Cons.prems(2) map_eq_imp_length_eq [OF v] by simp_all
      have i2: "files_ok (set_ofile me fd None s1)"
        by (rule balanced [OF set_ofile_counts [OF i1 me m(1) fd]]) (use Some m in auto)
      show ?case unfolding set_ofile_def [symmetric]
        by (rule every_mono [OF Cons.IH [OF i2]]) (use Cons.prems(3) m ol in \<open>auto simp: nth_list_update_if\<close>)
    qed
  qed
qed simp

lemma exit_zombie_files:
  assumes inv: "files_ok s" and me: "me < NPROC" and "p_ofile (pget me s) = replicate NOFILE None"
  shows "files_ok (exit_zombie me status s)"
proof -
  have R: "fview (reparent_loop me js t) = fview t" for js and t :: "'a kfile_scheme"
    by (induction js arbitrary: t) (simp_all add: fview_pset live_def)
  define t where "t = wakeup (Some me) (proc_chan (p_parent (pget me (reparent me s)))) (reparent me s)"
  have v: "fview t = fview s" by (simp add: t_def reparent_def R)
  have it: "files_ok t" using inv files_inv_cong [OF v] by simp
  have "p_ofile (pget me t) = replicate NOFILE None" "me < length (procs t)"
    using fviewD [OF v] me assms(3) files_invD(2) [OF inv] by simp_all
  then show ?thesis unfolding exit_zombie_def Let_def t_def [symmetric]
    by (intro files_inv_slot [OF it, where i = me and q = "(pget me t)\<lparr>p_xstate := status, p_state := ZOMBIE\<rparr>"]) (use me in auto)
qed

lemma kexit_files_inv:
  fixes s :: "'a kfile_scheme"
  assumes inv: "files_ok s" and me: "me < NPROC" "live (pget me s)"
  shows "every files_ok (kexit (exit_close_refs kend) me status s)"
proof -
  have "every (\<lambda>s'. files_ok s' \<and> p_ofile (pget me s') = replicate NOFILE None) (exit_close_refs kend me s)"
    unfolding exit_close_refs_def every_kbind
  proof (rule every_mono [OF exit_close_files_inv [OF inv me]], simp, goal_cases)
    case (1 s1)
    then have i1: "files_ok s1" and o: "\<forall>fd < NOFILE. p_ofile (pget me s1) ! fd = None" by auto
    have "length (p_ofile (pget me s1)) = NOFILE" using files_invD(3) [OF i1 me(1)] by (simp add: ofile_ok_def)
    then have o1: "p_ofile (pget me s1) = replicate NOFILE None" using o by (auto intro!: nth_equalityI)
    have v: "files_ok s' \<and> p_ofile (pget me s') = replicate NOFILE None" if "fview s' = fview s1" for s' :: "'a kfile_scheme"
      using files_inv_cong [OF that] i1 fviewD [OF that] o1 files_invD(2) [OF i1] me by simp
    have c: "fview (pset me (\<lambda>p. p\<lparr>p_cwd := None\<rparr>) s') = fview s'" for s' :: "'a kfile_scheme" by (rule fview_pset) (simp_all add: live_def)
    show ?case
      by (rule blind_log(4) [OF fview_blind, where z = s1], rule refl, rule blind_iput [OF fview_blind, where z = s1], assumption,
          rule blind_log(5) [OF fview_blind, where z = s1], assumption, unfold every_simps) (rule v, simp add: c)
  qed
  then show ?thesis by (auto simp: kexit_def every_def kbind_eq_Ret_iff exit_zombie_files [OF _ me(1)])
qed

lemma kwait_files:
  fixes s :: "'a kfile_scheme"
  assumes inv: "files_ok s" and me: "me < NPROC" "live (pget me s)"
  shows "every (\<lambda>(r, s'). files_ok s') (kwait kend me addr s)"
proof (cases "scan (\<lambda>pp. p_parent pp = Some me \<and> p_state pp = ZOMBIE) (procs s)")
  case None
  have "fview (sleep me c s) = fview s" for c
    using me files_invD(2) [OF inv] by (auto simp: sleep_def fview_def live_def map_update intro!: nth_equalityI simp: nth_list_update_if)
  then show ?thesis using None inv files_inv_cong [of "sleep me (ChanProc me) s" s] by (auto simp: kwait_def)
next
  case (Some i)
  have i: "i < NPROC" "p_ofile (pget i s) = replicate NOFILE None"
    using scan_SomeD [OF Some] files_invD(2,5) [OF inv] by (auto simp: dead_closed_def live_def)
  have F: "every (\<lambda>(r, s'). files_ok s') (if r <s 0 then Ret (Done (-1), s1) else kbind (freeproc kend i s1) (\<lambda>s. Ret (Done pid, s)))"
    if v: "fview s1 = fview s" for r pid and s1 :: "'a kfile_scheme"
  proof -
    have i1: "files_ok s1" "p_ofile (pget i s1) = replicate NOFILE None"
      using inv files_inv_cong [OF v] fviewD [OF v] i files_invD(2) [OF inv] by simp_all
    show ?thesis using i1(1) by (auto intro!: everyI dest!: freeproc_files [OF i1(1) i(1) i1(2)])
  qed
  show ?thesis unfolding kwait_def Some option.case Let_def every_kbind
    by (rule every_view2 [where g = fview and z = s]) (auto simp: F intro!: everyI dest!: copyout_only fview_kmem)
qed


section \<open>All processes together\<close>

text \<open>The steps on the process table, and the system calls by which a running process opens and closes descriptors.\<close>

inductive file_step :: "linkmap \<Rightarrow> 'a kfile_scheme \<Rightarrow> 'a kfile_scheme \<Rightarrow> bool" for L where
  process: "proc_step fork_dup_refs (exit_close_refs (lm_end L)) L s s' \<Longrightarrow> file_step L s s'"
| dup: "me < NPROC \<Longrightarrow> p_state (pget me s) = RUNNING \<Longrightarrow> sys_dup me s = Ret (r, s') \<Longrightarrow> file_step L s s'"
| close: "me < NPROC \<Longrightarrow> p_state (pget me s) = RUNNING \<Longrightarrow> sys_close (lm_end L) me s = Ret (r, s') \<Longrightarrow> file_step L s s'"
| opens: "me < NPROC \<Longrightarrow> p_state (pget me s) = RUNNING \<Longrightarrow> sys_open (lm_end L) me s = Ret (r, s') \<Longrightarrow> file_step L s s'"
| pipes: "me < NPROC \<Longrightarrow> p_state (pget me s) = RUNNING \<Longrightarrow> sys_pipe (lm_end L) me s = Ret (r, s') \<Longrightarrow> file_step L s s'"

lemma files_ok_pset:
  assumes "files_ok s" and "i < NPROC" and "live (f (pget i s)) = live (pget i s)" and "p_ofile (f (pget i s)) = p_ofile (pget i s)"
  shows "files_ok (pset i f s)"
  by (rule files_inv_slot [OF assms(1), where i = i and q = "f (pget i s)"])
    (use assms files_invD(2,5) [OF assms(1)] in \<open>auto simp: dead_closed_def\<close>)

lemma proc_step_files:
  fixes s s' :: "'a kfile_scheme"
  assumes "proc_step fork_dup_refs (exit_close_refs (lm_end L)) L s s'" and "files_ok s"
  shows "files_ok s'"
  using assms
proof (induction rule: proc_step.induct)
  case (run i s s')
  then show ?case by (auto simp: schedule_def live_def intro!: files_ok_pset split: if_splits)
next
  case (yields me s)
  then show ?case by (auto simp: yield_def live_def intro!: files_ok_pset)
next
  case (sleeps me s c)
  then show ?case by (auto simp: sleep_def live_def intro!: files_ok_pset)
next
  case (resumes me s)
  then show ?case by (auto simp: sleep_return_def live_def intro!: files_ok_pset)
next
  case (wakes s me c)
  then show ?case using files_inv_cong [OF fview_wakeup] by blast
next
  case (kills pid s r s')
  show ?case
  proof (cases "scan (\<lambda>p. p_pid p = pid) (procs s)")
    case (Some i)
    have "i < NPROC" using scan_SomeD(1) [OF Some] files_invD(2) [OF kills(2)] by simp
    then show ?thesis using kills Some by (auto simp: kkill_def live_def intro!: files_ok_pset)
  qed (use kills in \<open>auto simp: kkill_def\<close>)
next
  case (faults me s)
  then show ?case by (auto simp: setkilled_def live_def intro!: files_ok_pset)
next
  case (forks me s r s')
  then show ?case using everyD [OF kfork_files_inv [OF forks(5,1)] forks(4)] by (simp add: live_def)
next
  case (waits me s addr w s')
  then show ?case using everyD [OF kwait_files [OF waits(4,1)] waits(3)] by (simp add: live_def)
next
  case (exits me s status s')
  then show ?case using everyD [OF kexit_files_inv [OF exits(4,1)] exits(3)] by (simp add: live_def)
next
  case (memory s s')
  then show ?case using files_inv_cong [OF fview_kmem [OF memory(1)]] by simp
qed

lemma file_step_files: "file_step L s s' \<Longrightarrow> files_ok s \<Longrightarrow> files_ok s'"
  by (induction rule: file_step.induct)
    (auto simp: live_def dest: proc_step_files everyD [OF sys_dup_files] everyD [OF sys_close_files] everyD [OF sys_open_files] everyD [OF sys_pipe_files])


definition open_demo :: kfile where
  "open_demo = file_demo\<lparr>mem := (\<lambda>_. 0),
     procs := unused_proc\<lparr>p_state := RUNNING, p_pid := 1, p_ofile := Some 0 # replicate (NOFILE - 1) None\<rparr> # replicate (NPROC - 1) unused_proc,
     ftable := no_file\<lparr>f_type := FD_DEVICE, f_ref := 1, f_readable := 1, f_major := 1\<rparr> # replicate (NFILE - 1) no_file\<rparr>"

lemma open_demo_ok: "files_ok open_demo"
proof -
  have c: "refs open_demo f = of_bool (f = 0)" for f
    by (auto simp: refs_def open_demo_def sum_list_replicate unused_proc_def count_none count_list_0_iff)
  have t: "file_at open_demo f = (if f = 0 then no_file\<lparr>f_type := FD_DEVICE, f_ref := 1, f_readable := 1, f_major := 1\<rparr> else no_file)"
    if "f < NFILE" for f using that by (simp add: open_demo_def nth_Cons')
  show ?thesis unfolding files_inv_def counts_ok_def dead_closed_def
    by (auto simp: c t no_file_def) (auto simp: open_demo_def NFILE_def NPROC_def NOFILE_def ofile_ok_def unused_proc_def nth_Cons' live_def)
qed


end
