(* ===== verification/Ulib.thy ===== *)
theory Ulib
  imports CString
begin

text \<open>
  The byte and string routines of the user library, \<^verbatim>\<open>user/ulib.c\<close>, over the memory of the process.  They are
  other programs than those of \<^verbatim>\<open>kernel/string.c\<close>, for the same contracts.  A walk to a terminating NUL that may
  not be there is a partial function.
\<close>

section \<open>Strings\<close>

partial_function (option) ustrcpy :: "mem \<Rightarrow> uint64 \<Rightarrow> uint64 \<Rightarrow> mem option" where
  "ustrcpy m s t = (let c = m t; m' = m(s := c) in if c \<noteq> 0 then ustrcpy m' (s + 1) (t + 1) else Some m')"

partial_function (option) ustrcmp :: "mem \<Rightarrow> uint64 \<Rightarrow> uint64 \<Rightarrow> cint option" where
  "ustrcmp m p q = (if m p \<noteq> 0 \<and> m p = m q then ustrcmp m (p + 1) (q + 1) else Some (ucast (m p) - ucast (m q)))"

partial_function (option) ustrlen_loop :: "mem \<Rightarrow> uint64 \<Rightarrow> cint \<Rightarrow> uint option" where
  "ustrlen_loop m s n = (if m (s + scast n) \<noteq> 0 then ustrlen_loop m s (n + 1) else Some n)"

definition ustrlen :: "mem \<Rightarrow> uint64 \<Rightarrow> uint option" where
  "ustrlen m s = ustrlen_loop m s 0"

partial_function (option) ustrchr :: "mem \<Rightarrow> uint64 \<Rightarrow> uchar \<Rightarrow> uint64 option" where
  "ustrchr m s c = (if m s \<noteq> 0 then if m s = c then Some s else ustrchr m (s + 1) c else Some 0)"

partial_function (option) uatoi_loop :: "mem \<Rightarrow> uint64 \<Rightarrow> cint \<Rightarrow> cint option" where
  "uatoi_loop m s n =
     (if of_char CHR ''0'' \<le> m s \<and> m s \<le> of_char CHR ''9''
      then uatoi_loop m (s + 1) (n * 10 + ucast (m s) - of_char CHR ''0'') else Some n)"

definition uatoi :: "mem \<Rightarrow> uint64 \<Rightarrow> cint option" where
  "uatoi m s = uatoi_loop m s 0"

section \<open>Byte blocks\<close>

fun umemset_loop :: "mem \<Rightarrow> uint64 \<Rightarrow> uchar \<Rightarrow> nat \<Rightarrow> nat \<Rightarrow> mem" where
  "umemset_loop m dst c i 0 = m"
| "umemset_loop m dst c i (Suc k) = umemset_loop (m(dst + of_nat i := c)) dst c (Suc i) k"

definition umemset :: "mem \<Rightarrow> uint64 \<Rightarrow> cint \<Rightarrow> uint \<Rightarrow> mem" where
  "umemset m dst c n = umemset_loop m dst (ucast c) 0 (unat n)"

definition umemmove :: "mem \<Rightarrow> uint64 \<Rightarrow> uint64 \<Rightarrow> cint \<Rightarrow> mem" where
  "umemmove m vdst vsrc n =
     (if vdst < vsrc then copy_forward m vdst vsrc (nat (sint n))
      else copy_backward m (vdst + scast n) (vsrc + scast n) (nat (sint n)))"

fun umemcmp_loop :: "mem \<Rightarrow> uint64 \<Rightarrow> uint64 \<Rightarrow> nat \<Rightarrow> cint" where
  "umemcmp_loop m p1 p2 0 = 0"
| "umemcmp_loop m p1 p2 (Suc n) =
     (if m p1 \<noteq> m p2 then ucast (m p1) - ucast (m p2) else umemcmp_loop m (p1 + 1) (p2 + 1) n)"

definition umemcmp :: "mem \<Rightarrow> uint64 \<Rightarrow> uint64 \<Rightarrow> uint \<Rightarrow> cint" where
  "umemcmp m s1 s2 n = umemcmp_loop m s1 s2 (unat n)"

definition umemcpy :: "mem \<Rightarrow> uint64 \<Rightarrow> uint64 \<Rightarrow> uint \<Rightarrow> mem" where
  "umemcpy m dst src n = umemmove m dst src n"

section \<open>Agreement with the kernel's routines\<close>

lemma copy_backward_ge:
  assumes "unat s + n \<le> 2 ^ 64" and "unat d + n \<le> 2 ^ 64" and "s \<le> d"
  shows "copy_backward m (d + of_nat n) (s + of_nat n) n x = (if off d x < n then m (s + (x - d)) else m x)"
proof (cases "s = d")
  case True
  have "copy_backward m (d + of_nat n) (d + of_nat n) n = m"
    by (induction n) (simp_all add: algebra_simps)
  then show ?thesis using True by simp
qed (use assms in \<open>simp add: copy_backward_apply\<close>)

text \<open>
  C33: the \<^verbatim>\<open>memmove\<close> of the user library, which always copies backwards when the source is not above the
  destination, has the effect of the kernel's, which does so only when the ranges overlap: both leave at every
  destination byte what the source byte was before, however the two ranges lie.
\<close>

theorem umemmove_agrees:
  assumes "0 \<le> sint n" and "unat src + unat n \<le> 2 ^ 64" and "unat dst + unat n \<le> 2 ^ 64"
  shows "umemmove m dst src n = memmove m dst src n
    \<and> (\<forall>x. umemmove m dst src n x = (if off dst x < unat n then m (src + (x - dst)) else m x))"
proof -
  have u: "int (unat n) = sint n" by (rule unat_sint_nonneg [OF assms(1)])
  then have n: "nat (sint n) = unat n" by linarith
  have c: "(scast n :: uint64) = of_nat (unat n)"
    using u by (metis of_int_of_nat_eq of_int_sint)
  have "umemmove m dst src n x = (if off dst x < unat n then m (src + (x - dst)) else m x)" for x
    using copy_forward_apply [of src "unat n" dst m x] copy_backward_ge [of src "unat n" dst m x] assms(2,3)
    by (auto simp: umemmove_def n c not_less)
  moreover have "umemmove m dst src n = memmove m dst src n"
    by (rule ext) (simp add: memmove_apply [OF assms(2,3)] calculation)
  ultimately show ?thesis by simp
qed

theorem umemmove_agrees_witness:
  "umemmove (\<lambda>a. ucast a) 0x1002 0x1000 8 = memmove (\<lambda>a. ucast a) 0x1002 0x1000 8"
  using umemmove_agrees [of 8 "0x1000" "0x1002" "\<lambda>a. ucast a"] by simp

end
