(* ===== verification/UProg.thy ===== *)
theory UProg
  imports Sysfile Printf
begin

text \<open>
  User programs, and the library they are linked with (\<^verbatim>\<open>user/ulib.c\<close>).  A program sees the kernel through the
  replies to its system calls: it is a function of the system \<open>os\<close> that answers them and of that system's state.
  A loop that may not end is a partial function, whose value is \<open>None\<close> where the program runs forever.  A \<^verbatim>\<open>fork\<close>
  is a request like any other: a reply of 0 continues as the child.
\<close>

section \<open>System calls\<close>

datatype request =
    RqRead cint nat
  | RqWrite cint "uchar list"
  | RqOpen "uchar list" cint
  | RqClose cint
  | RqFork
  | RqExec "uchar list" "uchar list list"
  | RqWait
  | RqPipe
  | RqDup cint
  | RqChdir "uchar list"
  | RqKill cint
  | RqLink "uchar list" "uchar list"
  | RqUnlink "uchar list"
  | RqMkdir "uchar list"
  | RqMknod "uchar list" cint cint
  | RqFstat cint
  | RqSbrk cint cint
  | RqPause cint
  | RqGetpid

text \<open>The value a call returns, and what it stored through its pointer argument, if anything.\<close>

record reply =
  r_val :: cint
  r_bytes :: "uchar list"
  r_fds :: "cint \<times> cint"
  r_stat :: stat

type_synonym 'w os = "request \<Rightarrow> 'w \<Rightarrow> reply \<times> 'w"

text \<open>A program exits, is replaced by another one in a successful \<^verbatim>\<open>exec\<close>, or a part of it returns.\<close>

datatype 'a uout = UExit cint | UGone | URet 'a

type_synonym ('a, 'w) uprog = "'w \<Rightarrow> ('a uout \<times> 'w) option"

definition ret :: "'a \<Rightarrow> ('a, 'w) uprog" where
  "ret a w = Some (URet a, w)"

definition exit_with :: "cint \<Rightarrow> ('a, 'w) uprog" where
  "exit_with c w = Some (UExit c, w)"

definition sys :: "'w os \<Rightarrow> request \<Rightarrow> (reply, 'w) uprog" where
  "sys os q w = (let (r, w) = os q w in Some (URet r, w))"

definition sys_exec_call :: "'w os \<Rightarrow> uchar list \<Rightarrow> uchar list list \<Rightarrow> (cint, 'w) uprog" where
  "sys_exec_call os path argv w =
     (let (r, w) = os (RqExec path argv) w in if r_val r <s 0 then ret (r_val r) w else Some (UGone, w))"

definition ubind :: "('a uout \<times> 'w) option \<Rightarrow> ('a \<Rightarrow> ('b, 'w) uprog) \<Rightarrow> ('b uout \<times> 'w) option" where
  "ubind m f = Option.bind m (\<lambda>(r, w). case r of UExit c \<Rightarrow> Some (UExit c, w) | UGone \<Rightarrow> Some (UGone, w) | URet a \<Rightarrow> f a w)"

lemma ubind_mono [partial_function_mono]:
  assumes "mono_option m" and "\<And>a w. mono_option (\<lambda>g. f g a w)"
  shows "mono_option (\<lambda>g. ubind (m g) (f g))"
proof -
  have "mono_option (\<lambda>g. case r of UExit c \<Rightarrow> Some (UExit c, w) | UGone \<Rightarrow> Some (UGone, w) | URet a \<Rightarrow> f g a w)" for r w
    by (cases r) (simp_all add: assms(2) option.const_mono)
  then show ?thesis unfolding ubind_def by (intro bind_mono [OF assms(1)]) (auto split: prod.splits)
qed

lemma ubind_simps [simp]:
  "ubind (ret a w) f = f a w" "ubind (exit_with c w) f = exit_with c w" "ubind (sys os q w) g = (case os q w of (r, w) \<Rightarrow> g r w)"
  "ubind (Some (URet a, w)) f = f a w" "ubind (Some (UExit c, w)) f = exit_with c w" "ubind (Some (UGone, w)) f = Some (UGone, w)"
  by (simp_all add: ubind_def ret_def exit_with_def sys_def split: prod.splits)

lemma ubind_assoc: "ubind (ubind m f) g = ubind m (\<lambda>a w. ubind (f a w) g)"
  by (auto simp: ubind_def split: prod.splits uout.splits bind_splits)

section \<open>Total correctness\<close>

text \<open>\<open>yields m P\<close>: the program ends, and \<open>P\<close> holds of how it ends and of the state of the system then.\<close>

definition yields :: "('a uout \<times> 'w) option \<Rightarrow> ('a uout \<Rightarrow> 'w \<Rightarrow> bool) \<Rightarrow> bool" where
  "yields m P \<longleftrightarrow> (\<exists>r w. m = Some (r, w) \<and> P r w)"

lemma yields_simps [simp]: "yields (ret a w) P \<longleftrightarrow> P (URet a) w" "yields (exit_with c w) P \<longleftrightarrow> P (UExit c) w"
  by (simp_all add: yields_def ret_def exit_with_def)

lemma yields_ubind [simp]: "yields (ubind m f) P \<longleftrightarrow> yields m (\<lambda>r w. case r of UExit c \<Rightarrow> P (UExit c) w | UGone \<Rightarrow> P UGone w | URet a \<Rightarrow> yields (f a w) P)"
proof (cases m)
  case (Some x)
  then show ?thesis by (cases x, cases "fst x") (simp_all add: yields_def ubind_def)
qed (simp add: yields_def ubind_def)

lemma yields_mono: "yields m P \<Longrightarrow> (\<And>r w. P r w \<Longrightarrow> Q r w) \<Longrightarrow> yields m Q"
  by (auto simp: yields_def)

section \<open>Output\<close>

definition uputc :: "'w os \<Rightarrow> cint \<Rightarrow> uchar \<Rightarrow> (unit, 'w) uprog" where
  "uputc os fd c w = ubind (sys os (RqWrite fd [c]) w) (\<lambda>_. ret ())"

fun uputs :: "'w os \<Rightarrow> cint \<Rightarrow> uchar list \<Rightarrow> (unit, 'w) uprog" where
  "uputs os fd [] w = ret () w"
| "uputs os fd (c # cs) w = ubind (uputc os fd c w) (\<lambda>_. uputs os fd cs)"

text \<open>Arguments of a format: numbers and strings, in the slots of the \<^verbatim>\<open>va_list\<close>.\<close>

definition int_arg :: "cint \<Rightarrow> slot" where
  "int_arg v = \<lparr>slot_word = scast v, slot_str = []\<rparr>"

definition str_arg :: "uchar list \<Rightarrow> slot" where
  "str_arg s = \<lparr>slot_word = 1, slot_str = s\<rparr>"

definition ufprintf :: "'w os \<Rightarrow> cint \<Rightarrow> string \<Rightarrow> slot list \<Rightarrow> (unit, 'w) uprog" where
  "ufprintf os fd fmt args = uputs os fd (vprintf (map of_char fmt) (\<lambda>i. args ! i))"

definition uprintf :: "'w os \<Rightarrow> string \<Rightarrow> slot list \<Rightarrow> (unit, 'w) uprog" where
  "uprintf os fmt args = ufprintf os 1 fmt args"

section \<open>Library calls\<close>

text \<open>\<^verbatim>\<open>gets\<close>, with the bytes read so far and the room that is left.\<close>

fun ugets_loop :: "'w os \<Rightarrow> nat \<Rightarrow> uchar list \<Rightarrow> (uchar list, 'w) uprog" where
  "ugets_loop os 0 acc w = ret acc w"
| "ugets_loop os (Suc k) acc w =
     ubind (sys os (RqRead 0 1) w) (\<lambda>r.
     if r_val r <s 1 then ret acc
     else let c = hd (r_bytes r); acc = acc @ [c] in
       if c = asc CHR 0x0a \<or> c = asc CHR 0x0d then ret acc else ugets_loop os k acc)"

definition ugets :: "'w os \<Rightarrow> nat \<Rightarrow> (uchar list, 'w) uprog" where
  "ugets os n = ugets_loop os (n - 1) []"

definition ustat :: "'w os \<Rightarrow> uchar list \<Rightarrow> (cint \<times> stat option, 'w) uprog" where
  "ustat os n w =
     ubind (sys os (RqOpen n O_RDONLY) w) (\<lambda>fd.
     if r_val fd <s 0 then ret (-1, None)
     else (\<lambda>w. ubind (sys os (RqFstat (r_val fd)) w) (\<lambda>r w.
          ubind (sys os (RqClose (r_val fd)) w) (\<lambda>_. ret (r_val r, Some (r_stat r))))))"

text \<open>A C string as a list: \<^verbatim>\<open>strchr\<close> never finds the terminating NUL.\<close>

definition in_str :: "string \<Rightarrow> uchar \<Rightarrow> bool" where
  "in_str s c \<longleftrightarrow> c \<in> set (map of_char s)"

section \<open>Files as the programs see them\<close>

text \<open>
  What the filters rely on of the descriptors they read and write: \<open>cont\<close> is what is still to be read from \<open>fd\<close>,
  \<open>out\<close> what has been written to the standard output.  A read returns some of the bytes it asks for, at least
  one if there are any; a write takes all it is given.
\<close>

definition stream_os :: "'w os \<Rightarrow> cint \<Rightarrow> ('w \<Rightarrow> uchar list) \<Rightarrow> ('w \<Rightarrow> uchar list) \<Rightarrow> bool" where
  "stream_os os fd cont out \<longleftrightarrow>
     (\<forall>n w. case os (RqRead fd n) w of (r, w') \<Rightarrow>
        r_val r = of_nat (length (r_bytes r)) \<and> length (r_bytes r) \<le> n \<and> cont w = r_bytes r @ cont w' \<and> out w' = out w
        \<and> (r_bytes r = [] \<longrightarrow> n = 0 \<or> cont w = []))
     \<and> (\<forall>bs w. case os (RqWrite 1 bs) w of (r, w') \<Rightarrow> r_val r = of_nat (length bs) \<and> out w' = out w @ bs \<and> cont w' = cont w)"

lemma stream_read:
  assumes "stream_os os fd cont out"
  obtains bs w' r where "os (RqRead fd n) w = (r, w')" "r_val r = of_nat (length bs)" "r_bytes r = bs" "length bs \<le> n"
    "cont w = bs @ cont w'" "out w' = out w" "bs = [] \<Longrightarrow> n = 0 \<or> cont w = []"
proof -
  obtain r w' where q: "os (RqRead fd n) w = (r, w')" by (cases "os (RqRead fd n) w")
  have "\<forall>n w. case os (RqRead fd n) w of (r, w') \<Rightarrow>
      r_val r = of_nat (length (r_bytes r)) \<and> length (r_bytes r) \<le> n \<and> cont w = r_bytes r @ cont w' \<and> out w' = out w
      \<and> (r_bytes r = [] \<longrightarrow> n = 0 \<or> cont w = [])"
    using assms unfolding stream_os_def by (rule conjunct1)
  note f = this [rule_format, of n w, unfolded q prod.case]
  show thesis using f by (intro that [OF q, of "r_bytes r"]) auto
qed

lemma stream_write:
  assumes "stream_os os fd cont out"
  obtains w' r where "os (RqWrite 1 bs) w = (r, w')" "r_val r = of_nat (length bs)" "out w' = out w @ bs" "cont w' = cont w"
proof -
  obtain r w' where q: "os (RqWrite 1 bs) w = (r, w')" by (cases "os (RqWrite 1 bs) w")
  have "\<forall>bs w. case os (RqWrite 1 bs) w of (r, w') \<Rightarrow> r_val r = of_nat (length bs) \<and> out w' = out w @ bs \<and> cont w' = cont w"
    using assms unfolding stream_os_def by (rule conjunct2)
  from this [rule_format, of bs w] show thesis using that [OF q] by (simp add: q)
qed

lemma stream_uputs:
  assumes "stream_os os fd cont out"
  shows "yields (uputs os 1 bs w) (\<lambda>r w'. r = URet () \<and> out w' = out w @ bs \<and> cont w' = cont w)"
proof (induction bs arbitrary: w)
  case (Cons b bs)
  obtain w1 r where "os (RqWrite 1 [b]) w = (r, w1)" "out w1 = out w @ [b]" "cont w1 = cont w"
    using stream_write [OF assms, of "[b]" w] by metis
  then show ?case using Cons [of w1] by (auto simp: uputc_def elim: yields_mono)
qed simp

text \<open>A system with one file and one output: the file is delivered in chunks.\<close>

record simple =
  s_chunks :: "uchar list list"
  s_out :: "uchar list"

definition a_reply :: reply where
  "a_reply = \<lparr>r_val = 0, r_bytes = [], r_fds = (0, 0), r_stat = \<lparr>st_dev = 0, st_ino = 0, st_type = 0, st_nlink = 0, st_size = 0\<rparr>\<rparr>"

definition simple_os :: "simple os" where
  "simple_os q w =
     (case q of
        RqRead fd n \<Rightarrow>
          (case dropWhile (\<lambda>c. c = []) (s_chunks w) of [] \<Rightarrow> (a_reply, w)
           | c # cs \<Rightarrow> (a_reply\<lparr>r_val := of_nat (length (take n c)), r_bytes := take n c\<rparr>,
               w\<lparr>s_chunks := (if length c \<le> n then cs else drop n c # cs)\<rparr>))
      | RqWrite fd bs \<Rightarrow> (a_reply\<lparr>r_val := of_nat (length bs)\<rparr>, w\<lparr>s_out := s_out w @ bs\<rparr>)
      | _ \<Rightarrow> (a_reply, w))"

lemma simple_stream: "stream_os simple_os fd (\<lambda>w. concat (s_chunks w)) s_out"
proof -
  have c: "concat (dropWhile (\<lambda>c. c = []) cs) = concat cs" for cs :: "uchar list list" by (induction cs) simp_all
  have d: "c \<noteq> []" if "dropWhile (\<lambda>c. c = []) cs = c # cs'" for cs cs' and c :: "uchar list"
    using hd_dropWhile [of "\<lambda>c. c = []" cs] that by simp
  have "case simple_os (RqRead fd n) w of (r, w') \<Rightarrow>
        r_val r = of_nat (length (r_bytes r)) \<and> length (r_bytes r) \<le> n \<and> concat (s_chunks w) = r_bytes r @ concat (s_chunks w') \<and> s_out w' = s_out w
        \<and> (r_bytes r = [] \<longrightarrow> n = 0 \<or> concat (s_chunks w) = [])" for n w
    using c [of "s_chunks w"]
  proof (cases "dropWhile (\<lambda>c. c = []) (s_chunks w)")
    case (Cons k ks)
    then show ?thesis using c [of "s_chunks w"] d [OF Cons] by (auto simp: Cons a_reply_def simple_os_def simp flip: append_assoc)
  next
    case Nil
    then show ?thesis using c [of "s_chunks w"] by (simp add: Nil a_reply_def simple_os_def del: dropWhile_eq_Nil_conv)
  qed
  then show ?thesis by (simp add: stream_os_def simple_os_def a_reply_def)
qed

end
