(* ===== verification/Grep.thy ===== *)
theory Grep
  imports UProg
begin

text \<open>
  The user program \<^verbatim>\<open>user/grep.c\<close>: the regular expression matcher, and the loop that applies it to the lines of a
  file.  Patterns and lines are C strings, lists of bytes without the terminating NUL.
\<close>

section \<open>The matcher\<close>

abbreviation nl :: uchar where "nl \<equiv> asc CHR 0x0a"
abbreviation star :: uchar where "star \<equiv> asc CHR ''*''"
abbreviation dot :: uchar where "dot \<equiv> asc CHR ''.''"
abbreviation dollar :: uchar where "dollar \<equiv> asc CHR ''$''"
abbreviation caret :: uchar where "caret \<equiv> asc CHR ''^''"

function matchhere :: "uchar list \<Rightarrow> uchar list \<Rightarrow> bool" and matchstar :: "uchar \<Rightarrow> uchar list \<Rightarrow> uchar list \<Rightarrow> bool" where
  "matchhere re line =
     (case re of [] \<Rightarrow> True
      | c # re' \<Rightarrow>
          if re' \<noteq> [] \<and> hd re' = star then matchstar c (tl re') line
          else if c = dollar \<and> re' = [] then line = []
          else if line \<noteq> [] \<and> (c = dot \<or> c = hd line) then matchhere re' (tl line)
          else False)"
| "matchstar c re line =
     (if matchhere re line then True
      else if line \<noteq> [] \<and> (hd line = c \<or> c = dot) then matchstar c re (tl line)
      else False)"
  by pat_completeness auto
termination
  by (relation "inv_image (less_than <*lex*> less_than)
      (case_sum (\<lambda>(re, line). (2 * length re, length line)) (\<lambda>(c, re, line). (2 * length re + 1, length line)))")
    (auto simp: neq_Nil_conv)

declare matchhere.simps [simp del] matchstar.simps [simp del]

fun match_from :: "uchar list \<Rightarrow> uchar list \<Rightarrow> bool" where
  "match_from re [] = matchhere re []"
| "match_from re (t # line) = (matchhere re (t # line) \<or> match_from re line)"

definition match :: "uchar list \<Rightarrow> uchar list \<Rightarrow> bool" where
  "match re line = (if re \<noteq> [] \<and> hd re = caret then matchhere (tl re) line else match_from re line)"

section \<open>What a pattern means\<close>

text \<open>
  A pattern is a sequence of characters, dots and starred characters, with an optional caret in front and dollar at the
  end.  Its language is the set of strings that such a sequence describes.
\<close>

datatype item = One uchar | Many uchar

fun items :: "uchar list \<Rightarrow> item list \<times> bool" where
  "items [] = ([], False)"
| "items [c] = (if c = dollar then ([], True) else ([One c], False))"
| "items (c # d # re) =
     (if d = star then (case items re of (is, e) \<Rightarrow> (Many c # is, e)) else (case items (d # re) of (is, e) \<Rightarrow> (One c # is, e)))"

definition fits :: "uchar \<Rightarrow> uchar \<Rightarrow> bool" where
  "fits c t \<longleftrightarrow> c = dot \<or> c = t"

fun lang :: "item list \<Rightarrow> uchar list set" where
  "lang [] = {[]}"
| "lang (One c # is) = {t # u | t u. fits c t \<and> u \<in> lang is}"
| "lang (Many c # is) = {v @ u | v u. list_all (fits c) v \<and> u \<in> lang is}"

definition here :: "uchar list \<Rightarrow> uchar list \<Rightarrow> bool" where
  "here re line \<longleftrightarrow> (\<exists>u v. line = u @ v \<and> u \<in> lang (fst (items re)) \<and> (snd (items re) \<longrightarrow> v = []))"


lemma here_Nil: "here [] line"
  by (simp add: here_def)

lemma here_Many: "here (c # star # re) line \<longleftrightarrow> (\<exists>v u. line = v @ u \<and> list_all (fits c) v \<and> here re u)"
proof -
  have i: "items (c # star # re) = (Many c # fst (items re), snd (items re))" by (simp split: prod.splits)
  show ?thesis
  proof
    assume "here (c # star # re) line"
    then obtain v u d where "line = (v @ u) @ d" "list_all (fits c) v" "u \<in> lang (fst (items re))" "snd (items re) \<longrightarrow> d = []"
      unfolding here_def i fst_conv snd_conv lang.simps by blast
    then show "\<exists>v u. line = v @ u \<and> list_all (fits c) v \<and> here re u"
      by (intro exI [of _ v] exI [of _ "u @ d"]) (auto simp: here_def)
  next
    assume "\<exists>v u. line = v @ u \<and> list_all (fits c) v \<and> here re u"
    then obtain v u d where "line = v @ u @ d" "list_all (fits c) v" "u \<in> lang (fst (items re))" "snd (items re) \<longrightarrow> d = []"
      unfolding here_def by blast
    then show "here (c # star # re) line" unfolding here_def i by (intro exI [of _ "v @ u"] exI [of _ d]) auto
  qed
qed

lemma here_dollar: "here [dollar] line \<longleftrightarrow> line = []"
  by (simp add: here_def)

lemma here_One:
  assumes "re = [] \<Longrightarrow> c \<noteq> dollar" and "re \<noteq> [] \<Longrightarrow> hd re \<noteq> star"
  shows "here (c # re) line \<longleftrightarrow> (\<exists>t u. line = t # u \<and> fits c t \<and> here re u)"
proof -
  have i: "items (c # re) = (One c # fst (items re), snd (items re))"
    using assms by (cases re) (auto split: prod.splits)
  show ?thesis
  proof
    assume "here (c # re) line"
    then obtain t u d where "line = (t # u) @ d" "fits c t" "u \<in> lang (fst (items re))" "snd (items re) \<longrightarrow> d = []"
      unfolding here_def i fst_conv snd_conv lang.simps by blast
    then show "\<exists>t u. line = t # u \<and> fits c t \<and> here re u"
      by (intro exI [of _ t] exI [of _ "u @ d"]) (auto simp: here_def)
  next
    assume "\<exists>t u. line = t # u \<and> fits c t \<and> here re u"
    then obtain t u d where "line = t # u @ d" "fits c t" "u \<in> lang (fst (items re))" "snd (items re) \<longrightarrow> d = []"
      unfolding here_def by blast
    then show "here (c # re) line" unfolding here_def i by (intro exI [of _ "t # u"] exI [of _ d]) auto
  qed
qed

lemma here_Many_unfold: "(\<exists>v u. line = v @ u \<and> list_all (fits c) v \<and> here re u) \<longleftrightarrow>
    here re line \<or> (line \<noteq> [] \<and> fits c (hd line) \<and> (\<exists>v u. tl line = v @ u \<and> list_all (fits c) v \<and> here re u))"
proof (cases line)
  case (Cons t ts)
  show ?thesis unfolding Cons list.sel
  proof
    assume "\<exists>v u. t # ts = v @ u \<and> list_all (fits c) v \<and> here re u"
    then obtain v u where v: "t # ts = v @ u" "list_all (fits c) v" "here re u" by blast
    then show "here re (t # ts) \<or> (t # ts \<noteq> [] \<and> fits c t \<and> (\<exists>v u. ts = v @ u \<and> list_all (fits c) v \<and> here re u))"
      by (cases v) auto
  next
    assume "here re (t # ts) \<or> (t # ts \<noteq> [] \<and> fits c t \<and> (\<exists>v u. ts = v @ u \<and> list_all (fits c) v \<and> here re u))"
    then consider "here re (t # ts)" | v u where "fits c t" "ts = v @ u" "list_all (fits c) v" "here re u" by blast
    then show "\<exists>v u. t # ts = v @ u \<and> list_all (fits c) v \<and> here re u"
    proof cases
      case 1
      then show ?thesis by (intro exI [of _ "[]"] exI [of _ "t # ts"]) simp
    next
      case (2 v u)
      then show ?thesis by (intro exI [of _ "t # v"] exI [of _ u]) simp
    qed
  qed
qed auto

lemma matchhere_here:
  "matchhere re line \<longleftrightarrow> here re line"
  "matchstar c re line \<longleftrightarrow> (\<exists>v u. line = v @ u \<and> list_all (fits c) v \<and> here re u)"
proof (induction re line and c re line rule: matchhere_matchstar.induct)
  case (1 re line)
  show ?case
  proof (cases re)
    case (Cons c re')
    show ?thesis
    proof (cases "re' \<noteq> [] \<and> hd re' = star")
      case True
      then have "re' = star # tl re'" by (metis list.collapse)
      then show ?thesis using 1(1) [OF Cons True] here_Many [of c "tl re'" line] True Cons by (simp add: matchhere.simps)
    next
      case False
      then show ?thesis using 1(2) [OF Cons False] here_One [of re' c line] Cons here_dollar [of line]
        by (cases line) (auto simp: matchhere.simps fits_def)
    qed
  qed (simp add: matchhere.simps here_Nil)
next
  case (2 c re line)
  have f: "fits c (hd line) \<longleftrightarrow> hd line = c \<or> c = dot" by (auto simp: fits_def)
  show ?case unfolding here_Many_unfold [of line] f matchstar.simps [of c re line] using 2 by presburger
qed

text \<open>
  C26: the matcher of \<^verbatim>\<open>grep\<close> decides the language of its patterns: it accepts a line exactly when the pattern, as a
  sequence of characters, dots and starred items, describes some part of the line, at its start after a caret and up to its end
  before a dollar.
\<close>

theorem match_language:
  "match re line \<longleftrightarrow>
     (let anchored = (re \<noteq> [] \<and> hd re = caret); (is, to_end) = items (if anchored then tl re else re) in
      \<exists>a b d. line = a @ b @ d \<and> b \<in> lang is \<and> (anchored \<longrightarrow> a = []) \<and> (to_end \<longrightarrow> d = []))"
proof -
  have s: "match_from re line \<longleftrightarrow> (\<exists>a v. line = a @ v \<and> here re v)" for re line
    by (induction line) (auto simp: matchhere_here Cons_eq_append_conv)
  define anchored and re' where "anchored = (re \<noteq> [] \<and> hd re = caret)" and "re' = (if anchored then tl re else re)"
  obtain "is" e where i: "items re' = (is, e)" by (cases "items re'")
  have "match re line \<longleftrightarrow> (\<exists>a v. line = a @ v \<and> here re' v \<and> (anchored \<longrightarrow> a = []))"
    by (auto simp: match_def s matchhere_here anchored_def re'_def)
  then show ?thesis unfolding here_def anchored_def [symmetric] re'_def [symmetric] Let_def i prod.case fst_conv snd_conv by blast
qed

theorem match_language_witness:
  "match (map of_char ''^ab*$'') (map of_char ''abb'')
   \<and> (let (is, to_end) = items (map of_char ''ab*$'') in
      to_end \<and> (\<exists>b d. map of_char ''abb'' = b @ d \<and> b \<in> lang is \<and> (to_end \<longrightarrow> d = [])))"
proof -
  have m: "match (map of_char ''^ab*$'') (map of_char ''abb'')" by code_simp
  with match_language [of "map of_char ''^ab*$''" "map of_char ''abb''"] show ?thesis by simp
qed


section \<open>The program\<close>

text \<open>\<^verbatim>\<open>strchr(p, c)\<close> on what is left of the buffer: the distance to the first \<open>c\<close> before any NUL.\<close>

definition strchr :: "uchar list \<Rightarrow> uchar \<Rightarrow> nat option" where
  "strchr p c = scan (\<lambda>x. x = c) (takeWhile (\<lambda>x. x \<noteq> 0) p)"

text \<open>The inner loop: the lines it writes, and the bytes it leaves in the buffer.\<close>

function grep_lines :: "uchar list \<Rightarrow> uchar list \<Rightarrow> uchar list list \<times> uchar list" where
  "grep_lines pattern p =
     (case strchr p nl of None \<Rightarrow> ([], p)
      | Some q \<Rightarrow>
          (case grep_lines pattern (drop (q + 1) p) of (outs, rest) \<Rightarrow>
             ((if match pattern (take q p) then take (q + 1) p # outs else outs), rest)))"
  by pat_completeness auto
termination
proof (relation "measure (\<lambda>(pattern, p). length p)")
  fix pattern p q
  assume "strchr p nl = Some q"
  then have "q < length (takeWhile (\<lambda>x. x \<noteq> 0) p)" unfolding strchr_def by (rule scan_SomeD)
  then have "q < length p" using length_takeWhile_le [of "\<lambda>x. x \<noteq> 0" p] by simp
  then show "((pattern, drop (q + 1) p), pattern, p) \<in> measure (\<lambda>(pattern, p). length p)" by simp
qed simp

declare grep_lines.simps [simp del]

fun write_each :: "'w os \<Rightarrow> cint \<Rightarrow> uchar list list \<Rightarrow> (unit, 'w) uprog" where
  "write_each os fd [] w = ret () w"
| "write_each os fd (bs # bss) w = ubind (sys os (RqWrite fd bs) w) (\<lambda>_. write_each os fd bss)"

definition GREP_BUF :: nat where "GREP_BUF = 1024"

text \<open>\<^verbatim>\<open>grep\<close>, with the first \<^verbatim>\<open>m\<close> bytes of the buffer.\<close>

partial_function (option) grep_loop :: "'w os \<Rightarrow> uchar list \<Rightarrow> cint \<Rightarrow> uchar list \<Rightarrow> 'w \<Rightarrow> (unit uout \<times> 'w) option" where
  "grep_loop os pattern fd buf w =
     ubind (sys os (RqRead fd (GREP_BUF - length buf - 1)) w) (\<lambda>r w.
     if 0 <s r_val r
     then let (outs, rest) = grep_lines pattern (buf @ take (unat (r_val r)) (r_bytes r)) in
          ubind (write_each os 1 outs w) (\<lambda>_. grep_loop os pattern fd rest)
     else ret () w)"

definition grep :: "'w os \<Rightarrow> uchar list \<Rightarrow> cint \<Rightarrow> (unit, 'w) uprog" where
  "grep os pattern fd = grep_loop os pattern fd []"

fun grep_files :: "'w os \<Rightarrow> uchar list \<Rightarrow> uchar list list \<Rightarrow> (unit, 'w) uprog" where
  "grep_files os pattern [] w = exit_with 0 w"
| "grep_files os pattern (f # fs) w =
     ubind (sys os (RqOpen f O_RDONLY) w) (\<lambda>fd w.
     if r_val fd <s 0 then ubind (uprintf os (''grep: cannot open %s'' @ [CHR 0x0a]) [str_arg f] w) (\<lambda>_. exit_with 1)
     else ubind (grep os pattern (r_val fd) w) (\<lambda>_ w. ubind (sys os (RqClose (r_val fd)) w) (\<lambda>_. grep_files os pattern fs)))"

definition grep_main :: "'w os \<Rightarrow> uchar list list \<Rightarrow> (unit, 'w) uprog" where
  "grep_main os argv w =
     (if length argv \<le> 1 then ubind (ufprintf os 2 (''usage: grep pattern [file ...]'' @ [CHR 0x0a]) [] w) (\<lambda>_. exit_with 1)
      else if length argv \<le> 2 then ubind (grep os (argv ! 1) 0 w) (\<lambda>_. exit_with 0)
      else grep_files os (argv ! 1) (drop 2 argv) w)"


section \<open>Lines\<close>

lemma split_on_none: "c \<notin> set xs \<Longrightarrow> split_on c xs = [xs]"
  by (induction xs) auto

lemma split_on_cut: "c \<notin> set xs \<Longrightarrow> split_on c (xs @ c # ys) = xs # split_on c ys"
  by (induction xs) auto

lemma split_on_append: "split_on c (xs @ ys) = butlast (split_on c xs) @ split_on c (last (split_on c xs) @ ys)"
proof (induction xs)
  case (Cons x xs)
  show ?case
  proof (cases "split_on c xs")
    case (Cons l ls)
    show ?thesis
    proof (cases ls)
      case Nil
      then show ?thesis using Cons \<open>split_on c (xs @ ys) = _\<close> by auto
    next
      case (Cons l' ls')
      then show ?thesis using \<open>split_on c xs = l # ls\<close> \<open>split_on c (xs @ ys) = _\<close> by auto
    qed
  qed simp
qed simp

lemma last_split_on: "c \<notin> set (last (split_on c xs))"
proof (induction xs)
  case (Cons x xs)
  then show ?case using split_on_ne [of c xs] by (cases "split_on c xs") (auto split: if_splits)
qed simp

lemma set_last_split_on: "set (last (split_on c xs)) \<subseteq> set xs"
proof (induction xs)
  case (Cons x xs)
  then show ?case using split_on_ne [of c xs] by (cases "split_on c xs") (auto split: if_splits)
qed simp

definition complete_lines :: "uchar list \<Rightarrow> uchar list list" where
  "complete_lines xs = butlast (split_on nl xs)"

lemma grep_lines_spec:
  "0 \<notin> set p \<Longrightarrow> grep_lines pattern p = (map (\<lambda>l. l @ [nl]) (filter (match pattern) (complete_lines p)), last (split_on nl p))"
proof (induction p rule: length_induct)
  case (1 p)
  have t: "takeWhile (\<lambda>x. x \<noteq> 0) p = p" using 1(2) by (auto simp: takeWhile_eq_all_conv)
  show ?case
  proof (cases "strchr p nl")
    case None
    then have "nl \<notin> set p" unfolding strchr_def t by (auto simp: scan_None_iff in_set_conv_nth)
    then show ?thesis using None by (simp add: grep_lines.simps [of _ p] split_on_none complete_lines_def)
  next
    case (Some q)
    then have q: "q < length p" "p ! q = nl" "\<forall>i < q. p ! i \<noteq> nl" unfolding strchr_def t by (auto simp: scan_Some_iff)
    then have p: "p = take q p @ nl # drop (q + 1) p" by (metis id_take_nth_drop Suc_eq_plus1)
    have n: "nl \<notin> set (take q p)" using q by (auto simp: in_set_conv_nth)
    have z: "0 \<notin> set (drop (q + 1) p)" using 1(2) by (meson in_set_dropD)
    have s: "split_on nl p = take q p # split_on nl (drop (q + 1) p)" by (subst p) (rule split_on_cut [OF n])
    have k: "take (q + 1) p = take q p @ [nl]" using q by (simp add: take_Suc_conv_app_nth)
    have "grep_lines pattern (drop (q + 1) p) = (map (\<lambda>l. l @ [nl]) (filter (match pattern) (complete_lines (drop (q + 1) p))), last (split_on nl (drop (q + 1) p)))"
      using 1(1) z q by auto
    then show ?thesis using Some by (simp only: grep_lines.simps [of _ p] k option.case prod.case complete_lines_def s) auto
  qed
qed

lemma stream_write_each:
  assumes "stream_os os fd cont out"
  shows "yields (write_each os 1 bss w) (\<lambda>r w'. r = URet () \<and> out w' = out w @ concat bss \<and> cont w' = cont w)"
proof (induction bss arbitrary: w)
  case (Cons bs bss)
  obtain w1 r where "os (RqWrite 1 bs) w = (r, w1)" "out w1 = out w @ bs" "cont w1 = cont w"
    using stream_write [OF assms, of bs w] by metis
  then show ?case using Cons [of w1] by (auto elim: yields_mono)
qed simp

lemma grep_loop_ok:
  assumes os: "stream_os os fd cont out" and "0 \<notin> set (buf @ cont w)" and "nl \<notin> set buf"
    and "\<forall>l \<in> set (split_on nl (buf @ cont w)). length l < GREP_BUF - 1"
  shows "yields (grep_loop os pattern fd buf w) (\<lambda>r w'. r = URet () \<and>
    out w' = out w @ concat (map (\<lambda>l. l @ [nl]) (filter (match pattern) (complete_lines (buf @ cont w)))))"
  using assms(2-4)
proof (induction "length (cont w)" arbitrary: w buf rule: less_induct)
  case less
  obtain bs w1 r where q: "os (RqRead fd (GREP_BUF - length buf - 1)) w = (r, w1)" and v: "r_val r = of_nat (length bs)" "r_bytes r = bs"
    and l: "length bs \<le> GREP_BUF - length buf - 1" and c: "cont w = bs @ cont w1" "out w1 = out w" and e: "bs = [] \<Longrightarrow> GREP_BUF - length buf - 1 = 0 \<or> cont w = []"
    using stream_read [OF os, of "GREP_BUF - length buf - 1" w] by metis
  have small: "length bs < 2 ^ 31" using l by (simp add: GREP_BUF_def)
  show ?case
  proof (cases "bs = []")
    case True
    have "hd (split_on nl (buf @ cont w)) = buf @ takeWhile (\<lambda>x. x \<noteq> nl) (cont w)"
      using less(3) by (auto simp: split_on_hd intro!: takeWhile_append2)
    then have "length buf \<le> length (hd (split_on nl (buf @ cont w)))" by simp
    also have "\<dots> < GREP_BUF - 1" using less(4) by simp
    finally have "length buf < GREP_BUF - 1" .
    then have "cont w = []" using e [OF True] by (auto simp: GREP_BUF_def)
    then show ?thesis using True less(3) c v by (subst grep_loop.simps) (simp add: q [simplified] split_on_none complete_lines_def)
  next
    case False
    then have p: "0 <s r_val r" "unat (r_val r) = length bs"
      using v small by (simp_all add: word_sless_alt sint_of_nat_small of_nat_lt_pow)
    define rest where "rest = last (split_on nl (buf @ bs))"
    have g: "grep_lines pattern (buf @ bs) = (map (\<lambda>l. l @ [nl]) (filter (match pattern) (complete_lines (buf @ bs))), rest)"
      unfolding rest_def by (rule grep_lines_spec) (use less(2) c in auto)
    have a: "split_on nl (buf @ cont w) = complete_lines (buf @ bs) @ split_on nl (rest @ cont w1)"
      unfolding c(1) complete_lines_def rest_def append_assoc [symmetric] by (rule split_on_append)
    then have b: "complete_lines (buf @ cont w) = complete_lines (buf @ bs) @ complete_lines (rest @ cont w1)"
      by (simp add: complete_lines_def [of "_ @ cont _"] butlast_append)
    have rs: "set rest \<subseteq> set (buf @ bs)" unfolding rest_def by (rule set_last_split_on)
    have nr: "nl \<notin> set rest" unfolding rest_def by (rule last_split_on)
    have zr: "0 \<notin> set rest" using rs less(2) c(1) by auto
    have IH: "yields (grep_loop os pattern fd rest w2) (\<lambda>r w'. r = URet () \<and>
      out w' = out w2 @ concat (map (\<lambda>l. l @ [nl]) (filter (match pattern) (complete_lines (rest @ cont w1)))))" if "cont w2 = cont w1" for w2
      using less(1) [of w2 rest] that False less(2,4) c zr nr a by auto
    let ?outs = "map (\<lambda>l. l @ [nl]) (filter (match pattern) (complete_lines (buf @ bs)))"
    obtain w2 where w2: "write_each os 1 ?outs w1 = Some (URet (), w2)" "out w2 = out w1 @ concat ?outs" "cont w2 = cont w1"
      using stream_write_each [OF os, of ?outs w1] by (auto simp: yields_def)
    have "grep_loop os pattern fd buf w = grep_loop os pattern fd rest w2"
      by (subst grep_loop.simps) (simp add: q [simplified] p v(2) g w2 [simplified])
    then show ?thesis using IH [OF w2(3)] w2(2) c(2) b by simp
  qed
qed


text \<open>
  C27: \<^verbatim>\<open>grep\<close> prints exactly the matching lines.  However the system cuts the input into pieces, on a text without NULs
  whose lines are shorter than its buffer \<^verbatim>\<open>grep\<close> ends, having written the complete lines that match the pattern, in
  their order and each with its newline, and nothing else.
\<close>

theorem grep_filters_lines:
  assumes "stream_os os fd cont out" and "0 \<notin> set (cont w)" and "\<forall>l \<in> set (split_on nl (cont w)). length l < GREP_BUF - 1"
  shows "\<exists>w'. grep os pattern fd w = Some (URet (), w')
    \<and> out w' = out w @ concat (map (\<lambda>l. l @ [nl]) (filter (match pattern) (complete_lines (cont w))))"
  using grep_loop_ok [OF assms(1), of "[]" w pattern] assms(2,3) by (auto simp: grep_def yields_def)

theorem grep_filters_lines_witness:
  "let w = \<lparr>s_chunks = [map of_char ''ab'', map of_char ''c'' @ [nl] @ map of_char ''xy'', [nl] @ map of_char ''bc'' @ [nl]], s_out = []\<rparr> in
   \<exists>w'. grep simple_os (map of_char ''b.*c$'') 0 w = Some (URet (), w')
     \<and> s_out w' = map of_char ''abc'' @ [nl] @ map of_char ''bc'' @ [nl]"
proof -
  define w where "w = \<lparr>s_chunks = [map of_char ''ab'', map of_char ''c'' @ [nl] @ map of_char ''xy'', [nl] @ map of_char ''bc'' @ [nl]], s_out = []\<rparr>"
  have m: "match (map of_char ''b.*c$'') (map of_char ''abc'')" "\<not> match (map of_char ''b.*c$'') (map of_char ''xy'')"
    "match (map of_char ''b.*c$'') (map of_char ''bc'')" by code_simp+
  have l: "complete_lines (concat (s_chunks w)) = [map of_char ''abc'', map of_char ''xy'', map of_char ''bc'']"
    by (simp add: w_def complete_lines_def)
  have "\<exists>w'. grep simple_os (map of_char ''b.*c$'') 0 w = Some (URet (), w')
     \<and> s_out w' = s_out w @ concat (map (\<lambda>l. l @ [nl]) (filter (match (map of_char ''b.*c$'')) (complete_lines (concat (s_chunks w)))))"
    by (rule grep_filters_lines [OF simple_stream]) (simp_all add: w_def GREP_BUF_def)
  then show ?thesis unfolding l using m by (simp add: w_def)
qed

end
