(* ===== verification/Wc.thy ===== *)
theory Wc
  imports UProg
begin

text \<open>
  The user programs \<^verbatim>\<open>user/wc.c\<close> and \<^verbatim>\<open>user/cat.c\<close>, and what they print.
\<close>

section \<open>wc\<close>

record counts =
  wc_l :: cint
  wc_w :: cint
  wc_c :: cint
  wc_inword :: bool

definition wc_char :: "uchar \<Rightarrow> counts \<Rightarrow> counts" where
  "wc_char b k =
     (let k = k\<lparr>wc_c := wc_c k + 1\<rparr>;
          k = (if b = asc CHR 0x0a then k\<lparr>wc_l := wc_l k + 1\<rparr> else k)
      in if in_str [CHR '' '', CHR 0x0d, CHR 0x09, CHR 0x0a, CHR 0x0b] b then k\<lparr>wc_inword := False\<rparr>
         else if \<not> wc_inword k then k\<lparr>wc_w := wc_w k + 1, wc_inword := True\<rparr> else k)"

partial_function (option) wc_loop :: "'w os \<Rightarrow> cint \<Rightarrow> counts \<Rightarrow> 'w \<Rightarrow> ((cint \<times> counts) uout \<times> 'w) option" where
  "wc_loop os fd k w =
     ubind (sys os (RqRead fd 512) w) (\<lambda>r w.
     if 0 <s r_val r then wc_loop os fd (fold wc_char (take (unat (r_val r)) (r_bytes r)) k) w else ret (r_val r, k) w)"

definition wc :: "'w os \<Rightarrow> cint \<Rightarrow> uchar list \<Rightarrow> (unit, 'w) uprog" where
  "wc os fd name w =
     ubind (wc_loop os fd \<lparr>wc_l = 0, wc_w = 0, wc_c = 0, wc_inword = False\<rparr> w) (\<lambda>(n, k) w.
     if n <s 0 then ubind (uprintf os (''wc: read error'' @ [CHR 0x0a]) [] w) (\<lambda>_. exit_with 1)
     else uprintf os (''%d %d %d %s'' @ [CHR 0x0a]) [int_arg (wc_l k), int_arg (wc_w k), int_arg (wc_c k), str_arg name] w)"

fun wc_files :: "'w os \<Rightarrow> uchar list list \<Rightarrow> (unit, 'w) uprog" where
  "wc_files os [] w = exit_with 0 w"
| "wc_files os (f # fs) w =
     ubind (sys os (RqOpen f O_RDONLY) w) (\<lambda>fd w.
     if r_val fd <s 0 then ubind (uprintf os (''wc: cannot open %s'' @ [CHR 0x0a]) [str_arg f] w) (\<lambda>_. exit_with 1)
     else ubind (wc os (r_val fd) f w) (\<lambda>_ w. ubind (sys os (RqClose (r_val fd)) w) (\<lambda>_. wc_files os fs)))"

definition wc_main :: "'w os \<Rightarrow> uchar list list \<Rightarrow> (unit, 'w) uprog" where
  "wc_main os argv w =
     (if length argv \<le> 1 then ubind (wc os 0 [] w) (\<lambda>_. exit_with 0) else wc_files os (tl argv) w)"

section \<open>cat\<close>

partial_function (option) cat :: "'w os \<Rightarrow> cint \<Rightarrow> 'w \<Rightarrow> (unit uout \<times> 'w) option" where
  "cat os fd w =
     ubind (sys os (RqRead fd 512) w) (\<lambda>r w.
     if 0 <s r_val r
     then ubind (sys os (RqWrite 1 (take (unat (r_val r)) (r_bytes r))) w) (\<lambda>n w.
          if r_val n \<noteq> r_val r then ubind (ufprintf os 2 (''cat: write error'' @ [CHR 0x0a]) [] w) (\<lambda>_. exit_with 1)
          else cat os fd w)
     else if r_val r <s 0 then ubind (ufprintf os 2 (''cat: read error'' @ [CHR 0x0a]) [] w) (\<lambda>_. exit_with 1)
     else ret () w)"

fun cat_files :: "'w os \<Rightarrow> uchar list list \<Rightarrow> (unit, 'w) uprog" where
  "cat_files os [] w = exit_with 0 w"
| "cat_files os (f # fs) w =
     ubind (sys os (RqOpen f O_RDONLY) w) (\<lambda>fd w.
     if r_val fd <s 0 then ubind (ufprintf os 2 (''cat: cannot open %s'' @ [CHR 0x0a]) [str_arg f] w) (\<lambda>_. exit_with 1)
     else ubind (cat os (r_val fd) w) (\<lambda>_ w. ubind (sys os (RqClose (r_val fd)) w) (\<lambda>_. cat_files os fs)))"

definition cat_main :: "'w os \<Rightarrow> uchar list list \<Rightarrow> (unit, 'w) uprog" where
  "cat_main os argv w =
     (if length argv \<le> 1 then ubind (cat os 0 w) (\<lambda>_. exit_with 0) else cat_files os (tl argv) w)"

section \<open>Words\<close>

text \<open>The words of a text: its maximal runs of bytes that are no blanks.\<close>

function words_of :: "('a \<Rightarrow> bool) \<Rightarrow> 'a list \<Rightarrow> 'a list list" where
  "words_of sp xs =
     (case dropWhile sp xs of [] \<Rightarrow> []
      | y # ys \<Rightarrow> (y # takeWhile (\<lambda>x. \<not> sp x) ys) # words_of sp (dropWhile (\<lambda>x. \<not> sp x) ys))"
  by pat_completeness auto
termination
proof (relation "measure (\<lambda>(sp, xs). length xs)")
  fix sp :: "'a \<Rightarrow> bool" and xs y ys
  assume "dropWhile sp xs = y # ys"
  then have "length (y # ys) \<le> length xs" by (metis length_dropWhile_le)
  then show "((sp, dropWhile (\<lambda>x. \<not> sp x) ys), sp, xs) \<in> measure (\<lambda>(sp, xs). length xs)"
    using length_dropWhile_le [of "\<lambda>x. \<not> sp x" ys] by simp
qed simp

declare words_of.simps [simp del]

lemma words_of_simps [simp]:
  "words_of sp [] = []" "sp x \<Longrightarrow> words_of sp (x # xs) = words_of sp xs"
  "\<not> sp x \<Longrightarrow> words_of sp (x # xs) = (x # takeWhile (\<lambda>x. \<not> sp x) xs) # words_of sp (dropWhile (\<lambda>x. \<not> sp x) xs)"
  by (simp_all add: words_of.simps [of sp "_ # _"] words_of.simps [of sp "[]"] words_of.simps [of sp xs])

definition blank :: "uchar \<Rightarrow> bool" where
  "blank = in_str [CHR '' '', CHR 0x0d, CHR 0x09, CHR 0x0a, CHR 0x0b]"

lemma wc_fold:
  "let k' = fold wc_char xs k in
   wc_c k' = wc_c k + of_nat (length xs) \<and> wc_l k' = wc_l k + of_nat (count_list xs (asc CHR 0x0a))
   \<and> wc_w k' = wc_w k + of_nat (length (words_of blank (if wc_inword k then dropWhile (\<lambda>x. \<not> blank x) xs else xs)))"
proof (induction xs arbitrary: k)
  case (Cons x xs)
  have nl: "blank (asc CHR 0x0a)" by (simp add: blank_def in_str_def)
  have f: "wc_char x k = k\<lparr>wc_c := wc_c k + 1, wc_l := wc_l k + (if x = asc CHR 0x0a then 1 else 0),
      wc_w := wc_w k + (if blank x \<or> wc_inword k then 0 else 1), wc_inword := \<not> blank x\<rparr>"
    by (cases k) (auto simp: wc_char_def blank_def [symmetric] Let_def)
  show ?case using Cons [of "wc_char x k"] nl
    by (auto simp: Let_def f algebra_simps)
qed simp


lemma wc_loop_ok:
  assumes os: "stream_os os fd cont out"
  shows "yields (wc_loop os fd k w) (\<lambda>r w'. r = URet (0, fold wc_char (cont w) k) \<and> out w' = out w \<and> cont w' = [])"
proof (induction "length (cont w)" arbitrary: w k rule: less_induct)
  case less
  obtain bs w1 r where q: "os (RqRead fd 512) w = (r, w1)" and v: "r_val r = of_nat (length bs)" "r_bytes r = bs"
    and l: "length bs \<le> 512" and c: "cont w = bs @ cont w1" "out w1 = out w" and e: "bs = [] \<Longrightarrow> 512 = (0::nat) \<or> cont w = []"
    using stream_read [OF os, of 512 w] by metis
  show ?case
  proof (cases "bs = []")
    case True
    then show ?thesis using e c v by (subst wc_loop.simps) (simp add: q)
  next
    case False
    then have p: "0 <s r_val r" "unat (r_val r) = length bs"
      using v l by (simp_all add: word_sless_alt sint_of_nat_small of_nat_lt_pow)
    have "wc_loop os fd k w = wc_loop os fd (fold wc_char bs k) w1" by (subst wc_loop.simps) (simp add: q p v(2))
    then show ?thesis using less [of w1 "fold wc_char bs k"] False c by simp
  qed
qed

text \<open>
  C28: \<^verbatim>\<open>wc\<close> ends and prints the number of newlines, of words (maximal runs of bytes that are no blanks) and of bytes of
  its input, as 32-bit numbers and however the system cuts the input into pieces.
\<close>

theorem wc_counts:
  assumes "stream_os os fd cont out"
  shows "\<exists>w'. wc os fd name w = Some (URet (), w') \<and>
    out w' = out w @ vprintf (map of_char (''%d %d %d %s'' @ [CHR 0x0a]))
      (\<lambda>i. [int_arg (of_nat (count_list (cont w) (asc CHR 0x0a))), int_arg (of_nat (length (words_of blank (cont w)))),
           int_arg (of_nat (length (cont w))), str_arg name] ! i)"
proof -
  define k0 where "k0 = \<lparr>wc_l = 0, wc_w = 0, wc_c = 0, wc_inword = False\<rparr>"
  define k where "k = fold wc_char (cont w) k0"
  have f: "wc_c k = of_nat (length (cont w))" "wc_l k = of_nat (count_list (cont w) (asc CHR 0x0a))" "wc_w k = of_nat (length (words_of blank (cont w)))"
    using wc_fold [of "cont w" k0] by (simp_all add: k_def k0_def Let_def)
  obtain w1 where w1: "wc_loop os fd k0 w = Some (URet (0, k), w1)" "out w1 = out w"
    using wc_loop_ok [OF assms, of k0 w] by (auto simp: yields_def k_def)
  have u: "wc os fd name w = uprintf os (''%d %d %d %s'' @ [CHR 0x0a]) [int_arg (wc_l k), int_arg (wc_w k), int_arg (wc_c k), str_arg name] w1"
    unfolding wc_def k0_def [symmetric] w1(1) by simp
  show ?thesis unfolding u uprintf_def ufprintf_def f
    using stream_uputs [OF assms] w1(2) unfolding yields_def by metis
qed

theorem wc_counts_witness:
  "\<exists>w'. wc simple_os 0 (map of_char ''f'') \<lparr>s_chunks = [map of_char ''ab c'', [asc CHR 0x0a]], s_out = []\<rparr> = Some (URet (), w')
     \<and> s_out w' = map of_char ''1 2 5 f'' @ [asc CHR 0x0a]"
proof -
  have v: "vprintf (map of_char (''%d %d %d %s'' @ [CHR 0x0a])) (\<lambda>i. [int_arg 1, int_arg 2, int_arg 5, str_arg (map of_char ''f'')] ! i)
      = map of_char ''1 2 5 f'' @ [asc CHR 0x0a]" by code_simp
  have "words_of blank (map of_char ''ab c'' @ [asc CHR 0x0a]) = [map of_char ''ab'', map of_char ''c'']"
    by (simp add: blank_def in_str_def)
  then show ?thesis
    using wc_counts [OF simple_stream, of 0 "map of_char ''f''" "\<lparr>s_chunks = [map of_char ''ab c'', [asc CHR 0x0a]], s_out = []\<rparr>"] v by simp
qed

end
