(* ===== verification/Sh.thy ===== *)
theory Sh
  imports UProg "HOL-Library.Sublist"
begin

text \<open>
  The shell, \<^verbatim>\<open>user/sh.c\<close>: its parser, the commands it builds, and how it runs them.  A pointer into the line that
  is parsed is what the line has from there on: \<open>[]\<close> is the end \<^verbatim>\<open>es\<close>, where the terminating NUL is.
\<close>

section \<open>Commands\<close>

type_synonym ptr = "uchar list"

datatype cmd =
    ExecCmd "(ptr \<times> ptr) list"
  | RedirCmd cmd ptr ptr cint cint
  | PipeCmd cmd cmd
  | ListCmd cmd cmd
  | BackCmd cmd

definition MAXARGS :: nat where "MAXARGS = 10"

text \<open>How the parser ends: with a result, in \<^verbatim>\<open>panic\<close>, or (for lack of fuel) not at all.\<close>

datatype 'a parsed = Parsed 'a | Syntax string | Deep

fun pbind :: "'a parsed \<Rightarrow> ('a \<Rightarrow> 'b parsed) \<Rightarrow> 'b parsed" where
  "pbind (Parsed x) f = f x"
| "pbind (Syntax m) f = Syntax m"
| "pbind Deep f = Deep"

section \<open>Tokens\<close>

definition whitespace :: "uchar \<Rightarrow> bool" where
  "whitespace = in_str [CHR '' '', CHR 0x09, CHR 0x0d, CHR 0x0a, CHR 0x0b]"

definition symbols :: "uchar \<Rightarrow> bool" where
  "symbols = in_str ''<|>&;()''"

abbreviation char_at :: "ptr \<Rightarrow> uchar" where
  "char_at s \<equiv> (case s of [] \<Rightarrow> 0 | c # _ \<Rightarrow> c)"

text \<open>\<^verbatim>\<open>gettoken\<close>: the kind of the token, where it starts and ends, and where the next one starts.\<close>

definition gettoken :: "ptr \<Rightarrow> uchar \<times> ptr \<times> ptr \<times> ptr" where
  "gettoken ps =
     (let q = dropWhile whitespace ps;
          c = char_at q;
          (tok, eq) =
            (if c = 0 then (c, q)
             else if in_str ''|();&<'' c then (c, tl q)
             else if c = asc CHR ''>'' then
               (if char_at (tl q) = asc CHR ''>'' then (asc CHR ''+'', tl (tl q)) else (c, tl q))
             else (asc CHR ''a'', dropWhile (\<lambda>x. \<not> whitespace x \<and> \<not> symbols x) q))
      in (tok, q, eq, dropWhile whitespace eq))"

definition peek :: "string \<Rightarrow> ptr \<Rightarrow> bool \<times> ptr" where
  "peek toks ps = (let s = dropWhile whitespace ps in (char_at s \<noteq> 0 \<and> in_str toks (char_at s), s))"

lemma gettoken_rest: "gettoken ps = (tok, q, eq, s) \<Longrightarrow> length s \<le> length ps"
proof -
  assume g: "gettoken ps = (tok, q, eq, s)"
  have d: "length (dropWhile P xs) \<le> length xs" for P and xs :: "uchar list" by (rule length_dropWhile_le)
  have "length eq \<le> length q" "length q \<le> length ps" "length s \<le> length eq"
    using g d [of whitespace ps] d [of whitespace eq] d [of "\<lambda>x. \<not> whitespace x \<and> \<not> symbols x" q]
    by (auto simp: gettoken_def Let_def split: if_splits)
  then show ?thesis by simp
qed

lemma gettoken_less:
  assumes "gettoken ps = (tok, q, eq, s)" and "char_at (dropWhile whitespace ps) \<noteq> 0"
  shows "length s < length ps"
proof -
  have d: "length (dropWhile P xs) \<le> length xs" for P and xs :: "uchar list" by (rule length_dropWhile_le)
  obtain c cs where q: "dropWhile whitespace ps = c # cs" using assms(2) by (cases "dropWhile whitespace ps") auto
  then have "\<not> whitespace c" using hd_dropWhile [of whitespace ps] by simp
  then have "length eq < length (c # cs)"
    using assms d [of "\<lambda>x. \<not> whitespace x \<and> \<not> symbols x" cs] q
    by (auto simp: gettoken_def Let_def in_str_def symbols_def split: if_splits)
  moreover have "s = dropWhile whitespace eq" using assms(1) by (auto simp: gettoken_def Let_def split: if_splits)
  ultimately show ?thesis using d [of whitespace ps] d [of whitespace eq] q by simp
qed

lemma peek_True: "peek toks ps = (True, s) \<Longrightarrow> s = dropWhile whitespace ps \<and> char_at s \<noteq> 0 \<and> in_str toks (char_at s)"
  by (auto simp: peek_def Let_def)

lemma peek_rest: "peek toks ps = (b, s) \<Longrightarrow> length s \<le> length ps"
  by (auto simp: peek_def Let_def intro: length_dropWhile_le)

lemma dropWhile_again: "dropWhile P (dropWhile P xs) = dropWhile P xs"
  by (induction xs) auto

lemma peek_gettoken: "peek toks ps = (True, s) \<Longrightarrow> gettoken s = (tok, q, eq, s') \<Longrightarrow> length s' < length ps"
proof -
  assume p: "peek toks ps = (True, s)" and g: "gettoken s = (tok, q, eq, s')"
  have "dropWhile whitespace s = s" "char_at s \<noteq> 0" using peek_True [OF p] dropWhile_again [of whitespace ps] by auto
  then show ?thesis using gettoken_less [OF g] peek_rest [OF p] by simp
qed

lemma redir_less:
  "(True, s) = peek toks ps \<Longrightarrow> (tok, q, eq, s1) = gettoken s \<Longrightarrow> (tok2, q2, eq2, s2) = gettoken s1 \<Longrightarrow> length s2 < length ps"
  using peek_gettoken [of toks ps s tok q eq s1] gettoken_rest [of s1 tok2 q2 eq2 s2] by simp


section \<open>The parser\<close>

text \<open>The redirections at a place in the line, in their order: file, end of its name, mode and descriptor.\<close>

function parseredirs :: "ptr \<Rightarrow> ((ptr \<times> ptr \<times> cint \<times> cint) list \<times> ptr) parsed" where
  "parseredirs ps =
     (case peek ''<>'' ps of
        (False, s) \<Rightarrow> Parsed ([], s)
      | (True, s) \<Rightarrow>
          (case gettoken s of (tok, _, _, s) \<Rightarrow>
           case gettoken s of (tok2, q, eq, s) \<Rightarrow>
             if tok2 \<noteq> asc CHR ''a'' then Syntax ''missing file for redirection''
             else pbind (parseredirs s) (\<lambda>(rs, s).
               let (mode, fd) = (if tok = asc CHR ''<'' then (O_RDONLY, 0)
                                 else if tok = asc CHR ''>'' then (O_WRONLY OR O_CREATE OR O_TRUNC, 1)
                                 else (O_WRONLY OR O_CREATE, 1))
               in Parsed ((q, eq, mode, fd) # rs, s))))"
  by pat_completeness auto
termination
  by (relation "measure length") (auto intro: redir_less)

declare parseredirs.simps [simp del]

text \<open>Each redirection wraps the command before it.\<close>

definition redirect :: "(ptr \<times> ptr \<times> cint \<times> cint) list \<Rightarrow> cmd \<Rightarrow> cmd" where
  "redirect rs c = fold (\<lambda>(q, eq, mode, fd) c. RedirCmd c q eq mode fd) rs c"

text \<open>The loop of \<^verbatim>\<open>parseexec\<close>: the arguments and redirections so far.\<close>

function parseargs :: "(ptr \<times> ptr) list \<Rightarrow> (ptr \<times> ptr \<times> cint \<times> cint) list \<Rightarrow> ptr \<Rightarrow> (cmd \<times> ptr) parsed" where
  "parseargs argv rs ps =
     (case peek ''|)&;'' ps of
        (True, s) \<Rightarrow> Parsed (redirect rs (ExecCmd argv), s)
      | (False, s) \<Rightarrow>
          (case gettoken s of (tok, q, eq, s) \<Rightarrow>
             if tok = 0 then Parsed (redirect rs (ExecCmd argv), s)
             else if tok \<noteq> asc CHR ''a'' then Syntax ''syntax''
             else if MAXARGS \<le> length argv + 1 then Syntax ''too many args''
             else pbind (parseredirs s) (\<lambda>(rs', s). parseargs (argv @ [(q, eq)]) (rs @ rs') s)))"
  by pat_completeness auto
termination
  by (relation "measure (\<lambda>(argv, rs, ps). MAXARGS - length argv)") auto

declare parseargs.simps [simp del]

text \<open>The loop of \<^verbatim>\<open>parseline\<close> over the ampersands.\<close>

lemma parseback_less: "(True, s) = peek toks ps \<Longrightarrow> (tok, q, eq, s1) = gettoken s \<Longrightarrow> length s1 < length ps"
  using peek_gettoken [of toks ps s tok q eq s1] by simp

function parseback :: "cmd \<Rightarrow> ptr \<Rightarrow> cmd \<times> ptr" where
  "parseback c ps =
     (case peek ''&'' ps of
        (False, s) \<Rightarrow> (c, s)
      | (True, s) \<Rightarrow> (case gettoken s of (_, _, _, s) \<Rightarrow> parseback (BackCmd c) s))"
  by pat_completeness auto
termination
  by (relation "measure (\<lambda>(c, ps). length ps)") (auto intro: parseback_less)

declare parseback.simps [simp del]

fun parseline :: "nat \<Rightarrow> ptr \<Rightarrow> (cmd \<times> ptr) parsed"
  and parsepipe :: "nat \<Rightarrow> ptr \<Rightarrow> (cmd \<times> ptr) parsed"
  and parseblock :: "nat \<Rightarrow> ptr \<Rightarrow> (cmd \<times> ptr) parsed"
  and parseexec :: "nat \<Rightarrow> ptr \<Rightarrow> (cmd \<times> ptr) parsed" where
  "parseline 0 ps = Deep"
| "parseline (Suc n) ps =
     pbind (parsepipe n ps) (\<lambda>(c, s).
       case parseback c s of (c, s) \<Rightarrow>
       case peek '';'' s of
         (False, s) \<Rightarrow> Parsed (c, s)
       | (True, s) \<Rightarrow>
           (case gettoken s of (_, _, _, s) \<Rightarrow> pbind (parseline n s) (\<lambda>(c2, s). Parsed (ListCmd c c2, s))))"
| "parsepipe 0 ps = Deep"
| "parsepipe (Suc n) ps =
     pbind (parseexec n ps) (\<lambda>(c, s).
       case peek ''|'' s of
         (False, s) \<Rightarrow> Parsed (c, s)
       | (True, s) \<Rightarrow>
           (case gettoken s of (_, _, _, s) \<Rightarrow> pbind (parsepipe n s) (\<lambda>(c2, s). Parsed (PipeCmd c c2, s))))"
| "parseblock 0 ps = Deep"
| "parseblock (Suc n) ps =
     (case peek ''('' ps of
        (False, s) \<Rightarrow> Syntax ''parseblock''
      | (True, s) \<Rightarrow>
          (case gettoken s of (_, _, _, s) \<Rightarrow>
           pbind (parseline n s) (\<lambda>(c, s).
             case peek '')'' s of
               (False, s) \<Rightarrow> Syntax ''syntax - missing )''
             | (True, s) \<Rightarrow>
                 (case gettoken s of (_, _, _, s) \<Rightarrow> pbind (parseredirs s) (\<lambda>(rs, s). Parsed (redirect rs c, s))))))"
| "parseexec 0 ps = Deep"
| "parseexec (Suc n) ps =
     (case peek ''('' ps of
        (True, s) \<Rightarrow> parseblock n s
      | (False, s) \<Rightarrow> pbind (parseredirs s) (\<lambda>(rs, s). parseargs [] rs s))"

text \<open>
  Every character of the line is consumed at most once, and at most four calls are nested per character.
\<close>

definition parse_fuel :: "ptr \<Rightarrow> nat" where
  "parse_fuel s = 4 * length s + 4"

text \<open>\<^verbatim>\<open>parsecmd\<close> up to the test for leftovers, which are the second component of the result.\<close>

definition parse_all :: "ptr \<Rightarrow> (cmd \<times> ptr) parsed" where
  "parse_all s = pbind (parseline (parse_fuel s) s) (\<lambda>(c, s). Parsed (c, snd (peek [] s)))"

text \<open>\<^verbatim>\<open>nulterminate\<close> on the memory of the line, \<open>n\<close> bytes and the terminating NUL.\<close>

definition put_nul :: "nat \<Rightarrow> ptr \<Rightarrow> uchar list \<Rightarrow> uchar list" where
  "put_nul n p m = m[n - length p := 0]"

fun nulterminate :: "nat \<Rightarrow> cmd \<Rightarrow> uchar list \<Rightarrow> uchar list" where
  "nulterminate n (ExecCmd argv) m = fold (\<lambda>(q, eq). put_nul n eq) argv m"
| "nulterminate n (RedirCmd c q eq mode fd) m = put_nul n eq (nulterminate n c m)"
| "nulterminate n (PipeCmd l r) m = nulterminate n r (nulterminate n l m)"
| "nulterminate n (ListCmd l r) m = nulterminate n r (nulterminate n l m)"
| "nulterminate n (BackCmd c) m = nulterminate n c m"

text \<open>The string a program finds at a pointer.\<close>

definition string_at :: "nat \<Rightarrow> uchar list \<Rightarrow> ptr \<Rightarrow> uchar list" where
  "string_at n m q = takeWhile (\<lambda>x. x \<noteq> 0) (drop (n - length q) m)"

section \<open>Tokens are words of the line\<close>

text \<open>\<open>pall P r\<close>: if the parser returns, its result satisfies \<open>P\<close>.\<close>

definition pall :: "('a \<Rightarrow> bool) \<Rightarrow> 'a parsed \<Rightarrow> bool" where
  "pall P r \<longleftrightarrow> (\<forall>x. r = Parsed x \<longrightarrow> P x)"

lemma pall_simps [simp]: "pall P (Parsed x) \<longleftrightarrow> P x" "pall P (Syntax m)" "pall P Deep"
  by (simp_all add: pall_def)

lemma pall_pbind [simp]: "pall P (pbind r f) \<longleftrightarrow> pall (\<lambda>x. pall P (f x)) r"
  by (cases r) simp_all

lemma pall_mono: "pall P r \<Longrightarrow> (\<And>x. P x \<Longrightarrow> Q x) \<Longrightarrow> pall Q r"
  by (simp add: pall_def)

definition wordc :: "uchar \<Rightarrow> bool" where
  "wordc x \<longleftrightarrow> \<not> whitespace x \<and> \<not> symbols x"

definition tok_ok :: "ptr \<Rightarrow> ptr \<times> ptr \<Rightarrow> bool" where
  "tok_ok line = (\<lambda>(q, eq). suffix q line \<and> (\<exists>t. q = t @ eq \<and> t \<noteq> [] \<and> list_all wordc t) \<and> (eq = [] \<or> \<not> wordc (hd eq)))"

fun tokens :: "cmd \<Rightarrow> (ptr \<times> ptr) list" where
  "tokens (ExecCmd argv) = argv"
| "tokens (RedirCmd c q eq mode fd) = tokens c @ [(q, eq)]"
| "tokens (PipeCmd l r) = tokens l @ tokens r"
| "tokens (ListCmd l r) = tokens l @ tokens r"
| "tokens (BackCmd c) = tokens c"

lemma tok_ok_suffix: "tok_ok s x \<Longrightarrow> suffix s ps \<Longrightarrow> tok_ok ps x"
  by (auto simp: tok_ok_def intro: suffix_order.trans)

lemma suffix_dropWhile: "suffix (dropWhile P xs) xs"
  by (metis suffixI takeWhile_dropWhile_id)

lemma gettoken_suffix:
  assumes "gettoken ps = (tok, q, eq, s)"
  shows "suffix q ps" "suffix eq q" "suffix s eq"
proof -
  show q: "suffix q ps" "suffix s eq" using assms by (auto simp: gettoken_def Let_def suffix_dropWhile split: if_splits)
  have "suffix (tl (tl q)) q" by (rule suffix_order.trans [OF suffix_tl suffix_tl])
  then show "suffix eq q"
    using assms suffix_dropWhile [of "\<lambda>x. \<not> whitespace x \<and> \<not> symbols x" q] suffix_tl [of q]
    by (auto simp: gettoken_def Let_def split: if_splits)
qed

lemma gettoken_to: "gettoken ps = (tok, q, eq, s) \<Longrightarrow> suffix s ps"
  using gettoken_suffix [of ps tok q eq s] by (meson suffix_order.trans)

lemma gettoken_word:
  assumes "gettoken ps = (asc CHR ''a'', q, eq, s)"
  shows "tok_ok ps (q, eq)"
proof -
  have q: "q = dropWhile whitespace ps" and c: "char_at q \<noteq> 0" "\<not> in_str ''|();&<>'' (char_at q)"
    and e: "eq = dropWhile wordc q"
    using assms by (auto simp: gettoken_def Let_def in_str_def wordc_def [abs_def] split: if_splits)
  obtain x xs where x: "q = x # xs" using c by (cases q) auto
  have "\<not> whitespace x" using hd_dropWhile [of whitespace ps] x q by (metis list.distinct(1) list.sel(1))
  then have "wordc x" using c x by (auto simp: wordc_def symbols_def in_str_def)
  then have "takeWhile wordc q \<noteq> []" using x by simp
  moreover have "eq = [] \<or> \<not> wordc (hd eq)" unfolding e using hd_dropWhile by blast
  ultimately show ?thesis
    unfolding tok_ok_def e prod.case using q suffix_dropWhile [of whitespace ps]
    by (metis takeWhile_dropWhile_id list_all_iff set_takeWhileD)
qed

lemma peek_suffix: "peek toks ps = (b, s) \<Longrightarrow> suffix s ps"
  by (auto simp: peek_def Let_def suffix_dropWhile)

text \<open>What holds of the result of every routine of the parser.\<close>

definition result_ok :: "ptr \<Rightarrow> cmd \<times> ptr \<Rightarrow> bool" where
  "result_ok ps = (\<lambda>(c, s). suffix s ps \<and> list_all (tok_ok ps) (tokens c))"

definition redirs_ok :: "ptr \<Rightarrow> (ptr \<times> ptr \<times> cint \<times> cint) list \<times> ptr \<Rightarrow> bool" where
  "redirs_ok ps = (\<lambda>(rs, s). suffix s ps \<and> list_all (\<lambda>(q, eq, _). tok_ok ps (q, eq)) rs)"

lemma result_ok_suffix: "result_ok s x \<Longrightarrow> suffix s ps \<Longrightarrow> result_ok ps x"
  by (auto simp: result_ok_def list_all_iff intro: tok_ok_suffix suffix_order.trans)

lemma redirs_ok_suffix: "redirs_ok s x \<Longrightarrow> suffix s ps \<Longrightarrow> redirs_ok ps x"
  unfolding redirs_ok_def list_all_iff by (fastforce intro: tok_ok_suffix suffix_order.trans)

lemma tokens_redirect: "set (tokens (redirect rs c)) = set (tokens c) \<union> set (map (\<lambda>(q, eq, _). (q, eq)) rs)"
  unfolding redirect_def by (induction rs arbitrary: c) auto

lemma parseredirs_ok: "pall (redirs_ok ps) (parseredirs ps)"
proof (induction ps rule: parseredirs.induct)
  case (1 ps)
  obtain b s1 where p: "peek ''<>'' ps = (b, s1)" by (cases "peek ''<>'' ps")
  obtain tok q eq s2 where g: "gettoken s1 = (tok, q, eq, s2)" by (cases "gettoken s1")
  obtain tok2 q2 eq2 s3 where h: "gettoken s2 = (tok2, q2, eq2, s3)" by (cases "gettoken s2")
  have s: "suffix s1 ps" "suffix s2 ps" "suffix s3 ps"
    using peek_suffix [OF p] gettoken_to [OF g] gettoken_to [OF h] by (meson suffix_order.trans)+
  show ?case
  proof (cases "b \<and> tok2 = asc CHR ''a''")
    case True
    have "pall (redirs_ok s3) (parseredirs s3)" using 1 True p g h by auto
    then have r: "pall (redirs_ok ps) (parseredirs s3)" by (rule pall_mono) (rule redirs_ok_suffix [OF _ s(3)])
    have t: "tok_ok ps (q2, eq2)" using gettoken_word [of s2 q2 eq2 s3] h True tok_ok_suffix [OF _ s(2)] by simp
    show ?thesis
      by (subst parseredirs.simps) (use True t in \<open>auto simp: p g h redirs_ok_def intro!: pall_mono [OF r]\<close>)
  next
    case False
    then show ?thesis by (subst parseredirs.simps) (auto simp: p g h redirs_ok_def s split: bool.splits)
  qed
qed

lemma parseargs_ok:
  "list_all (tok_ok line) argv \<Longrightarrow> list_all (\<lambda>(q, eq, _). tok_ok line (q, eq)) rs \<Longrightarrow> suffix ps line \<Longrightarrow>
   pall (result_ok line) (parseargs argv rs ps)"
proof (induction argv rs ps rule: parseargs.induct)
  case (1 argv rs ps)
  obtain b s1 where p: "peek ''|)&;'' ps = (b, s1)" by (cases "peek ''|)&;'' ps")
  obtain tok q eq s2 where g: "gettoken s1 = (tok, q, eq, s2)" by (cases "gettoken s1")
  have s: "suffix s1 line" "suffix s2 line"
    using peek_suffix [OF p] gettoken_to [OF g] 1(4) by (meson suffix_order.trans)+
  have d: "result_ok line (redirect rs (ExecCmd argv), s1)" "result_ok line (redirect rs (ExecCmd argv), s2)"
    using 1(2,3) s by (auto simp: result_ok_def list_all_iff tokens_redirect)
  show ?case
  proof (cases "\<not> b \<and> tok = asc CHR ''a'' \<and> \<not> MAXARGS \<le> length argv + 1")
    case True
    have t: "tok_ok line (q, eq)" using gettoken_word [of s1 q eq s2] g True tok_ok_suffix [OF _ s(1)] by simp
    have r: "pall (redirs_ok line) (parseredirs s2)" by (rule pall_mono [OF parseredirs_ok]) (rule redirs_ok_suffix [OF _ s(2)])
    have "pall (\<lambda>(rs', s). pall (result_ok line) (parseargs (argv @ [(q, eq)]) (rs @ rs') s)) (parseredirs s2)"
    proof (rule pall_mono [OF r], goal_cases)
      case (1 x)
      obtain rs' s3 where x: "x = (rs', s3)" by (cases x)
      have "pall (result_ok line) (parseargs (argv @ [(q, eq)]) (rs @ rs') s3)"
        by (rule "1.IH" [of b s1 tok "(q, eq, s2)" q "(eq, s2)" eq s2 rs' s3])
          (use True p g x t "1.prems" \<open>redirs_ok line x\<close> in \<open>auto simp: redirs_ok_def\<close>)
      then show ?case by (simp add: x)
    qed
    then show ?thesis by (subst parseargs.simps) (use True in \<open>auto simp: p g elim!: pall_mono\<close>)
  next
    case False
    then show ?thesis by (subst parseargs.simps) (auto simp: p g d split: bool.splits)
  qed
qed

lemma parseback_ok: "result_ok line (c, ps) \<Longrightarrow> result_ok line (parseback c ps)"
proof (induction c ps rule: parseback.induct)
  case (1 c ps)
  obtain b s1 where p: "peek ''&'' ps = (b, s1)" by (cases "peek ''&'' ps")
  obtain tok q eq s2 where g: "gettoken s1 = (tok, q, eq, s2)" by (cases "gettoken s1")
  have s: "suffix s1 line" "suffix s2 line"
    using peek_suffix [OF p] gettoken_to [OF g] 1(2) unfolding result_ok_def by (auto intro: suffix_order.trans)
  have t: "list_all (tok_ok line) (tokens c)" using 1(2) by (simp add: result_ok_def)
  show ?case
  proof (cases b)
    case True
    then show ?thesis using 1(1) [of b s1 tok "(q, eq, s2)" q "(eq, s2)" eq s2] p g s t
      by (subst parseback.simps) (simp add: result_ok_def)
  next
    case False
    then show ?thesis using p s t by (subst parseback.simps) (simp add: result_ok_def)
  qed
qed

lemma parse_ok:
  "pall (result_ok ps) (parseline n ps) \<and> pall (result_ok ps) (parsepipe n ps)
   \<and> pall (result_ok ps) (parseblock n ps) \<and> pall (result_ok ps) (parseexec n ps)"
proof (induction n arbitrary: ps)
  case (Suc n)
  have up: "pall (result_ok line) r" if "pall (result_ok s) r" "suffix s line" for s line r
    by (rule pall_mono [OF that(1)]) (rule result_ok_suffix [OF _ that(2)])
  have "pall (result_ok ps) (parseline (Suc n) ps)"
  proof -
    have "pall (result_ok ps) (case parseback c s of (c, s) \<Rightarrow> case peek '';'' s of
         (False, s) \<Rightarrow> Parsed (c, s)
       | (True, s) \<Rightarrow> (case gettoken s of (_, _, _, s) \<Rightarrow> pbind (parseline n s) (\<lambda>(c2, s). Parsed (ListCmd c c2, s))))"
      if "result_ok ps (c, s)" for c s
    proof -
      obtain c1 s1 where b: "parseback c s = (c1, s1)" by (cases "parseback c s")
      obtain k s2 where p: "peek '';'' s1 = (k, s2)" by (cases "peek '';'' s1")
      obtain tok q eq s3 where g: "gettoken s2 = (tok, q, eq, s3)" by (cases "gettoken s2")
      have r: "result_ok ps (c1, s1)" using parseback_ok [OF that] b by simp
      then have s: "suffix s2 ps" "suffix s3 ps"
        using peek_suffix [OF p] gettoken_to [OF g] unfolding result_ok_def by (auto intro: suffix_order.trans)
      have "pall (result_ok ps) (parseline n s3)" using up [OF _ s(2)] Suc by blast
      then show ?thesis using r s by (cases k) (auto simp: b p g result_ok_def elim!: pall_mono)
    qed
    moreover have "pall (result_ok ps) (parsepipe n ps)" using Suc by blast
    ultimately show ?thesis by (auto elim!: pall_mono)
  qed
  moreover have "pall (result_ok ps) (parsepipe (Suc n) ps)"
  proof -
    have "pall (result_ok ps) (case peek ''|'' s of
         (False, s) \<Rightarrow> Parsed (c, s)
       | (True, s) \<Rightarrow> (case gettoken s of (_, _, _, s) \<Rightarrow> pbind (parsepipe n s) (\<lambda>(c2, s). Parsed (PipeCmd c c2, s))))"
      if r: "result_ok ps (c, s)" for c s
    proof -
      obtain k s2 where p: "peek ''|'' s = (k, s2)" by (cases "peek ''|'' s")
      obtain tok q eq s3 where g: "gettoken s2 = (tok, q, eq, s3)" by (cases "gettoken s2")
      have s: "suffix s2 ps" "suffix s3 ps"
        using r peek_suffix [OF p] gettoken_to [OF g] unfolding result_ok_def by (auto intro: suffix_order.trans)
      have "pall (result_ok ps) (parsepipe n s3)" using up [OF _ s(2)] Suc by blast
      then show ?thesis using r s by (cases k) (auto simp: p g result_ok_def elim!: pall_mono)
    qed
    moreover have "pall (result_ok ps) (parseexec n ps)" using Suc by blast
    ultimately show ?thesis by (auto elim!: pall_mono)
  qed
  moreover have "pall (result_ok ps) (parseblock (Suc n) ps)"
  proof -
    obtain k s1 where p: "peek ''('' ps = (k, s1)" by (cases "peek ''('' ps")
    obtain tok q eq s2 where g: "gettoken s1 = (tok, q, eq, s2)" by (cases "gettoken s1")
    have s: "suffix s2 ps" using peek_suffix [OF p] gettoken_to [OF g] by (rule suffix_order.trans [rotated])
    have "pall (result_ok ps) (case peek '')'' s of (False, s) \<Rightarrow> Syntax ''syntax - missing )''
         | (True, s) \<Rightarrow> (case gettoken s of (_, _, _, s) \<Rightarrow> pbind (parseredirs s) (\<lambda>(rs, s). Parsed (redirect rs c, s))))"
      if r: "result_ok ps (c, s)" for c s
    proof -
      obtain k s3 where p: "peek '')'' s = (k, s3)" by (cases "peek '')'' s")
      obtain tok q eq s4 where g: "gettoken s3 = (tok, q, eq, s4)" by (cases "gettoken s3")
      have s: "suffix s4 ps"
        using r peek_suffix [OF p] gettoken_to [OF g] unfolding result_ok_def by (auto intro: suffix_order.trans)
      have "pall (redirs_ok ps) (parseredirs s4)" by (rule pall_mono [OF parseredirs_ok]) (rule redirs_ok_suffix [OF _ s])
      then show ?thesis using r by (cases k) (auto simp: p g result_ok_def redirs_ok_def list_all_iff tokens_redirect elim!: pall_mono)
    qed
    moreover have "pall (result_ok ps) (parseline n s2)" using up [OF _ s] Suc by blast
    ultimately show ?thesis by (cases k) (auto simp: p g elim!: pall_mono)
  qed
  moreover have "pall (result_ok ps) (parseexec (Suc n) ps)"
  proof -
    obtain k s1 where p: "peek ''('' ps = (k, s1)" by (cases "peek ''('' ps")
    have s: "suffix s1 ps" by (rule peek_suffix [OF p])
    have "pall (redirs_ok ps) (parseredirs s1)" by (rule pall_mono [OF parseredirs_ok]) (rule redirs_ok_suffix [OF _ s])
    then have "pall (\<lambda>(rs, s). pall (result_ok ps) (parseargs [] rs s)) (parseredirs s1)"
      by (rule pall_mono) (auto simp: redirs_ok_def intro!: parseargs_ok)
    moreover have "pall (result_ok ps) (parseblock n s1)" using up [OF _ s] Suc by blast
    ultimately show ?thesis by (cases k) (auto simp: p elim!: pall_mono)
  qed
  ultimately show ?case by blast
qed simp

section \<open>Terminating the strings\<close>

lemma nulterminate_nth:
  "length (nulterminate n c m) = length m \<and> (\<forall>i < length m. nulterminate n c m ! i =
     (if \<exists>x \<in> set (tokens c). i = n - length (snd x) then 0 else m ! i))"
proof (induction c arbitrary: m)
  case (ExecCmd argv)
  show ?case by (induction argv arbitrary: m) (auto simp: put_nul_def nth_list_update_if, force)
next
  case (RedirCmd c q eq mode fd)
  then show ?case by (auto simp: put_nul_def nth_list_update_if)
qed auto

lemma takeWhile_zero: "0 \<notin> set t \<Longrightarrow> takeWhile (\<lambda>x. x \<noteq> (0::uchar)) (t @ 0 # r) = t"
  by (induction t) auto

lemma token_string:
  assumes z: "0 \<notin> set line" and ok: "list_all (tok_ok line) (tokens c)" and x: "(q, eq) \<in> set (tokens c)"
  shows "string_at (length line) (nulterminate (length line) c (line @ [0])) q = take (length q - length eq) q"
proof -
  define n where "n = length line"
  define m where "m = nulterminate n c (line @ [0])"
  obtain pre t where l: "line = pre @ q" and t: "q = t @ eq" "list_all wordc t"
    using ok x by (auto simp: list_all_iff tok_ok_def suffix_def)
  have nth: "m ! i = (if \<exists>x \<in> set (tokens c). i = n - length (snd x) then 0 else (line @ [0]) ! i)" if "i \<le> n" for i
    using nulterminate_nth [of n c "line @ [0]"] that by (simp add: m_def n_def)
  have len: "length m = n + 1" using nulterminate_nth [of n c "line @ [0]"] by (simp add: m_def n_def)
  have safe: "m ! (length pre + j) = t ! j" if j: "j < length t" for j
  proof -
    have i: "length pre + j < n" using j by (simp add: n_def l t)
    have w: "wordc (line ! (length pre + j))" using t j by (simp add: l nth_append list_all_length)
    have "\<not> (\<exists>x \<in> set (tokens c). length pre + j = n - length (snd x))"
    proof
      assume "\<exists>x \<in> set (tokens c). length pre + j = n - length (snd x)"
      then obtain y where y: "y \<in> set (tokens c)" "length pre + j = n - length (snd y)" by blast
      have ok': "tok_ok line y" using ok y(1) by (simp add: list_all_iff)
      then obtain p' where p': "line = p' @ snd y" and h: "snd y = [] \<or> \<not> wordc (hd (snd y))"
        unfolding tok_ok_def suffix_def by (cases y) auto
      have "length p' = length pre + j" using y(2) p' by (simp add: n_def)
      then have "snd y = drop (length pre + j) line" using p' by simp
      then have "snd y \<noteq> []" "hd (snd y) = line ! (length pre + j)" using i by (simp_all add: n_def hd_drop_conv_nth)
      then show False using h w by simp
    qed
    then have "m ! (length pre + j) = (line @ [0]) ! (length pre + j)" using nth i by simp
    also have "\<dots> = t ! j" using j by (simp add: l t nth_append)
    finally show ?thesis .
  qed
  have "m ! (n - length eq) = 0" using nth [of "n - length eq"] x by force
  moreover have e: "n - length eq = length pre + length t" by (simp add: n_def l t)
  ultimately have end0: "m ! (length pre + length t) = 0" by simp
  have "drop (length pre) m = t @ 0 # drop (length pre + length t + 1) m"
  proof (rule nth_equalityI)
    show "length (drop (length pre) m) = length (t @ 0 # drop (length pre + length t + 1) m)" by (simp add: len n_def l t)
    fix i
    assume "i < length (drop (length pre) m)"
    then show "drop (length pre) m ! i = (t @ 0 # drop (length pre + length t + 1) m) ! i"
      using safe [of i] end0 by (cases "i < length t") (auto simp: nth_append nth_Cons' len n_def l t)
  qed
  moreover have "0 \<notin> set t" using z by (simp add: l t)
  moreover have "n - length q = length pre" by (simp add: n_def l)
  ultimately show ?thesis unfolding string_at_def n_def [symmetric] m_def [symmetric] by (simp add: takeWhile_zero t)
qed

section \<open>The parser ends\<close>

lemma pbind_Deep [simp]: "pbind r f = Deep \<longleftrightarrow> r = Deep \<or> (\<exists>x. r = Parsed x \<and> f x = Deep)"
  by (cases r) auto

lemma parseredirs_ends: "parseredirs ps \<noteq> Deep"
  by (induction ps rule: parseredirs.induct) (subst parseredirs.simps, auto split: prod.splits bool.splits)

lemma parseargs_ends: "parseargs argv rs ps \<noteq> Deep"
  by (induction argv rs ps rule: parseargs.induct)
    (subst parseargs.simps, auto simp: parseredirs_ends split: prod.splits bool.splits)

lemma result_length: "r = Parsed (c, s) \<Longrightarrow> pall (result_ok ps) r \<Longrightarrow> length s \<le> length ps"
  by (auto simp: pall_def result_ok_def dest: suffix_length_le)

lemma parse_ends:
  "(4 * length ps + 4 \<le> n \<longrightarrow> parseline n ps \<noteq> Deep) \<and> (4 * length ps + 3 \<le> n \<longrightarrow> parsepipe n ps \<noteq> Deep)
   \<and> (4 * length ps + 1 \<le> n \<longrightarrow> parseblock n ps \<noteq> Deep) \<and> (4 * length ps + 2 \<le> n \<longrightarrow> parseexec n ps \<noteq> Deep)"
proof (induction n arbitrary: ps)
  case (Suc n)
  have "parseline (Suc n) ps \<noteq> Deep" if n: "4 * length ps + 4 \<le> Suc n"
  proof -
    have f: "(case parseback c s of (c, s) \<Rightarrow> case peek '';'' s of
         (False, s) \<Rightarrow> Parsed (c, s)
       | (True, s) \<Rightarrow> (case gettoken s of (_, _, _, s) \<Rightarrow> pbind (parseline n s) (\<lambda>(c2, s). Parsed (ListCmd c c2, s)))) \<noteq> Deep"
      if r: "parsepipe n ps = Parsed (c, s)" for c s
    proof -
      obtain c1 s1 where b: "parseback c s = (c1, s1)" by (cases "parseback c s")
      obtain k s2 where p: "peek '';'' s1 = (k, s2)" by (cases "peek '';'' s1")
      obtain tok q eq s3 where g: "gettoken s2 = (tok, q, eq, s3)" by (cases "gettoken s2")
      have "result_ok ps (c, s)" using parse_ok [of ps n] r by (auto simp: pall_def)
      then have "result_ok ps (c1, s1)" using parseback_ok [of ps c s] b by simp
      then have "length s1 \<le> length ps" by (auto simp: result_ok_def dest: suffix_length_le)
      then have "k \<Longrightarrow> length s3 < length ps" using peek_gettoken [of "'';''" s1 s2 tok q eq s3] p g by simp
      then have "k \<Longrightarrow> parseline n s3 \<noteq> Deep" using Suc [of s3] n by simp
      then show ?thesis by (cases k) (auto simp: b p g split: prod.splits)
    qed
    have "parsepipe n ps \<noteq> Deep" using Suc [of ps] n by simp
    then show ?thesis using f by (auto split: prod.splits)
  qed
  moreover have "parsepipe (Suc n) ps \<noteq> Deep" if n: "4 * length ps + 3 \<le> Suc n"
  proof -
    have f: "(case peek ''|'' s of
         (False, s) \<Rightarrow> Parsed (c, s)
       | (True, s) \<Rightarrow> (case gettoken s of (_, _, _, s) \<Rightarrow> pbind (parsepipe n s) (\<lambda>(c2, s). Parsed (PipeCmd c c2, s)))) \<noteq> Deep"
      if r: "parseexec n ps = Parsed (c, s)" for c s
    proof -
      obtain k s2 where p: "peek ''|'' s = (k, s2)" by (cases "peek ''|'' s")
      obtain tok q eq s3 where g: "gettoken s2 = (tok, q, eq, s3)" by (cases "gettoken s2")
      have "length s \<le> length ps" using result_length [OF r] parse_ok [of ps n] by blast
      then have "k \<Longrightarrow> length s3 < length ps" using peek_gettoken [of "''|''" s s2 tok q eq s3] p g by simp
      then have "k \<Longrightarrow> parsepipe n s3 \<noteq> Deep" using Suc [of s3] n by simp
      then show ?thesis by (cases k) (auto simp: p g split: prod.splits)
    qed
    have "parseexec n ps \<noteq> Deep" using Suc [of ps] n by simp
    then show ?thesis using f by (auto split: prod.splits)
  qed
  moreover have "parseblock (Suc n) ps \<noteq> Deep" if n: "4 * length ps + 1 \<le> Suc n"
  proof -
    obtain k s1 where p: "peek ''('' ps = (k, s1)" by (cases "peek ''('' ps")
    obtain tok q eq s2 where g: "gettoken s1 = (tok, q, eq, s2)" by (cases "gettoken s1")
    have "k \<Longrightarrow> length s2 < length ps" using peek_gettoken [of "''(''" ps s1 tok q eq s2] p g by simp
    then have "k \<Longrightarrow> parseline n s2 \<noteq> Deep" using Suc [of s2] n by simp
    then show ?thesis by (cases k) (auto simp: p g parseredirs_ends split: prod.splits bool.splits)
  qed
  moreover have "parseexec (Suc n) ps \<noteq> Deep" if n: "4 * length ps + 2 \<le> Suc n"
  proof -
    obtain k s1 where p: "peek ''('' ps = (k, s1)" by (cases "peek ''('' ps")
    have "parseblock n s1 \<noteq> Deep" using Suc [of s1] n suffix_length_le [OF peek_suffix [OF p]] by simp
    then show ?thesis by (cases k) (auto simp: p parseredirs_ends parseargs_ends split: prod.splits)
  qed
  ultimately show ?case by blast
qed simp

text \<open>
  C30: the shell's parser ends on every line: whatever it is given, \<^verbatim>\<open>parsecmd\<close> returns a command with what is left of
  the line, or stops in one of its syntax errors.
\<close>

theorem parser_terminates: "(\<exists>c s. parse_all line = Parsed (c, s) \<and> suffix s line) \<or> (\<exists>m. parse_all line = Syntax m)"
proof (cases "parseline (parse_fuel line) line")
  case (Parsed x)
  obtain c s where x: "x = (c, s)" by (cases x)
  have "suffix s line" using parse_ok [of line "parse_fuel line"] Parsed x by (auto simp: pall_def result_ok_def)
  moreover have "suffix (snd (peek [] s)) s" using peek_suffix [of "[]" s] by (cases "peek [] s") simp
  ultimately show ?thesis using Parsed x by (auto simp: parse_all_def intro: suffix_order.trans)
next
  case Deep
  then show ?thesis using parse_ends [of line "parse_fuel line"] by (simp add: parse_fuel_def)
qed (simp add: parse_all_def)

text \<open>
  C29: the strings the shell passes on are the words of its line.  When a line parses, then after \<^verbatim>\<open>nulterminate\<close> has
  written its NULs into the line every argument and file name of the command is the run of characters between the start and
  the end the parser recorded for it: no NUL cuts another word short, and no word contains a blank or a symbol.
\<close>

theorem shell_words_intact:
  assumes "0 \<notin> set line" and "parse_all line = Parsed (c, [])" and "(q, eq) \<in> set (tokens c)"
  shows "string_at (length line) (nulterminate (length line) c (line @ [0])) q = take (length q - length eq) q
    \<and> take (length q - length eq) q \<noteq> [] \<and> list_all wordc (take (length q - length eq) q) \<and> suffix q line \<and> suffix eq q"
proof -
  obtain s where "parseline (parse_fuel line) line = Parsed (c, s)"
    using assms(2) by (cases "parseline (parse_fuel line) line") (auto simp: parse_all_def)
  then have ok: "list_all (tok_ok line) (tokens c)"
    using parse_ok [of line "parse_fuel line"] by (auto simp: pall_def result_ok_def)
  then have "tok_ok line (q, eq)" using assms(3) by (simp add: list_all_iff)
  then show ?thesis using token_string [OF assms(1) ok assms(3)] by (auto simp: tok_ok_def suffix_def)
qed

section \<open>Running commands\<close>

definition panic_sh :: "'w os \<Rightarrow> string \<Rightarrow> ('a, 'w) uprog" where
  "panic_sh os s w = ubind (ufprintf os 2 (''%s'' @ [CHR 0x0a]) [str_arg (map of_char s)] w) (\<lambda>_. exit_with 1)"

definition fork1 :: "'w os \<Rightarrow> (cint, 'w) uprog" where
  "fork1 os w = ubind (sys os RqFork w) (\<lambda>pid w. if r_val pid = -1 then panic_sh os ''fork'' w else ret (r_val pid) w)"

definition redirect_pipe :: "'w os \<Rightarrow> cint \<Rightarrow> cint \<Rightarrow> cint \<times> cint \<Rightarrow> (unit, 'w) uprog" where
  "redirect_pipe os fd from p w =
     ubind (sys os (RqClose fd) w) (\<lambda>_ w.
     ubind (sys os (RqDup from) w) (\<lambda>_ w.
     ubind (sys os (RqClose (fst p)) w) (\<lambda>_ w.
     ubind (sys os (RqClose (snd p)) w) (\<lambda>_. ret ()))))"

text \<open>\<^verbatim>\<open>runcmd\<close>, which never returns; \<open>str\<close> gives the string at a pointer.\<close>

fun runcmd :: "'w os \<Rightarrow> (ptr \<Rightarrow> uchar list) \<Rightarrow> cmd \<Rightarrow> (unit, 'w) uprog" where
  "runcmd os str (ExecCmd argv) w =
     (if argv = [] then exit_with 1 w
      else let args = map (\<lambda>(q, eq). str q) argv in
        ubind (sys_exec_call os (hd args) args w) (\<lambda>_ w.
        ubind (ufprintf os 2 (''exec %s failed'' @ [CHR 0x0a]) [str_arg (hd args)] w) (\<lambda>_. exit_with 0)))"
| "runcmd os str (RedirCmd c q eq mode fd) w =
     ubind (sys os (RqClose fd) w) (\<lambda>_ w.
     ubind (sys os (RqOpen (str q) mode) w) (\<lambda>r w.
     if r_val r <s 0
     then ubind (ufprintf os 2 (''open %s failed'' @ [CHR 0x0a]) [str_arg (str q)] w) (\<lambda>_. exit_with 1)
     else runcmd os str c w))"
| "runcmd os str (ListCmd l r) w =
     ubind (fork1 os w) (\<lambda>pid w.
     if pid = 0 then runcmd os str l w
     else ubind (sys os RqWait w) (\<lambda>_. runcmd os str r))"
| "runcmd os str (PipeCmd l r) w =
     ubind (sys os RqPipe w) (\<lambda>p w.
     if r_val p <s 0 then panic_sh os ''pipe'' w
     else ubind (fork1 os w) (\<lambda>pid w.
          if pid = 0 then ubind (redirect_pipe os 1 (snd (r_fds p)) (r_fds p) w) (\<lambda>_. runcmd os str l)
          else ubind (fork1 os w) (\<lambda>pid w.
               if pid = 0 then ubind (redirect_pipe os 0 (fst (r_fds p)) (r_fds p) w) (\<lambda>_. runcmd os str r)
               else ubind (sys os (RqClose (fst (r_fds p))) w) (\<lambda>_ w.
                    ubind (sys os (RqClose (snd (r_fds p))) w) (\<lambda>_ w.
                    ubind (sys os RqWait w) (\<lambda>_ w.
                    ubind (sys os RqWait w) (\<lambda>_. exit_with 0)))))))"
| "runcmd os str (BackCmd c) w =
     ubind (fork1 os w) (\<lambda>pid. if pid = 0 then runcmd os str c else exit_with 0)"

text \<open>\<^verbatim>\<open>runcmd(parsecmd(line))\<close>, in the child.\<close>

definition run_line :: "'w os \<Rightarrow> uchar list \<Rightarrow> (unit, 'w) uprog" where
  "run_line os line w =
     (case parse_all line of
        Syntax m \<Rightarrow> panic_sh os m w
      | Deep \<Rightarrow> None
      | Parsed (c, s) \<Rightarrow>
          if s \<noteq> [] then ubind (ufprintf os 2 (''leftovers: %s'' @ [CHR 0x0a]) [str_arg s] w) (\<lambda>_. panic_sh os ''syntax'')
          else let m = nulterminate (length line) c (line @ [0]) in runcmd os (string_at (length line) m) c w)"

definition SH_BUF :: nat where "SH_BUF = 100"

definition getcmd :: "'w os \<Rightarrow> (cint \<times> uchar list, 'w) uprog" where
  "getcmd os w =
     ubind (sys os (RqWrite 2 (map of_char ''$ '')) w) (\<lambda>_ w.
     ubind (ugets os SH_BUF w) (\<lambda>buf.
     let line = takeWhile (\<lambda>x. x \<noteq> 0) buf in ret (if line = [] then -1 else 0, line)))"

text \<open>One command of the main loop, in the parent unless it forks.\<close>

definition sh_command :: "'w os \<Rightarrow> uchar list \<Rightarrow> (unit, 'w) uprog" where
  "sh_command os buf w =
     (let cmd = dropWhile (\<lambda>x. x = asc CHR '' '' \<or> x = asc CHR 0x09) buf in
      if char_at cmd = asc CHR 0x0a then ret () w
      else if take 3 cmd = map of_char ''cd ''
      then let dir = drop 3 (butlast cmd) in
           ubind (sys os (RqChdir dir) w) (\<lambda>r.
           if r_val r <s 0 then ufprintf os 2 (''cannot cd %s'' @ [CHR 0x0a]) [str_arg dir] else ret ())
      else ubind (fork1 os w) (\<lambda>pid w.
           if pid = 0 then run_line os cmd w else ubind (sys os RqWait w) (\<lambda>_. ret ())))"

partial_function (option) sh_loop :: "'w os \<Rightarrow> 'w \<Rightarrow> (unit uout \<times> 'w) option" where
  "sh_loop os w =
     ubind (getcmd os w) (\<lambda>(r, line) w.
     if r <s 0 then exit_with 0 w else ubind (sh_command os line w) (\<lambda>_. sh_loop os))"

partial_function (option) sh_console :: "'w os \<Rightarrow> 'w \<Rightarrow> (unit uout \<times> 'w) option" where
  "sh_console os w =
     ubind (sys os (RqOpen (map of_char ''console'') O_RDWR) w) (\<lambda>fd w.
     if r_val fd <s 0 then ret () w
     else if 3 \<le>s r_val fd then ubind (sys os (RqClose (r_val fd)) w) (\<lambda>_. ret ())
     else sh_console os w)"

definition sh_main :: "'w os \<Rightarrow> (unit, 'w) uprog" where
  "sh_main os w = ubind (sh_console os w) (\<lambda>_. sh_loop os)"

section \<open>A child never comes back\<close>

definition ends :: "('a uout \<times> 'w) option \<Rightarrow> bool" where
  "ends m \<longleftrightarrow> yields m (\<lambda>r w. \<forall>x. r \<noteq> URet x)"

lemma ends_simps [simp]: "ends (exit_with c w)" "ends (Some (UGone, w))"
  by (simp_all add: ends_def yields_def exit_with_def)

lemma ends_ubind:
  assumes "yields m (\<lambda>r w. True)" and "\<And>a w. ends (f a w)"
  shows "ends (ubind m f)"
  using assms unfolding ends_def yields_ubind by (auto elim!: yields_mono split: uout.splits)

lemma ends_sys: "(\<And>r w. ends (f r w)) \<Longrightarrow> ends (ubind (sys os q w) f)"
  by (cases "os q w") simp

lemma uputs_yields: "yields (uputs os fd bs w) (\<lambda>r w'. True)"
proof (induction bs arbitrary: w)
  case (Cons b bs)
  then show ?case by (cases "os (RqWrite fd [b]) w") (simp add: uputc_def)
qed simp

lemma ends_print: "(\<And>w. ends (f () w)) \<Longrightarrow> ends (ubind (ufprintf os fd fmt args w) f)"
  unfolding ufprintf_def by (rule ends_ubind [OF uputs_yields]) simp

lemma ends_panic [simp]: "ends (panic_sh os s w)"
  unfolding panic_sh_def by (rule ends_print) simp

lemma ends_yields: "ends m \<Longrightarrow> yields m (\<lambda>r w. True)"
  unfolding ends_def by (rule yields_mono) simp_all

lemma ends_fork: "(\<And>pid w. ends (f pid w)) \<Longrightarrow> ends (ubind (fork1 os w) f)"
  unfolding fork1_def ubind_assoc
  by (rule ends_sys) (auto intro!: ends_ubind [OF ends_yields [OF ends_panic]])

lemma ends_exec: "(\<And>r w. ends (f r w)) \<Longrightarrow> ends (ubind (sys_exec_call os path argv w) f)"
  by (cases "os (RqExec path argv) w") (simp add: sys_exec_call_def)

lemma ends_redirect: "(\<And>w. ends (f () w)) \<Longrightarrow> ends (ubind (redirect_pipe os fd from p w) f)"
  unfolding redirect_pipe_def ubind_assoc by (intro ends_sys) simp

lemma runcmd_ends: "ends (runcmd os str c w)"
  by (induction c arbitrary: w)
    (auto simp: Let_def split: prod.splits intro!: ends_fork ends_print ends_exec ends_redirect)

text \<open>
  C31: a child of the shell never comes back to the command loop: whatever the line and however the system answers, running
  it in the child exits or replaces the process by another program.
\<close>

theorem child_never_returns: "\<exists>r w'. run_line os line w = Some (r, w') \<and> (\<forall>x. r \<noteq> URet x)"
proof -
  have "ends (run_line os line w)"
  proof (cases "parse_all line")
    case (Parsed x)
    then show ?thesis
      by (cases x) (auto simp: run_line_def Let_def intro!: ends_print runcmd_ends)
  next
    case Deep
    then show ?thesis using parse_ends [of line "parse_fuel line"] by (auto simp: parse_all_def parse_fuel_def)
  qed (simp add: run_line_def)
  then show ?thesis by (auto simp: ends_def yields_def)
qed

theorem shell_words_intact_witness:
  "let line = map of_char ''a bb>c''; c = RedirCmd (ExecCmd [(line, drop 1 line), (drop 2 line, drop 4 line)]) (drop 5 line) [] (O_WRONLY OR O_CREATE OR O_TRUNC) 1 in
   parse_all line = Parsed (c, []) \<and> string_at (length line) (nulterminate (length line) c (line @ [0])) (drop 2 line) = map of_char ''bb''"
proof -
  define line :: ptr where "line = map of_char ''a bb>c''"
  define c where "c = RedirCmd (ExecCmd [(line, drop 1 line), (drop 2 line, drop 4 line)]) (drop 5 line) [] (O_WRONLY OR O_CREATE OR O_TRUNC) 1"
  have p: "parse_all line = Parsed (c, [])" unfolding c_def line_def by code_simp
  have "string_at (length line) (nulterminate (length line) c (line @ [0])) (drop 2 line) = take (length (drop 2 line) - length (drop 4 line)) (drop 2 line)"
    using shell_words_intact [OF _ p, of "drop 2 line" "drop 4 line"] by (simp add: line_def c_def)
  then show ?thesis using p unfolding c_def [symmetric] line_def [symmetric] Let_def by (simp add: line_def)
qed

end
