(* ===== verification/ShPrint.thy ===== *)
theory ShPrint
  imports Sh
begin

text \<open>
  The grammar of the shell: every command can be written down, fully parenthesised, and is what the parser reads there.
\<close>

section \<open>Printing and parsing\<close>

text \<open>Commands as the reader of a line sees them, and a way to write each of them.\<close>

datatype redir = FromFile | ToFile | AppendFile

datatype tree =
    TExec "uchar list list"
  | TRedir tree "uchar list" redir
  | TPipe tree tree
  | TList tree tree
  | TBack tree

definition redir_mode :: "redir \<Rightarrow> cint \<times> cint" where
  "redir_mode k = (case k of FromFile \<Rightarrow> (O_RDONLY, 0) | ToFile \<Rightarrow> (O_WRONLY OR O_CREATE OR O_TRUNC, 1)
     | AppendFile \<Rightarrow> (O_WRONLY OR O_CREATE, 1))"

definition redir_sign :: "redir \<Rightarrow> uchar list" where
  "redir_sign k = map of_char (case k of FromFile \<Rightarrow> ''<'' | ToFile \<Rightarrow> ''>'' | AppendFile \<Rightarrow> ''>>'')"

fun spaced :: "uchar list list \<Rightarrow> uchar list" where
  "spaced [] = []"
| "spaced [w] = w"
| "spaced (w # ws) = w @ asc CHR '' '' # spaced ws"

fun written :: "tree \<Rightarrow> uchar list" where
  "written (TExec ws) = spaced ws"
| "written (TRedir t f k) = asc CHR ''('' # written t @ asc CHR '')'' # redir_sign k @ f"
| "written (TPipe l r) = asc CHR ''('' # written l @ asc CHR '')'' # asc CHR ''|'' # asc CHR ''('' # written r @ [asc CHR '')'']"
| "written (TList l r) = asc CHR ''('' # written l @ asc CHR '')'' # asc CHR '';'' # asc CHR ''('' # written r @ [asc CHR '')'']"
| "written (TBack t) = asc CHR ''('' # written t @ [asc CHR '')'', asc CHR ''&'']"

definition word_ok :: "uchar list \<Rightarrow> bool" where
  "word_ok w \<longleftrightarrow> w \<noteq> [] \<and> list_all wordc w \<and> 0 \<notin> set w"

fun tree_ok :: "tree \<Rightarrow> bool" where
  "tree_ok (TExec ws) \<longleftrightarrow> list_all word_ok ws \<and> length ws < MAXARGS"
| "tree_ok (TRedir t f k) \<longleftrightarrow> tree_ok t \<and> word_ok f"
| "tree_ok (TPipe l r) \<longleftrightarrow> tree_ok l \<and> tree_ok r"
| "tree_ok (TList l r) \<longleftrightarrow> tree_ok l \<and> tree_ok r"
| "tree_ok (TBack t) \<longleftrightarrow> tree_ok t"

text \<open>\<open>stands_for c t\<close>: the command the parser built is the tree, its strings the texts of the tokens.\<close>

definition tok_text :: "ptr \<times> ptr \<Rightarrow> uchar list" where
  "tok_text = (\<lambda>(q, eq). take (length q - length eq) q)"

fun stands_for :: "cmd \<Rightarrow> tree \<Rightarrow> bool" where
  "stands_for (ExecCmd argv) (TExec ws) \<longleftrightarrow> map tok_text argv = ws"
| "stands_for (RedirCmd c q eq mode fd) (TRedir t f k) \<longleftrightarrow> stands_for c t \<and> tok_text (q, eq) = f \<and> (mode, fd) = redir_mode k"
| "stands_for (PipeCmd a b) (TPipe l r) \<longleftrightarrow> stands_for a l \<and> stands_for b r"
| "stands_for (ListCmd a b) (TList l r) \<longleftrightarrow> stands_for a l \<and> stands_for b r"
| "stands_for (BackCmd c) (TBack t) \<longleftrightarrow> stands_for c t"
| "stands_for _ _ \<longleftrightarrow> False"

text \<open>Places where no blank is to be skipped.\<close>

abbreviation at_token :: "ptr \<Rightarrow> bool" where
  "at_token s \<equiv> s = [] \<or> \<not> whitespace (hd s)"

lemma skip_none: "at_token s \<Longrightarrow> dropWhile whitespace s = s"
  by (cases s) auto

lemma peek_at: "at_token s \<Longrightarrow> peek toks s = (s \<noteq> [] \<and> hd s \<noteq> 0 \<and> in_str toks (hd s), s)"
  by (cases s) (auto simp: peek_def)

lemma wordc_plain: "wordc x \<Longrightarrow> \<not> whitespace x \<and> \<not> in_str ''<|>&;()'' x"
  by (simp add: wordc_def symbols_def)

lemma gettoken_at_word:
  assumes "word_ok w" and "r = [] \<or> \<not> wordc (hd r)"
  shows "gettoken (w @ r) = (asc CHR ''a'', w @ r, r, dropWhile whitespace r)"
proof -
  obtain x xs where w: "w = x # xs" "wordc x" "x \<noteq> 0" using assms(1) by (cases w) (auto simp: word_ok_def)
  have "dropWhile wordc (w @ r) = r"
    using assms by (cases r) (auto simp: word_ok_def list_all_iff dropWhile_append3 dropWhile_append2 dropWhile_eq_Nil_conv)
  then show ?thesis using w wordc_plain [OF w(2)]
    by (simp add: gettoken_def Let_def wordc_def [abs_def] in_str_def)
qed

lemma gettoken_at_symbol: "in_str ''|();&<'' c \<Longrightarrow> gettoken (c # r) = (c, c # r, r, dropWhile whitespace r)"
proof -
  assume c: "in_str ''|();&<'' c"
  have "c \<noteq> 0" "\<not> whitespace c" using c by (auto simp: in_str_def whitespace_def)
  then show ?thesis using c by (simp add: gettoken_def)
qed

lemma tok_text_append [simp]: "tok_text (w @ r, r) = w"
  by (simp add: tok_text_def)

lemma spaced_start: "list_all word_ok ws \<Longrightarrow> ws \<noteq> [] \<Longrightarrow> spaced ws \<noteq> [] \<and> wordc (hd (spaced ws)) \<and> hd (spaced ws) \<noteq> 0"
proof (induction ws rule: spaced.induct)
  case (2 w)
  then show ?case by (cases w) (auto simp: word_ok_def)
next
  case (3 w v ws)
  then show ?case by (cases w) (auto simp: word_ok_def)
qed simp

text \<open>What may follow a written command: nothing, or a closing parenthesis.\<close>

abbreviation closed :: "ptr \<Rightarrow> bool" where
  "closed r \<equiv> r = [] \<or> hd r = asc CHR '')''"

lemma closed_at_token: "closed r \<Longrightarrow> at_token r"
  by (auto simp: whitespace_def in_str_def)

lemma closed_not_word: "closed r \<Longrightarrow> r = [] \<or> \<not> wordc (hd r)"
  by (auto simp: wordc_def symbols_def in_str_def)

lemma parseargs_end:
  assumes "closed r"
  shows "parseargs argv [] r = Parsed (ExecCmd argv, r)"
proof (cases r)
  case Nil
  then show ?thesis by (subst parseargs.simps) (simp add: peek_at gettoken_def redirect_def)
next
  case (Cons x xs)
  then have "x = asc CHR '')''" using assms by simp
  then show ?thesis using Cons
    by (subst parseargs.simps) (simp add: peek_def whitespace_def in_str_def redirect_def)
qed

lemma parseredirs_none: "at_token s \<Longrightarrow> s = [] \<or> \<not> in_str ''<>'' (hd s) \<Longrightarrow> parseredirs s = Parsed ([], s)"
  by (subst parseredirs.simps) (auto simp: peek_at)

lemma word_start:
  assumes "word_ok w"
  obtains x xs where "w = x # xs" "wordc x" "x \<noteq> 0"
  using assms by (cases w) (auto simp: word_ok_def)

lemma parseargs_word:
  assumes w: "word_ok w" and r: "r = [] \<or> \<not> wordc (hd r)" and "length argv + 1 < MAXARGS"
    and "parseredirs (dropWhile whitespace r) = Parsed ([], s)"
  shows "parseargs argv [] (w @ r) = parseargs (argv @ [(w @ r, r)]) [] s"
proof -
  obtain x xs where x: "w = x # xs" "wordc x" "x \<noteq> 0" using word_start [OF w] .
  have p: "peek ''|)&;'' (w @ r) = (False, w @ r)"
    using x wordc_plain [OF x(2)] by (simp add: peek_at in_str_def)
  show ?thesis using assms(3,4) by (subst parseargs.simps) (simp add: p gettoken_at_word [OF w r])
qed

lemma parseargs_words:
  assumes "list_all word_ok ws" and "closed r" and "length argv + length ws < MAXARGS"
  shows "\<exists>toks. parseargs argv [] (spaced ws @ r) = Parsed (ExecCmd (argv @ toks), r) \<and> map tok_text toks = ws"
  using assms(1,3)
proof (induction ws arbitrary: argv rule: spaced.induct)
  case 1
  show ?case by (simp add: parseargs_end [OF assms(2)])
next
  case (2 w)
  have "parseredirs (dropWhile whitespace r) = Parsed ([], r)"
    using assms(2) by (subst skip_none [OF closed_at_token [OF assms(2)]], intro parseredirs_none) (auto simp: whitespace_def in_str_def)
  then have "parseargs argv [] (w @ r) = parseargs (argv @ [(w @ r, r)]) [] r"
    by (intro parseargs_word) (use 2 closed_not_word [OF assms(2)] in auto)
  then show ?case using parseargs_end [OF assms(2)] by (intro exI [of _ "[(w @ r, r)]"]) simp
next
  case (3 w v ws)
  let ?rest = "spaced (v # ws) @ r"
  have st: "spaced (v # ws) \<noteq> []" "wordc (hd (spaced (v # ws)))" using spaced_start [of "v # ws"] 3(2) by auto
  have at: "at_token ?rest" using st wordc_plain [OF st(2)] by simp
  have sp: "dropWhile whitespace (asc CHR '' '' # ?rest) = ?rest" using skip_none [OF at] by (simp add: whitespace_def in_str_def)
  have "parseredirs (dropWhile whitespace (asc CHR '' '' # ?rest)) = Parsed ([], ?rest)"
    unfolding sp by (rule parseredirs_none [OF at]) (use st wordc_plain [OF st(2)] in \<open>auto simp: in_str_def\<close>)
  then have e: "parseargs argv [] (w @ asc CHR '' '' # ?rest) = parseargs (argv @ [(w @ asc CHR '' '' # ?rest, asc CHR '' '' # ?rest)]) [] ?rest"
    by (intro parseargs_word) (use 3 in \<open>auto simp: wordc_def whitespace_def in_str_def\<close>)
  obtain toks where "parseargs (argv @ [(w @ asc CHR '' '' # ?rest, asc CHR '' '' # ?rest)]) [] ?rest
      = Parsed (ExecCmd ((argv @ [(w @ asc CHR '' '' # ?rest, asc CHR '' '' # ?rest)]) @ toks), r)" "map tok_text toks = v # ws"
    using 3(1) [of "argv @ [(w @ asc CHR '' '' # ?rest, asc CHR '' '' # ?rest)]"] 3(2,3) by auto
  then show ?case using e by (intro exI [of _ "(w @ asc CHR '' '' # ?rest, asc CHR '' '' # ?rest) # toks"]) simp
qed

text \<open>A block in parentheses.\<close>

lemma parse_block:
  assumes "parseline n (t @ asc CHR '')'' # r) = Parsed (c, asc CHR '')'' # r)" and "at_token (t @ asc CHR '')'' # r)"
  shows "parseexec (Suc (Suc n)) (asc CHR ''('' # t @ asc CHR '')'' # r) =
    pbind (parseredirs (dropWhile whitespace r)) (\<lambda>(rs, s). Parsed (redirect rs c, s))"
proof -
  have p: "peek ''('' (asc CHR ''('' # t @ asc CHR '')'' # r) = (True, asc CHR ''('' # t @ asc CHR '')'' # r)"
    by (simp add: peek_def whitespace_def in_str_def)
  have q: "peek '')'' (asc CHR '')'' # r) = (True, asc CHR '')'' # r)"
    by (simp add: peek_def whitespace_def in_str_def)
  have g: "gettoken (asc CHR ''('' # t @ asc CHR '')'' # r) = (asc CHR ''('', asc CHR ''('' # t @ asc CHR '')'' # r, t @ asc CHR '')'' # r, t @ asc CHR '')'' # r)"
    using gettoken_at_symbol [of "asc CHR ''(''" "t @ asc CHR '')'' # r"] skip_none [OF assms(2)] by (simp add: in_str_def)
  have h: "gettoken (asc CHR '')'' # r) = (asc CHR '')'', asc CHR '')'' # r, r, dropWhile whitespace r)"
    using gettoken_at_symbol [of "asc CHR '')''" r] by (simp add: in_str_def)
  show ?thesis unfolding parseexec.simps p prod.case bool.case parseblock.simps g assms(1) pbind.simps q h by simp
qed

lemma written_at: "tree_ok t \<Longrightarrow> closed r \<Longrightarrow> at_token (written t @ r)"
proof (cases t)
  case (TExec ws)
  assume "tree_ok t" "closed r"
  then show ?thesis using TExec spaced_start [of ws] closed_at_token [of r] wordc_plain [of "hd (spaced ws)"] by (cases ws) auto
qed (auto simp: whitespace_def in_str_def)

lemma parsepipe_end:
  assumes "parseexec n ps = Parsed (c, s)" and "s = [] \<or> hd s \<in> {asc CHR '')'', asc CHR '';'', asc CHR ''&''}"
  shows "parsepipe (Suc n) ps = Parsed (c, s)"
proof -
  have "at_token s" using assms(2) by (auto simp: whitespace_def in_str_def)
  then show ?thesis using assms by (auto simp: peek_at in_str_def)
qed

lemma parseback_end:
  assumes "s = [] \<or> hd s \<in> {asc CHR '')'', asc CHR '';''}"
  shows "parseback c s = (c, s)"
proof -
  have "at_token s" using assms by (auto simp: whitespace_def in_str_def)
  then show ?thesis using assms by (subst parseback.simps) (auto simp: peek_at in_str_def)
qed

lemma parseline_end:
  assumes "parsepipe n ps = Parsed (c, r)" and "closed r"
  shows "parseline (Suc n) ps = Parsed (c, r)"
proof -
  have "peek '';'' r = (False, r)" unfolding peek_at [OF closed_at_token [OF assms(2)]] using assms(2) by (auto simp: in_str_def)
  then show ?thesis using assms parseback_end [of r c] by auto
qed

lemma parse_one_redir:
  assumes "word_ok f" and "closed r"
  shows "parseredirs (redir_sign k @ f @ r) = Parsed ([(f @ r, r, fst (redir_mode k), snd (redir_mode k))], r)"
proof -
  obtain x xs where f: "f = x # xs" "wordc x" "x \<noteq> 0" using word_start [OF assms(1)] .
  have at: "at_token (f @ r)" using f wordc_plain [OF f(2)] by simp
  have x: "x \<noteq> asc CHR ''>''" using wordc_plain [OF f(2)] by (auto simp: in_str_def)
  have g: "gettoken (f @ r) = (asc CHR ''a'', f @ r, r, r)"
    using gettoken_at_word [OF assms(1) closed_not_word [OF assms(2)]] skip_none [OF closed_at_token [OF assms(2)]] by simp
  have n: "parseredirs r = Parsed ([], r)"
    by (rule parseredirs_none [OF closed_at_token [OF assms(2)]]) (use assms(2) in \<open>auto simp: in_str_def\<close>)
  define tok where "tok = (case k of FromFile \<Rightarrow> asc CHR ''<'' | ToFile \<Rightarrow> asc CHR ''>'' | AppendFile \<Rightarrow> asc CHR ''+'')"
  have p: "peek ''<>'' (redir_sign k @ f @ r) = (True, redir_sign k @ f @ r)"
    by (cases k) (simp_all add: redir_sign_def peek_def whitespace_def in_str_def)
  have s: "gettoken (redir_sign k @ f @ r) = (tok, redir_sign k @ f @ r, f @ r, f @ r)"
    using skip_none [OF at] x f(1)
    by (cases k) (simp_all add: redir_sign_def tok_def gettoken_def Let_def whitespace_def in_str_def)
  show ?thesis by (subst parseredirs.simps, simp add: p s g n) (cases k; simp add: tok_def redir_mode_def)
qed

lemma parse_block_ok:
  assumes "\<And>r n. closed r \<Longrightarrow> 4 * length (written t @ r) + 4 \<le> n \<Longrightarrow> \<exists>c. parseline n (written t @ r) = Parsed (c, r) \<and> stands_for c t"
    and "tree_ok t" and "4 * length (written t @ asc CHR '')'' # r) + 4 \<le> n"
  obtains c where "stands_for c t" "parseexec (Suc (Suc n)) (asc CHR ''('' # written t @ asc CHR '')'' # r) =
    pbind (parseredirs (dropWhile whitespace r)) (\<lambda>(rs, s). Parsed (redirect rs c, s))"
proof -
  obtain c where c: "parseline n (written t @ asc CHR '')'' # r) = Parsed (c, asc CHR '')'' # r)" "stands_for c t"
    using assms(1) [of "asc CHR '')'' # r" n] assms(3) by auto
  show thesis by (rule that [OF c(2)], rule parse_block [OF c(1)], rule written_at [OF assms(2)]) simp
qed

lemma block_alone:
  assumes "\<And>r n. closed r \<Longrightarrow> 4 * length (written t @ r) + 4 \<le> n \<Longrightarrow> \<exists>c. parseline n (written t @ r) = Parsed (c, r) \<and> stands_for c t"
    and "tree_ok t" and "4 * length (written t @ asc CHR '')'' # r) + 4 \<le> n"
    and "r = [] \<or> hd r \<in> {asc CHR '')'', asc CHR '';'', asc CHR ''&'', asc CHR ''|''}"
  obtains c where "stands_for c t" "parseexec (Suc (Suc n)) (asc CHR ''('' # written t @ asc CHR '')'' # r) = Parsed (c, r)"
proof -
  have at: "at_token r" using assms(4) by (auto simp: whitespace_def in_str_def)
  have "parseredirs (dropWhile whitespace r) = Parsed ([], r)"
    unfolding skip_none [OF at] by (rule parseredirs_none [OF at]) (use assms(4) in \<open>auto simp: in_str_def\<close>)
  then show thesis using parse_block_ok [OF assms(1-3)] that by (metis (no_types, lifting) pbind.simps(1) case_prod_conv redirect_def fold_simps(1))
qed

lemma parse_written:
  "tree_ok t \<Longrightarrow> closed r \<Longrightarrow> 4 * length (written t @ r) + 4 \<le> n \<Longrightarrow>
   \<exists>c. parseline n (written t @ r) = Parsed (c, r) \<and> stands_for c t"
proof (induction t arbitrary: r n)
  case (TExec ws)
  define m where "m = n - 3"
  have n: "n = Suc (Suc (Suc m))" using TExec(3) by (simp add: m_def)
  have at: "at_token (spaced ws @ r)" using written_at [of "TExec ws" r] TExec(1,2) by simp
  have h: "spaced ws @ r = [] \<or> \<not> in_str ''('' (hd (spaced ws @ r)) \<and> \<not> in_str ''<>'' (hd (spaced ws @ r))"
    using TExec(1,2) spaced_start [of ws] wordc_plain [of "hd (spaced ws)"] by (cases ws) (auto simp: in_str_def)
  have p: "peek ''('' (spaced ws @ r) = (False, spaced ws @ r)" unfolding peek_at [OF at] using h by auto
  have q: "parseredirs (spaced ws @ r) = Parsed ([], spaced ws @ r)" by (rule parseredirs_none [OF at]) (use h in auto)
  obtain toks where a: "parseargs [] [] (spaced ws @ r) = Parsed (ExecCmd toks, r)" "map tok_text toks = ws"
    using parseargs_words [of ws r "[]"] TExec(1,2) by auto
  have "parseexec (Suc m) (spaced ws @ r) = Parsed (ExecCmd toks, r)" by (simp add: p q a)
  then have "parseline n (spaced ws @ r) = Parsed (ExecCmd toks, r)"
    unfolding n by (intro parseline_end parsepipe_end TExec(2)) (use TExec(2) in auto)
  then show ?case using a(2) by auto
next
  case (TRedir t f k)
  define m where "m = n - 4"
  have n: "n = Suc (Suc (Suc (Suc m)))" using TRedir(4) by (simp add: m_def)
  obtain c where c: "stands_for c t" "parseexec (Suc (Suc m)) (asc CHR ''('' # written t @ asc CHR '')'' # redir_sign k @ f @ r) =
      pbind (parseredirs (dropWhile whitespace (redir_sign k @ f @ r))) (\<lambda>(rs, s). Parsed (redirect rs c, s))"
    by (rule parse_block_ok [of t "redir_sign k @ f @ r" m]) (use TRedir n in auto)
  have "dropWhile whitespace (redir_sign k @ f @ r) = redir_sign k @ f @ r"
    by (rule skip_none) (cases k; simp add: redir_sign_def whitespace_def in_str_def)
  then have "parseexec (Suc (Suc m)) (written (TRedir t f k) @ r) = Parsed (RedirCmd c (f @ r) r (fst (redir_mode k)) (snd (redir_mode k)), r)"
    using c(2) parse_one_redir [of f r k] TRedir(2,3) by (simp add: redirect_def split_beta)
  then have "parseline n (written (TRedir t f k) @ r) = Parsed (RedirCmd c (f @ r) r (fst (redir_mode k)) (snd (redir_mode k)), r)"
    unfolding n by (intro parseline_end parsepipe_end) (use TRedir(3) in auto)
  then show ?case using c(1) by (intro exI [of _ "RedirCmd c (f @ r) r (fst (redir_mode k)) (snd (redir_mode k))"]) simp
next
  case (TPipe l t)
  define m where "m = n - 4"
  have n: "n = Suc (Suc (Suc (Suc m)))" using TPipe(5) by (simp add: m_def)
  define m1 where "m1 = m - 1"
  have m: "m = Suc m1" using TPipe(5) n by (simp add: m1_def)
  let ?rt = "asc CHR ''('' # written t @ asc CHR '')'' # r"
  obtain c where c: "stands_for c l" "parseexec (Suc (Suc m)) (asc CHR ''('' # written l @ asc CHR '')'' # asc CHR ''|'' # ?rt) = Parsed (c, asc CHR ''|'' # ?rt)"
    by (rule block_alone [of l "asc CHR ''|'' # ?rt" m]) (use TPipe n in auto)
  obtain d where d: "stands_for d t" "parseexec (Suc (Suc m1)) ?rt = Parsed (d, r)"
    by (rule block_alone [of t r m1]) (use TPipe n m in auto)
  have pd: "parsepipe (Suc (Suc m)) ?rt = Parsed (d, r)" unfolding m by (rule parsepipe_end [OF d(2)]) (use TPipe(4) in auto)
  have g: "gettoken (asc CHR ''|'' # ?rt) = (asc CHR ''|'', asc CHR ''|'' # ?rt, ?rt, ?rt)"
    using gettoken_at_symbol [of "asc CHR ''|''" ?rt] by (simp add: in_str_def whitespace_def)
  have "peek ''|'' (asc CHR ''|'' # ?rt) = (True, asc CHR ''|'' # ?rt)" by (simp add: peek_def whitespace_def in_str_def)
  then have "parsepipe (Suc (Suc (Suc m))) (written (TPipe l t) @ r) = Parsed (PipeCmd c d, r)"
    using c(2) pd g by simp
  then have "parseline n (written (TPipe l t) @ r) = Parsed (PipeCmd c d, r)" unfolding n by (rule parseline_end [OF _ TPipe(4)])
  then show ?case using c(1) d(1) by (intro exI [of _ "PipeCmd c d"]) simp
next
  case (TList l t)
  define m where "m = n - 4"
  have n: "n = Suc (Suc (Suc (Suc m)))" using TList(5) by (simp add: m_def)
  define m1 where "m1 = m - 1"
  have m: "m = Suc m1" using TList(5) n by (simp add: m1_def)
  let ?rt = "asc CHR ''('' # written t @ asc CHR '')'' # r"
  obtain c where c: "stands_for c l" "parseexec (Suc (Suc m)) (asc CHR ''('' # written l @ asc CHR '')'' # asc CHR '';'' # ?rt) = Parsed (c, asc CHR '';'' # ?rt)"
    by (rule block_alone [of l "asc CHR '';'' # ?rt" m]) (use TList n in auto)
  obtain d where d: "stands_for d t" "parseexec (Suc (Suc m1)) ?rt = Parsed (d, r)"
    by (rule block_alone [of t r m1]) (use TList n m in auto)
  have ld: "parseline (Suc (Suc (Suc m))) ?rt = Parsed (d, r)"
    unfolding m by (intro parseline_end parsepipe_end d(2)) (use TList(4) in auto)
  have pc: "parsepipe (Suc (Suc (Suc m))) (written (TList l t) @ r) = Parsed (c, asc CHR '';'' # ?rt)"
    using parsepipe_end [OF c(2)] by simp
  have g: "gettoken (asc CHR '';'' # ?rt) = (asc CHR '';'', asc CHR '';'' # ?rt, ?rt, ?rt)"
    using gettoken_at_symbol [of "asc CHR '';''" ?rt] by (simp add: in_str_def whitespace_def)
  have "peek '';'' (asc CHR '';'' # ?rt) = (True, asc CHR '';'' # ?rt)" by (simp add: peek_def whitespace_def in_str_def)
  then have "parseline n (written (TList l t) @ r) = Parsed (ListCmd c d, r)"
    unfolding n parseline.simps(2) [of "Suc (Suc (Suc m))"] pc using ld g parseback_end [of "asc CHR '';'' # ?rt" c]
    by (simp del: parseline.simps parsepipe.simps parseexec.simps)
  then show ?case using c(1) d(1) by (intro exI [of _ "ListCmd c d"]) simp
next
  case (TBack t)
  define m where "m = n - 4"
  have n: "n = Suc (Suc (Suc (Suc m)))" using TBack(4) by (simp add: m_def)
  obtain c where c: "stands_for c t" "parseexec (Suc (Suc m)) (asc CHR ''('' # written t @ asc CHR '')'' # asc CHR ''&'' # r) = Parsed (c, asc CHR ''&'' # r)"
    by (rule block_alone [of t "asc CHR ''&'' # r" m]) (use TBack n in auto)
  have pc: "parsepipe (Suc (Suc (Suc m))) (written (TBack t) @ r) = Parsed (c, asc CHR ''&'' # r)"
    using parsepipe_end [OF c(2)] by simp
  have g: "gettoken (asc CHR ''&'' # r) = (asc CHR ''&'', asc CHR ''&'' # r, r, r)"
    using gettoken_at_symbol [of "asc CHR ''&''" r] skip_none [OF closed_at_token [OF TBack(3)]] by (simp add: in_str_def)
  have "peek ''&'' (asc CHR ''&'' # r) = (True, asc CHR ''&'' # r)" by (simp add: peek_def whitespace_def in_str_def)
  then have b: "parseback c (asc CHR ''&'' # r) = (BackCmd c, r)"
    using parseback_end [of r "BackCmd c"] TBack(3) g by (subst parseback.simps) auto
  have "peek '';'' r = (False, r)" unfolding peek_at [OF closed_at_token [OF TBack(3)]] using TBack(3) by (auto simp: in_str_def)
  then have "parseline n (written (TBack t) @ r) = Parsed (BackCmd c, r)"
    unfolding n parseline.simps(2) [of "Suc (Suc (Suc m))"] pc using b by (simp del: parseline.simps parsepipe.simps parseexec.simps)
  then show ?case using c(1) by (intro exI [of _ "BackCmd c"]) simp
qed

text \<open>
  C25: the shell reads back every command that can be written.  For any nesting of simple commands, redirections, pipes,
  sequences and background jobs over words without blanks or symbols, and at most nine words in a simple command, the parser
  accepts the fully parenthesised text, has nothing left over, and builds exactly that command.
\<close>

theorem shell_parse_written:
  assumes "tree_ok t"
  shows "\<exists>c. parse_all (written t) = Parsed (c, []) \<and> stands_for c t"
  using parse_written [OF assms, of "[]" "parse_fuel (written t)"]
  by (auto simp: parse_all_def parse_fuel_def peek_def)

theorem shell_parse_written_witness:
  "\<exists>c. parse_all (map of_char ''((ls -l)|(wc))>out'') = Parsed (c, []) \<and>
     stands_for c (TRedir (TPipe (TExec [map of_char ''ls'', map of_char ''-l'']) (TExec [map of_char ''wc''])) (map of_char ''out'') ToFile)"
proof -
  define t where "t = TRedir (TPipe (TExec [map of_char ''ls'', map of_char ''-l'']) (TExec [map of_char ''wc''])) (map of_char ''out'') ToFile"
  have "tree_ok t" by (simp add: t_def word_ok_def wordc_def whitespace_def symbols_def in_str_def MAXARGS_def)
  moreover have "written t = map of_char ''((ls -l)|(wc))>out''" by (simp add: t_def redir_sign_def)
  ultimately show ?thesis using shell_parse_written [of t] by (simp add: t_def)
qed

end
