(* ===== verification/Utils.thy ===== *)
theory Utils
  imports UProg
begin

text \<open>
  The small user programs: \<^verbatim>\<open>user/init.c\<close>, \<^verbatim>\<open>user/ls.c\<close>, \<^verbatim>\<open>user/echo.c\<close>, \<^verbatim>\<open>user/kill.c\<close>, \<^verbatim>\<open>user/ln.c\<close>, \<^verbatim>\<open>user/mkdir.c\<close>,
  \<^verbatim>\<open>user/rm.c\<close>, \<^verbatim>\<open>user/zombie.c\<close> and \<^verbatim>\<open>user/forktest.c\<close>.
\<close>

abbreviation line_end :: string where "line_end \<equiv> [CHR 0x0a]"

section \<open>init\<close>

text \<open>The inner loop: until the shell itself has exited.\<close>

partial_function (option) init_wait :: "'w os \<Rightarrow> cint \<Rightarrow> 'w \<Rightarrow> (unit uout \<times> 'w) option" where
  "init_wait os pid w =
     ubind (sys os RqWait w) (\<lambda>wpid w.
     if r_val wpid = pid then ret () w
     else if r_val wpid <s 0 then ubind (uprintf os (''init: wait returned an error'' @ line_end) [] w) (\<lambda>_. exit_with 1)
     else init_wait os pid w)"

partial_function (option) init_loop :: "'w os \<Rightarrow> 'w \<Rightarrow> (unit uout \<times> 'w) option" where
  "init_loop os w =
     ubind (uprintf os (''init: starting sh'' @ line_end) [] w) (\<lambda>_ w.
     ubind (sys os RqFork w) (\<lambda>pid w.
     if r_val pid <s 0 then ubind (uprintf os (''init: fork failed'' @ line_end) [] w) (\<lambda>_. exit_with 1)
     else if r_val pid = 0 then
       ubind (sys_exec_call os (map of_char ''sh'') [map of_char ''sh''] w) (\<lambda>_ w.
       ubind (uprintf os (''init: exec sh failed'' @ line_end) [] w) (\<lambda>_. exit_with 1))
     else ubind (init_wait os (r_val pid) w) (\<lambda>_. init_loop os)))"

definition init_main :: "'w os \<Rightarrow> (unit, 'w) uprog" where
  "init_main os w =
     ubind (sys os (RqOpen (map of_char ''console'') O_RDWR) w) (\<lambda>r w.
     ubind (if r_val r <s 0
            then ubind (sys os (RqMknod (map of_char ''console'') (of_nat CONSOLE) 0) w) (\<lambda>_ w.
                 ubind (sys os (RqOpen (map of_char ''console'') O_RDWR) w) (\<lambda>_. ret ()))
            else ret () w) (\<lambda>_ w.
     ubind (sys os (RqDup 0) w) (\<lambda>_ w.
     ubind (sys os (RqDup 0) w) (\<lambda>_. init_loop os))))"

section \<open>echo, kill, ln, mkdir, rm, zombie\<close>

fun echo_args :: "'w os \<Rightarrow> uchar list list \<Rightarrow> (unit, 'w) uprog" where
  "echo_args os [] w = exit_with 0 w"
| "echo_args os (a # as) w =
     ubind (sys os (RqWrite 1 a) w) (\<lambda>_ w.
     ubind (sys os (RqWrite 1 (map of_char (if as \<noteq> [] then '' '' else line_end))) w) (\<lambda>_. echo_args os as))"

definition echo_main :: "'w os \<Rightarrow> uchar list list \<Rightarrow> (unit, 'w) uprog" where
  "echo_main os argv = echo_args os (tl argv)"

fun atoi_from :: "cint \<Rightarrow> uchar list \<Rightarrow> cint" where
  "atoi_from n [] = n"
| "atoi_from n (c # s) = (if asc CHR ''0'' \<le> c \<and> c \<le> asc CHR ''9'' then atoi_from (n * 10 + ucast c - of_char CHR ''0'') s else n)"

fun kill_args :: "'w os \<Rightarrow> uchar list list \<Rightarrow> (unit, 'w) uprog" where
  "kill_args os [] w = exit_with 0 w"
| "kill_args os (a # as) w = ubind (sys os (RqKill (atoi_from 0 a)) w) (\<lambda>_. kill_args os as)"

definition kill_main :: "'w os \<Rightarrow> uchar list list \<Rightarrow> (unit, 'w) uprog" where
  "kill_main os argv w =
     (if length argv < 2 then ubind (ufprintf os 2 (''usage: kill pid...'' @ line_end) [] w) (\<lambda>_. exit_with 1)
      else kill_args os (tl argv) w)"

definition ln_main :: "'w os \<Rightarrow> uchar list list \<Rightarrow> (unit, 'w) uprog" where
  "ln_main os argv w =
     (if length argv \<noteq> 3 then ubind (ufprintf os 2 (''Usage: ln old new'' @ line_end) [] w) (\<lambda>_. exit_with 1)
      else ubind (sys os (RqLink (argv ! 1) (argv ! 2)) w) (\<lambda>r w.
           ubind (if r_val r <s 0 then ufprintf os 2 (''link %s %s: failed'' @ line_end) [str_arg (argv ! 1), str_arg (argv ! 2)] w
                  else ret () w) (\<lambda>_. exit_with 0)))"

text \<open>\<^verbatim>\<open>mkdir\<close> and \<^verbatim>\<open>rm\<close> stop at the first failure.\<close>

fun each_path :: "'w os \<Rightarrow> (uchar list \<Rightarrow> request) \<Rightarrow> string \<Rightarrow> uchar list list \<Rightarrow> (unit, 'w) uprog" where
  "each_path os rq msg [] w = exit_with 0 w"
| "each_path os rq msg (a # as) w =
     ubind (sys os (rq a) w) (\<lambda>r w.
     if r_val r <s 0 then ubind (ufprintf os 2 msg [str_arg a] w) (\<lambda>_. exit_with 0)
     else each_path os rq msg as w)"

definition mkdir_main :: "'w os \<Rightarrow> uchar list list \<Rightarrow> (unit, 'w) uprog" where
  "mkdir_main os argv w =
     (if length argv < 2 then ubind (ufprintf os 2 (''Usage: mkdir files...'' @ line_end) [] w) (\<lambda>_. exit_with 1)
      else each_path os RqMkdir (''mkdir: %s failed to create'' @ line_end) (tl argv) w)"

definition rm_main :: "'w os \<Rightarrow> uchar list list \<Rightarrow> (unit, 'w) uprog" where
  "rm_main os argv w =
     (if length argv < 2 then ubind (ufprintf os 2 (''Usage: rm files...'' @ line_end) [] w) (\<lambda>_. exit_with 1)
      else each_path os RqUnlink (''rm: %s failed to delete'' @ line_end) (tl argv) w)"

definition zombie_main :: "'w os \<Rightarrow> (unit, 'w) uprog" where
  "zombie_main os w =
     ubind (sys os RqFork w) (\<lambda>r w.
     ubind (if 0 <s r_val r then ubind (sys os (RqPause 5) w) (\<lambda>_. ret ()) else ret () w) (\<lambda>_. exit_with 0))"

section \<open>ls\<close>

text \<open>The name after the last slash, padded with blanks to \<^verbatim>\<open>DIRSIZ\<close> characters.\<close>

definition fmtname :: "uchar list \<Rightarrow> uchar list" where
  "fmtname path =
     (let p = rev (takeWhile (\<lambda>c. c \<noteq> asc CHR ''/'') (rev path)) in
      if DIRSIZ \<le> length p then p else p @ replicate (DIRSIZ - length p) (asc CHR '' ''))"

definition ls_line :: "'w os \<Rightarrow> uchar list \<Rightarrow> stat \<Rightarrow> (unit, 'w) uprog" where
  "ls_line os path st =
     uprintf os (''%s %d %d %d'' @ line_end) [str_arg (fmtname path), int_arg (scast (st_type st)), int_arg (st_ino st), int_arg (ucast (st_size st))]"

text \<open>The loop over a directory: \<open>buf\<close> is its path with a slash.\<close>

partial_function (option) ls_dir :: "'w os \<Rightarrow> cint \<Rightarrow> uchar list \<Rightarrow> 'w \<Rightarrow> (unit uout \<times> 'w) option" where
  "ls_dir os fd buf w =
     ubind (sys os (RqRead fd DIRENT_SIZE) w) (\<lambda>r w.
     if r_val r \<noteq> of_nat DIRENT_SIZE then ret () w
     else let de = get_dirent (r_bytes r) in
       if de_inum de = 0 then ls_dir os fd buf w
       else let path = buf @ takeWhile (\<lambda>c. c \<noteq> 0) (de_name de) in
         ubind (ustat os path w) (\<lambda>(v, st) w.
         if v <s 0 then ubind (uprintf os (''ls: cannot stat %s'' @ line_end) [str_arg path] w) (\<lambda>_. ls_dir os fd buf)
         else ubind (ls_line os path (the st) w) (\<lambda>_. ls_dir os fd buf)))"

definition ls :: "'w os \<Rightarrow> uchar list \<Rightarrow> (unit, 'w) uprog" where
  "ls os path w =
     ubind (sys os (RqOpen path O_RDONLY) w) (\<lambda>fd w.
     if r_val fd <s 0 then ufprintf os 2 (''ls: cannot open %s'' @ line_end) [str_arg path] w
     else ubind (sys os (RqFstat (r_val fd)) w) (\<lambda>r w.
       if r_val r <s 0
       then ubind (ufprintf os 2 (''ls: cannot stat %s'' @ line_end) [str_arg path] w) (\<lambda>_ w. ubind (sys os (RqClose (r_val fd)) w) (\<lambda>_. ret ()))
       else ubind (if st_type (r_stat r) = T_DEVICE \<or> st_type (r_stat r) = T_FILE then ls_line os path (r_stat r) w
                   else if st_type (r_stat r) = T_DIR
                   then if 512 < length path + 1 + DIRSIZ + 1 then uprintf os (''ls: path too long'' @ line_end) [] w
                        else ls_dir os (r_val fd) (path @ [asc CHR ''/'']) w
                   else ret () w) (\<lambda>_ w. ubind (sys os (RqClose (r_val fd)) w) (\<lambda>_. ret ()))))"

fun ls_args :: "'w os \<Rightarrow> uchar list list \<Rightarrow> (unit, 'w) uprog" where
  "ls_args os [] w = exit_with 0 w"
| "ls_args os (a # as) w = ubind (ls os a w) (\<lambda>_. ls_args os as)"

definition ls_main :: "'w os \<Rightarrow> uchar list list \<Rightarrow> (unit, 'w) uprog" where
  "ls_main os argv w =
     (if length argv < 2 then ubind (ls os [asc CHR ''.''] w) (\<lambda>_. exit_with 0) else ls_args os (tl argv) w)"

section \<open>forktest\<close>

definition print_out :: "'w os \<Rightarrow> string \<Rightarrow> (unit, 'w) uprog" where
  "print_out os s w = ubind (sys os (RqWrite 1 (map of_char s)) w) (\<lambda>_. ret ())"

text \<open>The forking loop: how many children it started, of at most \<open>k\<close> more.\<close>

fun fork_many :: "'w os \<Rightarrow> nat \<Rightarrow> nat \<Rightarrow> (nat, 'w) uprog" where
  "fork_many os 0 n w = ret n w"
| "fork_many os (Suc k) n w =
     ubind (sys os RqFork w) (\<lambda>pid.
     if r_val pid <s 0 then ret n else if r_val pid = 0 then exit_with 0 else fork_many os k (Suc n))"

fun wait_many :: "'w os \<Rightarrow> nat \<Rightarrow> (unit, 'w) uprog" where
  "wait_many os 0 w = ret () w"
| "wait_many os (Suc n) w =
     ubind (sys os RqWait w) (\<lambda>r w.
     if r_val r <s 0 then ubind (print_out os (''wait stopped early'' @ line_end) w) (\<lambda>_. exit_with 1)
     else wait_many os n w)"

definition forktest :: "'w os \<Rightarrow> (unit, 'w) uprog" where
  "forktest os w =
     ubind (print_out os (''fork test'' @ line_end) w) (\<lambda>_ w.
     ubind (fork_many os 1000 0 w) (\<lambda>n w.
     if n = 1000 then ubind (print_out os (''fork claimed to work N times!'' @ line_end) w) (\<lambda>_. exit_with 1)
     else ubind (wait_many os n w) (\<lambda>_ w.
          ubind (sys os RqWait w) (\<lambda>r w.
          if r_val r \<noteq> -1 then ubind (print_out os (''wait got too many'' @ line_end) w) (\<lambda>_. exit_with 1)
          else print_out os (''fork test OK'' @ line_end) w))))"

definition forktest_main :: "'w os \<Rightarrow> (unit, 'w) uprog" where
  "forktest_main os w = ubind (forktest os w) (\<lambda>_. exit_with 0)"

section \<open>init never ends\<close>

lemma uputs_ret: "\<exists>w'. uputs os fd bs w = Some (URet (), w')"
proof (induction bs arbitrary: w)
  case (Cons b bs)
  then show ?case by (cases "os (RqWrite fd [b]) w") (simp add: uputc_def)
qed (simp add: ret_def)

text \<open>As long as no call of \<^verbatim>\<open>fork\<close> or \<^verbatim>\<open>wait\<close> fails, in the parent.\<close>

definition init_served :: "'w os \<Rightarrow> bool" where
  "init_served os \<longleftrightarrow> (\<forall>w. 0 <s r_val (fst (os RqFork w)) \<and> \<not> r_val (fst (os RqWait w)) <s 0)"

lemma init_wait_served:
  assumes e: "init_wait os pid w = Some y"
  shows "init_served os \<longrightarrow> fst y = URet ()"
proof (rule init_wait.raw_induct [OF _ e, where P = "\<lambda>os pid w y. init_served os \<longrightarrow> fst y = URet ()"], rule impI)
  fix f and os :: "'a os" and pid w and y :: "unit uout \<times> 'a"
  assume 1: "\<And>os pid w y. f os pid w = Some y \<Longrightarrow> init_served os \<longrightarrow> fst y = URet ()"
    "ubind (sys os RqWait w) (\<lambda>wpid w.
     if r_val wpid = pid then ret () w
     else if r_val wpid <s 0 then ubind (uprintf os (''init: wait returned an error'' @ line_end) [] w) (\<lambda>_. exit_with 1)
     else f os pid w) = Some y"
  assume s: "init_served os"
  obtain r w' where o: "os RqWait w = (r, w')" by (cases "os RqWait w")
  with s have "\<not> r_val r <s 0" by (metis fst_conv init_served_def)
  with 1 o s show "fst y = URet ()" by (auto simp: ret_def split: if_splits)
qed

lemma init_loop_served:
  assumes e: "init_loop os w = Some y"
  shows "\<not> init_served os"
proof (rule init_loop.raw_induct [OF _ e, where P = "\<lambda>os w y. \<not> init_served os"])
  fix f and os :: "'a os" and w and y :: "unit uout \<times> 'a"
  assume 1: "\<And>os w y. f os w = Some y \<Longrightarrow> \<not> init_served os"
    "ubind (uprintf os (''init: starting sh'' @ line_end) [] w) (\<lambda>_ w.
     ubind (sys os RqFork w) (\<lambda>pid w.
     if r_val pid <s 0 then ubind (uprintf os (''init: fork failed'' @ line_end) [] w) (\<lambda>_. exit_with 1)
     else if r_val pid = 0 then
       ubind (sys_exec_call os (map of_char ''sh'') [map of_char ''sh''] w) (\<lambda>_ w.
       ubind (uprintf os (''init: exec sh failed'' @ line_end) [] w) (\<lambda>_. exit_with 1))
     else ubind (init_wait os (r_val pid) w) (\<lambda>_. f os))) = Some y"
  show "\<not> init_served os"
  proof
    assume s: "init_served os"
    obtain w1 where p: "uprintf os (''init: starting sh'' @ line_end) [] w = Some (URet (), w1)"
      using uputs_ret by (metis ufprintf_def uprintf_def)
    obtain r w2 where o: "os RqFork w1 = (r, w2)" by (cases "os RqFork w1")
    with s have "0 <s r_val r" by (metis fst_conv init_served_def)
    then have "\<not> r_val r <s 0" "r_val r \<noteq> 0" by auto
    with 1(2) p o have e: "ubind (init_wait os (r_val r) w2) (\<lambda>_. f os) = Some y" by simp
    then obtain z where z: "init_wait os (r_val r) w2 = Some z" by (cases "init_wait os (r_val r) w2") (auto simp: ubind_def)
    with init_wait_served [OF z] s e have "f os (snd z) = Some y" by (cases z) simp
    with 1(1) s show False by blast
  qed
qed


text \<open>A system whose children get the numbers 1 and 2 in turn, and exit in that order.\<close>

definition nursery :: "(nat \<times> nat) os" where
  "nursery q w = (case q of
       RqFork \<Rightarrow> (a_reply\<lparr>r_val := (if even (fst w) then 1 else 2)\<rparr>, (Suc (fst w), snd w))
     | RqWait \<Rightarrow> (a_reply\<lparr>r_val := (if even (snd w) then 1 else 2)\<rparr>, (fst w, Suc (snd w)))
     | _ \<Rightarrow> (a_reply, w))"


end
