(* ===== verification/Spec2Isabelle.thy ===== *)
theory Spec2Isabelle
  imports Trap FileInv Ulib Grep Wc ShPrint Utils
begin

text \<open>
  A verification of the customised xv6 kernel and of the user programs beside it.
\<close>

end
